(* ===== verification/Prelude.thy ===== *)
theory Prelude
  imports Main "HOL-Library.Word" "HOL-Library.AList" "HOL-Library.Monad_Syntax"
begin

text \<open>
  Shared vocabulary of the development.

  \<^item> Fixed-width Go integers are words (\<open>u8\<close>, \<open>u16\<close>, \<open>u32\<close>, \<open>u64\<close>); lengths and counters
    that the code keeps in an \<open>int\<close> are \<open>int\<close> or \<open>nat\<close>.
  \<^item> A run-time panic (nil dereference, index out of range, failed type assertion, explicit
    \<open>panic\<close>) is the value \<open>None\<close> of the type \<open>'a go\<close>; everything that returns is \<open>Some\<close>.
  \<^item> A Go \<open>(value, error)\<close> result is the sum type \<open>string + 'a\<close>, \<open>Inl\<close> being the error text.
  \<^item> A remote call has three outcomes for its caller and callee, the datatype \<open>delivery\<close>.
\<close>

section \<open>Types\<close>

type_synonym u8 = "8 word"
type_synonym u16 = "16 word"
type_synonym u32 = "32 word"
type_synonym u64 = "64 word"

type_synonym 'a go = "'a option"
type_synonym 'a result = "string + 'a"

text \<open>Instants and durations are counted in nanoseconds, as Go's \<open>time.Duration\<close> does.\<close>

type_synonym time = int

abbreviation seconds :: "int \<Rightarrow> time" where
  "seconds n \<equiv> n * 1000000000"

abbreviation milliseconds :: "int \<Rightarrow> time" where
  "milliseconds n \<equiv> n * 1000000"

declare Let_def [simp]

section \<open>Collections of facts\<close>

named_theorems rep_intros \<open>how an operation acts on a representation predicate\<close>
named_theorems inv_intros \<open>preservation of component invariants\<close>

section \<open>Remote procedure calls\<close>

text \<open>
  The \<open>call()\<close> of the packages dials, sends the request and waits for the reply, and returns a
  bool.  A call that returns \<open>false\<close> may or may not have been executed by the callee: the
  connection can fail before the request arrives (\<open>RequestLost\<close>) or after the handler has run
  (\<open>ReplyLost\<close>).  \<open>rpc d h s\<close> is the callee's state after a call of handler \<open>h\<close> with delivery
  \<open>d\<close>, and what the caller sees: \<open>Some reply\<close> when \<open>call()\<close> is true, \<open>None\<close> when it is false.
\<close>

datatype delivery = Delivered | RequestLost | ReplyLost

fun rpc :: "delivery \<Rightarrow> ('s \<Rightarrow> 's \<times> 'r) \<Rightarrow> 's \<Rightarrow> 's \<times> 'r option" where
  "rpc Delivered h s = (fst (h s), Some (snd (h s)))"
| "rpc RequestLost h s = (s, None)"
| "rpc ReplyLost h s = (fst (h s), None)"

lemma rpc_reply_Some [simp]: "snd (rpc d h s) = Some r \<longleftrightarrow> d = Delivered \<and> r = snd (h s)"
  by (cases d) auto

lemma rpc_state_cases: "fst (rpc d h s) = s \<or> fst (rpc d h s) = fst (h s)"
  by (cases d) auto

section \<open>Lists, maps and options\<close>

lemma option_go_cases:
  "(case x of None \<Rightarrow> None | Some y \<Rightarrow> f y) = Some z \<longleftrightarrow> (\<exists>y. x = Some y \<and> f y = Some z)"
  by (cases x) auto

lemma map_upd_eqD: "m(k \<mapsto> v) = m' \<Longrightarrow> m' k = Some v"
  by auto

lemma find_Some_set: "List.find P xs = Some x \<Longrightarrow> x \<in> set xs \<and> P x"
  by (induction xs) (auto split: if_splits)

lemma find_None_iff: "List.find P xs = None \<longleftrightarrow> (\<forall>x \<in> set xs. \<not> P x)"
  by (induction xs) auto

lemma prefix_take_append: "n \<le> length xs \<Longrightarrow> take n (xs @ ys) = take n xs"
  by simp

section \<open>Evaluation\<close>

text \<open>
  Congruence rules for evaluating straight-line code by \<open>simp\<close>: what is bound is evaluated first,
  then what follows, with the value in the place of the variable.  Without them the simplifier
  looks into what follows before the value is there.
\<close>

lemma let_eval: "s = s' \<Longrightarrow> f s' = y \<Longrightarrow> Let s f = y"
  by simp

lemma pair_eval: "p = (a, b) \<Longrightarrow> f a b = y \<Longrightarrow> (case p of (x, z) \<Rightarrow> f x z) = y"
  by simp

lemma bind_eval: "m = m' \<Longrightarrow> Option.bind m f = Option.bind m' f"
  by simp

lemmas eval_congs = let_eval pair_eval bind_eval if_weak_cong option.case_cong_weak list.case_cong_weak

end
