(* ===== verification/Bufi.thy ===== *)
theory Bufi
  imports Prelude
begin

text \<open>
  The linked-list buffers.  Two packages implement the same queue: \<open>15-440/P1-F11/bufi\<close> (its
  text is repeated in \<open>15-440/class07/bufi\<close>), which counts its elements, and
  \<open>15-440/class05/chanbuf/bufi\<close>, which does not.  A buffer owns its list cells, so its part of
  the Go heap is a field of its record: \<open>cells\<close> maps addresses to cells and \<open>fresh\<close> is the next
  address the allocator hands out.  A nil dereference is the panic \<open>None\<close>.

  The locale \<open>fifo_buffer\<close> states the contract both implementations keep, in terms of a
  representation predicate \<open>rep b xs\<close> (buffer \<open>b\<close> holds the values \<open>xs\<close>, oldest first).
\<close>

section \<open>Cells and chains\<close>

record 'a BufEle =
  ele_val :: 'a
  ele_next :: "nat option"

fun chain :: "(nat \<rightharpoonup> 'a BufEle) \<Rightarrow> nat option \<Rightarrow> nat list \<Rightarrow> 'a list \<Rightarrow> bool" where
  "chain h None [] [] = True"
| "chain h (Some p) (q # ps) (x # xs) =
     (p = q \<and> (\<exists>n. h p = Some \<lparr>ele_val = x, ele_next = n\<rparr> \<and> chain h n ps xs))"
| "chain h _ _ _ = False"

lemma chain_Nil [simp]: "chain h p [] xs \<longleftrightarrow> p = None \<and> xs = []"
  by (cases p; cases xs) auto

lemma chain_NilVal [simp]: "chain h p ps [] \<longleftrightarrow> p = None \<and> ps = []"
  by (cases p; cases ps) auto

lemma chain_None [simp]: "chain h None ps xs \<longleftrightarrow> ps = [] \<and> xs = []"
  by (cases ps; cases xs) auto

lemma chain_length: "chain h p ps xs \<Longrightarrow> length ps = length xs"
  by (induction h p ps xs rule: chain.induct) auto

lemma chain_frame:
  "chain h p ps xs \<Longrightarrow> (\<And>q. q \<in> set ps \<Longrightarrow> h' q = h q) \<Longrightarrow> chain h' p ps xs"
  by (induction h p ps xs rule: chain.induct) auto

text \<open>Linking a new last cell behind the old one, as \<open>bp.tail.Next = ele\<close> does.\<close>

lemma chain_snoc:
  assumes "chain h p ps xs" "ps \<noteq> []" "distinct ps" "q \<notin> set ps"
    and "h (last ps) = Some e"
  shows "chain (h(q \<mapsto> \<lparr>ele_val = v, ele_next = None\<rparr>, last ps \<mapsto> e\<lparr>ele_next := Some q\<rparr>))
           p (ps @ [q]) (xs @ [v])"
  using assms
proof (induction h p ps xs rule: chain.induct)
  case (2 h p r ps x xs)
  show ?case
  proof (cases "ps = []")
    case True
    with 2 show ?thesis by auto
  next
    case False
    with "2.prems" obtain n where n: "h p = Some \<lparr>ele_val = x, ele_next = n\<rparr>" "chain h n ps xs"
      by auto
    from False "2.prems" have "last ps \<noteq> p" "q \<noteq> p" by auto
    with False n "2.IH" [of n] "2.prems" show ?thesis by auto
  qed
qed auto

lemma chain_last_cell: "chain h p ps xs \<Longrightarrow> ps \<noteq> [] \<Longrightarrow> \<exists>e. h (last ps) = Some e"
  by (induction h p ps xs rule: chain.induct) auto

text \<open>
  The shape both buffers maintain: a duplicate-free chain of allocated cells from \<open>hd\<close> that
  carries the values \<open>xs\<close>, with \<open>tl\<close> at its last cell.
\<close>

definition linked ::
  "(nat \<rightharpoonup> 'a BufEle) \<Rightarrow> nat \<Rightarrow> nat option \<Rightarrow> nat option \<Rightarrow> 'a list \<Rightarrow> bool" where
  "linked h n hp tp xs \<longleftrightarrow>
     (\<exists>ps. chain h hp ps xs \<and> distinct ps \<and> (\<forall>p \<in> set ps. p < n) \<and>
           tp = (if ps = [] then None else Some (last ps)))"

lemma linked_Nil: "linked h n hp tp [] \<longleftrightarrow> hp = None \<and> tp = None"
  by (auto simp: linked_def)

lemma linked_head_None: "linked h n hp tp xs \<Longrightarrow> hp = None \<longleftrightarrow> xs = []"
  by (auto simp: linked_def)

lemma linked_single:
  "linked (h(n \<mapsto> \<lparr>ele_val = v, ele_next = None\<rparr>)) (Suc n) (Some n) (Some n) [v]"
  by (auto simp: linked_def intro!: exI [of _ "[n]"])

lemma linked_snoc:
  assumes "linked h n (Some p) tp xs"
  shows "\<exists>t e. tp = Some t \<and> h t = Some e \<and> t \<noteq> n \<and>
    linked (h(n \<mapsto> \<lparr>ele_val = v, ele_next = None\<rparr>, t \<mapsto> e\<lparr>ele_next := Some n\<rparr>)) (Suc n)
      (Some p) (Some n) (xs @ [v])"
proof -
  from assms obtain ps where ps: "chain h (Some p) ps xs" "distinct ps" "\<forall>q \<in> set ps. q < n"
      "tp = (if ps = [] then None else Some (last ps))"
    by (auto simp: linked_def)
  from ps(1) have ne: "ps \<noteq> []" by auto
  obtain e where e: "h (last ps) = Some e"
    using chain_last_cell [OF ps(1) ne] by blast
  from ps(3) have fresh: "n \<notin> set ps" by blast
  with ne have "last ps \<noteq> n" by (metis last_in_set)
  with e ps ne chain_snoc [OF ps(1) ne ps(2) fresh e, of v] fresh show ?thesis
    by (auto simp: linked_def less_Suc_eq intro!: exI [of _ "ps @ [n]"])
qed

lemma linked_Cons:
  assumes "linked h n hp tp (x # xs)"
  shows "\<exists>p q. hp = Some p \<and> h p = Some \<lparr>ele_val = x, ele_next = q\<rparr> \<and>
    linked h n q (if Some p = tp then None else tp) xs"
proof -
  from assms obtain ps where ps: "chain h hp ps (x # xs)" "distinct ps" "\<forall>q \<in> set ps. q < n"
      "tp = (if ps = [] then None else Some (last ps))"
    by (auto simp: linked_def)
  from ps(1) obtain p qs q where q: "hp = Some p" "ps = p # qs"
      "h p = Some \<lparr>ele_val = x, ele_next = q\<rparr>" "chain h q qs xs"
    by (cases hp; cases ps) auto
  with ps show ?thesis by (auto simp: linked_def intro!: exI [of _ qs])
qed

section \<open>Operations as data\<close>

text \<open>
  A client's sequence of calls and what it observes.  \<open>fifo_exec\<close> runs the calls on a concrete
  buffer given by its operations, \<open>queue_exec\<close> on the abstract queue, a list.
\<close>

datatype 'a fifo_op = OpInsert 'a | OpFront | OpRemove | OpEmpty | OpFlush

datatype 'a fifo_obs = Done | Value 'a | NoValue | IsEmpty bool

fun obs_of :: "'a result \<Rightarrow> 'a fifo_obs" where
  "obs_of (Inl e) = NoValue"
| "obs_of (Inr v) = Value v"

fun fifo_exec ::
  "('a \<Rightarrow> 'b \<Rightarrow> 'b go) \<Rightarrow> ('b \<Rightarrow> 'a result go) \<Rightarrow> ('b \<Rightarrow> ('b \<times> 'a result) go) \<Rightarrow> ('b \<Rightarrow> bool) \<Rightarrow>
   ('b \<Rightarrow> 'b) \<Rightarrow> 'a fifo_op list \<Rightarrow> 'b \<Rightarrow> ('b \<times> 'a fifo_obs list) go" where
  "fifo_exec ins front remove isempty flush [] b = Some (b, [])"
| "fifo_exec ins front remove isempty flush (p # ps) b = do {
     (b1, ob) \<leftarrow> (case p of
        OpInsert v \<Rightarrow> map_option (\<lambda>b'. (b', Done)) (ins v b)
      | OpFront \<Rightarrow> map_option (\<lambda>r. (b, obs_of r)) (front b)
      | OpRemove \<Rightarrow> map_option (\<lambda>(b', r). (b', obs_of r)) (remove b)
      | OpEmpty \<Rightarrow> Some (b, IsEmpty (isempty b))
      | OpFlush \<Rightarrow> Some (flush b, Done));
     (b2, obs) \<leftarrow> fifo_exec ins front remove isempty flush ps b1;
     Some (b2, ob # obs) }"

fun queue_step :: "'a fifo_op \<Rightarrow> 'a list \<Rightarrow> 'a list \<times> 'a fifo_obs" where
  "queue_step (OpInsert v) xs = (xs @ [v], Done)"
| "queue_step OpFront xs = (xs, case xs of [] \<Rightarrow> NoValue | x # _ \<Rightarrow> Value x)"
| "queue_step OpRemove xs = (case xs of [] \<Rightarrow> ([], NoValue) | x # ys \<Rightarrow> (ys, Value x))"
| "queue_step OpEmpty xs = (xs, IsEmpty (xs = []))"
| "queue_step OpFlush xs = ([], Done)"

fun queue_exec :: "'a fifo_op list \<Rightarrow> 'a list \<Rightarrow> 'a list \<times> 'a fifo_obs list" where
  "queue_exec [] xs = (xs, [])"
| "queue_exec (p # ps) xs =
     (let (xs1, ob) = queue_step p xs; (xs2, obs) = queue_exec ps xs1 in (xs2, ob # obs))"

lemma queue_exec_snoc:
  "queue_exec (ps @ [p]) xs =
     (fst (queue_step p (fst (queue_exec ps xs))),
      snd (queue_exec ps xs) @ [snd (queue_step p (fst (queue_exec ps xs)))])"
  by (induction ps arbitrary: xs) (auto split: prod.splits)

section \<open>The contract\<close>

locale fifo_buffer =
  fixes new :: 'b
    and ins :: "'a \<Rightarrow> 'b \<Rightarrow> 'b go"
    and front :: "'b \<Rightarrow> 'a result go"
    and remove :: "'b \<Rightarrow> ('b \<times> 'a result) go"
    and isempty :: "'b \<Rightarrow> bool"
    and flush :: "'b \<Rightarrow> 'b"
    and rep :: "'b \<Rightarrow> 'a list \<Rightarrow> bool"
  assumes rep_new: "rep new []"
    and rep_ins: "rep b xs \<Longrightarrow> \<exists>b'. ins v b = Some b' \<and> rep b' (xs @ [v])"
    and rep_front: "rep b (x # xs) \<Longrightarrow> front b = Some (Inr x)"
    and rep_front_Nil: "rep b [] \<Longrightarrow> \<exists>e. front b = Some (Inl e)"
    and rep_remove: "rep b (x # xs) \<Longrightarrow> \<exists>b'. remove b = Some (b', Inr x) \<and> rep b' xs"
    and rep_remove_Nil: "rep b [] \<Longrightarrow> \<exists>e. remove b = Some (b, Inl e)"
    and rep_isempty: "rep b xs \<Longrightarrow> isempty b \<longleftrightarrow> xs = []"
    and rep_flush: "rep b xs \<Longrightarrow> rep (flush b) []"
begin

lemma rep_unique_front: "rep b (x # xs) \<Longrightarrow> rep b (y # ys) \<Longrightarrow> x = y"
  using rep_front [of b x xs] rep_front [of b y ys] by simp

text \<open>The contents of a represented buffer are determined by its observations.\<close>

lemma rep_unique: "rep b xs \<Longrightarrow> rep b ys \<Longrightarrow> xs = ys"
proof (induction xs arbitrary: b ys)
  case Nil
  then show ?case using rep_isempty by blast
next
  case (Cons x xs)
  from Cons.prems have "ys \<noteq> []" using rep_isempty by blast
  then obtain z zs where ys: "ys = z # zs" by (cases ys) auto
  from Cons.prems(1) obtain b' where b': "remove b = Some (b', Inr x)" "rep b' xs"
    using rep_remove by blast
  from Cons.prems(2) ys b'(1) have "z = x" "rep b' zs"
    using rep_remove [of b z zs] by auto
  with Cons.IH b'(2) ys show ?case by blast
qed

text \<open>No operation of a represented buffer panics.\<close>

lemma no_panic:
  assumes "rep b xs"
  shows "ins v b \<noteq> None" and "front b \<noteq> None" and "remove b \<noteq> None"
proof -
  show "ins v b \<noteq> None" using rep_ins [OF assms] by auto
  show "front b \<noteq> None" using assms rep_front rep_front_Nil by (cases xs) fastforce+
  show "remove b \<noteq> None" using assms rep_remove rep_remove_Nil by (cases xs) fastforce+
qed

text \<open>Every sequence of calls observes exactly what it would observe on the abstract queue.\<close>

lemma exec_refines_queue:
  "rep b xs \<Longrightarrow>
   \<exists>b'. fifo_exec ins front remove isempty flush ops b = Some (b', snd (queue_exec ops xs)) \<and>
        rep b' (fst (queue_exec ops xs))"
proof (induction ops arbitrary: b xs)
  case Nil
  then show ?case by simp
next
  case (Cons p ps)
  have step: "\<exists>b1. (case p of
        OpInsert v \<Rightarrow> map_option (\<lambda>b'. (b', Done)) (ins v b)
      | OpFront \<Rightarrow> map_option (\<lambda>r. (b, obs_of r)) (front b)
      | OpRemove \<Rightarrow> map_option (\<lambda>(b', r). (b', obs_of r)) (remove b)
      | OpEmpty \<Rightarrow> Some (b, IsEmpty (isempty b))
      | OpFlush \<Rightarrow> Some (flush b, Done)) = Some (b1, snd (queue_step p xs)) \<and>
      rep b1 (fst (queue_step p xs))"
    using Cons.prems rep_ins rep_front rep_front_Nil rep_remove rep_remove_Nil rep_isempty rep_flush
    by (cases p; cases xs) fastforce+
  then obtain b1 where b1: "rep b1 (fst (queue_step p xs))" and eq: "(case p of
        OpInsert v \<Rightarrow> map_option (\<lambda>b'. (b', Done)) (ins v b)
      | OpFront \<Rightarrow> map_option (\<lambda>r. (b, obs_of r)) (front b)
      | OpRemove \<Rightarrow> map_option (\<lambda>(b', r). (b', obs_of r)) (remove b)
      | OpEmpty \<Rightarrow> Some (b, IsEmpty (isempty b))
      | OpFlush \<Rightarrow> Some (flush b, Done)) = Some (b1, snd (queue_step p xs))"
    by blast
  from Cons.IH [OF b1] show ?case by (auto simp: eq split: prod.splits)
qed

end

section \<open>The counting buffer (P1-F11/bufi, class07/bufi)\<close>

record 'a Buf =
  buf_cells :: "nat \<rightharpoonup> 'a BufEle"
  buf_fresh :: nat
  buf_head :: "nat option"
  buf_tail :: "nat option"
  buf_cnt :: int

definition NewBuf :: "'a Buf" where
  "NewBuf = \<lparr>buf_cells = Map.empty, buf_fresh = 0, buf_head = None, buf_tail = None, buf_cnt = 0\<rparr>"

definition buf_Insert :: "'a \<Rightarrow> 'a Buf \<Rightarrow> 'a Buf go" where
  "buf_Insert val bp =
     (let p = buf_fresh bp;
          bp1 = bp\<lparr>buf_cells := (buf_cells bp)(p \<mapsto> \<lparr>ele_val = val, ele_next = None\<rparr>),
                   buf_fresh := Suc p\<rparr>
      in case buf_head bp of
           None \<Rightarrow>
             Some (bp1\<lparr>buf_head := Some p, buf_tail := Some p, buf_cnt := buf_cnt bp + 1\<rparr>)
         | Some _ \<Rightarrow> do {
             t \<leftarrow> buf_tail bp;
             e \<leftarrow> buf_cells bp1 t;
             Some (bp1\<lparr>buf_cells := (buf_cells bp1)(t \<mapsto> e\<lparr>ele_next := Some p\<rparr>),
                       buf_tail := Some p, buf_cnt := buf_cnt bp + 1\<rparr>) })"

definition buf_Front :: "'a Buf \<Rightarrow> 'a result go" where
  "buf_Front bp =
     (case buf_head bp of
        None \<Rightarrow> Some (Inl ''Empty Buffer'')
      | Some p \<Rightarrow> map_option (\<lambda>e. Inr (ele_val e)) (buf_cells bp p))"

definition buf_Remove :: "'a Buf \<Rightarrow> ('a Buf \<times> 'a result) go" where
  "buf_Remove bp =
     (case buf_head bp of
        None \<Rightarrow> Some (bp, Inl ''Empty Buffer'')
      | Some p \<Rightarrow> do {
          e \<leftarrow> buf_cells bp p;
          let bp1 = bp\<lparr>buf_head := ele_next e\<rparr>;
          let bp2 = (if Some p = buf_tail bp then bp1\<lparr>buf_tail := None\<rparr> else bp1);
          Some (bp2\<lparr>buf_cnt := buf_cnt bp - 1\<rparr>, Inr (ele_val e)) })"

definition buf_Empty :: "'a Buf \<Rightarrow> bool" where
  "buf_Empty bp = (buf_head bp = None)"

definition buf_Flush :: "'a Buf \<Rightarrow> 'a Buf" where
  "buf_Flush bp = bp\<lparr>buf_head := None, buf_tail := None, buf_cnt := 0\<rparr>"

text \<open>\<open>Contents\<close> walks \<open>cnt\<close> cells; \<open>make\<close> panics on a negative length, \<open>e.Val\<close> on a nil \<open>e\<close>.\<close>

fun buf_walk :: "(nat \<rightharpoonup> 'a BufEle) \<Rightarrow> nat \<Rightarrow> nat option \<Rightarrow> 'a list go" where
  "buf_walk h 0 e = Some []"
| "buf_walk h (Suc n) None = None"
| "buf_walk h (Suc n) (Some p) = do {
     e \<leftarrow> h p;
     xs \<leftarrow> buf_walk h n (ele_next e);
     Some (ele_val e # xs) }"

definition buf_Contents :: "'a Buf \<Rightarrow> 'a list go" where
  "buf_Contents bp =
     (if buf_cnt bp < 0 then None
      else buf_walk (buf_cells bp) (nat (buf_cnt bp)) (buf_head bp))"

definition buf_rep :: "'a Buf \<Rightarrow> 'a list \<Rightarrow> bool" where
  "buf_rep b xs \<longleftrightarrow>
     linked (buf_cells b) (buf_fresh b) (buf_head b) (buf_tail b) xs \<and>
     buf_cnt b = int (length xs)"

lemma buf_rep_Insert: "buf_rep b xs \<Longrightarrow> \<exists>b'. buf_Insert v b = Some b' \<and> buf_rep b' (xs @ [v])"
  using linked_single [of "buf_cells b"] linked_snoc [of "buf_cells b" "buf_fresh b" _ _ xs v]
  by (cases "buf_head b") (fastforce simp: buf_rep_def buf_Insert_def dest: linked_head_None)+

lemma buf_rep_Front: "buf_rep b (x # xs) \<Longrightarrow> buf_Front b = Some (Inr x)"
  by (auto simp: buf_rep_def buf_Front_def dest!: linked_Cons)

lemma buf_rep_Remove: "buf_rep b (x # xs) \<Longrightarrow> \<exists>b'. buf_Remove b = Some (b', Inr x) \<and> buf_rep b' xs"
  by (auto simp: buf_rep_def buf_Remove_def dest!: linked_Cons)

interpretation bufi: fifo_buffer NewBuf buf_Insert buf_Front buf_Remove buf_Empty buf_Flush buf_rep
proof unfold_locales
  show "buf_rep NewBuf []" by (simp add: buf_rep_def linked_Nil NewBuf_def)
  show "\<exists>b'. buf_Insert v b = Some b' \<and> buf_rep b' (xs @ [v])" if "buf_rep b xs" for b xs v
    using that by (rule buf_rep_Insert)
  show "buf_Front b = Some (Inr x)" if "buf_rep b (x # xs)" for b x xs
    using that by (rule buf_rep_Front)
  show "\<exists>e. buf_Front b = Some (Inl e)" if "buf_rep b []" for b
    using that by (simp add: buf_rep_def linked_Nil buf_Front_def)
  show "\<exists>b'. buf_Remove b = Some (b', Inr x) \<and> buf_rep b' xs" if "buf_rep b (x # xs)" for b x xs
    using that by (rule buf_rep_Remove)
  show "\<exists>e. buf_Remove b = Some (b, Inl e)" if "buf_rep b []" for b
    using that by (simp add: buf_rep_def linked_Nil buf_Remove_def)
  show "buf_Empty b \<longleftrightarrow> xs = []" if "buf_rep b xs" for b xs
    using that by (auto simp: buf_rep_def buf_Empty_def dest: linked_head_None)
  show "buf_rep (buf_Flush b) []" if "buf_rep b xs" for b xs
    by (simp add: buf_rep_def linked_Nil buf_Flush_def)
qed

lemma buf_walk_chain: "chain h p ps xs \<Longrightarrow> buf_walk h (length xs) p = Some xs"
  by (induction h p ps xs rule: chain.induct) auto

lemma buf_rep_Contents: "buf_rep b xs \<Longrightarrow> buf_Contents b = Some xs"
  by (auto simp: buf_rep_def linked_def buf_Contents_def dest: buf_walk_chain)

section \<open>The buffer without a counter (class05/chanbuf/bufi)\<close>

record 'a CBuf =
  cbuf_cells :: "nat \<rightharpoonup> 'a BufEle"
  cbuf_fresh :: nat
  cbuf_head :: "nat option"
  cbuf_tail :: "nat option"

definition cbuf_New :: "'a CBuf" where
  "cbuf_New = \<lparr>cbuf_cells = Map.empty, cbuf_fresh = 0, cbuf_head = None, cbuf_tail = None\<rparr>"

definition cbuf_Insert :: "'a \<Rightarrow> 'a CBuf \<Rightarrow> 'a CBuf go" where
  "cbuf_Insert val bp = do {
     let p = cbuf_fresh bp;
     let bp1 = bp\<lparr>cbuf_cells := (cbuf_cells bp)(p \<mapsto> \<lparr>ele_val = val, ele_next = None\<rparr>),
                  cbuf_fresh := Suc p\<rparr>;
     bp2 \<leftarrow> (case cbuf_head bp of
        None \<Rightarrow> Some (bp1\<lparr>cbuf_head := Some p\<rparr>)
      | Some _ \<Rightarrow> do {
          t \<leftarrow> cbuf_tail bp1;
          e \<leftarrow> cbuf_cells bp1 t;
          Some (bp1\<lparr>cbuf_cells := (cbuf_cells bp1)(t \<mapsto> e\<lparr>ele_next := Some p\<rparr>)\<rparr>) });
     Some (bp2\<lparr>cbuf_tail := Some p\<rparr>) }"

definition cbuf_Front :: "'a CBuf \<Rightarrow> 'a result go" where
  "cbuf_Front bp =
     (case cbuf_head bp of
        None \<Rightarrow> Some (Inl ''Empty buffer'')
      | Some p \<Rightarrow> map_option (\<lambda>e. Inr (ele_val e)) (cbuf_cells bp p))"

definition cbuf_Remove :: "'a CBuf \<Rightarrow> ('a CBuf \<times> 'a result) go" where
  "cbuf_Remove bp =
     (case cbuf_head bp of
        None \<Rightarrow> Some (bp, Inl ''Empty buffer'')
      | Some p \<Rightarrow> do {
          e \<leftarrow> cbuf_cells bp p;
          let bp1 = bp\<lparr>cbuf_head := ele_next e\<rparr>;
          Some (if Some p = cbuf_tail bp1 then bp1\<lparr>cbuf_tail := None\<rparr> else bp1, Inr (ele_val e)) })"

definition cbuf_Empty :: "'a CBuf \<Rightarrow> bool" where
  "cbuf_Empty bp = (cbuf_head bp = None)"

definition cbuf_Flush :: "'a CBuf \<Rightarrow> 'a CBuf" where
  "cbuf_Flush bp = bp\<lparr>cbuf_head := None, cbuf_tail := None\<rparr>"

definition cbuf_rep :: "'a CBuf \<Rightarrow> 'a list \<Rightarrow> bool" where
  "cbuf_rep b xs \<longleftrightarrow> linked (cbuf_cells b) (cbuf_fresh b) (cbuf_head b) (cbuf_tail b) xs"

lemma cbuf_rep_Insert: "cbuf_rep b xs \<Longrightarrow> \<exists>b'. cbuf_Insert v b = Some b' \<and> cbuf_rep b' (xs @ [v])"
  using linked_single [of "cbuf_cells b"] linked_snoc [of "cbuf_cells b" "cbuf_fresh b" _ _ xs v]
  by (cases "cbuf_head b") (fastforce simp: cbuf_rep_def cbuf_Insert_def dest: linked_head_None)+

lemma cbuf_rep_Front: "cbuf_rep b (x # xs) \<Longrightarrow> cbuf_Front b = Some (Inr x)"
  by (auto simp: cbuf_rep_def cbuf_Front_def dest!: linked_Cons)

lemma cbuf_rep_Remove:
  "cbuf_rep b (x # xs) \<Longrightarrow> \<exists>b'. cbuf_Remove b = Some (b', Inr x) \<and> cbuf_rep b' xs"
  by (auto simp: cbuf_rep_def cbuf_Remove_def dest!: linked_Cons)

interpretation cbuf: fifo_buffer cbuf_New cbuf_Insert cbuf_Front cbuf_Remove cbuf_Empty cbuf_Flush
  cbuf_rep
proof unfold_locales
  show "cbuf_rep cbuf_New []" by (simp add: cbuf_rep_def linked_Nil cbuf_New_def)
  show "\<exists>b'. cbuf_Insert v b = Some b' \<and> cbuf_rep b' (xs @ [v])" if "cbuf_rep b xs" for b xs v
    using that by (rule cbuf_rep_Insert)
  show "cbuf_Front b = Some (Inr x)" if "cbuf_rep b (x # xs)" for b x xs
    using that by (rule cbuf_rep_Front)
  show "\<exists>e. cbuf_Front b = Some (Inl e)" if "cbuf_rep b []" for b
    using that by (simp add: cbuf_rep_def linked_Nil cbuf_Front_def)
  show "\<exists>b'. cbuf_Remove b = Some (b', Inr x) \<and> cbuf_rep b' xs" if "cbuf_rep b (x # xs)" for b x xs
    using that by (rule cbuf_rep_Remove)
  show "\<exists>e. cbuf_Remove b = Some (b, Inl e)" if "cbuf_rep b []" for b
    using that by (simp add: cbuf_rep_def linked_Nil cbuf_Remove_def)
  show "cbuf_Empty b \<longleftrightarrow> xs = []" if "cbuf_rep b xs" for b xs
    using that by (auto simp: cbuf_rep_def cbuf_Empty_def dest: linked_head_None)
  show "cbuf_rep (cbuf_Flush b) []" if "cbuf_rep b xs" for b xs
    by (simp add: cbuf_rep_def linked_Nil cbuf_Flush_def)
qed

section \<open>Properties\<close>

text \<open>
  C15: Starting from \<open>NewBuf\<close>, every sequence of \<open>Insert\<close>, \<open>Front\<close>, \<open>Remove\<close>, \<open>Empty\<close> and
  \<open>Flush\<close> runs without a nil dereference, observes exactly what it would observe on a FIFO
  queue (errors on the empty buffer included), and leaves a buffer whose \<open>Contents\<close> is that
  queue.
\<close>

theorem bufi_refines_queue:
  "\<exists>b. fifo_exec buf_Insert buf_Front buf_Remove buf_Empty buf_Flush ops NewBuf =
         Some (b, snd (queue_exec ops [])) \<and>
       buf_Contents b = Some (fst (queue_exec ops []))"
  using bufi.exec_refines_queue [OF bufi.rep_new, of ops] buf_rep_Contents by blast

text \<open>
  The same refinement for the buffer without a counter: any sequence of operations on
  \<open>chanbuf/bufi\<close> is panic-free and observes what the FIFO queue does; the buffer is empty at the
  end exactly when the queue is.
\<close>

lemma cbuf_refines_queue:
  "\<exists>b. fifo_exec cbuf_Insert cbuf_Front cbuf_Remove cbuf_Empty cbuf_Flush ops cbuf_New =
         Some (b, snd (queue_exec ops [])) \<and>
       (cbuf_Empty b \<longleftrightarrow> fst (queue_exec ops []) = [])"
  using cbuf.exec_refines_queue [OF cbuf.rep_new, of ops] cbuf.rep_isempty by blast

end
