(* ===== verification/BufServers.thy ===== *)
theory BufServers
  imports Bufi "HOL-Library.Multiset"
begin

text \<open>
  The buffer servers: \<open>class07/dserver\<close> and \<open>class05/srvbuf/sserver\<close> run one goroutine that owns a
  buffer and answers requests from a channel, deferring the reads that find it empty in a second
  buffer.

  A server's state holds its two buffers, the requests waiting on the unbuffered request channel
  in arrival order and the log of the answered requests with their replies.  One iteration of the
  loop of \<open>runServer\<close> is a function into \<open>outcome\<close>: it steps, panics, or blocks on the channel.
\<close>

section \<open>Requests and replies\<close>

text \<open>Values are Go's \<open>interface{}\<close>: \<open>None\<close> is nil.\<close>

datatype bufop =
  doinsert | doremove | doflush | doempty | dofront | docontents | dolist | dostring

definition deferOnEmpty :: "bufop \<Rightarrow> bool" where
  "deferOnEmpty op = (op = doremove \<or> op = dofront)"

record 'v request =
  rq_op :: bufop
  rq_val :: "'v option"
  rq_replyc :: nat

datatype ('v, 'b) reply =
  Any "'v option" | Truth bool | Slice "'v option list" | Text string | Pointer 'b

fun val_of :: "'v option result \<Rightarrow> ('v, 'b) reply" where
  "val_of (Inl e) = Any None"
| "val_of (Inr v) = Any v"

datatype 's outcome = Blocked | Panicked | Step 's

fun go_step :: "'s go \<Rightarrow> 's outcome" where
  "go_step None = Panicked"
| "go_step (Some s) = Step s"

lemma go_step_eq [simp]: "go_step x = Step s \<longleftrightarrow> x = Some s"
  by (cases x) auto

text \<open>Iterating a loop body until it blocks, panics or the given number of rounds is over.\<close>

fun iterate :: "('s \<Rightarrow> 's outcome) \<Rightarrow> nat \<Rightarrow> 's \<Rightarrow> 's go" where
  "iterate f 0 s = Some s"
| "iterate f (Suc n) s =
     (case f s of Blocked \<Rightarrow> Some s | Panicked \<Rightarrow> None | Step s' \<Rightarrow> iterate f n s')"

section \<open>The abstract server\<close>

text \<open>The same loop over two lists: what the concrete servers are shown to refine.\<close>

record ('v, 'b) aserver =
  as_xs :: "'v option list"
  as_ds :: "'v request list"
  as_requestc :: "'v request list"
  as_replies :: "('v request \<times> ('v, 'b) reply) list"

text \<open>\<open>Text\<close> and \<open>Pointer\<close> replies depend on the concrete buffer; the abstract log drops them.\<close>

fun a_reply :: "bufop \<Rightarrow> 'v option list \<Rightarrow> ('v, 'b) reply option" where
  "a_reply doinsert xs = Some (Any None)"
| "a_reply doremove xs = Some (Any (case xs of [] \<Rightarrow> None | x # _ \<Rightarrow> x))"
| "a_reply doflush xs = Some (Any None)"
| "a_reply doempty xs = Some (Truth (xs = []))"
| "a_reply dofront xs = Some (Any (case xs of [] \<Rightarrow> None | x # _ \<Rightarrow> x))"
| "a_reply docontents xs = Some (Slice xs)"
| "a_reply dolist xs = None"
| "a_reply dostring xs = None"

fun a_contents :: "'v request \<Rightarrow> 'v option list \<Rightarrow> 'v option list" where
  "a_contents r xs =
     (case rq_op r of
        doinsert \<Rightarrow> xs @ [rq_val r]
      | doremove \<Rightarrow> tl xs
      | doflush \<Rightarrow> []
      | _ \<Rightarrow> xs)"

definition a_handle :: "'v request \<Rightarrow> ('v, 'b) aserver \<Rightarrow> ('v, 'b) aserver" where
  "a_handle r a = a\<lparr>as_xs := a_contents r (as_xs a),
     as_replies := as_replies a @
       (case a_reply (rq_op r) (as_xs a) of None \<Rightarrow> [] | Some p \<Rightarrow> [(r, p)])\<rparr>"

definition a_iter :: "('v, 'b) aserver \<Rightarrow> ('v, 'b) aserver outcome" where
  "a_iter a =
     (if as_xs a \<noteq> [] \<and> as_ds a \<noteq> [] then Step (a_handle (hd (as_ds a)) (a\<lparr>as_ds := tl (as_ds a)\<rparr>))
      else case as_requestc a of
          [] \<Rightarrow> Blocked
        | r # rs \<Rightarrow>
            (let a1 = a\<lparr>as_requestc := rs\<rparr> in
             if as_xs a = [] \<and> deferOnEmpty (rq_op r) then Step (a1\<lparr>as_ds := as_ds a @ [r]\<rparr>)
             else Step (a_handle r a1)))"

definition a_init :: "'v request list \<Rightarrow> ('v, 'b) aserver" where
  "a_init rs = \<lparr>as_xs = [], as_ds = [], as_requestc = rs, as_replies = []\<rparr>"

text \<open>Every iteration consumes a request from the channel or from the deferred ones.\<close>

definition a_measure :: "('v, 'b) aserver \<Rightarrow> nat" where
  "a_measure a = 2 * length (as_requestc a) + length (as_ds a)"

lemma a_iter_decreases: "a_iter a = Step a' \<Longrightarrow> a_measure a' < a_measure a"
  by (auto simp: a_iter_def a_handle_def a_measure_def neq_Nil_conv split: if_splits list.splits)

lemma a_iter_no_panic: "a_iter a \<noteq> Panicked"
  by (auto simp: a_iter_def split: list.splits)

lemma a_iterate_blocks:
  "a_measure a \<le> n \<Longrightarrow> \<exists>a'. iterate a_iter n a = Some a' \<and> a_iter a' = Blocked"
proof (induction n arbitrary: a)
  case 0
  then show ?case
    by (auto simp: a_iter_def a_measure_def split: list.splits)
next
  case (Suc n)
  show ?case
  proof (cases "a_iter a")
    case (Step a1)
    with Suc a_iter_decreases [OF Step] show ?thesis by fastforce
  qed (use a_iter_no_panic in auto)
qed

lemma a_blocked: "a_iter a = Blocked \<longleftrightarrow> as_requestc a = [] \<and> (as_xs a = [] \<or> as_ds a = [])"
  by (auto simp: a_iter_def split: list.splits)

lemma a_iter_StepE:
  assumes "a_iter a = Step a'"
  obtains (deferred) d ds where "as_xs a \<noteq> []" "as_ds a = d # ds"
      "a' = a_handle d (a\<lparr>as_ds := ds\<rparr>)"
  | (later) r rs where "as_requestc a = r # rs" "as_xs a = []" "deferOnEmpty (rq_op r)"
      "a' = a\<lparr>as_requestc := rs, as_ds := as_ds a @ [r]\<rparr>"
  | (now) r rs where "as_requestc a = r # rs" "as_xs a = [] \<or> as_ds a = []"
      "as_xs a \<noteq> [] \<or> \<not> deferOnEmpty (rq_op r)" "a' = a_handle r (a\<lparr>as_requestc := rs\<rparr>)"
  using assms
  by (cases "as_xs a"; cases "as_ds a"; cases "as_requestc a")
    (auto simp: a_iter_def split: if_splits)

text \<open>
  First in, first out: while no flush is requested, the values inserted so far are the values
  the removals returned followed by the values still held, and no removal was answered while
  there was nothing to remove.  Only reads are ever deferred.
\<close>

definition inserted :: "('v request \<times> ('v, 'b) reply) list \<Rightarrow> 'v option list" where
  "inserted log = map (rq_val \<circ> fst) (filter (\<lambda>(r, _). rq_op r = doinsert) log)"

fun reply_val :: "('v, 'b) reply \<Rightarrow> 'v option" where
  "reply_val (Any v) = v"
| "reply_val _ = None"

definition removed :: "('v request \<times> ('v, 'b) reply) list \<Rightarrow> 'v option list" where
  "removed log = map (reply_val \<circ> snd) (filter (\<lambda>(r, _). rq_op r = doremove) log)"

lemma inserted_simps [simp]:
  "inserted [] = []" "inserted (l1 @ l2) = inserted l1 @ inserted l2"
  "inserted [(r, p)] = (if rq_op r = doinsert then [rq_val r] else [])"
  by (simp_all add: inserted_def)

lemma removed_simps [simp]:
  "removed [] = []" "removed (l1 @ l2) = removed l1 @ removed l2"
  "removed [(r, p)] = (if rq_op r = doremove then [reply_val p] else [])"
  by (simp_all add: removed_def)

definition a_inv :: "('v, 'b) aserver \<Rightarrow> bool" where
  "a_inv a \<longleftrightarrow>
     inserted (as_replies a) = removed (as_replies a) @ as_xs a \<and>
     (\<forall>r \<in> set (as_ds a). deferOnEmpty (rq_op r)) \<and>
     (\<forall>r \<in> set (as_requestc a). rq_op r \<noteq> doflush)"

lemma a_inv_init: "(\<forall>r \<in> set rs. rq_op r \<noteq> doflush) \<Longrightarrow> a_inv (a_init rs)"
  by (simp add: a_inv_def a_init_def)

lemma a_inv_handle:
  assumes "a_inv a" "rq_op r \<noteq> doflush" "deferOnEmpty (rq_op r) \<Longrightarrow> as_xs a \<noteq> []"
  shows "a_inv (a_handle r a)"
  using assms
  by (cases "rq_op r"; cases "as_xs a") (auto simp: a_inv_def a_handle_def deferOnEmpty_def)

lemma a_inv_iter:
  assumes inv: "a_inv a" and step: "a_iter a = Step a'"
  shows "a_inv a'"
  using step
proof (cases rule: a_iter_StepE)
  case (deferred d ds)
  from inv deferred have "a_inv (a\<lparr>as_ds := ds\<rparr>)" "rq_op d \<noteq> doflush"
    by (auto simp: a_inv_def deferOnEmpty_def)
  then show ?thesis unfolding deferred(3) by (rule a_inv_handle) (use deferred in simp)
next
  case (later r rs)
  with inv show ?thesis by (auto simp: a_inv_def)
next
  case (now r rs)
  from inv now have "a_inv (a\<lparr>as_requestc := rs\<rparr>)" "rq_op r \<noteq> doflush"
    by (auto simp: a_inv_def)
  then show ?thesis unfolding now(4) by (rule a_inv_handle) (use now in auto)
qed

lemma a_inv_iterate: "a_inv a \<Longrightarrow> iterate a_iter n a = Some a' \<Longrightarrow> a_inv a'"
  by (induction n arbitrary: a) (auto split: outcome.splits dest: a_inv_iter)

section \<open>Servers that refine it\<close>

locale server_loop =
  fixes iter :: "'s \<Rightarrow> 's outcome"
    and rel :: "'s \<Rightarrow> ('v, 'b) aserver \<Rightarrow> bool"
  assumes blocks: "rel s a \<Longrightarrow> a_iter a = Blocked \<Longrightarrow> iter s = Blocked"
    and steps: "rel s a \<Longrightarrow> a_iter a = Step a' \<Longrightarrow> \<exists>s'. iter s = Step s' \<and> rel s' a'"
begin

lemma refines:
  "rel s a \<Longrightarrow> \<exists>s' a'. iterate iter n s = Some s' \<and> iterate a_iter n a = Some a' \<and> rel s' a'"
proof (induction n arbitrary: s a)
  case 0
  then show ?case by auto
next
  case (Suc n)
  show ?case
  proof (cases "a_iter a")
    case Blocked
    with blocks [OF Suc.prems] Suc.prems show ?thesis by auto
  next
    case Panicked
    then show ?thesis by (simp add: a_iter_no_panic)
  next
    case (Step a1)
    with steps [OF Suc.prems] obtain s1 where "iter s = Step s1" "rel s1 a1" by blast
    with Step Suc.IH show ?thesis by auto
  qed
qed

text \<open>Given rounds enough, the server answers all it can and blocks on its channel.\<close>

lemma quiesces:
  assumes "rel s a" "a_measure a \<le> n"
  shows "\<exists>s' a'. iterate iter n s = Some s' \<and> iterate a_iter n a = Some a' \<and> rel s' a' \<and>
    iter s' = Blocked \<and> as_requestc a' = [] \<and> (as_xs a' = [] \<or> as_ds a' = [])"
  using refines [OF assms(1), of n] a_iterate_blocks [OF assms(2)]
  by (auto simp: a_blocked intro!: blocks)

end

section \<open>dserver (class07)\<close>

record 'v dserver =
  ds_sb :: "'v option Buf"
  ds_db :: "'v request Buf"
  ds_requestc :: "'v request list"
  ds_replies :: "('v request \<times> ('v, 'v option Buf) reply) list"

definition dserver_NewBuf :: "'v request list \<Rightarrow> 'v dserver" where
  "dserver_NewBuf rs =
     \<lparr>ds_sb = NewBuf, ds_db = NewBuf, ds_requestc = rs, ds_replies = []\<rparr>"

definition dserver_reply ::
  "'v request \<Rightarrow> ('v, 'v option Buf) reply \<Rightarrow> 'v dserver \<Rightarrow> 'v dserver" where
  "dserver_reply r p s = s\<lparr>ds_replies := ds_replies s @ [(r, p)]\<rparr>"

text \<open>
  The switch of \<open>runServer\<close>.  \<open>render\<close> stands for \<open>sb.String()\<close>, the indented JSON text of the
  buffer, which only the logging uses.
\<close>

definition dserver_switch ::
  "('v option Buf \<Rightarrow> string) \<Rightarrow> 'v request \<Rightarrow> 'v dserver \<Rightarrow> 'v dserver go" where
  "dserver_switch render r s =
     (case rq_op r of
        doinsert \<Rightarrow> do {
          sb \<leftarrow> buf_Insert (rq_val r) (ds_sb s);
          Some (dserver_reply r (Any None) (s\<lparr>ds_sb := sb\<rparr>)) }
      | doremove \<Rightarrow> do {
          (sb, v) \<leftarrow> buf_Remove (ds_sb s);
          Some (dserver_reply r (val_of v) (s\<lparr>ds_sb := sb\<rparr>)) }
      | doempty \<Rightarrow> Some (dserver_reply r (Truth (buf_Empty (ds_sb s))) s)
      | doflush \<Rightarrow> Some (dserver_reply r (Any None) (s\<lparr>ds_sb := buf_Flush (ds_sb s)\<rparr>))
      | dofront \<Rightarrow> do {
          v \<leftarrow> buf_Front (ds_sb s);
          Some (dserver_reply r (val_of v) s) }
      | docontents \<Rightarrow> do {
          xs \<leftarrow> buf_Contents (ds_sb s);
          Some (dserver_reply r (Slice xs) s) }
      | dostring \<Rightarrow> Some (dserver_reply r (Text (render (ds_sb s))) s)
      | dolist \<Rightarrow> Some (dserver_reply r (Pointer (ds_sb s)) s))"

text \<open>
  One round of the loop of \<open>runServer\<close>: a deferred request first, when there is a value for it;
  otherwise the next request of the channel, put off if it reads an empty buffer.  The type
  assertion \<open>b.(*request)\<close> on a nil \<open>b\<close> panics.
\<close>

definition dserver_iter ::
  "('v option Buf \<Rightarrow> string) \<Rightarrow> 'v dserver \<Rightarrow> 'v dserver outcome" where
  "dserver_iter render s =
     (if \<not> buf_Empty (ds_sb s) \<and> \<not> buf_Empty (ds_db s) then
        go_step (do {
          (db, b) \<leftarrow> buf_Remove (ds_db s);
          r \<leftarrow> (case b of Inl e \<Rightarrow> None | Inr r \<Rightarrow> Some r);
          dserver_switch render r (s\<lparr>ds_db := db\<rparr>) })
      else case ds_requestc s of
          [] \<Rightarrow> Blocked
        | r # rs \<Rightarrow>
            (let s1 = s\<lparr>ds_requestc := rs\<rparr> in
             if buf_Empty (ds_sb s1) \<and> deferOnEmpty (rq_op r) then
               go_step (map_option (\<lambda>db. s1\<lparr>ds_db := db\<rparr>) (buf_Insert r (ds_db s1)))
             else go_step (dserver_switch render r s1)))"

fun abstract_reply :: "('v, 'b) reply \<Rightarrow> bool" where
  "abstract_reply (Text t) = False"
| "abstract_reply (Pointer p) = False"
| "abstract_reply _ = True"

definition dserver_rel :: "'v dserver \<Rightarrow> ('v, 'v option Buf) aserver \<Rightarrow> bool" where
  "dserver_rel s a \<longleftrightarrow>
     buf_rep (ds_sb s) (as_xs a) \<and> buf_rep (ds_db s) (as_ds a) \<and>
     ds_requestc s = as_requestc a \<and>
     filter (abstract_reply \<circ> snd) (ds_replies s) = as_replies a \<and>
     (\<forall>(r, p) \<in> set (ds_replies s). abstract_reply p \<or> rq_op r \<in> {dolist, dostring})"

lemma dserver_rel_init: "dserver_rel (dserver_NewBuf rs) (a_init rs)"
  by (simp add: dserver_rel_def dserver_NewBuf_def a_init_def bufi.rep_new)

lemma dserver_switch_rel:
  assumes rel: "dserver_rel s a"
  shows "\<exists>s'. dserver_switch render r s = Some s' \<and> dserver_rel s' (a_handle r a)"
proof -
  from rel have rep: "buf_rep (ds_sb s) (as_xs a)" by (simp add: dserver_rel_def)
  note unfold = dserver_switch_def dserver_reply_def dserver_rel_def a_handle_def
  show ?thesis
  proof (cases "rq_op r")
    case doinsert
    with rel bufi.rep_ins [OF rep, of "rq_val r"] show ?thesis by (auto simp: unfold)
  next
    case doremove
    with rel bufi.rep_remove [of "ds_sb s"] bufi.rep_remove_Nil [of "ds_sb s"] show ?thesis
      by (cases "as_xs a") (fastforce simp: unfold)+
  next
    case dofront
    with rel bufi.rep_front [of "ds_sb s"] bufi.rep_front_Nil [of "ds_sb s"] show ?thesis
      by (cases "as_xs a") (fastforce simp: unfold)+
  next
    case docontents
    with rel buf_rep_Contents [OF rep] show ?thesis by (auto simp: unfold)
  qed (use rel bufi.rep_isempty [OF rep] bufi.rep_flush [OF rep] in \<open>auto simp: unfold\<close>)
qed

lemma dserver_rel_empty:
  "dserver_rel s a \<Longrightarrow> buf_Empty (ds_sb s) \<longleftrightarrow> as_xs a = []"
  "dserver_rel s a \<Longrightarrow> buf_Empty (ds_db s) \<longleftrightarrow> as_ds a = []"
  by (auto simp: dserver_rel_def bufi.rep_isempty)

lemma dserver_iter_rel:
  assumes rel: "dserver_rel s a" and step: "a_iter a = Step a'"
  shows "\<exists>s'. dserver_iter render s = Step s' \<and> dserver_rel s' a'"
  using step
proof (cases rule: a_iter_StepE)
  case (deferred d ds)
  then obtain db where db: "buf_Remove (ds_db s) = Some (db, Inr d)" "buf_rep db ds"
    using rel bufi.rep_remove [of "ds_db s" d ds] by (auto simp: dserver_rel_def)
  with rel have "dserver_rel (s\<lparr>ds_db := db\<rparr>) (a\<lparr>as_ds := ds\<rparr>)"
    by (simp add: dserver_rel_def)
  from dserver_switch_rel [OF this, of render d] db deferred dserver_rel_empty [OF rel]
  show ?thesis by (auto simp: dserver_iter_def)
next
  case (later r rs)
  then show ?thesis
    using rel dserver_rel_empty [OF rel] bufi.rep_ins [of "ds_db s" "as_ds a" r]
    by (auto simp: dserver_iter_def dserver_rel_def)
next
  case (now r rs)
  with rel have rel1: "dserver_rel (s\<lparr>ds_requestc := rs\<rparr>) (a\<lparr>as_requestc := rs\<rparr>)"
    and req: "ds_requestc s = r # rs"
    by (simp_all add: dserver_rel_def)
  from dserver_switch_rel [OF rel1, of render r] req now dserver_rel_empty [OF rel]
  show ?thesis by (auto simp: dserver_iter_def)
qed

interpretation dserver: server_loop "dserver_iter render" dserver_rel
proof unfold_locales
  show "dserver_iter render s = Blocked" if "dserver_rel s a" "a_iter a = Blocked" for s a
    using that dserver_rel_empty [OF that(1)]
    by (auto simp: a_blocked dserver_iter_def dserver_rel_def)
qed (rule dserver_iter_rel)

section \<open>sserver (class05)\<close>

record 'v sserver =
  ss_sb :: "'v option CBuf"
  ss_db :: "'v request CBuf"
  ss_requestc :: "'v request list"
  ss_replies :: "('v request \<times> ('v, 'v option CBuf) reply) list"

definition sserver_NewBuf :: "'v request list \<Rightarrow> 'v sserver" where
  "sserver_NewBuf rs =
     \<lparr>ss_sb = cbuf_New, ss_db = cbuf_New, ss_requestc = rs, ss_replies = []\<rparr>"

definition sserver_reply ::
  "'v request \<Rightarrow> ('v, 'v option CBuf) reply \<Rightarrow> 'v sserver \<Rightarrow> 'v sserver" where
  "sserver_reply r p s = s\<lparr>ss_replies := ss_replies s @ [(r, p)]\<rparr>"

text \<open>This server knows five operations; any other \<open>op\<close> falls through its switch unanswered.\<close>

definition sserver_switch :: "'v request \<Rightarrow> 'v sserver \<Rightarrow> 'v sserver go" where
  "sserver_switch r s =
     (case rq_op r of
        doinsert \<Rightarrow> do {
          sb \<leftarrow> cbuf_Insert (rq_val r) (ss_sb s);
          Some (sserver_reply r (Any None) (s\<lparr>ss_sb := sb\<rparr>)) }
      | doremove \<Rightarrow> do {
          (sb, v) \<leftarrow> cbuf_Remove (ss_sb s);
          Some (sserver_reply r (val_of v) (s\<lparr>ss_sb := sb\<rparr>)) }
      | doempty \<Rightarrow> Some (sserver_reply r (Truth (cbuf_Empty (ss_sb s))) s)
      | doflush \<Rightarrow> Some (sserver_reply r (Any None) (s\<lparr>ss_sb := cbuf_Flush (ss_sb s)\<rparr>))
      | dofront \<Rightarrow> do {
          v \<leftarrow> cbuf_Front (ss_sb s);
          Some (sserver_reply r (val_of v) s) }
      | _ \<Rightarrow> Some s)"

definition sserver_iter :: "'v sserver \<Rightarrow> 'v sserver outcome" where
  "sserver_iter s =
     (if \<not> cbuf_Empty (ss_sb s) \<and> \<not> cbuf_Empty (ss_db s) then
        go_step (do {
          (db, b) \<leftarrow> cbuf_Remove (ss_db s);
          r \<leftarrow> (case b of Inl e \<Rightarrow> None | Inr r \<Rightarrow> Some r);
          sserver_switch r (s\<lparr>ss_db := db\<rparr>) })
      else case ss_requestc s of
          [] \<Rightarrow> Blocked
        | r # rs \<Rightarrow>
            (let s1 = s\<lparr>ss_requestc := rs\<rparr> in
             if cbuf_Empty (ss_sb s1) \<and> deferOnEmpty (rq_op r) then
               go_step (map_option (\<lambda>db. s1\<lparr>ss_db := db\<rparr>) (cbuf_Insert r (ss_db s1)))
             else go_step (sserver_switch r s1)))"

definition sserver_ops :: "bufop set" where
  "sserver_ops = {doinsert, doremove, doflush, doempty, dofront}"

definition sserver_rel :: "'v sserver \<Rightarrow> ('v, 'v option CBuf) aserver \<Rightarrow> bool" where
  "sserver_rel s a \<longleftrightarrow>
     cbuf_rep (ss_sb s) (as_xs a) \<and> cbuf_rep (ss_db s) (as_ds a) \<and>
     ss_requestc s = as_requestc a \<and> ss_replies s = as_replies a \<and>
     (\<forall>r \<in> set (as_requestc a) \<union> set (as_ds a). rq_op r \<in> sserver_ops)"

lemma sserver_rel_init:
  "(\<forall>r \<in> set rs. rq_op r \<in> sserver_ops) \<Longrightarrow> sserver_rel (sserver_NewBuf rs) (a_init rs)"
  by (simp add: sserver_rel_def sserver_NewBuf_def a_init_def cbuf.rep_new)

lemma sserver_switch_rel:
  assumes rel: "sserver_rel s a" and ops: "rq_op r \<in> sserver_ops"
  shows "\<exists>s'. sserver_switch r s = Some s' \<and> sserver_rel s' (a_handle r a)"
proof -
  from rel have rep: "cbuf_rep (ss_sb s) (as_xs a)" by (simp add: sserver_rel_def)
  note unfold = sserver_switch_def sserver_reply_def sserver_rel_def a_handle_def
  show ?thesis
  proof (cases "rq_op r")
    case doinsert
    with rel cbuf.rep_ins [OF rep, of "rq_val r"] show ?thesis by (auto simp: unfold)
  next
    case doremove
    with rel cbuf.rep_remove [of "ss_sb s"] cbuf.rep_remove_Nil [of "ss_sb s"] show ?thesis
      by (cases "as_xs a") (fastforce simp: unfold)+
  next
    case dofront
    with rel cbuf.rep_front [of "ss_sb s"] cbuf.rep_front_Nil [of "ss_sb s"] show ?thesis
      by (cases "as_xs a") (fastforce simp: unfold)+
  qed (use rel ops cbuf.rep_isempty [OF rep] cbuf.rep_flush [OF rep] in
      \<open>auto simp: unfold sserver_ops_def\<close>)
qed

lemma sserver_rel_empty:
  "sserver_rel s a \<Longrightarrow> cbuf_Empty (ss_sb s) \<longleftrightarrow> as_xs a = []"
  "sserver_rel s a \<Longrightarrow> cbuf_Empty (ss_db s) \<longleftrightarrow> as_ds a = []"
  by (auto simp: sserver_rel_def cbuf.rep_isempty)

lemma sserver_iter_rel:
  assumes rel: "sserver_rel s a" and step: "a_iter a = Step a'"
  shows "\<exists>s'. sserver_iter s = Step s' \<and> sserver_rel s' a'"
  using step
proof (cases rule: a_iter_StepE)
  case (deferred d ds)
  then obtain db where db: "cbuf_Remove (ss_db s) = Some (db, Inr d)" "cbuf_rep db ds"
    using rel cbuf.rep_remove [of "ss_db s" d ds] by (auto simp: sserver_rel_def)
  with rel deferred have "sserver_rel (s\<lparr>ss_db := db\<rparr>) (a\<lparr>as_ds := ds\<rparr>)" "rq_op d \<in> sserver_ops"
    by (auto simp: sserver_rel_def)
  from sserver_switch_rel [OF this] db deferred sserver_rel_empty [OF rel]
  show ?thesis by (auto simp: sserver_iter_def)
next
  case (later r rs)
  then show ?thesis
    using rel sserver_rel_empty [OF rel] cbuf.rep_ins [of "ss_db s" "as_ds a" r]
    by (auto simp: sserver_iter_def sserver_rel_def)
next
  case (now r rs)
  with rel have rel1: "sserver_rel (s\<lparr>ss_requestc := rs\<rparr>) (a\<lparr>as_requestc := rs\<rparr>)"
    and req: "ss_requestc s = r # rs" and op: "rq_op r \<in> sserver_ops"
    by (simp_all add: sserver_rel_def)
  from sserver_switch_rel [OF rel1 op] req now sserver_rel_empty [OF rel]
  show ?thesis by (auto simp: sserver_iter_def)
qed

interpretation sserver: server_loop sserver_iter sserver_rel
proof unfold_locales
  show "sserver_iter s = Blocked" if "sserver_rel s a" "a_iter a = Blocked" for s a
    using that sserver_rel_empty [OF that(1)]
    by (auto simp: a_blocked sserver_iter_def sserver_rel_def)
qed (rule sserver_iter_rel)

section \<open>Every request is answered once\<close>

text \<open>Requests are neither lost nor answered twice, at any point of a run.\<close>

definition requests_kept :: "'v request multiset \<Rightarrow> 'v dserver \<Rightarrow> bool" where
  "requests_kept R s \<longleftrightarrow>
     (\<exists>ds. buf_rep (ds_db s) ds \<and>
           mset (map fst (ds_replies s)) + mset ds + mset (ds_requestc s) = R)"

lemma dserver_switch_replies:
  "dserver_switch render r s = Some s' \<Longrightarrow>
   map fst (ds_replies s') = map fst (ds_replies s) @ [r] \<and> ds_db s' = ds_db s \<and>
   ds_requestc s' = ds_requestc s"
  by (cases "rq_op r")
     (auto simp: dserver_switch_def dserver_reply_def split: Option.bind_splits prod.splits)

lemma requests_kept_switch:
  assumes "dserver_switch render r s = Some s'" "buf_rep (ds_db s) ds"
    and "mset (map fst (ds_replies s)) + {#r#} + mset ds + mset (ds_requestc s) = R"
  shows "requests_kept R s'"
  using assms dserver_switch_replies [OF assms(1)]
  by (auto simp: requests_kept_def intro!: exI [of _ ds])

lemma requests_kept_iter:
  assumes kept: "requests_kept R s" and step: "dserver_iter render s = Step s'"
  shows "requests_kept R s'"
proof -
  from kept obtain ds where ds: "buf_rep (ds_db s) ds"
      "mset (map fst (ds_replies s)) + mset ds + mset (ds_requestc s) = R"
    by (auto simp: requests_kept_def)
  have empty: "buf_Empty (ds_db s) \<longleftrightarrow> ds = []" using bufi.rep_isempty [OF ds(1)] .
  show ?thesis
  proof (cases "\<not> buf_Empty (ds_sb s) \<and> \<not> buf_Empty (ds_db s)")
    case True
    with empty obtain r rs where r: "ds = r # rs" by (cases ds) auto
    obtain db where db: "buf_Remove (ds_db s) = Some (db, Inr r)" "buf_rep db rs"
      using bufi.rep_remove [of "ds_db s" r rs] ds(1) r by auto
    have "dserver_iter render s = go_step (dserver_switch render r (s\<lparr>ds_db := db\<rparr>))"
      using True db(1) by (simp add: dserver_iter_def)
    with step have sw: "dserver_switch render r (s\<lparr>ds_db := db\<rparr>) = Some s'" by simp
    show ?thesis by (rule requests_kept_switch [OF sw, of rs]) (use db(2) ds(2) r in auto)
  next
    case False
    with step obtain r rs where r: "ds_requestc s = r # rs"
      by (cases "ds_requestc s") (auto simp: dserver_iter_def)
    let ?s = "s\<lparr>ds_requestc := rs\<rparr>"
    show ?thesis
    proof (cases "buf_Empty (ds_sb s) \<and> deferOnEmpty (rq_op r)")
      case True
      obtain db where db: "buf_Insert r (ds_db s) = Some db" "buf_rep db (ds @ [r])"
        using bufi.rep_ins [OF ds(1), of r] by blast
      have "dserver_iter render s = Step (?s\<lparr>ds_db := db\<rparr>)"
        using False True r db(1) by (simp add: dserver_iter_def)
      with step have "s' = ?s\<lparr>ds_db := db\<rparr>" by simp
      with db(2) ds(2) r show ?thesis
        by (auto simp: requests_kept_def intro!: exI [of _ "ds @ [r]"])
    next
      case d: False
      have "dserver_iter render s = go_step (dserver_switch render r ?s)"
        using False d r by (auto simp: dserver_iter_def)
      with step have sw: "dserver_switch render r ?s = Some s'" by simp
      show ?thesis by (rule requests_kept_switch [OF sw, of ds]) (use ds r in auto)
    qed
  qed
qed

lemma requests_kept_iterate:
  "requests_kept R s \<Longrightarrow> iterate (dserver_iter render) n s = Some s' \<Longrightarrow> requests_kept R s'"
proof (induction n arbitrary: s)
  case (Suc n)
  then show ?case by (cases "dserver_iter render s") (auto dest: requests_kept_iter)
qed simp

lemma requests_kept_init: "requests_kept (mset rs) (dserver_NewBuf rs)"
  using bufi.rep_new by (auto simp: requests_kept_def dserver_NewBuf_def)

lemma abstract_log:
  "\<forall>(r, p) \<in> set l. abstract_reply p \<or> rq_op r \<in> {dolist, dostring} \<Longrightarrow>
   inserted (filter (abstract_reply \<circ> snd) l) = inserted l \<and>
   removed (filter (abstract_reply \<circ> snd) l) = removed l"
  by (induction l) (auto simp: inserted_def removed_def)

lemma a_measure_init: "a_measure (a_init rs) = 2 * length rs"
  by (simp add: a_measure_def a_init_def)

section \<open>The calls of the clients\<close>

text \<open>
  Every method sends a request (\<open>dorequest\<close>) and asserts the type of the reply; an assertion on
  a reply of another type panics.
\<close>

definition dorequest :: "bufop \<Rightarrow> 'v option \<Rightarrow> nat \<Rightarrow> 'v request" where
  "dorequest op val replyc = \<lparr>rq_op = op, rq_val = val, rq_replyc = replyc\<rparr>"

datatype ('v, 'b) call_result =
  Unit_result | Val_result "'v option" | Bool_result bool | Slice_result "'v option list" |
  Text_result string | List_result 'b

definition call_of :: "bufop \<Rightarrow> ('v, 'b) reply \<Rightarrow> ('v, 'b) call_result go" where
  "call_of op p =
     (case op of
        doinsert \<Rightarrow> Some Unit_result
      | doflush \<Rightarrow> Some Unit_result
      | doremove \<Rightarrow> (case p of Any v \<Rightarrow> Some (Val_result v) | _ \<Rightarrow> None)
      | dofront \<Rightarrow> (case p of Any v \<Rightarrow> Some (Val_result v) | _ \<Rightarrow> None)
      | doempty \<Rightarrow> (case p of Truth b \<Rightarrow> Some (Bool_result b) | _ \<Rightarrow> None)
      | docontents \<Rightarrow> (case p of Slice xs \<Rightarrow> Some (Slice_result xs) | _ \<Rightarrow> None)
      | dostring \<Rightarrow> (case p of Text t \<Rightarrow> Some (Text_result t) | _ \<Rightarrow> None)
      | dolist \<Rightarrow> (case p of Pointer b \<Rightarrow> Some (List_result b) | _ \<Rightarrow> None))"

definition calls_typed :: "('v request \<times> ('v, 'b) reply) list \<Rightarrow> bool" where
  "calls_typed log \<longleftrightarrow> (\<forall>(r, p) \<in> set log. call_of (rq_op r) p \<noteq> None)"

lemma val_of_Any: "val_of v = Any (case v of Inl e \<Rightarrow> None | Inr x \<Rightarrow> x)"
  by (cases v) auto

lemma dserver_switch_typed:
  "dserver_switch render r s = Some s' \<Longrightarrow>
   \<exists>p. ds_replies s' = ds_replies s @ [(r, p)] \<and> call_of (rq_op r) p \<noteq> None"
  by (cases "rq_op r")
     (auto simp: dserver_switch_def dserver_reply_def split: Option.bind_splits prod.splits,
      simp_all add: call_of_def val_of_Any)

text \<open>The five calls of the class05 server; only \<open>Empty\<close> asserts a type.\<close>

definition sserver_call :: "bufop \<Rightarrow> ('v, 'b) reply \<Rightarrow> ('v, 'b) call_result go" where
  "sserver_call op p =
     (case op of
        doinsert \<Rightarrow> Some Unit_result
      | doflush \<Rightarrow> Some Unit_result
      | doremove \<Rightarrow> (case p of Any v \<Rightarrow> Some (Val_result v) | _ \<Rightarrow> None)
      | dofront \<Rightarrow> (case p of Any v \<Rightarrow> Some (Val_result v) | _ \<Rightarrow> None)
      | doempty \<Rightarrow> (case p of Truth b \<Rightarrow> Some (Bool_result b) | _ \<Rightarrow> None)
      | _ \<Rightarrow> None)"

lemma sserver_switch_typed:
  "sserver_switch r s = Some s' \<Longrightarrow> rq_op r \<in> sserver_ops \<Longrightarrow>
   \<exists>p. ss_replies s' = ss_replies s @ [(r, p)] \<and> sserver_call (rq_op r) p \<noteq> None"
  by (cases "rq_op r")
     (auto simp: sserver_switch_def sserver_reply_def sserver_ops_def split: Option.bind_splits prod.splits,
      simp_all add: sserver_call_def val_of_Any)

lemma calls_typed_switch:
  assumes "dserver_switch render r s = Some s'" "calls_typed (ds_replies s)"
  shows "calls_typed (ds_replies s')"
proof -
  obtain p where "ds_replies s' = ds_replies s @ [(r, p)]" "call_of (rq_op r) p \<noteq> None"
    using dserver_switch_typed [OF assms(1)] by blast
  with assms(2) show ?thesis by (simp add: calls_typed_def)
qed

lemma calls_typed_iter:
  assumes "dserver_iter render s = Step s'" "calls_typed (ds_replies s)"
  shows "calls_typed (ds_replies s')"
proof -
  from assms(1) consider (switch) r t where "dserver_switch render r t = Some s'" "ds_replies t = ds_replies s"
    | (later) "ds_replies s' = ds_replies s"
    by (fastforce simp: dserver_iter_def split: if_splits list.splits Option.bind_splits prod.splits sum.splits)
  then show ?thesis
  proof cases
    case switch
    with assms(2) show ?thesis by (auto intro: calls_typed_switch)
  next
    case later
    with assms(2) show ?thesis by simp
  qed
qed

lemma calls_typed_iterate:
  "calls_typed (ds_replies s) \<Longrightarrow> iterate (dserver_iter render) n s = Some s' \<Longrightarrow>
   calls_typed (ds_replies s')"
proof (induction n arbitrary: s)
  case (Suc n)
  then show ?case by (cases "dserver_iter render s") (auto dest: calls_typed_iter)
qed simp

section \<open>Properties\<close>


text \<open>
  First in, first out through the server: as long as nobody asks for a flush, the values of
  the answered inserts, in order, are the values of the answered removes followed by what the
  buffer still holds; deferring requests reorders no value.
\<close>

lemma dserver_fifo:
  assumes "\<forall>r \<in> set rs. rq_op r \<noteq> doflush"
    and "iterate (dserver_iter render) n (dserver_NewBuf rs) = Some s"
  shows "\<exists>xs. buf_Contents (ds_sb s) = Some xs \<and>
    inserted (ds_replies s) = removed (ds_replies s) @ xs"
proof -
  obtain a where a: "iterate a_iter n (a_init rs) = Some a" "dserver_rel s a"
    using dserver.refines [OF dserver_rel_init [of rs], of render n] assms(2) by auto
  have "a_inv a" using a_inv_iterate [OF a_inv_init [OF assms(1)] a(1)] .
  moreover have "inserted (as_replies a) = inserted (ds_replies s)"
    "removed (as_replies a) = removed (ds_replies s)"
    using a(2) abstract_log [of "ds_replies s"] by (auto simp: dserver_rel_def)
  ultimately show ?thesis using a(2) by (auto simp: a_inv_def dserver_rel_def dest!: buf_rep_Contents)
qed

lemma dserver_fifo_witness:
  "\<exists>s. iterate (dserver_iter (\<lambda>_. '''')) 3 (dserver_NewBuf
       [\<lparr>rq_op = doremove, rq_val = None, rq_replyc = 0\<rparr>,
        \<lparr>rq_op = doinsert, rq_val = Some (7::nat), rq_replyc = 1\<rparr>]) = Some s \<and>
     (\<exists>xs. buf_Contents (ds_sb s) = Some xs \<and>
       inserted (ds_replies s) = removed (ds_replies s) @ xs)"
proof -
  let ?rs = "[\<lparr>rq_op = doremove, rq_val = None, rq_replyc = 0\<rparr>,
        \<lparr>rq_op = doinsert, rq_val = Some (7::nat), rq_replyc = 1\<rparr>]"
  obtain s where s: "iterate (dserver_iter (\<lambda>_. '''')) 3 (dserver_NewBuf ?rs) = Some s"
    using dserver.refines [OF dserver_rel_init [of ?rs], of "\<lambda>_. ''''" 3] by blast
  have "\<forall>r \<in> set ?rs. rq_op r \<noteq> doflush" by simp
  from dserver_fifo [OF this s] s show ?thesis by blast
qed

text \<open>
  A queue that answers the requests of a log one after the other; \<open>None\<close> when a reply is not the one
  that the queue gives, or when a read was answered although the queue was empty.
\<close>

fun replay_queue :: "('v request \<times> ('v, 'b) reply) list \<Rightarrow> 'v option list \<Rightarrow> 'v option list option" where
  "replay_queue [] xs = Some xs"
| "replay_queue ((r, p) # log) xs =
     (let answer = (case (rq_op r, xs) of
          (doinsert, _) \<Rightarrow> Some (Any None, xs @ [rq_val r])
        | (doremove, x # xs') \<Rightarrow> Some (Any x, xs')
        | (dofront, x # xs') \<Rightarrow> Some (Any x, xs)
        | (doempty, _) \<Rightarrow> Some (Truth (xs = []), xs)
        | (doflush, _) \<Rightarrow> Some (Any None, [])
        | _ \<Rightarrow> None)
      in case answer of
           None \<Rightarrow> None
         | Some (q, xs1) \<Rightarrow> if p = q then replay_queue log xs1 else None)"

lemma replay_queue_append:
  "replay_queue (l1 @ l2) xs = Option.bind (replay_queue l1 xs) (replay_queue l2)"
  by (induction l1 xs rule: replay_queue.induct) (auto simp: Let_def split: option.splits)

definition queue_inv :: "'v request multiset \<Rightarrow> ('v, 'b) aserver \<Rightarrow> bool" where
  "queue_inv R a \<longleftrightarrow>
     replay_queue (as_replies a) [] = Some (as_xs a) \<and>
     mset (map fst (as_replies a)) + mset (as_ds a) + mset (as_requestc a) = R \<and>
     (\<forall>r \<in> set (as_requestc a) \<union> set (as_ds a). rq_op r \<in> sserver_ops)"

lemma queue_inv_handle:
  assumes "replay_queue (as_replies a) [] = Some (as_xs a)" "rq_op r \<in> sserver_ops"
    and "deferOnEmpty (rq_op r) \<Longrightarrow> as_xs a \<noteq> []"
  shows "replay_queue (as_replies (a_handle r a)) [] = Some (as_xs (a_handle r a))"
    and "image_mset fst (mset (as_replies (a_handle r a))) = add_mset r (image_mset fst (mset (as_replies a)))"
    and "as_ds (a_handle r a) = as_ds a" "as_requestc (a_handle r a) = as_requestc a"
  using assms
  by (cases "rq_op r"; cases "as_xs a";
      simp add: a_handle_def replay_queue_append deferOnEmpty_def sserver_ops_def)+

lemma queue_inv_iter:
  assumes inv: "queue_inv R a" and step: "a_iter a = Step a'"
  shows "queue_inv R a'"
  using step
proof (cases rule: a_iter_StepE)
  case (deferred d ds)
  with inv queue_inv_handle [of "a\<lparr>as_ds := ds\<rparr>" d] show ?thesis
    by (auto simp: queue_inv_def)
next
  case (later r rs)
  with inv show ?thesis by (auto simp: queue_inv_def)
next
  case (now r rs)
  with inv queue_inv_handle [of "a\<lparr>as_requestc := rs\<rparr>" r] show ?thesis
    by (auto simp: queue_inv_def)
qed

lemma queue_inv_iterate: "queue_inv R a \<Longrightarrow> iterate a_iter n a = Some a' \<Longrightarrow> queue_inv R a'"
  by (induction n arbitrary: a) (auto split: outcome.splits dest: queue_inv_iter)

text \<open>
  C32: The class05 server: given any of its five requests, in any number and order, it answers or
  defers each of them exactly once (the answered and the deferred ones together are the requests)
  and blocks with an empty request channel after at most two turns of its loop per request, without a
  panic; the replies are those of a queue that answers the same requests in the order of the replies,
  flushes included; a read is answered only when there is a value for it, and reads stay deferred only
  while the buffer, which holds what the queue holds, is empty.
\<close>

theorem sserver_serves:
  assumes "\<forall>r \<in> set rs. rq_op r \<in> {doinsert, doremove, doflush, doempty, dofront}"
  shows "\<exists>s xs ds. iterate sserver_iter (2 * length rs + k) (sserver_NewBuf rs) = Some s \<and>
    sserver_iter s = Blocked \<and> ss_requestc s = [] \<and>
    cbuf_rep (ss_sb s) xs \<and> cbuf_rep (ss_db s) ds \<and> (xs = [] \<or> ds = []) \<and>
    mset (map fst (ss_replies s)) + mset ds = mset rs \<and>
    replay_queue (ss_replies s) [] = Some xs"
proof -
  from assms have ops: "\<forall>r \<in> set rs. rq_op r \<in> sserver_ops" by (auto simp: sserver_ops_def)
  obtain s a where sa: "iterate sserver_iter (2 * length rs + k) (sserver_NewBuf rs) = Some s"
      "iterate a_iter (2 * length rs + k) (a_init rs) = Some a"
      "sserver_rel s a" "sserver_iter s = Blocked" "as_requestc a = []"
      "as_xs a = [] \<or> as_ds a = []"
    using sserver.quiesces [OF sserver_rel_init [OF ops(1)], of "2 * length rs + k"]
    by (auto simp: a_measure_init)
  have "queue_inv (mset rs) (a_init rs)" using ops by (simp add: queue_inv_def a_init_def)
  from queue_inv_iterate [OF this sa(2)] sa show ?thesis
    by (auto simp: queue_inv_def sserver_rel_def intro!: exI [of _ "as_xs a"] exI [of _ "as_ds a"])
qed

theorem sserver_serves_witness:
  "\<exists>s xs ds. iterate sserver_iter 8 (sserver_NewBuf
      [\<lparr>rq_op = dofront, rq_val = None, rq_replyc = 0\<rparr>,
       \<lparr>rq_op = doinsert, rq_val = Some (7::nat), rq_replyc = 1\<rparr>,
       \<lparr>rq_op = doflush, rq_val = None, rq_replyc = 2\<rparr>,
       \<lparr>rq_op = doremove, rq_val = None, rq_replyc = 3\<rparr>]) = Some s \<and>
    ss_requestc s = [] \<and> cbuf_rep (ss_sb s) xs \<and> cbuf_rep (ss_db s) ds \<and> (xs = [] \<or> ds = []) \<and>
    replay_queue (ss_replies s) [] = Some xs"
  using sserver_serves [of "[\<lparr>rq_op = dofront, rq_val = None, rq_replyc = 0\<rparr>,
       \<lparr>rq_op = doinsert, rq_val = Some (7::nat), rq_replyc = 1\<rparr>,
       \<lparr>rq_op = doflush, rq_val = None, rq_replyc = 2\<rparr>,
       \<lparr>rq_op = doremove, rq_val = None, rq_replyc = 3\<rparr>]" 0] by (auto simp: numeral_eq_Suc)

end
