(* ===== verification/Abuf.thy ===== *)
theory Abuf
  imports Bufi
begin

text \<open>
  \<open>15-440/class05/chanbuf/abuf\<close>: a buffer shared by any number of goroutines, guarded by a
  director goroutine.  The director offers a token on \<open>opchan\<close> and, when the buffer is not empty,
  also on \<open>readchan\<close>; the caller that takes a token works on the buffer and hands the turn back
  on \<open>ackchan\<close>.  The channels are unbuffered, so taking a token is one joint step of the caller
  and the director.

  Every caller has a program counter; the interleaving of callers is the relation \<open>abuf_step\<close>.
\<close>

section \<open>State\<close>

datatype 'v call = CInsert 'v | CRemove | CFront | CEmpty | CFlush

fun is_read :: "'v call \<Rightarrow> bool" where
  "is_read CRemove = True"
| "is_read CFront = True"
| "is_read _ = False"

datatype 'v pc = Outside | Waiting "'v call" | Inside "'v call" | Leaving "'v fifo_obs"

text \<open>\<open>Offering r\<close>: at the head of the loop, \<open>r\<close> saying whether \<open>readchan\<close> is offered as well.\<close>

datatype director = Offering bool | AwaitAck

record 'v abuf =
  ab_buf :: "'v CBuf"
  ab_director :: director
  ab_pc :: "nat \<Rightarrow> 'v pc"

definition abuf_NewBuf :: "'v abuf" where
  "abuf_NewBuf =
     \<lparr>ab_buf = cbuf_New, ab_director = Offering (\<not> cbuf_Empty (cbuf_New :: 'v CBuf)),
      ab_pc = (\<lambda>_. Outside)\<rparr>"

text \<open>The body of a method, between \<open>startop\<close>/\<open>startread\<close> and \<open>finish\<close>.\<close>

definition abuf_body :: "'v call \<Rightarrow> 'v CBuf \<Rightarrow> ('v CBuf \<times> 'v fifo_obs) go" where
  "abuf_body c b =
     (case c of
        CInsert v \<Rightarrow> map_option (\<lambda>b'. (b', Done)) (cbuf_Insert v b)
      | CRemove \<Rightarrow> map_option (\<lambda>(b', r). (b', obs_of r)) (cbuf_Remove b)
      | CFront \<Rightarrow> map_option (\<lambda>r. (b, obs_of r)) (cbuf_Front b)
      | CEmpty \<Rightarrow> Some (b, IsEmpty (cbuf_Empty b))
      | CFlush \<Rightarrow> Some (cbuf_Flush b, Done))"

text \<open>
  A step is labelled with the calls whose bodies ran in it (none or one): caller, call and what
  the caller observed.
\<close>

type_synonym 'v history = "(nat \<times> 'v call \<times> 'v fifo_obs) list"

inductive abuf_step :: "'v abuf \<Rightarrow> 'v history \<Rightarrow> 'v abuf \<Rightarrow> bool" where
  invoke: "ab_pc s i = Outside \<Longrightarrow> abuf_step s [] (s\<lparr>ab_pc := (ab_pc s)(i := Waiting c)\<rparr>)"
| startop: "ab_pc s i = Waiting c \<Longrightarrow> \<not> is_read c \<Longrightarrow> ab_director s = Offering r \<Longrightarrow>
    abuf_step s [] (s\<lparr>ab_pc := (ab_pc s)(i := Inside c), ab_director := AwaitAck\<rparr>)"
| startread: "ab_pc s i = Waiting c \<Longrightarrow> is_read c \<Longrightarrow> ab_director s = Offering True \<Longrightarrow>
    abuf_step s [] (s\<lparr>ab_pc := (ab_pc s)(i := Inside c), ab_director := AwaitAck\<rparr>)"
| body: "ab_pc s i = Inside c \<Longrightarrow> abuf_body c (ab_buf s) = Some (b, ob) \<Longrightarrow>
    abuf_step s [(i, c, ob)] (s\<lparr>ab_pc := (ab_pc s)(i := Leaving ob), ab_buf := b\<rparr>)"
| finish: "ab_pc s i = Leaving ob \<Longrightarrow> ab_director s = AwaitAck \<Longrightarrow>
    abuf_step s [] (s\<lparr>ab_pc := (ab_pc s)(i := Outside),
                  ab_director := Offering (\<not> cbuf_Empty (ab_buf s))\<rparr>)"

inductive abuf_reachable :: "'v abuf \<Rightarrow> 'v history \<Rightarrow> bool" where
  start: "abuf_reachable abuf_NewBuf []"
| step: "abuf_reachable s l \<Longrightarrow> abuf_step s l' t \<Longrightarrow> abuf_reachable t (l @ l')"

section \<open>Invariant\<close>

fun busy :: "'v pc \<Rightarrow> bool" where
  "busy (Inside c) = True"
| "busy (Leaving ob) = True"
| "busy _ = False"

text \<open>
  Somebody is inside exactly while the director waits for the acknowledgement; nobody else is;
  the offer matches the buffer; and a reader that is inside has something to read.
\<close>

definition abuf_inv :: "'v abuf \<Rightarrow> bool" where
  "abuf_inv s \<longleftrightarrow>
     (\<exists>xs. cbuf_rep (ab_buf s) xs) \<and>
     (\<forall>i j. busy (ab_pc s i) \<and> busy (ab_pc s j) \<longrightarrow> i = j) \<and>
     (case ab_director s of
        Offering r \<Rightarrow> r = (\<not> cbuf_Empty (ab_buf s)) \<and> (\<forall>i. \<not> busy (ab_pc s i))
      | AwaitAck \<Rightarrow> \<exists>i. busy (ab_pc s i)) \<and>
     (\<forall>i c. ab_pc s i = Inside c \<and> is_read c \<longrightarrow> \<not> cbuf_Empty (ab_buf s))"

lemma abuf_inv_init: "abuf_inv abuf_NewBuf"
  using cbuf.rep_new by (auto simp: abuf_inv_def abuf_NewBuf_def)

text \<open>The queue operation a call stands for.\<close>

fun call_op :: "'v call \<Rightarrow> 'v fifo_op" where
  "call_op (CInsert v) = OpInsert v"
| "call_op CRemove = OpRemove"
| "call_op CFront = OpFront"
| "call_op CEmpty = OpEmpty"
| "call_op CFlush = OpFlush"

lemma abuf_body_rep:
  assumes "cbuf_rep b xs"
  shows "\<exists>b' ob. abuf_body c b = Some (b', ob) \<and> ob = snd (queue_step (call_op c) xs) \<and>
    cbuf_rep b' (fst (queue_step (call_op c) xs))"
proof (cases c)
  case (CInsert v)
  then show ?thesis using cbuf.rep_ins [OF assms, of v] by (auto simp: abuf_body_def)
next
  case CRemove
  then show ?thesis
    using assms cbuf.rep_remove [of b] cbuf.rep_remove_Nil [of b]
    by (cases xs) (fastforce simp: abuf_body_def)+
next
  case CFront
  then show ?thesis
    using assms cbuf.rep_front [of b] cbuf.rep_front_Nil [of b]
    by (cases xs) (fastforce simp: abuf_body_def)+
next
  case CEmpty
  with assms cbuf.rep_isempty [OF assms] show ?thesis by (auto simp: abuf_body_def)
next
  case CFlush
  with cbuf.rep_flush [OF assms] show ?thesis by (auto simp: abuf_body_def)
qed

lemma abuf_invI:
  assumes "cbuf_rep (ab_buf s) xs"
    and "\<And>i j. busy (ab_pc s i) \<Longrightarrow> busy (ab_pc s j) \<Longrightarrow> i = j"
    and "\<And>r. ab_director s = Offering r \<Longrightarrow> r = (\<not> cbuf_Empty (ab_buf s)) \<and> (\<forall>i. \<not> busy (ab_pc s i))"
    and "ab_director s = AwaitAck \<Longrightarrow> \<exists>i. busy (ab_pc s i)"
    and "\<And>i c. ab_pc s i = Inside c \<Longrightarrow> is_read c \<Longrightarrow> \<not> cbuf_Empty (ab_buf s)"
  shows "abuf_inv s"
  using assms unfolding abuf_inv_def by (auto split: director.split)

lemma abuf_inv_invoke:
  assumes inv: "abuf_inv s" and pc: "ab_pc s i = Outside"
  shows "abuf_inv (s\<lparr>ab_pc := (ab_pc s)(i := Waiting c)\<rparr>)" (is "abuf_inv ?t")
proof -
  have busy: "busy (ab_pc ?t j) \<longleftrightarrow> busy (ab_pc s j)" for j using pc by simp
  have inside: "ab_pc ?t j = Inside d \<Longrightarrow> is_read d \<Longrightarrow> \<not> cbuf_Empty (ab_buf s)" for j d
    using inv by (auto simp: abuf_inv_def split: if_splits)
  obtain xs where "cbuf_rep (ab_buf ?t) xs" using inv by (auto simp: abuf_inv_def)
  then show ?thesis
    by (rule abuf_invI; (unfold busy)?; use inv inside in \<open>auto simp: abuf_inv_def simp del: fun_upd_apply\<close>)
qed

lemma abuf_inv_enter:
  assumes inv: "abuf_inv s" and dir: "ab_director s = Offering r" and read: "is_read c \<longrightarrow> r"
  shows "abuf_inv (s\<lparr>ab_pc := (ab_pc s)(i := Inside c), ab_director := AwaitAck\<rparr>)"
    (is "abuf_inv ?t")
proof -
  have idle: "\<not> busy (ab_pc s j)" and r: "r = (\<not> cbuf_Empty (ab_buf s))" for j
    using inv dir by (auto simp: abuf_inv_def)
  have busy: "busy (ab_pc ?t j) \<longleftrightarrow> j = i" for j using idle by simp
  have inside: "ab_pc ?t j = Inside d \<Longrightarrow> d = c" for j d
    using idle [of j] by (auto split: if_splits)
  obtain xs where "cbuf_rep (ab_buf ?t) xs" using inv by (auto simp: abuf_inv_def)
  then show ?thesis
    by (rule abuf_invI; (unfold busy)?; use read r inside in \<open>auto simp del: fun_upd_apply\<close>)
qed

lemma abuf_inv_alone:
  "abuf_inv s \<Longrightarrow> busy (ab_pc s i) \<Longrightarrow> busy (ab_pc s j) \<longleftrightarrow> j = i"
  "abuf_inv s \<Longrightarrow> busy (ab_pc s i) \<Longrightarrow> ab_director s = AwaitAck"
  by (auto simp: abuf_inv_def split: director.splits)

lemma abuf_inv_leave:
  assumes inv: "abuf_inv s" and busy: "busy (ab_pc s i)" and rep: "cbuf_rep b xs"
  shows "abuf_inv (s\<lparr>ab_pc := (ab_pc s)(i := Leaving ob), ab_buf := b\<rparr>)"
    and "abuf_inv (s\<lparr>ab_pc := (ab_pc s)(i := Outside), ab_director := Offering (\<not> cbuf_Empty (ab_buf s))\<rparr>)"
proof -
  note alone = abuf_inv_alone [OF inv busy]
  have inside: "ab_pc s j = Inside d \<Longrightarrow> j = i" for j d
    using alone(1) [of j] by simp
  have "busy (((ab_pc s)(i := Leaving ob)) j) \<longleftrightarrow> j = i" for j using alone(1) by simp
  with alone(2) inside rep show "abuf_inv (s\<lparr>ab_pc := (ab_pc s)(i := Leaving ob), ab_buf := b\<rparr>)"
    by (auto simp: abuf_inv_def)
  have "\<not> busy (((ab_pc s)(i := Outside)) j)" for j using alone(1) by simp
  with inv inside show
    "abuf_inv (s\<lparr>ab_pc := (ab_pc s)(i := Outside), ab_director := Offering (\<not> cbuf_Empty (ab_buf s))\<rparr>)"
    by (auto simp: abuf_inv_def)
qed

lemma abuf_inv_rep: "abuf_inv s \<Longrightarrow> \<exists>xs. cbuf_rep (ab_buf s) xs"
  by (simp add: abuf_inv_def)

lemma abuf_step_inv: "abuf_step s l t \<Longrightarrow> abuf_inv s \<Longrightarrow> abuf_inv t"
proof (induction rule: abuf_step.induct)
  case (body s i c b ob)
  from abuf_inv_rep [OF body.prems] obtain xs where "cbuf_rep (ab_buf s) xs" ..
  from abuf_body_rep [OF this, of c] body.hyps(2) obtain ys where "cbuf_rep b ys" by auto
  with body show ?case by (auto intro: abuf_inv_leave(1))
next
  case (finish s i ob)
  then show ?case using abuf_inv_rep [OF finish.prems] by (auto intro: abuf_inv_leave(2))
qed (auto intro: abuf_inv_invoke abuf_inv_enter)

lemma abuf_reachable_inv: "abuf_reachable s l \<Longrightarrow> abuf_inv s"
  by (induction rule: abuf_reachable.induct) (auto intro: abuf_inv_init abuf_step_inv)

text \<open>No state is stuck with a caller inside: its body and its release are always enabled.\<close>

lemma abuf_progress:
  assumes "abuf_inv s" "busy (ab_pc s i)"
  shows "\<exists>l t. abuf_step s l t"
proof (cases "ab_pc s i")
  case (Inside c)
  obtain xs where "cbuf_rep (ab_buf s) xs" using assms(1) by (auto simp: abuf_inv_def)
  then obtain b ob where "abuf_body c (ab_buf s) = Some (b, ob)"
    using abuf_body_rep by blast
  with Inside show ?thesis by (blast intro: abuf_step.body)
next
  case (Leaving ob)
  from assms have "ab_director s = AwaitAck" by (auto simp: abuf_inv_def split: director.splits)
  with Leaving show ?thesis by (blast intro: abuf_step.finish)
qed (use assms in auto)

section \<open>Linearization\<close>

text \<open>
  A history is legal when the calls, in the order of their bodies, observed what the queue
  operations return one after the other, and no read of it found the queue empty.
\<close>

definition history_ops :: "'v history \<Rightarrow> 'v fifo_op list" where
  "history_ops l = map (\<lambda>(i, c, ob). call_op c) l"

definition abuf_linear :: "'v abuf \<Rightarrow> 'v history \<Rightarrow> bool" where
  "abuf_linear s l \<longleftrightarrow>
     map (\<lambda>(i, c, ob). ob) l = snd (queue_exec (history_ops l) []) \<and>
     cbuf_rep (ab_buf s) (fst (queue_exec (history_ops l) [])) \<and>
     (\<forall>(i, c, ob) \<in> set l. is_read c \<longrightarrow> ob \<noteq> NoValue)"

lemma read_value: "is_read c \<Longrightarrow> xs \<noteq> [] \<Longrightarrow> snd (queue_step (call_op c) xs) \<noteq> NoValue"
  by (cases c; cases xs) auto

lemma abuf_linear_quiet [simp]:
  "abuf_linear (s\<lparr>ab_pc := p\<rparr>) l = abuf_linear s l"
  "abuf_linear (s\<lparr>ab_pc := p, ab_director := d\<rparr>) l = abuf_linear s l"
  by (simp_all add: abuf_linear_def)

lemma abuf_linear_body:
  assumes lin: "abuf_linear s l" and body: "abuf_body c (ab_buf s) = Some (b, ob)"
    and read: "is_read c \<longrightarrow> \<not> cbuf_Empty (ab_buf s)" and t: "ab_buf t = b"
  shows "abuf_linear t (l @ [(i, c, ob)])"
proof -
  let ?xs = "fst (queue_exec (history_ops l) [])"
  from lin have rep: "cbuf_rep (ab_buf s) ?xs" by (simp add: abuf_linear_def)
  from abuf_body_rep [OF rep, of c] body have b: "cbuf_rep b (fst (queue_step (call_op c) ?xs))"
    and ob: "ob = snd (queue_step (call_op c) ?xs)" by auto
  have "is_read c \<longrightarrow> ?xs \<noteq> []" using read cbuf.rep_isempty [OF rep] by simp
  with read_value [of c ?xs] ob have val: "is_read c \<longrightarrow> ob \<noteq> NoValue" by simp
  have "history_ops (l @ [(i, c, ob)]) = history_ops l @ [call_op c]" by (simp add: history_ops_def)
  with lin b ob t val show ?thesis by (simp add: abuf_linear_def queue_exec_snoc)
qed

lemma abuf_reachable_linear: "abuf_reachable s l \<Longrightarrow> abuf_linear s l"
proof (induction rule: abuf_reachable.induct)
  case start
  then show ?case using cbuf.rep_new by (simp add: abuf_linear_def history_ops_def abuf_NewBuf_def)
next
  case (step s l l' t)
  from step.hyps(2) show ?case
  proof cases
    case (body i c b ob)
    have "is_read c \<longrightarrow> \<not> cbuf_Empty (ab_buf s)"
      using abuf_reachable_inv [OF step.hyps(1)] body(3) unfolding abuf_inv_def by blast
    from abuf_linear_body [OF step.IH body(4) this, of t i] body(1,2) show ?thesis by simp
  qed (use step.IH in simp_all)
qed

section \<open>Properties\<close>

text \<open>
  C18: However many goroutines call the shared buffer in whatever interleaving, the director lets
  at most one of them work on the list at a time (and only while it waits for that one's
  acknowledgement), the calls are linearizable (each observes what a FIFO queue would return
  when the calls run one by one in the order of their bodies), and no \<open>Remove\<close> or \<open>Front\<close> ever
  finds the buffer empty.
\<close>

theorem abuf_linearizable:
  assumes "abuf_reachable s l"
  shows "(busy (ab_pc s i) \<and> busy (ab_pc s j) \<longrightarrow> i = j \<and> ab_director s = AwaitAck) \<and>
    map (\<lambda>(k, c, ob). ob) l = snd (queue_exec (history_ops l) []) \<and>
    (\<forall>(k, c, ob) \<in> set l. is_read c \<longrightarrow> ob \<noteq> NoValue)"
proof (intro conjI)
  note inv = abuf_reachable_inv [OF assms] and lin = abuf_reachable_linear [OF assms]
  show "busy (ab_pc s i) \<and> busy (ab_pc s j) \<longrightarrow> i = j \<and> ab_director s = AwaitAck"
    using abuf_inv_alone [OF inv, of i] by (metis)
  show "map (\<lambda>(k, c, ob). ob) l = snd (queue_exec (history_ops l) [])"
    using lin by (simp add: abuf_linear_def)
  show "\<forall>(k, c, ob) \<in> set l. is_read c \<longrightarrow> ob \<noteq> NoValue"
    using lin by (simp add: abuf_linear_def)
qed

text \<open>Two goroutines: 0 inserts, then 1 waits for a value, removes it and leaves.\<close>

abbreviation insert_inside :: "nat abuf" where
  "insert_inside \<equiv> abuf_NewBuf\<lparr>ab_pc := (\<lambda>_. Outside)(0 := Inside (CInsert 7)), ab_director := AwaitAck\<rparr>"

lemma insert_inside_reachable: "abuf_reachable insert_inside []"
proof -
  let ?w = "abuf_NewBuf\<lparr>ab_pc := (\<lambda>_. Outside)(0 := Waiting (CInsert (7::nat)))\<rparr>"
  have "abuf_step abuf_NewBuf [] ?w"
    using abuf_step.invoke [of "abuf_NewBuf :: nat abuf" 0 "CInsert 7"] by (simp add: abuf_NewBuf_def)
  from abuf_reachable.step [OF abuf_reachable.start this] have w: "abuf_reachable ?w []" by simp
  have "abuf_step ?w [] insert_inside"
    using abuf_step.startop [of ?w 0 "CInsert 7" False] by (simp add: abuf_NewBuf_def cbuf_Empty_def cbuf_New_def)
  from abuf_reachable.step [OF w this] show ?thesis by simp
qed

theorem abuf_linearizable_witness:
  "abuf_reachable insert_inside [] \<and> busy (ab_pc insert_inside 0) \<and> ab_director insert_inside = AwaitAck"
  using abuf_linearizable [OF insert_inside_reachable, of 0 0] insert_inside_reachable by simp

text \<open>
  No goroutine that holds the buffer is ever stuck: the body of its call cannot panic, so
  it or its release is a step the system can make, and that step ends its turn.
\<close>

lemma abuf_holder_proceeds:
  assumes "abuf_reachable s l" and "busy (ab_pc s i)"
  shows "\<exists>l' t. abuf_step s l' t \<and> (ab_pc t i = Outside \<or> (\<exists>ob. ab_pc t i = Leaving ob))"
proof (cases "ab_pc s i")
  case (Inside c)
  have "cbuf_rep (ab_buf s) (fst (queue_exec (history_ops l) []))"
    using abuf_reachable_linear [OF assms(1)] by (simp add: abuf_linear_def)
  from abuf_body_rep [OF this, of c] obtain b ob where "abuf_body c (ab_buf s) = Some (b, ob)" by blast
  from abuf_step.body [OF Inside this] show ?thesis by fastforce
next
  case (Leaving ob)
  have "ab_director s = AwaitAck" using abuf_inv_alone(2) [OF abuf_reachable_inv [OF assms(1)] assms(2)] .
  from abuf_step.finish [OF Leaving this] show ?thesis by fastforce
qed (use assms in auto)

lemma abuf_holder_proceeds_witness:
  "\<exists>l' t. abuf_step insert_inside l' t \<and> (ab_pc t 0 = Outside \<or> (\<exists>ob. ab_pc t 0 = Leaving ob))"
  using abuf_holder_proceeds [OF insert_inside_reachable, of 0] by simp

end
