(* ===== verification/LspConn.thy ===== *)
theory LspConn
  imports Bufi
begin

text \<open>
  One end of a Live Sequence Protocol connection: \<open>lsp_msg.go\<close> and \<open>lsp_conn.go\<close> of
  \<open>15-440/P1-F11/lsp\<close>, with the message type and parameters of \<open>lsp.go\<close>.

  \<^item> \<open>lspConn\<close> is the connection's record; its two \<open>bufi\<close> buffers are the heap-level buffers of
    \<open>Bufi\<close>.  The channels of the struct are not fields: what arrives on them is an event of
    \<open>conn_step\<close>, what is sent on them is an output.
  \<^item> \<open>conn_step\<close> is one turn of the \<open>select\<close> of \<open>serve\<close>.  A status says whether the goroutine
    goes on, has returned, or is blocked for ever.
  \<^item> \<open>json.Marshal\<close> cannot fail on an \<open>LspMsg\<close>, so \<open>udpWrite\<close> is the output of the message;
    loss happens in the network.
  \<^item> Payloads, Go byte slices, are strings (lists of bytes).
\<close>

section \<open>Messages\<close>

definition MsgCONNECT :: u8 where "MsgCONNECT = 0"
definition MsgDATA :: u8 where "MsgDATA = 1"
definition MsgACK :: u8 where "MsgACK = 2"
definition MsgINVALID :: u8 where "MsgINVALID = 3"

lemmas msg_type_defs = MsgCONNECT_def MsgDATA_def MsgACK_def MsgINVALID_def

lemma msg_types_distinct [simp]:
  "MsgCONNECT \<noteq> MsgDATA" "MsgDATA \<noteq> MsgCONNECT" "MsgCONNECT \<noteq> MsgACK"
  "MsgACK \<noteq> MsgCONNECT" "MsgDATA \<noteq> MsgACK" "MsgACK \<noteq> MsgDATA"
  by (simp_all add: msg_type_defs)

record LspMsg =
  msg_Type :: u8
  msg_ConnId :: u16
  msg_SeqNum :: u8
  msg_Payload :: string

definition genConnMsg :: "u16 \<Rightarrow> LspMsg" where
  "genConnMsg cid =
     \<lparr>msg_Type = MsgCONNECT, msg_ConnId = cid, msg_SeqNum = 0, msg_Payload = ''MsgCONNECT''\<rparr>"

definition genAckMsg :: "u16 \<Rightarrow> u8 \<Rightarrow> LspMsg" where
  "genAckMsg cid seqnum =
     \<lparr>msg_Type = MsgACK, msg_ConnId = cid, msg_SeqNum = seqnum, msg_Payload = ''MsgACK''\<rparr>"

definition genDataMsg :: "u16 \<Rightarrow> u8 \<Rightarrow> string \<Rightarrow> LspMsg" where
  "genDataMsg cid seqnum data =
     \<lparr>msg_Type = MsgDATA, msg_ConnId = cid, msg_SeqNum = seqnum, msg_Payload = data\<rparr>"

lemma gen_msg_simps [simp]:
  "msg_Type (genConnMsg c) = MsgCONNECT" "msg_SeqNum (genConnMsg c) = 0"
  "msg_Type (genAckMsg c s) = MsgACK" "msg_SeqNum (genAckMsg c s) = s"
  "msg_Type (genDataMsg c s p) = MsgDATA" "msg_SeqNum (genDataMsg c s p) = s"
  "msg_Payload (genDataMsg c s p) = p" "msg_ConnId (genAckMsg c s) = c"
  "msg_ConnId (genDataMsg c s p) = c"
  by (simp_all add: genConnMsg_def genAckMsg_def genDataMsg_def)

section \<open>The connection\<close>

record LspParams =
  EpochLimit :: int
  EpochMilliseconds :: int

datatype side = ClientSide | ServerSide

record lspConn =
  lc_params :: LspParams
  lc_addr :: string
  lc_connId :: u16
  lc_sendBuf :: "LspMsg Buf"
  lc_recvBuf :: "LspMsg Buf"
  lc_closed :: bool
  lc_nextRecvSeqNum :: u8
  lc_nextSendSeqNum :: u8
  lc_lastAck :: "LspMsg option"
  lc_lastTime :: time
  lc_whichSide :: side

text \<open>The new connection and the message that \<open>newLspConn\<close> puts on its \<open>sendChan\<close>.\<close>

definition newLspConn :: "LspParams \<Rightarrow> string \<Rightarrow> u16 \<Rightarrow> time \<Rightarrow> lspConn \<times> LspMsg" where
  "newLspConn params addr cid now =
     (let conn = \<lparr>lc_params = params, lc_addr = addr, lc_connId = cid,
                  lc_sendBuf = NewBuf, lc_recvBuf = NewBuf, lc_closed = False,
                  lc_nextRecvSeqNum = 1, lc_nextSendSeqNum = 1,
                  lc_lastAck = Some (genAckMsg cid 0), lc_lastTime = now,
                  lc_whichSide = ClientSide\<rparr>
      in if cid = 0 then (conn\<lparr>lc_whichSide := ClientSide\<rparr>, genConnMsg 0)
         else (conn\<lparr>lc_whichSide := ServerSide\<rparr>, genAckMsg cid 0))"

text \<open>
  What the goroutine emits: datagrams (written to the peer by \<open>Write\<close> on the client side and
  \<open>WriteToUDP\<close> on the server side), messages for the application, and its own removal.
\<close>

datatype conn_out =
  UdpWrite LspMsg
| UdpWriteTo string LspMsg
| ToReadChan LspMsg
| ToRemoveChan u16

definition udpWrite :: "lspConn \<Rightarrow> LspMsg \<Rightarrow> conn_out" where
  "udpWrite conn msg =
     (case lc_whichSide conn of
        ClientSide \<Rightarrow> UdpWrite msg
      | ServerSide \<Rightarrow> UdpWriteTo (lc_addr conn) msg)"

text \<open>\<open>b, _ := buf.Front(); b.(*LspMsg)\<close>: the assertion panics on the nil of an empty buffer.\<close>

definition frontMsg :: "LspMsg Buf \<Rightarrow> LspMsg go" where
  "frontMsg b = do { r \<leftarrow> buf_Front b; case r of Inl e \<Rightarrow> None | Inr m \<Rightarrow> Some m }"

definition conn_send :: "LspMsg \<Rightarrow> lspConn \<Rightarrow> (lspConn \<times> conn_out list) go" where
  "conn_send msg conn =
     (if msg_Type msg = MsgCONNECT then do {
        sb \<leftarrow> buf_Insert msg (lc_sendBuf conn);
        let conn1 = conn\<lparr>lc_sendBuf := sb\<rparr>;
        Some (conn1, [udpWrite conn1 msg]) }
      else if msg_Type msg = MsgDATA then do {
        let m = msg\<lparr>msg_SeqNum := lc_nextSendSeqNum conn\<rparr>;
        let conn1 = conn\<lparr>lc_nextSendSeqNum := lc_nextSendSeqNum conn + 1\<rparr>;
        sb \<leftarrow> buf_Insert m (lc_sendBuf conn1);
        let conn2 = conn1\<lparr>lc_sendBuf := sb\<rparr>;
        f \<leftarrow> frontMsg sb;
        Some (conn2, [udpWrite conn2 f]) }
      else Some (conn, [udpWrite conn msg]))"

text \<open>
  \<open>receive\<close> also says whether it reached \<open>conn.writeDone <- nil\<close>.  That channel is unbuffered and
  its only receiver is the \<open>select\<close> of \<open>serve\<close>, the goroutine that is executing the send.
\<close>

definition conn_receive :: "LspMsg \<Rightarrow> lspConn \<Rightarrow> (lspConn \<times> conn_out list \<times> bool) go" where
  "conn_receive msg conn =
     (if msg_Type msg = MsgDATA then
        (if msg_SeqNum msg = lc_nextRecvSeqNum conn then do {
           rb \<leftarrow> buf_Insert msg (lc_recvBuf conn);
           let ack = genAckMsg (lc_connId conn) (msg_SeqNum msg);
           let conn1 = conn\<lparr>lc_recvBuf := rb,
                            lc_nextRecvSeqNum := lc_nextRecvSeqNum conn + 1,
                            lc_lastAck := Some ack\<rparr>;
           Some (conn1, [udpWrite conn1 ack], False) }
         else do {
           ack \<leftarrow> lc_lastAck conn;
           Some (conn, [udpWrite conn ack], False) })
      else if msg_Type msg = MsgACK then
        (if buf_Empty (lc_sendBuf conn) then Some (conn, [], False)
         else do {
           expect \<leftarrow> frontMsg (lc_sendBuf conn);
           (conn1, out) \<leftarrow>
             (if msg_SeqNum msg = msg_SeqNum expect then do {
                (sb, r) \<leftarrow> buf_Remove (lc_sendBuf conn);
                let conn1 = conn\<lparr>lc_sendBuf := sb,
                                 lc_connId := (if msg_SeqNum msg = 0 then msg_ConnId msg
                                               else lc_connId conn)\<rparr>;
                if \<not> buf_Empty sb then do {
                  m \<leftarrow> frontMsg sb;
                  Some (conn1, [udpWrite conn1 m]) }
                else Some (conn1, []) }
              else Some (conn, [udpWrite conn expect]));
           Some (conn1, out, buf_Empty (lc_sendBuf conn1) \<and> lc_closed conn1) })
      else Some (conn, [], False))"

definition conn_epochTrigger :: "time \<Rightarrow> lspConn \<Rightarrow> (conn_out list \<times> bool) go" where
  "conn_epochTrigger now conn = do {
     out1 \<leftarrow> (if \<not> buf_Empty (lc_sendBuf conn) then do {
                msg \<leftarrow> frontMsg (lc_sendBuf conn);
                Some [udpWrite conn msg] }
              else Some []);
     let out2 = (case lc_lastAck conn of None \<Rightarrow> [] | Some ack \<Rightarrow> [udpWrite conn ack]);
     let delay = now - lc_lastTime conn;
     let allowed = milliseconds (EpochMilliseconds (lc_params conn) * EpochLimit (lc_params conn));
     if delay \<ge> allowed then Some (out1 @ out2 @ [ToRemoveChan (lc_connId conn)], False)
     else Some (out1 @ out2, True) }"

section \<open>The serve loop\<close>

datatype conn_event =
  SendChan LspMsg
| RecvChan LspMsg
| ReadChan
| CloseChan
| Timeout

datatype status = Running | Returned | Stuck

text \<open>
  One turn of \<open>serve\<close> at time \<open>now\<close>.  \<open>ReadChan\<close> is the application taking the first buffered
  message; the case is disabled (a nil channel) when the receive buffer is empty.  The case for
  \<open>writeDone\<close> cannot be taken: its only sender is \<open>receive\<close>, which runs in this goroutine.
\<close>

definition conn_step ::
  "time \<Rightarrow> conn_event \<Rightarrow> lspConn \<Rightarrow> (lspConn \<times> conn_out list \<times> status) go" where
  "conn_step now ev conn =
     (case ev of
        SendChan msg \<Rightarrow>
          (if \<not> lc_closed conn then do {
             (conn1, out) \<leftarrow> conn_send msg conn;
             Some (conn1, out, Running) }
           else Some (conn, [], Running))
      | RecvChan msg \<Rightarrow> do {
          (conn1, out, blocked) \<leftarrow> conn_receive msg (conn\<lparr>lc_lastTime := now\<rparr>);
          Some (conn1, out, if blocked then Stuck else Running) }
      | ReadChan \<Rightarrow>
          (if buf_Empty (lc_recvBuf conn) then Some (conn, [], Running)
           else do {
             first \<leftarrow> frontMsg (lc_recvBuf conn);
             (rb, r) \<leftarrow> buf_Remove (lc_recvBuf conn);
             Some (conn\<lparr>lc_recvBuf := rb\<rparr>, [ToReadChan first], Running) })
      | CloseChan \<Rightarrow> Some (conn\<lparr>lc_closed := True\<rparr>, [], Running)
      | Timeout \<Rightarrow> do {
          (out, go_on) \<leftarrow> conn_epochTrigger now conn;
          Some (conn, out, if go_on then Running else Returned) })"

section \<open>What the operations do to the buffered messages\<close>

definition conn_rep :: "lspConn \<Rightarrow> LspMsg list \<Rightarrow> LspMsg list \<Rightarrow> bool" where
  "conn_rep c sb rb \<longleftrightarrow> buf_rep (lc_sendBuf c) sb \<and> buf_rep (lc_recvBuf c) rb"

lemma conn_rep_new: "conn_rep (fst (newLspConn ps addr cid now)) [] []"
  by (simp add: conn_rep_def newLspConn_def bufi.rep_new)

lemma frontMsg_rep: "buf_rep b (m # ms) \<Longrightarrow> frontMsg b = Some m"
  by (simp add: frontMsg_def bufi.rep_front)

lemma udpWrite_simps [simp]:
  "udpWrite (c\<lparr>lc_sendBuf := sb\<rparr>) m = udpWrite c m"
  "udpWrite (c\<lparr>lc_recvBuf := rb\<rparr>) m = udpWrite c m"
  "udpWrite (c\<lparr>lc_nextSendSeqNum := n\<rparr>) m = udpWrite c m"
  "udpWrite (c\<lparr>lc_nextRecvSeqNum := n\<rparr>) m = udpWrite c m"
  "udpWrite (c\<lparr>lc_lastAck := a\<rparr>) m = udpWrite c m"
  "udpWrite (c\<lparr>lc_connId := i\<rparr>) m = udpWrite c m"
  "udpWrite (c\<lparr>lc_lastTime := t\<rparr>) m = udpWrite c m"
  "udpWrite (c\<lparr>lc_closed := b\<rparr>) m = udpWrite c m"
  by (simp_all add: udpWrite_def split: side.split)

lemma conn_rep_simps [simp]:
  "conn_rep (c\<lparr>lc_lastTime := t\<rparr>) sb rb \<longleftrightarrow> conn_rep c sb rb"
  "conn_rep (c\<lparr>lc_closed := b\<rparr>) sb rb \<longleftrightarrow> conn_rep c sb rb"
  by (simp_all add: conn_rep_def)

text \<open>Only the oldest unacknowledged message is ever on the wire.\<close>

lemma conn_send_data:
  assumes "conn_rep c sb rb" "msg_Type msg = MsgDATA"
  defines "m \<equiv> msg\<lparr>msg_SeqNum := lc_nextSendSeqNum c\<rparr>"
  shows "\<exists>b. conn_send msg c =
      Some (c\<lparr>lc_nextSendSeqNum := lc_nextSendSeqNum c + 1, lc_sendBuf := b\<rparr>,
            [udpWrite c (hd (sb @ [m]))]) \<and> buf_rep b (sb @ [m])"
proof -
  obtain b where b: "buf_Insert m (lc_sendBuf c) = Some b" "buf_rep b (sb @ [m])"
    using assms bufi.rep_ins [of "lc_sendBuf c" sb m] by (auto simp: conn_rep_def)
  then have "frontMsg b = Some (hd (sb @ [m]))"
    by (cases "sb @ [m]") (auto intro: frontMsg_rep)
  with b assms(2) show ?thesis by (auto simp: conn_send_def m_def intro!: exI [of _ b])
qed

lemma conn_send_connect:
  assumes "conn_rep c sb rb" "msg_Type msg = MsgCONNECT"
  shows "\<exists>b. conn_send msg c = Some (c\<lparr>lc_sendBuf := b\<rparr>, [udpWrite c msg]) \<and>
    buf_rep b (sb @ [msg])"
  using assms bufi.rep_ins [of "lc_sendBuf c" sb msg] by (auto simp: conn_rep_def conn_send_def)

lemma conn_send_other:
  "msg_Type msg \<noteq> MsgCONNECT \<Longrightarrow> msg_Type msg \<noteq> MsgDATA \<Longrightarrow>
   conn_send msg c = Some (c, [udpWrite c msg])"
  by (simp add: conn_send_def)

lemma conn_receive_data_accept:
  assumes "conn_rep c sb rb" "msg_Type msg = MsgDATA" "msg_SeqNum msg = lc_nextRecvSeqNum c"
  defines "ack \<equiv> genAckMsg (lc_connId c) (msg_SeqNum msg)"
  shows "\<exists>b. conn_receive msg c =
      Some (c\<lparr>lc_recvBuf := b, lc_nextRecvSeqNum := lc_nextRecvSeqNum c + 1, lc_lastAck := Some ack\<rparr>,
            [udpWrite c ack], False) \<and> buf_rep b (rb @ [msg])"
  using assms bufi.rep_ins [of "lc_recvBuf c" rb msg] by (auto simp: conn_rep_def conn_receive_def)

lemma conn_receive_data_reject:
  assumes "msg_Type msg = MsgDATA" "msg_SeqNum msg \<noteq> lc_nextRecvSeqNum c"
    and "lc_lastAck c = Some ack"
  shows "conn_receive msg c = Some (c, [udpWrite c ack], False)"
  using assms by (simp add: conn_receive_def)

lemma conn_receive_ack_idle:
  assumes "conn_rep c [] rb" "msg_Type msg = MsgACK"
  shows "conn_receive msg c = Some (c, [], False)"
  using assms bufi.rep_isempty [of "lc_sendBuf c" "[]"] by (simp add: conn_rep_def conn_receive_def)

lemma conn_receive_ack_mismatch:
  assumes "conn_rep c (f # sb) rb" "msg_Type msg = MsgACK" "msg_SeqNum msg \<noteq> msg_SeqNum f"
  shows "conn_receive msg c = Some (c, [udpWrite c f], False)"
  using assms bufi.rep_isempty [of "lc_sendBuf c" "f # sb"] frontMsg_rep [of "lc_sendBuf c" f sb]
  by (simp add: conn_rep_def conn_receive_def)

lemma conn_receive_ack_match:
  assumes rep: "conn_rep c (f # sb) rb"
    and msg: "msg_Type msg = MsgACK" "msg_SeqNum msg = msg_SeqNum f"
  shows "\<exists>b. conn_receive msg c =
      Some (c\<lparr>lc_sendBuf := b,
              lc_connId := (if msg_SeqNum msg = 0 then msg_ConnId msg else lc_connId c)\<rparr>,
            (case sb of [] \<Rightarrow> [] | g # _ \<Rightarrow> [udpWrite c g]), sb = [] \<and> lc_closed c) \<and>
      buf_rep b sb"
proof -
  from rep have "buf_rep (lc_sendBuf c) (f # sb)" by (simp add: conn_rep_def)
  then obtain b where "\<not> buf_Empty (lc_sendBuf c)" "frontMsg (lc_sendBuf c) = Some f"
      "buf_Remove (lc_sendBuf c) = Some (b, Inr f)" "buf_rep b sb"
    using bufi.rep_remove [of "lc_sendBuf c" f sb] frontMsg_rep [of "lc_sendBuf c" f sb]
      bufi.rep_isempty [of "lc_sendBuf c" "f # sb"] by auto
  with msg show ?thesis
    using bufi.rep_isempty [of b sb] frontMsg_rep [of b]
    by (cases sb) (auto simp: conn_receive_def)
qed

lemma conn_receive_other:
  "msg_Type msg \<noteq> MsgDATA \<Longrightarrow> msg_Type msg \<noteq> MsgACK \<Longrightarrow> conn_receive msg c = Some (c, [], False)"
  by (simp add: conn_receive_def)

lemma conn_epoch:
  assumes "conn_rep c sb rb"
  shows "conn_epochTrigger now c =
     (let out = (case sb of [] \<Rightarrow> [] | f # _ \<Rightarrow> [udpWrite c f]) @
                (case lc_lastAck c of None \<Rightarrow> [] | Some ack \<Rightarrow> [udpWrite c ack]);
          allowed = milliseconds (EpochMilliseconds (lc_params c) * EpochLimit (lc_params c))
      in if now - lc_lastTime c \<ge> allowed then Some (out @ [ToRemoveChan (lc_connId c)], False)
         else Some (out, True))"
proof -
  from assms have rep: "buf_rep (lc_sendBuf c) sb" by (simp add: conn_rep_def)
  show ?thesis
  proof (cases sb)
    case Nil
    with bufi.rep_isempty [OF rep] show ?thesis by (simp add: conn_epochTrigger_def)
  next
    case (Cons f fs)
    with bufi.rep_isempty [OF rep] frontMsg_rep [of "lc_sendBuf c" f fs] rep show ?thesis
      by (simp add: conn_epochTrigger_def)
  qed
qed

lemma conn_read:
  assumes "conn_rep c sb rb"
  shows "\<exists>b. conn_step now ReadChan c =
      Some (case rb of [] \<Rightarrow> (c, [], Running)
            | f # _ \<Rightarrow> (c\<lparr>lc_recvBuf := b\<rparr>, [ToReadChan f], Running)) \<and>
      (rb \<noteq> [] \<longrightarrow> buf_rep b (tl rb))"
proof -
  from assms have rep: "buf_rep (lc_recvBuf c) rb" by (simp add: conn_rep_def)
  show ?thesis
  proof (cases rb)
    case Nil
    with bufi.rep_isempty [OF rep] show ?thesis by (simp add: conn_step_def)
  next
    case (Cons f fs)
    with rep obtain b where "buf_Remove (lc_recvBuf c) = Some (b, Inr f)" "buf_rep b fs"
      using bufi.rep_remove [of "lc_recvBuf c" f fs] by auto
    with bufi.rep_isempty [OF rep] frontMsg_rep [of "lc_recvBuf c" f fs] rep Cons show ?thesis
      by (auto simp: conn_step_def intro!: exI [of _ b])
  qed
qed

text \<open>A well-formed connection never panics and stays well formed.\<close>

lemma conn_step_ok:
  assumes "conn_rep c sb rb" "lc_lastAck c \<noteq> None"
  shows "\<exists>c' out st sb' rb'. conn_step now ev c = Some (c', out, st) \<and> conn_rep c' sb' rb' \<and>
    lc_lastAck c' \<noteq> None \<and> lc_addr c' = lc_addr c"
proof (cases ev)
  case (SendChan m)
  consider "msg_Type m = MsgDATA" | "msg_Type m = MsgCONNECT"
    | "msg_Type m \<noteq> MsgDATA" "msg_Type m \<noteq> MsgCONNECT" by blast
  then show ?thesis
  proof cases
    case 1
    with SendChan assms conn_send_data [OF assms(1), of m] show ?thesis
      by (fastforce simp: conn_step_def conn_rep_def)
  next
    case 2
    with SendChan assms conn_send_connect [OF assms(1), of m] show ?thesis
      by (fastforce simp: conn_step_def conn_rep_def)
  next
    case 3
    with SendChan assms conn_send_other [of m c] show ?thesis
      by (fastforce simp: conn_step_def)
  qed
next
  case (RecvChan m)
  let ?c = "c\<lparr>lc_lastTime := now\<rparr>"
  from assms(1) have rep: "conn_rep ?c sb rb" by simp
  have "\<exists>c' out b sb' rb'. conn_receive m ?c = Some (c', out, b) \<and> conn_rep c' sb' rb' \<and>
    lc_lastAck c' \<noteq> None \<and> lc_addr c' = lc_addr c"
  proof -
    consider (accept) "msg_Type m = MsgDATA" "msg_SeqNum m = lc_nextRecvSeqNum ?c"
      | (reject) ack where "msg_Type m = MsgDATA" "msg_SeqNum m \<noteq> lc_nextRecvSeqNum ?c"
        "lc_lastAck ?c = Some ack"
      | (idle) "msg_Type m = MsgACK" "sb = []"
      | (hit) f fs where "msg_Type m = MsgACK" "sb = f # fs" "msg_SeqNum m = msg_SeqNum f"
      | (miss) f fs where "msg_Type m = MsgACK" "sb = f # fs" "msg_SeqNum m \<noteq> msg_SeqNum f"
      | (other) "msg_Type m \<noteq> MsgDATA" "msg_Type m \<noteq> MsgACK"
      using assms(2) by (cases sb) auto
    then show ?thesis
    proof cases
      case accept
      with conn_receive_data_accept [OF rep, of m] rep show ?thesis
        by (fastforce simp: conn_rep_def)
    next
      case reject
      with conn_receive_data_reject [of m ?c] rep show ?thesis by fastforce
    next
      case idle
      with conn_receive_ack_idle [of ?c rb m] rep assms(2) show ?thesis by fastforce
    next
      case hit
      with conn_receive_ack_match [of ?c f fs rb m] rep assms(2) show ?thesis
        by (fastforce simp: conn_rep_def)
    next
      case miss
      with conn_receive_ack_mismatch [of ?c f fs rb m] rep assms(2) show ?thesis by fastforce
    next
      case other
      with conn_receive_other [of m ?c] rep assms(2) show ?thesis by fastforce
    qed
  qed
  with RecvChan show ?thesis by (fastforce simp: conn_step_def)
next
  case ReadChan
  from conn_read [OF assms(1), of now] obtain b where b: "conn_step now ReadChan c =
      Some (case rb of [] \<Rightarrow> (c, [], Running)
            | f # _ \<Rightarrow> (c\<lparr>lc_recvBuf := b\<rparr>, [ToReadChan f], Running))"
      "rb \<noteq> [] \<longrightarrow> buf_rep b (tl rb)" by blast
  show ?thesis
    by (cases rb) (use ReadChan b assms in \<open>fastforce simp: conn_rep_def\<close>)+
next
  case CloseChan
  with assms show ?thesis by (fastforce simp: conn_step_def)
next
  case Timeout
  with assms conn_epoch [OF assms(1), of now] show ?thesis by (auto simp: conn_step_def)
qed

section \<open>Handing events to a connection\<close>

text \<open>
  The goroutine that owns a connection talks to it over channels.  A send to a connection whose
  goroutine no longer takes part in its \<open>select\<close> parks in the channel's one-place buffer
  (\<open>sendChan\<close>, \<open>recvChan\<close>) or, when there is no room (\<open>closeChan\<close> has none), blocks the sender:
  \<open>to_conn\<close> then has \<open>None\<close> in its first component.
\<close>

record conn_entry =
  ce_conn :: lspConn
  ce_status :: status
  ce_sendParked :: bool
  ce_recvParked :: bool

definition to_conn ::
  "time \<Rightarrow> conn_event \<Rightarrow> conn_entry \<Rightarrow> (conn_entry option \<times> conn_out list) go" where
  "to_conn now ev e =
     (if ce_status e = Running then do {
        (c, out, st) \<leftarrow> conn_step now ev (ce_conn e);
        Some (Some (e\<lparr>ce_conn := c, ce_status := st\<rparr>), out) }
      else case ev of
          SendChan m \<Rightarrow>
            Some (if ce_sendParked e then None else Some (e\<lparr>ce_sendParked := True\<rparr>), [])
        | RecvChan m \<Rightarrow>
            Some (if ce_recvParked e then None else Some (e\<lparr>ce_recvParked := True\<rparr>), [])
        | CloseChan \<Rightarrow> Some (None, [])
        | _ \<Rightarrow> Some (Some e, []))"

text \<open>
  What keeps a connection from panicking: its buffers are well formed and the acknowledgement
  that is repeated every epoch exists.
\<close>

definition entry_ok :: "string \<Rightarrow> conn_entry \<Rightarrow> bool" where
  "entry_ok addr e \<longleftrightarrow>
     (\<exists>sb rb. conn_rep (ce_conn e) sb rb) \<and> lc_lastAck (ce_conn e) \<noteq> None \<and>
     lc_addr (ce_conn e) = addr"

lemma to_conn_ok:
  assumes "entry_ok a e"
  shows "\<exists>e' out. to_conn now ev e = Some (e', out) \<and> (\<forall>e''. e' = Some e'' \<longrightarrow> entry_ok a e'')"
proof (cases "ce_status e = Running")
  case True
  from assms obtain sb rb where "conn_rep (ce_conn e) sb rb" "lc_lastAck (ce_conn e) \<noteq> None"
      "lc_addr (ce_conn e) = a" by (auto simp: entry_ok_def)
  with conn_step_ok [of "ce_conn e" sb rb now ev] True show ?thesis
    by (fastforce simp: to_conn_def entry_ok_def)
next
  case False
  with assms show ?thesis by (cases ev) (auto simp: to_conn_def entry_ok_def)
qed

section \<open>Properties\<close>

text \<open>
  C29: Closing deadlocks the connection.  When a closed connection still has one unacknowledged
  message, the acknowledgement that would finish the close empties the buffer and then blocks
  the goroutine for ever in \<open>conn.writeDone <- nil\<close>, whose only receiver is that goroutine.
\<close>

theorem conn_close_deadlocks:
  assumes "conn_rep c [f] rb" and "lc_closed c"
    and "msg_Type msg = MsgACK" and "msg_SeqNum msg = msg_SeqNum f"
  shows "\<exists>c' out. conn_step now (RecvChan msg) c = Some (c', out, Stuck) \<and> buf_Empty (lc_sendBuf c')"
proof -
  have rep: "conn_rep (c\<lparr>lc_lastTime := now\<rparr>) [f] rb" using assms(1) by simp
  obtain b where b: "buf_rep b []" and "conn_receive msg (c\<lparr>lc_lastTime := now\<rparr>) =
      Some (c\<lparr>lc_lastTime := now, lc_sendBuf := b, lc_connId :=
              (if msg_SeqNum msg = 0 then msg_ConnId msg else lc_connId c)\<rparr>, [], True)"
    using conn_receive_ack_match [OF rep assms(3,4)] assms(2) by auto
  then show ?thesis using bufi.rep_isempty [OF b] by (simp add: conn_step_def)
qed

lemma connecting_rep:
  "\<exists>c out. conn_step 0 (SendChan (genConnMsg 0)) (fst (newLspConn ps addr 0 0)) = Some (c, out, Running) \<and>
     conn_rep c [genConnMsg 0] []"
proof -
  have t: "msg_Type (genConnMsg 0) = MsgCONNECT" by simp
  from conn_send_connect [OF conn_rep_new t, of ps addr 0 0] conn_rep_new [of ps addr 0 0]
  show ?thesis by (auto simp: conn_step_def newLspConn_def conn_rep_def)
qed

theorem conn_close_deadlocks_witness:
  "\<exists>c. conn_rep c [genConnMsg 0] [] \<and> lc_closed c \<and>
     (\<exists>c' out. conn_step 0 (RecvChan (genAckMsg 1 0)) c = Some (c', out, Stuck))"
proof -
  obtain c :: lspConn where "conn_rep c [genConnMsg 0] []"
    using connecting_rep [of "\<lparr>EpochLimit = 5, EpochMilliseconds = 2000\<rparr>" "''a''"] by blast
  then have rep: "conn_rep (c\<lparr>lc_closed := True\<rparr>) [genConnMsg 0] []" by simp
  from conn_close_deadlocks [OF rep, of "genAckMsg 1 0" 0] rep show ?thesis
    by (intro exI [of _ "c\<lparr>lc_closed := True\<rparr>"]) auto
qed

end
