(* ===== verification/LspServer.thy ===== *)
theory LspServer
  imports LspConn
begin

text \<open>
  The server side of LSP: \<open>lsp_server.go\<close> of \<open>15-440/P1-F11/lsp\<close>.

  The main goroutine \<open>loopServe\<close> owns the map from client addresses to connections; every
  connection runs the goroutine modelled by \<open>conn_step\<close>.  The map is an association list: the
  order of its entries stands for the order in which Go iterates over it.

  Handing an event to a connection is \<open>to_conn\<close> of \<open>LspConn\<close>; when that send blocks, the server
  goroutine blocks for good.
\<close>

section \<open>State\<close>

datatype srv_status = Serving | Stopped | Deadlocked

record server =
  sv_nextConnId :: u16
  sv_connMap :: "(string \<times> conn_entry) list"
  sv_params :: LspParams
  sv_stop :: bool
  sv_closeAllReply :: bool
  sv_replied :: bool
  sv_status :: srv_status

definition newLspServer :: "LspParams option \<Rightarrow> server" where
  "newLspServer params =
     \<lparr>sv_nextConnId = 1, sv_connMap = [],
      sv_params = (case params of
          None \<Rightarrow> \<lparr>EpochLimit = 5, EpochMilliseconds = 2000\<rparr>
        | Some p \<Rightarrow> p),
      sv_stop = False, sv_closeAllReply = False, sv_replied = False, sv_status = Serving\<rparr>"

section \<open>Operations\<close>

definition getConnById :: "u16 \<Rightarrow> server \<Rightarrow> (string \<times> conn_entry) option" where
  "getConnById cid srv = List.find (\<lambda>(a, v). lc_connId (ce_conn v) = cid) (sv_connMap srv)"

definition put_entry :: "string \<Rightarrow> conn_entry option \<Rightarrow> server \<Rightarrow> server" where
  "put_entry addr e srv =
     (case e of
        None \<Rightarrow> srv\<lparr>sv_status := Deadlocked\<rparr>
      | Some e \<Rightarrow> srv\<lparr>sv_connMap := AList.update addr e (sv_connMap srv)\<rparr>)"

definition forward ::
  "time \<Rightarrow> conn_event \<Rightarrow> string \<Rightarrow> conn_entry \<Rightarrow> server \<Rightarrow> (server \<times> conn_out list) go" where
  "forward now ev addr e srv = do {
     (e1, out) \<leftarrow> to_conn now ev e;
     Some (put_entry addr e1 srv, out) }"

text \<open>
  \<open>handleUdpPacket\<close>.  For data and acknowledgements the connection is used without a check:
  \<open>conn.recvChan\<close> of the nil connection of an unknown address panics.
\<close>

definition handleUdpPacket ::
  "time \<Rightarrow> string \<Rightarrow> LspMsg \<Rightarrow> server \<Rightarrow> (server \<times> conn_out list) go" where
  "handleUdpPacket now hostport msg srv =
     (let conn = map_of (sv_connMap srv) hostport in
      if msg_Type msg = MsgCONNECT then
        (case conn of
           Some _ \<Rightarrow> Some (srv, [])
         | None \<Rightarrow> do {
             let (c, first) = newLspConn (sv_params srv) hostport (sv_nextConnId srv) now;
             (c1, out, st) \<leftarrow> conn_step now (SendChan first) c;
             Some (srv\<lparr>sv_nextConnId := sv_nextConnId srv + 1,
                       sv_connMap := AList.update hostport
                         \<lparr>ce_conn = c1, ce_status = st, ce_sendParked = False, ce_recvParked = False\<rparr>
                         (sv_connMap srv)\<rparr>, out) })
      else if msg_Type msg = MsgDATA \<or> msg_Type msg = MsgACK then
        (case conn of
           None \<Rightarrow> None
         | Some e \<Rightarrow> forward now (RecvChan msg) hostport e srv)
      else Some (srv, []))"

fun close_each ::
  "time \<Rightarrow> (string \<times> conn_entry) list \<Rightarrow> server \<Rightarrow> (server \<times> conn_out list) go" where
  "close_each now [] srv = Some (srv, [])"
| "close_each now ((addr, e) # es) srv =
     (if sv_status srv \<noteq> Serving then Some (srv, [])
      else do {
        (srv1, out1) \<leftarrow> forward now CloseChan addr e srv;
        (srv2, out2) \<leftarrow> close_each now es srv1;
        Some (srv2, out1 @ out2) })"

definition remove_conn :: "u16 \<Rightarrow> server \<Rightarrow> server" where
  "remove_conn cid srv =
     (let srv1 = (case getConnById cid srv of
            None \<Rightarrow> srv
          | Some (a, e) \<Rightarrow>
              srv\<lparr>sv_connMap := AList.delete (lc_addr (ce_conn e)) (sv_connMap srv)\<rparr>)
      in if sv_stop srv1 \<and> sv_connMap srv1 = [] then
           srv1\<lparr>sv_replied := sv_closeAllReply srv1, sv_status := Stopped\<rparr>
         else srv1)"

datatype srv_event =
  NetRead string LspMsg
| AppWrite LspMsg
| CloseConn u16
| CloseAll
| ConnTimeout string
| ConnRead string

text \<open>
  One turn of \<open>loopServe\<close>, or one turn of a connection's own goroutine (\<open>ConnTimeout\<close>, the
  application's \<open>ConnRead\<close>).  A connection that times out hands its id over on the unbuffered
  \<open>removeConnChan\<close>, a joint step with the server goroutine.
\<close>

definition srv_step ::
  "time \<Rightarrow> srv_event \<Rightarrow> server \<Rightarrow> (server \<times> conn_out list) go" where
  "srv_step now ev srv =
     (if sv_status srv \<noteq> Serving then Some (srv, [])
      else case ev of
          NetRead addr msg \<Rightarrow> handleUdpPacket now addr msg srv
        | AppWrite msg \<Rightarrow>
            (case getConnById (msg_ConnId msg) srv of
               None \<Rightarrow> Some (srv, [])
             | Some (addr, e) \<Rightarrow> forward now (SendChan msg) addr e srv)
        | CloseConn cid \<Rightarrow>
            (case getConnById cid srv of
               None \<Rightarrow> Some (srv, [])
             | Some (addr, e) \<Rightarrow> forward now CloseChan addr e srv)
        | CloseAll \<Rightarrow>
            (let srv1 = srv\<lparr>sv_closeAllReply := True, sv_stop := True\<rparr>
             in close_each now (sv_connMap srv1) srv1)
        | ConnTimeout addr \<Rightarrow>
            (case map_of (sv_connMap srv) addr of
               None \<Rightarrow> Some (srv, [])
             | Some e \<Rightarrow>
                 if ce_status e \<noteq> Running then Some (srv, [])
                 else do {
                   (c, out, st) \<leftarrow> conn_step now Timeout (ce_conn e);
                   let srv1 = put_entry addr (Some (e\<lparr>ce_conn := c, ce_status := st\<rparr>)) srv;
                   Some (if st = Returned then remove_conn (lc_connId c) srv1 else srv1, out) })
        | ConnRead addr \<Rightarrow>
            (case map_of (sv_connMap srv) addr of
               None \<Rightarrow> Some (srv, [])
             | Some e \<Rightarrow> if ce_status e \<noteq> Running then Some (srv, [])
                         else forward now ReadChan addr e srv))"

text \<open>\<open>read\<close> and \<open>write\<close>, the calls of the application.\<close>

definition server_read :: "LspMsg \<Rightarrow> u16 \<times> string option" where
  "server_read msg =
     (if msg_Type msg = MsgDATA then (msg_ConnId msg, Some (msg_Payload msg)) else (0, None))"

definition server_write :: "u16 \<Rightarrow> string \<Rightarrow> srv_event" where
  "server_write cid payload = AppWrite (genDataMsg cid 0 payload)"

section \<open>Invariant\<close>

text \<open>
  Addresses are unique and agree with the connections' own; the buffers are well formed and the
  acknowledgement that is repeated every epoch exists, so no connection panics.
\<close>

definition server_inv :: "server \<Rightarrow> bool" where
  "server_inv srv \<longleftrightarrow>
     distinct (map fst (sv_connMap srv)) \<and>
     (\<forall>(a, e) \<in> set (sv_connMap srv). entry_ok a e)"

lemma server_inv_init: "server_inv (newLspServer ps)"
  by (simp add: server_inv_def newLspServer_def)

lemma set_update_entries:
  "distinct (map fst al) \<Longrightarrow> p \<in> set (AList.update k v al) \<Longrightarrow> p = (k, v) \<or> p \<in> set al"
  by (induction al) (auto split: if_splits)

lemma put_entry_inv:
  assumes "server_inv srv" "\<forall>e'. e = Some e' \<longrightarrow> entry_ok a e'"
  shows "server_inv (put_entry a e srv)"
  using assms set_update_entries [of "sv_connMap srv" _ a]
  by (fastforce simp: server_inv_def put_entry_def AList.distinct_update split: option.splits)

lemma forward_ok:
  assumes "server_inv srv" "entry_ok a e"
  shows "\<exists>srv' out. forward now ev a e srv = Some (srv', out) \<and> server_inv srv'"
  using to_conn_ok [OF assms(2), of now ev] put_entry_inv [OF assms(1)]
  by (fastforce simp: forward_def)

lemma server_inv_entry: "server_inv srv \<Longrightarrow> map_of (sv_connMap srv) a = Some e \<Longrightarrow> entry_ok a e"
  by (auto simp: server_inv_def dest!: map_of_SomeD)

lemma getConnById_entry:
  "getConnById cid srv = Some (a, e) \<Longrightarrow> (a, e) \<in> set (sv_connMap srv) \<and> lc_connId (ce_conn e) = cid"
  by (auto simp: getConnById_def dest!: find_Some_set)

lemma server_inv_byId: "server_inv srv \<Longrightarrow> getConnById cid srv = Some (a, e) \<Longrightarrow> entry_ok a e"
  using getConnById_entry [of cid srv a e] by (auto simp: server_inv_def)

lemma server_inv_fields [simp]:
  "server_inv (srv\<lparr>sv_stop := x\<rparr>) = server_inv srv"
  "server_inv (srv\<lparr>sv_status := y\<rparr>) = server_inv srv"
  "server_inv (srv\<lparr>sv_replied := z\<rparr>) = server_inv srv"
  "server_inv (srv\<lparr>sv_closeAllReply := w\<rparr>) = server_inv srv"
  by (simp_all add: server_inv_def)

lemma set_delete_entries: "p \<in> set (AList.delete k al) \<longleftrightarrow> p \<in> set al \<and> fst p \<noteq> k"
  by (auto simp: AList.delete_eq)

lemma remove_conn_inv: "server_inv srv \<Longrightarrow> server_inv (remove_conn cid srv)"
  by (auto simp: server_inv_def remove_conn_def AList.distinct_delete set_delete_entries
      split: option.splits)

lemma close_each_ok:
  "server_inv srv \<Longrightarrow> (\<forall>(a, e) \<in> set es. entry_ok a e) \<Longrightarrow>
   \<exists>srv' out. close_each now es srv = Some (srv', out) \<and> server_inv srv'"
proof (induction now es srv rule: close_each.induct)
  case (2 now a e es srv)
  show ?case
  proof (cases "sv_status srv = Serving")
    case True
    from forward_ok [OF "2.prems"(1), of a e now CloseChan] "2.prems"(2) obtain srv1 out1
      where f: "forward now CloseChan a e srv = Some (srv1, out1)" "server_inv srv1" by auto
    with "2.IH" [of "(srv1, out1)" srv1 out1] True "2.prems" show ?thesis by auto
  qed (use "2.prems" in simp)
qed simp

lemma accept_ok:
  assumes "server_inv srv" "map_of (sv_connMap srv) a = None" "msg_Type m = MsgCONNECT"
  shows "\<exists>srv' out. handleUdpPacket now a m srv = Some (srv', out) \<and> server_inv srv'"
proof -
  let ?n = "newLspConn (sv_params srv) a (sv_nextConnId srv) now"
  have "lc_lastAck (fst ?n) \<noteq> None" "lc_addr (fst ?n) = a" by (simp_all add: newLspConn_def)
  with conn_step_ok [OF conn_rep_new, of "sv_params srv" a "sv_nextConnId srv" now now
      "SendChan (snd ?n)"]
  obtain c out st sb rb where step: "conn_step now (SendChan (snd ?n)) (fst ?n) = Some (c, out, st)"
    and "conn_rep c sb rb" "lc_lastAck c \<noteq> None" "lc_addr c = a" by auto
  then have "entry_ok a \<lparr>ce_conn = c, ce_status = st, ce_sendParked = False, ce_recvParked = False\<rparr>"
    by (auto simp: entry_ok_def)
  from put_entry_inv [OF assms(1), of "Some _", simplified, OF this]
  have "server_inv (srv\<lparr>sv_connMap := AList.update a
      \<lparr>ce_conn = c, ce_status = st, ce_sendParked = False, ce_recvParked = False\<rparr> (sv_connMap srv)\<rparr>)"
    by (simp add: put_entry_def)
  with step assms show ?thesis
    by (auto simp: handleUdpPacket_def server_inv_def split: prod.splits)
qed

text \<open>The one way to crash the server: a datagram for a connection that is not in the map.\<close>

definition unknown_peer :: "srv_event \<Rightarrow> server \<Rightarrow> bool" where
  "unknown_peer ev srv \<longleftrightarrow>
     (\<exists>a m. ev = NetRead a m \<and> (msg_Type m = MsgDATA \<or> msg_Type m = MsgACK) \<and>
            map_of (sv_connMap srv) a = None)"

lemma srv_step_crash:
  "sv_status srv = Serving \<Longrightarrow> unknown_peer ev srv \<Longrightarrow> srv_step now ev srv = None"
  by (auto simp: unknown_peer_def srv_step_def handleUdpPacket_def)

lemma srv_step_ok:
  assumes inv: "server_inv srv" and known: "\<not> (sv_status srv = Serving \<and> unknown_peer ev srv)"
  shows "\<exists>srv' out. srv_step now ev srv = Some (srv', out) \<and> server_inv srv'"
proof (cases "sv_status srv = Serving")
  case False
  with inv show ?thesis by (simp add: srv_step_def)
next
  case running: True
  show ?thesis
  proof (cases ev)
    case (NetRead a m)
    have "map_of (sv_connMap srv) a = None \<Longrightarrow> msg_Type m \<noteq> MsgDATA \<and> msg_Type m \<noteq> MsgACK"
      using known NetRead running unfolding unknown_peer_def by blast
    then consider (new) "msg_Type m = MsgCONNECT" "map_of (sv_connMap srv) a = None"
      | (known) e where "map_of (sv_connMap srv) a = Some e"
      | (other) "msg_Type m \<noteq> MsgCONNECT" "msg_Type m \<noteq> MsgDATA" "msg_Type m \<noteq> MsgACK"
      by blast
    then show ?thesis
    proof cases
      case new
      with accept_ok [OF inv new(2,1), of now] running NetRead show ?thesis
        by (simp add: srv_step_def)
    next
      case known
      with server_inv_entry [OF inv known] forward_ok [OF inv, of a e now "RecvChan m"] inv
      show ?thesis using running NetRead by (auto simp: srv_step_def handleUdpPacket_def)
    next
      case other
      with inv running NetRead show ?thesis by (simp add: srv_step_def handleUdpPacket_def)
    qed
  next
    case (AppWrite m)
    with inv running forward_ok [OF inv] server_inv_byId [OF inv] show ?thesis
      by (auto simp: srv_step_def split: option.split)
  next
    case (CloseConn cid)
    with inv running forward_ok [OF inv] server_inv_byId [OF inv] show ?thesis
      by (auto simp: srv_step_def split: option.split)
  next
    case CloseAll
    with inv running show ?thesis
      using close_each_ok [of "srv\<lparr>sv_closeAllReply := True, sv_stop := True\<rparr>" "sv_connMap srv" now]
      by (auto simp: srv_step_def server_inv_def)
  next
    case (ConnTimeout a)
    show ?thesis
    proof (cases "map_of (sv_connMap srv) a")
      case (Some e)
      from server_inv_entry [OF inv Some] obtain sb rb where e: "conn_rep (ce_conn e) sb rb"
          "lc_lastAck (ce_conn e) \<noteq> None" "lc_addr (ce_conn e) = a" by (auto simp: entry_ok_def)
      obtain c out st where c: "conn_step now Timeout (ce_conn e) = Some (c, out, st)"
          "entry_ok a (e\<lparr>ce_conn := c, ce_status := st\<rparr>)"
        using conn_step_ok [OF e(1,2), of now Timeout] e(3) by (fastforce simp: entry_ok_def)
      from put_entry_inv [OF inv, of "Some (e\<lparr>ce_conn := c, ce_status := st\<rparr>)" a] c(2)
      have "server_inv (put_entry a (Some (e\<lparr>ce_conn := c, ce_status := st\<rparr>)) srv)" by simp
      with c(1) Some ConnTimeout running inv remove_conn_inv show ?thesis
        by (auto simp: srv_step_def)
    qed (use inv running ConnTimeout in \<open>simp add: srv_step_def\<close>)
  next
    case (ConnRead a)
    with inv running forward_ok [OF inv] server_inv_entry [OF inv] show ?thesis
      by (auto simp: srv_step_def split: option.split)
  qed
qed

section \<open>Runs\<close>

fun srv_run :: "(time \<times> srv_event) list \<Rightarrow> server \<Rightarrow> (server \<times> conn_out list) go" where
  "srv_run [] srv = Some (srv, [])"
| "srv_run ((now, ev) # es) srv = do {
     (srv1, out1) \<leftarrow> srv_step now ev srv;
     (srv2, out2) \<leftarrow> srv_run es srv1;
     Some (srv2, out1 @ out2) }"

lemma srv_run_append:
  "srv_run (es @ fs) srv = do {
     (srv1, out1) \<leftarrow> srv_run es srv;
     (srv2, out2) \<leftarrow> srv_run fs srv1;
     Some (srv2, out1 @ out2) }"
  by (induction es arbitrary: srv) (auto split: Option.bind_splits)

lemma srv_run_inv: "server_inv srv \<Longrightarrow> srv_run es srv = Some (srv', out) \<Longrightarrow> server_inv srv'"
proof (induction es arbitrary: srv out)
  case (Cons p es)
  obtain now ev where p: "p = (now, ev)" by force
  with Cons.prems obtain srv1 out1 out2 where s: "srv_step now ev srv = Some (srv1, out1)"
      "srv_run es srv1 = Some (srv', out2)" by (auto split: Option.bind_splits)
  have "\<not> (sv_status srv = Serving \<and> unknown_peer ev srv)"
    using srv_step_crash s(1) by fastforce
  with srv_step_ok [OF Cons.prems(1), of ev now] s(1) have "server_inv srv1" by auto
  with Cons.IH s(2) show ?case by blast
qed simp

section \<open>Properties\<close>

text \<open>
  C20: A serving server that was started fresh and has handled any sequence of events crashes on
  the next one exactly when that is a data or acknowledgement datagram from an address without
  a connection; every other event, whatever its contents, is handled.
\<close>

theorem server_crashes_iff:
  assumes "srv_run es (newLspServer ps) = Some (srv, out)" and "sv_status srv = Serving"
  shows "srv_step now ev srv = None \<longleftrightarrow> unknown_peer ev srv"
proof (cases "unknown_peer ev srv")
  case True
  with srv_step_crash [OF assms(2)] show ?thesis by blast
next
  case False
  then have "\<not> (sv_status srv = Serving \<and> unknown_peer ev srv)" by blast
  from srv_step_ok [OF srv_run_inv [OF server_inv_init assms(1)] this, of now] False
  show ?thesis by auto
qed

theorem server_crashes_iff_witness:
  "srv_step 0 (NetRead ''x:1'' (genAckMsg 0 0))
     (newLspServer None) = None"
proof -
  let ?srv = "newLspServer None"
  have run: "srv_run [] ?srv = Some (?srv, [])" and st: "sv_status ?srv = Serving"
    by (simp_all add: newLspServer_def)
  have "unknown_peer (NetRead ''x:1'' (genAckMsg 0 0)) ?srv"
    by (simp add: unknown_peer_def newLspServer_def)
  with server_crashes_iff [OF run st] show ?thesis by blast
qed

end
