(* ===== verification/LspClient.thy ===== *)
theory LspClient
  imports LspConn
begin

text \<open>
  The client side of LSP: \<open>lsp_client.go\<close> of \<open>15-440/P1-F11/lsp\<close>.  The goroutine \<open>loopServe\<close>
  moves what arrives on its channels to the connection, whose own goroutine is \<open>conn_step\<close>; a
  send to a connection that no longer serves its channels is \<open>to_conn\<close> of \<open>LspConn\<close>.

  \<^item> \<open>removeConnChan\<close> is unbuffered: a connection that times out and the loop meet in one step,
    after which the loop has returned.
  \<^item> \<open>connIdChan\<close> has room for one id.
  \<^item> \<open>closeChan\<close> is unbuffered and has one receiver, \<open>loopServe\<close> itself.
\<close>

datatype loop_status =
  Looping | Exited | Blocked_on_conn | Blocked_on_connIdChan | Blocked_on_closeChan

record client =
  cl_conn :: conn_entry
  cl_connid :: u16
  cl_connIdChan :: "u16 list"
  cl_loop :: loop_status

text \<open>The connection starts with its connect message on \<open>sendChan\<close>.\<close>

definition newLspClient :: "string \<Rightarrow> LspParams option \<Rightarrow> time \<Rightarrow> (client \<times> conn_out list) go" where
  "newLspClient addr params now = do {
     let ps = (case params of None \<Rightarrow> \<lparr>EpochLimit = 5, EpochMilliseconds = 2000\<rparr> | Some p \<Rightarrow> p);
     let (c, first) = newLspConn ps addr 0 now;
     (c1, out, st) \<leftarrow> conn_step now (SendChan first) c;
     Some (\<lparr>cl_conn = \<lparr>ce_conn = c1, ce_status = st, ce_sendParked = False, ce_recvParked = False\<rparr>,
            cl_connid = 0, cl_connIdChan = [], cl_loop = Looping\<rparr>, out) }"

definition client_forward ::
  "time \<Rightarrow> conn_event \<Rightarrow> client \<Rightarrow> (client \<times> conn_out list) go" where
  "client_forward now ev cli = do {
     (e, out) \<leftarrow> to_conn now ev (cl_conn cli);
     Some (case e of
             None \<Rightarrow> cli\<lparr>cl_loop := Blocked_on_conn\<rparr>
           | Some e1 \<Rightarrow> cli\<lparr>cl_conn := e1\<rparr>, out) }"

text \<open>One turn of the connection's own goroutine: its timer or the application reading.\<close>

definition client_conn_turn ::
  "time \<Rightarrow> conn_event \<Rightarrow> client \<Rightarrow> (client \<times> conn_out list) go" where
  "client_conn_turn now ev cli =
     (if ce_status (cl_conn cli) \<noteq> Running then Some (cli, [])
      else do {
        (c, out, st) \<leftarrow> conn_step now ev (ce_conn (cl_conn cli));
        let cli1 = cli\<lparr>cl_conn := (cl_conn cli)\<lparr>ce_conn := c, ce_status := st\<rparr>\<rparr>;
        Some (if st = Returned \<and> cl_loop cli1 = Looping then cli1\<lparr>cl_loop := Exited\<rparr> else cli1, out) })"

datatype client_event =
  CNetRead LspMsg
| CAppWrite LspMsg
| CCloseChan
| CTimeout
| CRead

definition client_loop :: "time \<Rightarrow> client_event \<Rightarrow> client \<Rightarrow> (client \<times> conn_out list) go" where
  "client_loop now ev cli =
     (case ev of
        CNetRead msg \<Rightarrow> do {
          (cli1, out) \<leftarrow> client_forward now (RecvChan msg) cli;
          if cl_loop cli1 \<noteq> Looping then Some (cli1, out)
          else if cl_connid cli1 = 0 then
            (let cli2 = cli1\<lparr>cl_connid := msg_ConnId msg\<rparr> in
             if length (cl_connIdChan cli2) < 1 then
               Some (cli2\<lparr>cl_connIdChan := cl_connIdChan cli2 @ [msg_ConnId msg]\<rparr>, out)
             else Some (cli2\<lparr>cl_loop := Blocked_on_connIdChan\<rparr>, out))
          else Some (cli1, out) }
      | CAppWrite msg \<Rightarrow> client_forward now (SendChan msg) cli
      | _ \<Rightarrow> Some (cli\<lparr>cl_loop := Blocked_on_closeChan\<rparr>, []))"

definition client_step :: "time \<Rightarrow> client_event \<Rightarrow> client \<Rightarrow> (client \<times> conn_out list) go" where
  "client_step now ev cli =
     (case ev of
        CTimeout \<Rightarrow> client_conn_turn now Timeout cli
      | CRead \<Rightarrow> client_conn_turn now ReadChan cli
      | _ \<Rightarrow> if cl_loop cli = Looping then client_loop now ev cli else Some (cli, []))"

fun client_run :: "(time \<times> client_event) list \<Rightarrow> client \<Rightarrow> (client \<times> conn_out list) go" where
  "client_run [] cli = Some (cli, [])"
| "client_run ((now, ev) # es) cli = do {
     (cli1, out1) \<leftarrow> client_step now ev cli;
     (cli2, out2) \<leftarrow> client_run es cli1;
     Some (cli2, out1 @ out2) }"

text \<open>The calls of the application.  \<open>connId\<close> returns \<open>None\<close> while it waits on \<open>connIdChan\<close>.\<close>

definition client_connId :: "client \<Rightarrow> u16 option" where
  "client_connId cli =
     (if lc_connId (ce_conn (cl_conn cli)) = 0 then
        (case cl_connIdChan cli of [] \<Rightarrow> None | cid # _ \<Rightarrow> Some cid)
      else Some (lc_connId (ce_conn (cl_conn cli))))"

definition client_read :: "LspMsg \<Rightarrow> string option" where
  "client_read msg = (if msg_Type msg = MsgDATA then Some (msg_Payload msg) else None)"

definition client_write :: "string \<Rightarrow> client \<Rightarrow> client_event" where
  "client_write payload cli = CAppWrite (genDataMsg (lc_connId (ce_conn (cl_conn cli))) 0 payload)"

definition client_closeConn :: client_event where
  "client_closeConn = CCloseChan"

section \<open>No panic\<close>

definition client_inv :: "client \<Rightarrow> bool" where
  "client_inv cli \<longleftrightarrow> entry_ok (lc_addr (ce_conn (cl_conn cli))) (cl_conn cli)"

lemma client_inv_upd [simp]:
  "client_inv (cli\<lparr>cl_loop := l\<rparr>) = client_inv cli"
  "client_inv (cli\<lparr>cl_connid := i\<rparr>) = client_inv cli"
  "client_inv (cli\<lparr>cl_connIdChan := ch\<rparr>) = client_inv cli"
  by (simp_all add: client_inv_def)

lemma entry_ok_addr: "entry_ok a e \<Longrightarrow> client_inv (cli\<lparr>cl_conn := e\<rparr>)"
  by (auto simp: client_inv_def entry_ok_def)

lemma client_new_ok: "\<exists>cli out. newLspClient addr ps now = Some (cli, out) \<and> client_inv cli \<and> cl_loop cli = Looping"
proof -
  let ?ps = "case ps of None \<Rightarrow> \<lparr>EpochLimit = 5, EpochMilliseconds = 2000\<rparr> | Some p \<Rightarrow> p"
  obtain c first where new: "newLspConn ?ps addr 0 now = (c, first)" by (cases "newLspConn ?ps addr 0 now")
  have c: "conn_rep c [] []" "lc_lastAck c \<noteq> None"
    using conn_rep_new [of ?ps addr 0 now] new by (auto simp: newLspConn_def)
  obtain c' out st sb rb where "conn_step now (SendChan first) c = Some (c', out, st)" "conn_rep c' sb rb"
      "lc_lastAck c' \<noteq> None"
    using conn_step_ok [OF c, of now "SendChan first"] by blast
  with new show ?thesis by (auto simp: newLspClient_def client_inv_def entry_ok_def)
qed

lemma client_forward_ok:
  assumes "client_inv cli"
  shows "\<exists>cli' out. client_forward now ev cli = Some (cli', out) \<and> client_inv cli'"
proof -
  obtain e out where e: "to_conn now ev (cl_conn cli) = Some (e, out)"
      "\<forall>e1. e = Some e1 \<longrightarrow> entry_ok (lc_addr (ce_conn (cl_conn cli))) e1"
    using to_conn_ok [of _ "cl_conn cli" now ev] assms unfolding client_inv_def by blast
  with assms show ?thesis by (cases e) (auto simp: client_forward_def intro: entry_ok_addr)
qed

lemma client_conn_turn_ok:
  assumes "client_inv cli"
  shows "\<exists>cli' out. client_conn_turn now ev cli = Some (cli', out) \<and> client_inv cli'"
proof (cases "ce_status (cl_conn cli) = Running")
  case True
  from assms obtain sb rb where c: "conn_rep (ce_conn (cl_conn cli)) sb rb"
      "lc_lastAck (ce_conn (cl_conn cli)) \<noteq> None" by (auto simp: client_inv_def entry_ok_def)
  obtain c' out st sb' rb' where "conn_step now ev (ce_conn (cl_conn cli)) = Some (c', out, st)"
      "conn_rep c' sb' rb'" "lc_lastAck c' \<noteq> None"
    using conn_step_ok [OF c, of now ev] by blast
  with True show ?thesis by (auto simp: client_conn_turn_def client_inv_def entry_ok_def)
qed (use assms in \<open>simp add: client_conn_turn_def\<close>)

lemma client_step_ok:
  assumes "client_inv cli"
  shows "\<exists>cli' out. client_step now ev cli = Some (cli', out) \<and> client_inv cli'"
proof (cases ev)
  case (CNetRead msg)
  obtain cli1 out where "client_forward now (RecvChan msg) cli = Some (cli1, out)" "client_inv cli1"
    using client_forward_ok [OF assms] by blast
  with CNetRead assms show ?thesis by (auto simp: client_step_def client_loop_def)
next
  case (CAppWrite msg)
  with client_forward_ok [OF assms, of now "SendChan msg"] assms show ?thesis
    by (auto simp: client_step_def client_loop_def)
next
  case CTimeout
  with client_conn_turn_ok [OF assms] show ?thesis by (simp add: client_step_def)
next
  case CRead
  with client_conn_turn_ok [OF assms] show ?thesis by (simp add: client_step_def)
qed (use assms in \<open>auto simp: client_step_def client_loop_def\<close>)

lemma client_run_ok:
  "client_inv cli \<Longrightarrow> \<exists>cli' out. client_run es cli = Some (cli', out) \<and> client_inv cli'"
proof (induction es arbitrary: cli)
  case (Cons e es)
  obtain now ev where e: "e = (now, ev)" by (cases e)
  obtain cli1 out1 where 1: "client_step now ev cli = Some (cli1, out1)" "client_inv cli1"
    using client_step_ok [OF Cons.prems] by blast
  from Cons.IH [OF 1(2)] 1(1) e show ?case by auto
qed simp

section \<open>After a close\<close>

text \<open>Events that the application or the network direct at the client's loop.\<close>

fun loop_event :: "client_event \<Rightarrow> bool" where
  "loop_event CTimeout = False"
| "loop_event CRead = False"
| "loop_event _ = True"

text \<open>A loop that is blocked or has returned stays so, whatever the connection's goroutine does.\<close>

lemma blocked_loop_ignores:
  "cl_loop cli \<noteq> Looping \<Longrightarrow> loop_event ev \<Longrightarrow> client_step now ev cli = Some (cli, [])"
  by (cases ev) (auto simp: client_step_def)

lemma blocked_loop_conn:
  assumes "cl_loop cli \<noteq> Looping" and "client_conn_turn now ev cli = Some (cli', out)"
    and "ev = Timeout \<or> ev = ReadChan"
  shows "cl_loop cli' = cl_loop cli \<and>
    lc_closed (ce_conn (cl_conn cli')) = lc_closed (ce_conn (cl_conn cli))"
proof -
  have "lc_closed c' = lc_closed c" if "conn_step now ev c = Some (c', out, st)" for c c' st
    using that assms(3) by (auto simp: conn_step_def split: Option.bind_splits if_splits prod.splits)
  with assms(1,2) show ?thesis
    by (auto simp: client_conn_turn_def split: Option.bind_splits if_splits prod.splits)
qed

lemma blocked_loop_run:
  "cl_loop cli \<noteq> Looping \<Longrightarrow> client_run es cli = Some (cli', out) \<Longrightarrow>
   cl_loop cli' = cl_loop cli \<and>
   lc_closed (ce_conn (cl_conn cli')) = lc_closed (ce_conn (cl_conn cli))"
proof (induction es arbitrary: cli out)
  case (Cons e es)
  obtain now ev where e: "e = (now, ev)" by (cases e)
  with Cons.prems obtain cli1 out1 out2 where 1: "client_step now ev cli = Some (cli1, out1)"
      "client_run es cli1 = Some (cli', out2)" by (auto split: Option.bind_splits)
  have "cl_loop cli1 = cl_loop cli \<and>
    lc_closed (ce_conn (cl_conn cli1)) = lc_closed (ce_conn (cl_conn cli))"
    using 1(1) Cons.prems(1) blocked_loop_conn [of cli now _ cli1 out1]
      blocked_loop_ignores [of cli ev now]
    by (cases ev) (auto simp: client_step_def)
  with Cons.IH [OF _ 1(2)] Cons.prems(1) show ?case by simp
qed simp

section \<open>Properties\<close>

text \<open>
  Closing a client deadlocks its loop.  From any well-formed client whose loop runs, after
  \<open>closeConn\<close> no sequence of network, application or timer events panics or ever brings the loop
  back, and none of them tells the connection that it was closed.
\<close>

lemma client_close_deadlocks:
  assumes "client_inv cli" and "cl_loop cli = Looping"
  shows "\<exists>cli' out. client_run ((now, client_closeConn) # es) cli = Some (cli', out) \<and>
    cl_loop cli' = Blocked_on_closeChan \<and>
    lc_closed (ce_conn (cl_conn cli')) = lc_closed (ce_conn (cl_conn cli))"
proof -
  let ?c = "cli\<lparr>cl_loop := Blocked_on_closeChan\<rparr>"
  have 1: "client_step now client_closeConn cli = Some (?c, [])"
    using assms(2) by (simp add: client_step_def client_loop_def client_closeConn_def)
  from assms(1) obtain cli' out where 2: "client_run es ?c = Some (cli', out)"
    using client_run_ok [of ?c es] by auto
  with blocked_loop_run [OF _ 2] 1 show ?thesis by simp
qed

lemma client_close_deadlocks_witness:
  "\<exists>cli out cli' out'. newLspClient ''a'' None 0 = Some (cli, out) \<and>
     client_run [(0, client_closeConn), (1, CNetRead (genAckMsg 1 0)), (2, CTimeout)] cli =
       Some (cli', out') \<and> cl_loop cli' = Blocked_on_closeChan"
proof -
  obtain cli out where cli: "newLspClient ''a'' None 0 = Some (cli, out)" "client_inv cli" "cl_loop cli = Looping"
    using client_new_ok by blast
  from client_close_deadlocks [OF cli(2,3), of 0 "[(1, CNetRead (genAckMsg 1 0)), (2, CTimeout)]"] cli(1)
  show ?thesis by blast
qed

end
