(* ===== verification/LspLink.thy ===== *)
theory LspLink
  imports LspConn "HOL-Library.Sublist"
begin

text \<open>
  A client connection and a server connection joined by a network that may lose, duplicate,
  delay and reorder datagrams at will: a datagram that was ever written may be received at any
  later time, any number of times, or never.

  An endpoint is a connection together with what has been observed of it: the datagrams written,
  the payloads its application wrote, and the payloads its application read.
\<close>

section \<open>Endpoints and links\<close>

record endpoint =
  ep_conn :: lspConn
  ep_status :: status
  ep_out :: "LspMsg list"
  ep_written :: "string list"
  ep_read :: "string list"

fun datagrams :: "conn_out list \<Rightarrow> LspMsg list" where
  "datagrams [] = []"
| "datagrams (UdpWrite m # os) = m # datagrams os"
| "datagrams (UdpWriteTo a m # os) = m # datagrams os"
| "datagrams (_ # os) = datagrams os"

fun reads :: "conn_out list \<Rightarrow> string list" where
  "reads [] = []"
| "reads (ToReadChan m # os) = msg_Payload m # reads os"
| "reads (_ # os) = reads os"

datatype ep_event = Write string | Recv nat | Read | Close | Epoch

definition conn_event_of :: "ep_event \<Rightarrow> LspMsg list \<Rightarrow> lspConn \<Rightarrow> conn_event option" where
  "conn_event_of ev net c =
     (case ev of
        Write p \<Rightarrow> Some (SendChan (genDataMsg (lc_connId c) 0 p))
      | Recv k \<Rightarrow> if k < length net then Some (RecvChan (net ! k)) else None
      | Read \<Rightarrow> Some ReadChan
      | Close \<Rightarrow> Some CloseChan
      | Epoch \<Rightarrow> Some Timeout)"

text \<open>A write on a closed connection is dropped by \<open>serve\<close>, so it does not count as written.\<close>

definition ep_step :: "time \<Rightarrow> ep_event \<Rightarrow> LspMsg list \<Rightarrow> endpoint \<Rightarrow> endpoint go" where
  "ep_step now ev net ep =
     (if ep_status ep \<noteq> Running then Some ep
      else case conn_event_of ev net (ep_conn ep) of
          None \<Rightarrow> Some ep
        | Some cev \<Rightarrow> do {
            (c, out, st) \<leftarrow> conn_step now cev (ep_conn ep);
            Some (ep\<lparr>ep_conn := c, ep_status := st, ep_out := ep_out ep @ datagrams out,
                     ep_read := ep_read ep @ reads out,
                     ep_written := (case ev of
                         Write p \<Rightarrow> if lc_closed (ep_conn ep) then ep_written ep
                                    else ep_written ep @ [p]
                       | _ \<Rightarrow> ep_written ep)\<rparr>) })"

definition ep_init :: "LspParams \<Rightarrow> string \<Rightarrow> u16 \<Rightarrow> time \<Rightarrow> endpoint go" where
  "ep_init ps addr cid now = do {
     let (c, first) = newLspConn ps addr cid now;
     (c1, out, st) \<leftarrow> conn_step now (SendChan first) c;
     Some \<lparr>ep_conn = c1, ep_status = st, ep_out = datagrams out, ep_written = [], ep_read = []\<rparr> }"

record link =
  l_cl :: endpoint
  l_sv :: endpoint

datatype link_event = AtClient time ep_event | AtServer time ep_event

fun link_step :: "link_event \<Rightarrow> link \<Rightarrow> link go" where
  "link_step (AtClient now ev) s =
     map_option (\<lambda>ep. s\<lparr>l_cl := ep\<rparr>) (ep_step now ev (ep_out (l_sv s)) (l_cl s))"
| "link_step (AtServer now ev) s =
     map_option (\<lambda>ep. s\<lparr>l_sv := ep\<rparr>) (ep_step now ev (ep_out (l_cl s)) (l_sv s))"

fun link_run :: "link_event list \<Rightarrow> link \<Rightarrow> link go" where
  "link_run [] s = Some s"
| "link_run (e # es) s = Option.bind (link_step e s) (link_run es)"

text \<open>
  The server's connection is made when the client's connect message arrives
  (\<open>handleUdpPacket\<close>, which gives it a nonzero id); nothing the client does before depends on it.
\<close>

definition link_init :: "LspParams \<Rightarrow> string \<Rightarrow> u16 \<Rightarrow> time \<Rightarrow> link go" where
  "link_init ps addr cid now = do {
     cl \<leftarrow> ep_init ps addr 0 now;
     sv \<leftarrow> ep_init ps addr cid now;
     Some \<lparr>l_cl = cl, l_sv = sv\<rparr> }"

section \<open>The effect of one turn\<close>

lemma datagrams_append [simp]: "datagrams (xs @ ys) = datagrams xs @ datagrams ys"
  by (induction xs rule: datagrams.induct) auto

lemma datagrams_udpWrite [simp]: "datagrams (udpWrite c m # os) = m # datagrams os"
  by (cases "lc_whichSide c") (simp_all add: udpWrite_def)

lemma reads_append [simp]: "reads (xs @ ys) = reads xs @ reads ys"
  by (induction xs rule: reads.induct) auto

lemma reads_udpWrite [simp]: "reads (udpWrite c m # os) = reads os"
  by (cases "lc_whichSide c") (simp_all add: udpWrite_def)

text \<open>The fields that concern the stream the connection sends, and the one it receives.\<close>

definition same_send :: "lspConn \<Rightarrow> lspConn \<Rightarrow> bool" where
  "same_send c c' \<longleftrightarrow> lc_nextSendSeqNum c' = lc_nextSendSeqNum c"

definition same_recv :: "lspConn \<Rightarrow> lspConn \<Rightarrow> bool" where
  "same_recv c c' \<longleftrightarrow>
     lc_nextRecvSeqNum c' = lc_nextRecvSeqNum c \<and> lc_lastAck c' = lc_lastAck c"

lemmas same_defs = same_send_def same_recv_def

lemma conn_stepE:
  assumes rep: "conn_rep c sb rb" and ack: "lc_lastAck c = Some ack"
    and step: "conn_step now ev c = Some (c', out, st)"
    and data: "\<forall>m. ev = SendChan m \<longrightarrow> msg_Type m = MsgDATA"
  obtains
    (keep) "conn_rep c' sb rb" "same_send c c'" "same_recv c c'" "reads out = []"
      "set (datagrams out) \<subseteq> set (take 1 sb) \<union> {ack}" "\<And>m. ev = SendChan m \<Longrightarrow> lc_closed c"
  | (send) m m' where "ev = SendChan m" "\<not> lc_closed c"
      "m' = m\<lparr>msg_SeqNum := lc_nextSendSeqNum c\<rparr>" "conn_rep c' (sb @ [m']) rb"
      "lc_nextSendSeqNum c' = lc_nextSendSeqNum c + 1" "same_recv c c'" "reads out = []"
      "datagrams out = [hd (sb @ [m'])]"
  | (accept) m a where "ev = RecvChan m" "msg_Type m = MsgDATA"
      "msg_SeqNum m = lc_nextRecvSeqNum c" "conn_rep c' sb (rb @ [m])" "same_send c c'"
      "lc_nextRecvSeqNum c' = lc_nextRecvSeqNum c + 1" "lc_lastAck c' = Some a"
      "a = genAckMsg (lc_connId c) (msg_SeqNum m)" "reads out = []" "datagrams out = [a]"
  | (hit) m f fs where "ev = RecvChan m" "msg_Type m = MsgACK" "sb = f # fs"
      "msg_SeqNum m = msg_SeqNum f" "conn_rep c' fs rb" "same_send c c'" "same_recv c c'"
      "reads out = []" "set (datagrams out) \<subseteq> set (take 1 fs)"
  | (read) f fs where "rb = f # fs" "conn_rep c' sb fs" "same_send c c'" "same_recv c c'"
      "reads out = [msg_Payload f]" "datagrams out = []" "ev = ReadChan"
proof (cases ev)
  case (SendChan m)
  show ?thesis
  proof (cases "lc_closed c")
    case True
    with SendChan step rep show ?thesis by (intro keep) (auto simp: conn_step_def same_defs)
  next
    case False
    from conn_send_data [OF rep data [rule_format, OF SendChan]] SendChan step False rep show ?thesis
      by (intro send [of m]) (auto simp: conn_step_def same_defs conn_rep_def)
  qed
next
  case (RecvChan m)
  let ?c = "c\<lparr>lc_lastTime := now\<rparr>"
  from rep have rep1: "conn_rep ?c sb rb" by simp
  from ack have ack1: "lc_lastAck ?c = Some ack" by simp
  consider "msg_Type m = MsgDATA" "msg_SeqNum m = lc_nextRecvSeqNum ?c"
    | "msg_Type m = MsgDATA" "msg_SeqNum m \<noteq> lc_nextRecvSeqNum ?c"
    | "msg_Type m = MsgACK" "sb = []"
    | f fs where "msg_Type m = MsgACK" "sb = f # fs" "msg_SeqNum m = msg_SeqNum f"
    | f fs where "msg_Type m = MsgACK" "sb = f # fs" "msg_SeqNum m \<noteq> msg_SeqNum f"
    | "msg_Type m \<noteq> MsgDATA" "msg_Type m \<noteq> MsgACK"
    by (cases sb) auto
  then show ?thesis
  proof cases
    case 1
    from conn_receive_data_accept [OF rep1 1] RecvChan step 1 rep show ?thesis
      by (intro accept [of m]) (auto simp: conn_step_def same_defs conn_rep_def)
  next
    case 2
    from conn_receive_data_reject [OF 2 ack1] RecvChan step rep show ?thesis
      by (intro keep) (auto simp: conn_step_def same_defs)
  next
    case 3
    from conn_receive_ack_idle [of ?c rb m] rep1 RecvChan step rep 3 show ?thesis
      by (intro keep) (auto simp: conn_step_def same_defs)
  next
    case (4 f fs)
    from conn_receive_ack_match [of ?c f fs rb m] rep1 RecvChan step rep 4 show ?thesis
      by (intro hit [of m f fs])
        (auto simp: conn_step_def same_defs conn_rep_def split: list.splits if_splits)
  next
    case (5 f fs)
    from conn_receive_ack_mismatch [of ?c f fs rb m] rep1 RecvChan step rep 5 show ?thesis
      by (intro keep) (auto simp: conn_step_def same_defs)
  next
    case 6
    from conn_receive_other [OF 6, of ?c] RecvChan step rep show ?thesis
      by (intro keep) (auto simp: conn_step_def same_defs)
  qed
next
  case ReadChan
  from conn_read [OF rep, of now] obtain b where b: "conn_step now ReadChan c =
      Some (case rb of [] \<Rightarrow> (c, [], Running)
            | f # _ \<Rightarrow> (c\<lparr>lc_recvBuf := b\<rparr>, [ToReadChan f], Running))"
      "rb \<noteq> [] \<longrightarrow> buf_rep b (tl rb)" by blast
  show ?thesis
  proof (cases rb)
    case Nil
    with b step rep ReadChan show ?thesis by (intro keep) (auto simp: same_defs)
  next
    case (Cons f fs)
    with b step rep ReadChan show ?thesis
      by (intro read [of f fs]) (auto simp: same_defs conn_rep_def)
  qed
next
  case CloseChan
  with step rep show ?thesis by (intro keep) (auto simp: conn_step_def same_defs)
next
  case Timeout
  with step rep ack conn_epoch [OF rep, of now] show ?thesis
    by (intro keep) (auto simp: conn_step_def same_defs split: list.splits if_splits)
qed

section \<open>Sequence numbers\<close>

lemma seq_eq_iff:
  "a < 256 \<Longrightarrow> b < 256 \<Longrightarrow> (word_of_nat a :: u8) = word_of_nat b \<longleftrightarrow> a = b"
  by (simp add: word_of_nat_eq_iff take_bit_eq_mod)

lemma seq_next: "(word_of_nat (Suc n) :: u8) = word_of_nat n + 1"
  by simp

text \<open>The \<open>i\<close>-th data message of the stream \<open>W\<close> (counting from 0).\<close>

definition dmsg :: "string list \<Rightarrow> nat \<Rightarrow> LspMsg \<Rightarrow> bool" where
  "dmsg W i m \<longleftrightarrow> msg_Type m = MsgDATA \<and> msg_SeqNum m = word_of_nat (Suc i) \<and>
     i < length W \<and> msg_Payload m = W ! i"

lemma dmsg_append: "dmsg W i m \<Longrightarrow> dmsg (W @ V) i m"
  by (auto simp: dmsg_def nth_append)

section \<open>The two halves of a stream\<close>

text \<open>
  Sender: \<open>k\<close> messages are acknowledged, the others wait in the buffer in order, behind the
  connect message while that is unconfirmed; data on the wire are messages of the stream.
\<close>

definition send_queue :: "string list \<Rightarrow> nat \<Rightarrow> LspMsg list \<Rightarrow> bool" where
  "send_queue W k sb \<longleftrightarrow>
     k \<le> length W \<and>
     (\<exists>pre ds. sb = pre @ ds \<and> length ds = length W - k \<and>
        (\<forall>i < length ds. dmsg W (k + i) (ds ! i)) \<and>
        (pre = [] \<or> k = 0 \<and> (\<exists>c. pre = [c] \<and> msg_Type c = MsgCONNECT \<and> msg_SeqNum c = 0)))"

definition snd_inv :: "endpoint \<Rightarrow> nat \<Rightarrow> bool" where
  "snd_inv X k \<longleftrightarrow>
     (\<exists>sb rb. conn_rep (ep_conn X) sb rb \<and> send_queue (ep_written X) k sb) \<and>
     lc_nextSendSeqNum (ep_conn X) = word_of_nat (Suc (length (ep_written X))) \<and>
     (\<forall>m \<in> set (ep_out X). msg_Type m = MsgDATA \<longrightarrow> (\<exists>i. dmsg (ep_written X) i m))"

text \<open>
  Receiver: the first \<open>n\<close> messages of the stream have been accepted and no more are expected out
  of order; acknowledgements are for accepted messages only.
\<close>

definition ack_for :: "nat \<Rightarrow> LspMsg \<Rightarrow> bool" where
  "ack_for n m \<longleftrightarrow> (\<exists>j \<le> n. msg_SeqNum m = word_of_nat j)"

definition rcv_inv :: "endpoint \<Rightarrow> string list \<Rightarrow> nat \<Rightarrow> bool" where
  "rcv_inv Y W n \<longleftrightarrow>
     (\<exists>sb rb. conn_rep (ep_conn Y) sb rb \<and> ep_read Y @ map msg_Payload rb = take n W) \<and>
     n \<le> length W \<and>
     lc_nextRecvSeqNum (ep_conn Y) = word_of_nat (Suc n) \<and>
     (\<forall>m \<in> set (ep_out Y). msg_Type m = MsgACK \<longrightarrow> ack_for n m) \<and>
     (\<exists>a. lc_lastAck (ep_conn Y) = Some a \<and> msg_Type a = MsgACK \<and> ack_for n a)"

definition stream :: "endpoint \<Rightarrow> endpoint \<Rightarrow> bool" where
  "stream X Y \<longleftrightarrow> (\<exists>k n. snd_inv X k \<and> rcv_inv Y (ep_written X) n \<and> k \<le> n)"

lemma ack_for_mono: "ack_for n m \<Longrightarrow> n \<le> n' \<Longrightarrow> ack_for n' m"
  unfolding ack_for_def by (meson le_trans)

lemma rcv_inv_write: "rcv_inv Y W n \<Longrightarrow> rcv_inv Y (W @ [p]) n"
  by (auto simp: rcv_inv_def)

lemma send_queueE:
  assumes "send_queue W k sb"
  obtains pre ds where "sb = pre @ ds" "length ds = length W - k" "k \<le> length W"
      "\<forall>i < length ds. dmsg W (k + i) (ds ! i)"
      "pre = [] \<or> k = 0 \<and> (\<exists>c. pre = [c] \<and> msg_Type c = MsgCONNECT \<and> msg_SeqNum c = 0)"
  using assms unfolding send_queue_def by blast

lemma send_queueI:
  assumes "sb = pre @ ds" "length ds = length W - k" "k \<le> length W"
    and "\<And>i. i < length ds \<Longrightarrow> dmsg W (k + i) (ds ! i)"
    and "pre = [] \<or> k = 0 \<and> (\<exists>c. pre = [c] \<and> msg_Type c = MsgCONNECT \<and> msg_SeqNum c = 0)"
  shows "send_queue W k sb"
  using assms unfolding send_queue_def by blast

lemma send_queue_write:
  assumes "send_queue W k sb" "dmsg (W @ [p]) (length W) m"
  shows "send_queue (W @ [p]) k (sb @ [m])"
proof -
  from assms(1) obtain pre ds where q: "sb = pre @ ds" "length ds = length W - k" "k \<le> length W"
      "\<forall>i < length ds. dmsg W (k + i) (ds ! i)"
      "pre = [] \<or> k = 0 \<and> (\<exists>c. pre = [c] \<and> msg_Type c = MsgCONNECT \<and> msg_SeqNum c = 0)"
    by (rule send_queueE)
  have "dmsg (W @ [p]) (k + i) ((ds @ [m]) ! i)" if "i < length (ds @ [m])" for i
    using that q(2-4) assms(2) by (cases "i < length ds") (auto simp: nth_append dmsg_append less_Suc_eq)
  with q show ?thesis by (intro send_queueI [of _ pre "ds @ [m]"]) auto
qed

lemma send_queue_data:
  assumes "send_queue W k sb" "m \<in> set sb" "msg_Type m = MsgDATA"
  shows "\<exists>i. dmsg W i m"
proof -
  from assms(1) obtain pre ds where q: "sb = pre @ ds"
      "\<forall>i < length ds. dmsg W (k + i) (ds ! i)"
      "pre = [] \<or> (\<exists>c. pre = [c] \<and> msg_Type c = MsgCONNECT)"
    by (elim send_queueE) blast
  with assms(2,3) have "m \<in> set ds" by auto
  then show ?thesis using q(2) by (auto simp: in_set_conv_nth)
qed

lemma send_queue_no_ack:
  assumes "send_queue W k sb" "m \<in> set sb"
  shows "msg_Type m \<noteq> MsgACK"
proof -
  from assms(1) obtain pre ds where q: "sb = pre @ ds"
      "\<forall>i < length ds. dmsg W (k + i) (ds ! i)"
      "pre = [] \<or> (\<exists>c. pre = [c] \<and> msg_Type c = MsgCONNECT)"
    by (elim send_queueE) blast
  with assms(2) show ?thesis by (auto simp: in_set_conv_nth dmsg_def)
qed

text \<open>An acknowledgement only ever removes a message that the receiver has accepted.\<close>

lemma send_queue_hit:
  assumes q: "send_queue W k (f # fs)" and seq: "msg_SeqNum m = msg_SeqNum f"
    and ack: "ack_for n m" and kn: "k \<le> n" "n \<le> length W" and bound: "length W \<le> 255"
  shows "\<exists>k'. send_queue W k' fs \<and> k' \<le> n"
proof -
  from q obtain pre ds where p: "f # fs = pre @ ds" "length ds = length W - k" "k \<le> length W"
      "\<forall>i < length ds. dmsg W (k + i) (ds ! i)"
      "pre = [] \<or> k = 0 \<and> (\<exists>c. pre = [c] \<and> msg_Type c = MsgCONNECT \<and> msg_SeqNum c = 0)"
    by (rule send_queueE)
  show ?thesis
  proof (cases "pre = []")
    case True
    with p have ds: "ds = f # fs" by simp
    with p(4) have "dmsg W (k + 0) f" by fastforce
    then have f: "msg_SeqNum f = word_of_nat (Suc k)" unfolding dmsg_def by simp
    from ack obtain j where j: "j \<le> n" "msg_SeqNum m = word_of_nat j"
      unfolding ack_for_def by blast
    have k: "Suc k \<le> length W" using ds p(2) by simp
    have "(word_of_nat j :: u8) = word_of_nat (Suc k)"
      using seq f j(2) by (simp only:)
    then have "j = Suc k"
      by (rule seq_eq_iff [THEN iffD1, rotated 2]) (use j(1) k kn bound in linarith)+
    moreover have fs: "dmsg W (Suc k + i) (fs ! i)" if "i < length fs" for i
      using p(4) [rule_format, of "Suc i"] that ds by simp
    have "send_queue W (Suc k) fs"
      by (rule send_queueI [of _ "[]" fs]) (use ds p(2) k fs in simp_all)
    ultimately show ?thesis using j(1) \<open>send_queue W (Suc k) fs\<close> by blast
  next
    case False
    with p(1,5) have "ds = fs" by auto
    with p(2-4) have "send_queue W k fs" by (intro send_queueI [of _ "[]" fs]) simp_all
    with kn show ?thesis by blast
  qed
qed

lemma ep_stepE:
  assumes "ep_step now ev net ep = Some ep'"
  obtains (idle) "ep' = ep"
  | (turn) cev c out st where "conn_event_of ev net (ep_conn ep) = Some cev"
      "conn_step now cev (ep_conn ep) = Some (c, out, st)"
      "ep_conn ep' = c" "ep_out ep' = ep_out ep @ datagrams out" "ep_read ep' = ep_read ep @ reads out"
      "ep_written ep' = (case ev of
         Write p \<Rightarrow> if lc_closed (ep_conn ep) then ep_written ep else ep_written ep @ [p]
       | _ \<Rightarrow> ep_written ep)"
  using assms
  by (auto simp: ep_step_def split: if_splits option.splits Option.bind_splits)

lemma conn_event_data:
  "conn_event_of ev net c = Some (SendChan m) \<Longrightarrow>
   (\<exists>p. ev = Write p \<and> m = genDataMsg (lc_connId c) 0 p)"
  by (auto simp: conn_event_of_def split: ep_event.splits if_splits)

lemma conn_event_recv: "conn_event_of ev net c = Some (RecvChan m) \<Longrightarrow> m \<in> set net \<and> (\<exists>k. ev = Recv k)"
  by (auto simp: conn_event_of_def split: ep_event.splits if_splits)

lemma conn_event_read: "conn_event_of ev net c = Some ReadChan \<Longrightarrow> ev = Read"
  by (auto simp: conn_event_of_def split: ep_event.splits if_splits)

lemma ep_step_written:
  assumes "ep_step now ev net ep = Some ep'"
  shows "ep_written ep' = ep_written ep \<or> (\<exists>p. ep_written ep' = ep_written ep @ [p])"
  using assms by (cases rule: ep_stepE) (auto split: ep_event.splits)

lemma rcv_inv_ack:
  "rcv_inv Y W n \<Longrightarrow> \<exists>a. lc_lastAck (ep_conn Y) = Some a \<and> msg_Type a = MsgACK \<and> ack_for n a"
  by (simp add: rcv_inv_def)

text \<open>A turn of the sender.\<close>

lemma snd_inv_step:
  assumes inv: "snd_inv X k" and own: "rcv_inv X V v"
    and step: "ep_step now ev net X = Some X'"
    and acks: "\<And>m. m \<in> set net \<Longrightarrow> msg_Type m = MsgACK \<Longrightarrow> ack_for n m"
    and kn: "k \<le> n" "n \<le> length (ep_written X)" and bound: "length (ep_written X) \<le> 255"
  shows "\<exists>k'. snd_inv X' k' \<and> k' \<le> n"
  using step
proof (cases rule: ep_stepE)
  case idle
  with inv kn show ?thesis by auto
next
  case (turn cev c out st)
  let ?W = "ep_written X"
  from inv obtain sb rb where rep: "conn_rep (ep_conn X) sb rb" and q: "send_queue ?W k sb"
    by (auto simp: snd_inv_def)
  from inv have nxt: "lc_nextSendSeqNum (ep_conn X) = word_of_nat (Suc (length ?W))"
    and wire: "\<And>m. m \<in> set (ep_out X) \<Longrightarrow> msg_Type m = MsgDATA \<Longrightarrow> \<exists>i. dmsg ?W i m"
    by (auto simp: snd_inv_def)
  from rcv_inv_ack [OF own] obtain ack where ack: "lc_lastAck (ep_conn X) = Some ack"
      "msg_Type ack = MsgACK" by auto
  have data: "\<forall>m. cev = SendChan m \<longrightarrow> msg_Type m = MsgDATA"
    using conn_event_data turn(1) by fastforce
  from rep ack(1) turn(2) data show ?thesis
  proof (cases rule: conn_stepE)
    case keep
    have W: "ep_written X' = ?W"
      using turn keep(6) by (auto simp: conn_event_of_def split: ep_event.splits)
    from keep send_queue_data [OF q] ack(2)
    have "msg_Type m = MsgDATA \<Longrightarrow> \<exists>i. dmsg ?W i m" if "m \<in> set (datagrams out)" for m
      using that by (fastforce dest: in_set_takeD)
    with keep W turn q nxt wire kn show ?thesis
      unfolding snd_inv_def by (intro exI [of _ k]) (auto simp: same_defs)
  next
    case (send m m')
    from conn_event_data turn(1) send(1) obtain p where p: "ev = Write p"
        "m = genDataMsg (lc_connId (ep_conn X)) 0 p" by blast
    with send(2) turn have W: "ep_written X' = ?W @ [p]" by simp
    have d: "dmsg (?W @ [p]) (length ?W) m'"
      using send(3) p nxt by (simp add: dmsg_def genDataMsg_def)
    from q d have q': "send_queue (?W @ [p]) k (sb @ [m'])" by (rule send_queue_write)
    have "m'' \<in> set (datagrams out) \<Longrightarrow> msg_Type m'' = MsgDATA \<Longrightarrow> \<exists>i. dmsg (?W @ [p]) i m''" for m''
      using send_queue_data [OF q'] send(8) by (cases sb) auto
    moreover have "\<exists>i. dmsg (?W @ [p]) i m''" if "m'' \<in> set (ep_out X)" "msg_Type m'' = MsgDATA" for m''
      using wire [OF that] by (auto dest: dmsg_append)
    ultimately have "\<forall>m'' \<in> set (ep_out X'). msg_Type m'' = MsgDATA \<longrightarrow> (\<exists>i. dmsg (?W @ [p]) i m'')"
      unfolding turn(4) by auto
    moreover have "lc_nextSendSeqNum c = word_of_nat (Suc (length (?W @ [p])))"
      using send(5) nxt by simp
    ultimately have "snd_inv X' k"
      unfolding snd_inv_def W turn(3) using q' send(4) by blast
    with kn show ?thesis by blast
  next
    case (accept m a)
    then have W: "ep_written X' = ?W"
      using turn by (auto simp: conn_event_of_def split: ep_event.splits)
    from accept W turn q nxt wire kn show ?thesis
      unfolding snd_inv_def by (intro exI [of _ k]) (auto simp: same_defs)
  next
    case (hit m f fs)
    then have W: "ep_written X' = ?W" and m: "m \<in> set net"
      using turn conn_event_recv by (auto split: ep_event.splits)
    from send_queue_hit [OF q [unfolded hit(3)] hit(4) acks [OF m hit(2)] kn bound]
    obtain k' where k': "send_queue ?W k' fs" "k' \<le> n" by blast
    have "msg_Type m = MsgDATA \<Longrightarrow> \<exists>i. dmsg ?W i m" if "m \<in> set (datagrams out)" for m
      using that hit(9) send_queue_data [OF k'(1)] by (auto dest: in_set_takeD)
    with hit W turn k' nxt wire show ?thesis
      unfolding snd_inv_def by (intro exI [of _ k']) (auto simp: same_defs)
  next
    case (read f fs)
    then have W: "ep_written X' = ?W"
      using turn conn_event_read [of ev net "ep_conn X"] by simp
    from read W turn q nxt wire kn show ?thesis
      unfolding snd_inv_def by (intro exI [of _ k]) (auto simp: same_defs)
  qed
qed

text \<open>A turn of the receiver.\<close>

lemma conn_rep_unique: "conn_rep c sb rb \<Longrightarrow> conn_rep c sb' rb' \<Longrightarrow> sb = sb' \<and> rb = rb'"
  unfolding conn_rep_def using bufi.rep_unique by blast

lemma dmsg_next:
  assumes "dmsg W i m" "msg_SeqNum m = word_of_nat (Suc n)" "n \<le> length W" "length W \<le> 255"
  shows "n < length W \<and> msg_Payload m = W ! n"
proof -
  from assms(1) have i: "i < length W" "msg_Payload m = W ! i" "msg_SeqNum m = word_of_nat (Suc i)"
    by (auto simp: dmsg_def)
  have "n \<noteq> 255"
  proof
    assume "n = 255"
    with assms(2) have "msg_SeqNum m = word_of_nat 0" by simp
    with i(3) have "word_of_nat (Suc i) = (word_of_nat 0 :: u8)" by simp
    with i(1) assms(4) seq_eq_iff [of "Suc i" 0] show False by simp
  qed
  with i assms seq_eq_iff [of "Suc i" "Suc n"] show ?thesis by simp
qed

lemma rcv_inv_step:
  assumes inv: "rcv_inv Y W n" and own: "snd_inv Y v" and step: "ep_step now ev net Y = Some Y'"
    and data: "\<And>m. m \<in> set net \<Longrightarrow> msg_Type m = MsgDATA \<Longrightarrow> \<exists>i. dmsg W i m"
    and bound: "length W \<le> 255"
  shows "\<exists>n'\<ge>n. rcv_inv Y' W n'"
  using step
proof (cases rule: ep_stepE)
  case idle
  with inv show ?thesis by auto
next
  case (turn cev c out st)
  from inv obtain sb rb where rep: "conn_rep (ep_conn Y) sb rb"
    and rd: "ep_read Y @ map msg_Payload rb = take n W" by (auto simp: rcv_inv_def)
  from own obtain sb' rb' where "conn_rep (ep_conn Y) sb' rb'" "send_queue (ep_written Y) v sb'"
    by (auto simp: snd_inv_def)
  with conn_rep_unique [OF rep] have q: "send_queue (ep_written Y) v sb" by auto
  from inv have n: "n \<le> length W" and nxt: "lc_nextRecvSeqNum (ep_conn Y) = word_of_nat (Suc n)"
    and acks: "\<And>m. m \<in> set (ep_out Y) \<Longrightarrow> msg_Type m = MsgACK \<Longrightarrow> ack_for n m"
    by (auto simp: rcv_inv_def)
  from rcv_inv_ack [OF inv] obtain ack where ack: "lc_lastAck (ep_conn Y) = Some ack"
      "msg_Type ack = MsgACK" "ack_for n ack" by auto
  have sd: "\<forall>m. cev = SendChan m \<longrightarrow> msg_Type m = MsgDATA"
    using conn_event_data turn(1) by fastforce
  note no_ack = send_queue_no_ack [OF q]
  have stay: "rcv_inv Y' W n"
    if rep': "conn_rep c sb2 rb2" "ep_read Y' @ map msg_Payload rb2 = take n W"
      and same: "same_recv (ep_conn Y) c"
      and dgs: "\<And>m. m \<in> set (datagrams out) \<Longrightarrow> msg_Type m = MsgACK \<Longrightarrow> m = ack" for sb2 rb2
    unfolding rcv_inv_def using that turn n nxt acks ack by (auto simp: same_defs)
  from rep ack(1) turn(2) sd show ?thesis
  proof (cases rule: conn_stepE)
    case keep
    with no_ack have "m \<in> set (datagrams out) \<Longrightarrow> msg_Type m = MsgACK \<Longrightarrow> m = ack" for m
      by (auto dest: in_set_takeD)
    with keep rd turn(5) stay [of sb rb] show ?thesis by auto
  next
    case (send m m')
    then have "msg_Type m' = MsgDATA" using sd by simp
    with send no_ack have "m'' \<in> set (datagrams out) \<Longrightarrow> msg_Type m'' \<noteq> MsgACK" for m''
      by (cases sb) auto
    with send rd turn(5) stay [of "sb @ [m']" rb] show ?thesis by auto
  next
    case (accept m a)
    with conn_event_recv turn(1) have "m \<in> set net" by auto
    with data accept(2) obtain i where "dmsg W i m" by blast
    from dmsg_next [OF this _ n bound] accept(3) nxt
    have m: "n < length W" "msg_Payload m = W ! n" by auto
    have "ack_for (Suc n) a"
      using accept(3,8) nxt unfolding ack_for_def by (intro exI [of _ "Suc n"]) simp
    moreover have "ep_read Y' @ map msg_Payload (rb @ [m]) = take (Suc n) W"
      using accept(9) m rd turn(5) by (simp add: take_Suc_conv_app_nth flip: rd)
    with accept(4) have "\<exists>sb rb. conn_rep c sb rb \<and> ep_read Y' @ map msg_Payload rb = take (Suc n) W"
      by blast
    moreover have "ack_for (Suc n) m'" if "m' \<in> set (ep_out Y)" "msg_Type m' = MsgACK" for m'
      using acks [OF that] by (rule ack_for_mono) simp
    ultimately have "rcv_inv Y' W (Suc n)"
      using accept(6,7,8,10) m(1) turn(3,4) nxt unfolding rcv_inv_def by auto
    then show ?thesis by (intro exI [of _ "Suc n"]) simp
  next
    case (hit m f fs)
    then have "m' \<in> set (datagrams out) \<Longrightarrow> msg_Type m' \<noteq> MsgACK" for m'
      using no_ack by (auto dest: in_set_takeD)
    with hit rd turn(5) stay [of fs rb] show ?thesis by auto
  next
    case (read f fs)
    with rd turn(5) stay [of sb fs] show ?thesis by auto
  qed
qed

section \<open>Both streams of a link\<close>

lemma stream_turn:
  assumes xy: "stream X Y" and yx: "stream Y X"
    and step: "ep_step now ev (ep_out Y) X = Some X'"
    and bound: "length (ep_written X) \<le> 255" "length (ep_written Y) \<le> 255"
  shows "stream X' Y \<and> stream Y X'"
proof
  from xy obtain k n where x: "snd_inv X k" "rcv_inv Y (ep_written X) n" "k \<le> n"
    by (auto simp: stream_def)
  from yx obtain l v where y: "snd_inv Y l" "rcv_inv X (ep_written Y) v" "l \<le> v"
    by (auto simp: stream_def)
  have "n \<le> length (ep_written X)" using x(2) by (simp add: rcv_inv_def)
  moreover have "m \<in> set (ep_out Y) \<Longrightarrow> msg_Type m = MsgACK \<Longrightarrow> ack_for n m" for m
    using x(2) by (simp add: rcv_inv_def)
  ultimately obtain k' where k': "snd_inv X' k'" "k' \<le> n"
    using snd_inv_step [OF x(1) y(2) step _ x(3) _ bound(1)] by blast
  have "rcv_inv Y (ep_written X') n"
    using ep_step_written [OF step] x(2) by (auto intro: rcv_inv_write)
  with k' show "stream X' Y" by (auto simp: stream_def)
  have "m \<in> set (ep_out Y) \<Longrightarrow> msg_Type m = MsgDATA \<Longrightarrow> \<exists>i. dmsg (ep_written Y) i m" for m
    using y(1) by (simp add: snd_inv_def)
  then obtain v' where "v \<le> v'" "rcv_inv X' (ep_written Y) v'"
    using rcv_inv_step [OF y(2) x(1) step _ bound(2)] by blast
  with y(1,3) show "stream Y X'" unfolding stream_def by (meson le_trans)
qed

lemma ep_step_total:
  assumes "snd_inv X k" "rcv_inv X V v"
  shows "\<exists>X'. ep_step now ev net X = Some X'"
proof -
  from assms obtain sb rb a where "conn_rep (ep_conn X) sb rb" "lc_lastAck (ep_conn X) = Some a"
    by (auto simp: snd_inv_def rcv_inv_def)
  then have total: "\<exists>c out st. conn_step now cev (ep_conn X) = Some (c, out, st)" for cev
    using conn_step_ok [of "ep_conn X" sb rb now cev] by auto
  show ?thesis
  proof (cases "conn_event_of ev net (ep_conn X)")
    case (Some cev)
    from total [of cev] obtain c out st where "conn_step now cev (ep_conn X) = Some (c, out, st)"
      by blast
    with Some show ?thesis by (simp add: ep_step_def)
  qed (simp add: ep_step_def)
qed

lemma ep_init_inv:
  "\<exists>ep. ep_init ps addr cid now = Some ep \<and> ep_written ep = [] \<and> snd_inv ep 0 \<and> rcv_inv ep [] 0"
proof (cases "cid = 0")
  case True
  let ?n = "newLspConn ps addr cid now"
  from True have t: "msg_Type (snd ?n) = MsgCONNECT" "msg_SeqNum (snd ?n) = 0"
      "lc_closed (fst ?n) = False" by (simp_all add: newLspConn_def)
  from conn_send_connect [OF conn_rep_new t(1), of ps addr cid now] obtain b where
    b: "conn_send (snd ?n) (fst ?n) = Some (fst ?n\<lparr>lc_sendBuf := b\<rparr>, [udpWrite (fst ?n) (snd ?n)])"
      "buf_rep b [snd ?n]" by auto
  have "conn_rep (fst ?n\<lparr>lc_sendBuf := b\<rparr>) [snd ?n] []"
    using conn_rep_new [of ps addr cid now] b(2) by (simp add: conn_rep_def)
  moreover have "send_queue [] 0 [snd ?n]"
    by (rule send_queueI [of _ "[snd ?n]" "[]"]) (simp_all add: t)
  moreover have "ep_init ps addr cid now = Some \<lparr>ep_conn = fst ?n\<lparr>lc_sendBuf := b\<rparr>,
      ep_status = Running, ep_out = [snd ?n], ep_written = [], ep_read = []\<rparr>"
    using b(1) t(3) by (cases ?n) (simp add: ep_init_def conn_step_def)
  moreover have "lc_nextSendSeqNum (fst ?n) = 1" "lc_nextRecvSeqNum (fst ?n) = 1"
      "lc_lastAck (fst ?n) = Some (genAckMsg cid 0)" by (simp_all add: newLspConn_def)
  ultimately show ?thesis
    using t(1) by (auto simp: snd_inv_def rcv_inv_def ack_for_def)
next
  case False
  let ?n = "newLspConn ps addr cid now"
  from False have "snd ?n = genAckMsg cid 0" "lc_closed (fst ?n) = False"
      "lc_nextSendSeqNum (fst ?n) = 1" "lc_nextRecvSeqNum (fst ?n) = 1"
      "lc_lastAck (fst ?n) = Some (genAckMsg cid 0)" by (simp_all add: newLspConn_def)
  moreover have "send_queue [] 0 []" by (simp add: send_queue_def)
  moreover have "conn_rep (fst ?n) [] []" by (rule conn_rep_new)
  ultimately show ?thesis
    by (cases ?n) (simp add: ep_init_def conn_step_def conn_send_other snd_inv_def rcv_inv_def
        ack_for_def, blast)
qed

lemma link_init_inv:
  "\<exists>s. link_init ps addr cid now = Some s \<and> stream (l_cl s) (l_sv s) \<and> stream (l_sv s) (l_cl s) \<and>
     ep_written (l_cl s) = [] \<and> ep_written (l_sv s) = []"
  using ep_init_inv [of ps addr 0 now] ep_init_inv [of ps addr cid now]
  by (fastforce simp: link_init_def stream_def)

text \<open>How many payloads a schedule writes at each end.\<close>

fun client_writes :: "link_event list \<Rightarrow> nat" where
  "client_writes [] = 0"
| "client_writes (AtClient t (Write p) # es) = Suc (client_writes es)"
| "client_writes (e # es) = client_writes es"

fun server_writes :: "link_event list \<Rightarrow> nat" where
  "server_writes [] = 0"
| "server_writes (AtServer t (Write p) # es) = Suc (server_writes es)"
| "server_writes (e # es) = server_writes es"

lemma ep_step_written_length:
  assumes "ep_step now ev net ep = Some ep'"
  shows "length (ep_written ep') \<le> length (ep_written ep) + (case ev of Write p \<Rightarrow> 1 | _ \<Rightarrow> 0)"
  using assms by (cases rule: ep_stepE) (auto split: ep_event.splits)

lemma link_run_streams:
  assumes "stream (l_cl s) (l_sv s)" "stream (l_sv s) (l_cl s)"
    and "length (ep_written (l_cl s)) + client_writes es \<le> 255"
    and "length (ep_written (l_sv s)) + server_writes es \<le> 255"
  shows "\<exists>s'. link_run es s = Some s' \<and> stream (l_cl s') (l_sv s') \<and> stream (l_sv s') (l_cl s')"
  using assms
proof (induction es arbitrary: s)
  case Nil
  then show ?case by auto
next
  case (Cons e es)
  from Cons.prems(1,2) obtain k n l v where inv: "snd_inv (l_cl s) k"
      "rcv_inv (l_cl s) (ep_written (l_sv s)) v" "snd_inv (l_sv s) l"
      "rcv_inv (l_sv s) (ep_written (l_cl s)) n"
    by (auto simp: stream_def)
  show ?case
  proof (cases e)
    case (AtClient t ev)
    obtain X' where X': "ep_step t ev (ep_out (l_sv s)) (l_cl s) = Some X'"
      using ep_step_total [OF inv(1,2)] by blast
    have "client_writes (e # es) = client_writes es + (case ev of Write p \<Rightarrow> 1 | _ \<Rightarrow> 0)"
      "server_writes (e # es) = server_writes es"
      using AtClient by (auto split: ep_event.split)
    with Cons.prems stream_turn [OF Cons.prems(1,2) X'] ep_step_written_length [OF X']
    have "\<exists>s'. link_run es (s\<lparr>l_cl := X'\<rparr>) = Some s' \<and> stream (l_cl s') (l_sv s') \<and>
        stream (l_sv s') (l_cl s')"
      by (intro Cons.IH) (auto split: ep_event.splits)
    with AtClient X' show ?thesis by simp
  next
    case (AtServer t ev)
    obtain X' where X': "ep_step t ev (ep_out (l_cl s)) (l_sv s) = Some X'"
      using ep_step_total [OF inv(3,4)] by blast
    have "server_writes (e # es) = server_writes es + (case ev of Write p \<Rightarrow> 1 | _ \<Rightarrow> 0)"
      "client_writes (e # es) = client_writes es"
      using AtServer by (auto split: ep_event.split)
    with Cons.prems stream_turn [OF Cons.prems(2,1) X'] ep_step_written_length [OF X']
    have "\<exists>s'. link_run es (s\<lparr>l_sv := X'\<rparr>) = Some s' \<and> stream (l_cl s') (l_sv s') \<and>
        stream (l_sv s') (l_cl s')"
      by (intro Cons.IH) (auto split: ep_event.splits)
    with AtServer X' show ?thesis by simp
  qed
qed

text \<open>What the invariant says to an observer.\<close>

definition in_order :: "endpoint \<Rightarrow> endpoint \<Rightarrow> bool" where
  "in_order X Y \<longleftrightarrow> prefix (ep_read Y) (ep_written X)"

text \<open>Everything the sender has dropped from its buffer has reached the receiver.\<close>

definition all_delivered :: "endpoint \<Rightarrow> endpoint \<Rightarrow> bool" where
  "all_delivered X Y \<longleftrightarrow>
     (buf_Empty (lc_sendBuf (ep_conn X)) \<longrightarrow>
        (\<exists>ms. buf_Contents (lc_recvBuf (ep_conn Y)) = Some ms \<and>
              ep_read Y @ map msg_Payload ms = ep_written X))"

lemma stream_observed:
  assumes "stream X Y"
  shows "in_order X Y" and "all_delivered X Y"
proof -
  from assms obtain k n where inv: "snd_inv X k" "rcv_inv Y (ep_written X) n" "k \<le> n"
    by (auto simp: stream_def)
  from inv(2) obtain sb rb where rep: "conn_rep (ep_conn Y) sb rb"
    and rd: "ep_read Y @ map msg_Payload rb = take n (ep_written X)" and n: "n \<le> length (ep_written X)"
    by (auto simp: rcv_inv_def)
  have "prefix (ep_read Y) (take n (ep_written X))" unfolding rd [symmetric] by simp
  then show "in_order X Y" unfolding in_order_def using take_is_prefix prefix_order.trans by blast
  show "all_delivered X Y" unfolding all_delivered_def
  proof
    assume e: "buf_Empty (lc_sendBuf (ep_conn X))"
    from inv(1) obtain sb' rb' where q: "conn_rep (ep_conn X) sb' rb'" "send_queue (ep_written X) k sb'"
      by (auto simp: snd_inv_def)
    with e bufi.rep_isempty [of "lc_sendBuf (ep_conn X)" sb'] have "sb' = []"
      by (simp add: conn_rep_def)
    with q(2) have "length (ep_written X) - k = 0" by (auto elim!: send_queueE)
    with inv(3) have "length (ep_written X) \<le> n" by simp
    with rd rep buf_rep_Contents show "\<exists>ms. buf_Contents (lc_recvBuf (ep_conn Y)) = Some ms \<and>
        ep_read Y @ map msg_Payload ms = ep_written X"
      by (fastforce simp: conn_rep_def)
  qed
qed

section \<open>Properties\<close>

text \<open>
  C1: A live sequence.  Over a network that may lose, duplicate, delay and reorder datagrams in
  any way, and whatever the two applications and the epoch timers do, neither end panics, each
  application reads a prefix of what the other one wrote (in order, nothing lost in between,
  nothing twice), and whenever an end has nothing left to resend the other end has received all
  it wrote.  The sequence numbers are bytes, so this is stated for at most 255 writes per
  side.
\<close>

theorem lsp_in_order:
  assumes "client_writes es \<le> 255" and "server_writes es \<le> 255"
  shows "\<exists>s0 s. link_init ps addr cid now = Some s0 \<and> link_run es s0 = Some s \<and>
    in_order (l_cl s) (l_sv s) \<and> in_order (l_sv s) (l_cl s) \<and>
    all_delivered (l_cl s) (l_sv s) \<and> all_delivered (l_sv s) (l_cl s)"
proof -
  obtain s0 where s0: "link_init ps addr cid now = Some s0" "stream (l_cl s0) (l_sv s0)"
      "stream (l_sv s0) (l_cl s0)" "ep_written (l_cl s0) = []" "ep_written (l_sv s0) = []"
    using link_init_inv by blast
  obtain s where "link_run es s0 = Some s" "stream (l_cl s) (l_sv s)" "stream (l_sv s) (l_cl s)"
    using link_run_streams [OF s0(2,3), of es] s0(4,5) assms by auto
  with s0(1) stream_observed show ?thesis by blast
qed

theorem lsp_in_order_witness:
  "\<exists>s0 s. link_init \<lparr>EpochLimit = 5, EpochMilliseconds = 2000\<rparr> ''a'' 1 0 = Some s0 \<and>
     link_run [AtClient 1 (Write ''hi''), AtClient 2 (Recv 0), AtServer 3 (Recv 1), AtServer 3 (Recv 1),
               AtServer 4 Read] s0 = Some s \<and> in_order (l_cl s) (l_sv s)"
  using lsp_in_order [of "[AtClient 1 (Write ''hi''), AtClient 2 (Recv 0), AtServer 3 (Recv 1),
    AtServer 3 (Recv 1), AtServer 4 Read]" "\<lparr>EpochLimit = 5, EpochMilliseconds = 2000\<rparr>" "''a''" 1 0] by auto

end
