(* ===== verification/ViewService.thy ===== *)
theory ViewService
  imports Prelude
begin

text \<open>
  The view service of \<open>6.824-labs/viewservice\<close>: \<open>server.go\<close>, the types of \<open>common.go\<close> and the
  clerk of \<open>client.go\<close>.

  \<^item> \<open>vs.clients\<close> is a map from host names to clients; Go iterates over a map in an arbitrary
    order, so \<open>tick\<close> takes the order of the round as an argument, a list of host names.
  \<^item> A pointer to a client is its host name; looking up a missing one and using it is the nil
    dereference \<open>None\<close>.
  \<^item> The clock is an argument.  RPC handlers and \<open>tick\<close> run under the server's mutex, so each is
    one step.
\<close>

section \<open>Data\<close>

record View =
  Viewnum :: u64
  Primary :: string
  Backup :: string

definition no_view :: View where
  "no_view = \<lparr>Viewnum = 0, Primary = '''', Backup = ''''\<rparr>"

definition PingInterval :: time where "PingInterval = milliseconds 100"
definition DeadPings :: int where "DeadPings = 5"

record Client =
  vc_hostport :: string
  vc_dead :: bool
  vc_idle :: bool
  vc_lastViewnum :: u64
  vc_lastPing :: time

record ViewServer =
  vs_view :: View
  vs_clients :: "string \<rightharpoonup> Client"
  vs_acked :: bool
  vs_primaryRestarted :: bool

text \<open>\<open>StartServer\<close>, without its listener and its two threads.\<close>

definition StartServer :: ViewServer where
  "StartServer =
     \<lparr>vs_view = no_view, vs_clients = Map.empty, vs_acked = True, vs_primaryRestarted = False\<rparr>"

section \<open>Handlers\<close>

definition vs_Ping :: "time \<Rightarrow> string \<Rightarrow> u64 \<Rightarrow> ViewServer \<Rightarrow> ViewServer \<times> View" where
  "vs_Ping now me viewnum vs =
     (let cli = (case vs_clients vs me of
            Some c \<Rightarrow> c
          | None \<Rightarrow> \<lparr>vc_hostport = me, vc_dead = False, vc_idle = True, vc_lastViewnum = 0,
                     vc_lastPing = 0\<rparr>);
          vs1 = (if me = Primary (vs_view vs) \<and> viewnum = Viewnum (vs_view vs)
                 then vs\<lparr>vs_acked := True\<rparr> else vs);
          vs2 = (if me = Primary (vs_view vs1) \<and> viewnum = 0 \<and> Viewnum (vs_view vs1) \<noteq> 0 \<and> vs_acked vs1
                 then vs1\<lparr>vs_primaryRestarted := True\<rparr> else vs1);
          cli1 = cli\<lparr>vc_dead := False, vc_lastViewnum := viewnum, vc_lastPing := now\<rparr>
      in (vs2\<lparr>vs_clients := (vs_clients vs2)(me \<mapsto> cli1)\<rparr>, vs_view vs2))"

definition vs_Get :: "ViewServer \<Rightarrow> View" where
  "vs_Get vs = vs_view vs"

section \<open>The tick\<close>

text \<open>
  The loop over the clients: who is dead now, the first idle client met, and the first idle
  client met that has seen the current view.
\<close>

definition vs_expired :: "time \<Rightarrow> Client \<Rightarrow> bool" where
  "vs_expired now cli = (now - vc_lastPing cli > PingInterval * DeadPings)"

definition mark_dead :: "time \<Rightarrow> Client \<Rightarrow> Client" where
  "mark_dead now cli = (if vs_expired now cli then cli\<lparr>vc_idle := True, vc_dead := True\<rparr> else cli)"

fun tick_scan ::
  "time \<Rightarrow> u64 \<Rightarrow> string list \<Rightarrow> (string \<rightharpoonup> Client) \<times> string option \<times> string option \<Rightarrow>
   (string \<rightharpoonup> Client) \<times> string option \<times> string option" where
  "tick_scan now vn [] st = st"
| "tick_scan now vn (k # ks) (clients, idle, inited) =
     (case clients k of
        None \<Rightarrow> tick_scan now vn ks (clients, idle, inited)
      | Some cli \<Rightarrow>
          (let cli1 = mark_dead now cli;
               idle1 = (if \<not> vc_dead cli1 \<and> vc_idle cli1 \<and> idle = None then Some k else idle);
               inited1 = (if \<not> vc_dead cli1 \<and> vc_idle cli1 \<and> vc_lastViewnum cli1 = vn \<and> inited = None
                          then Some k else inited)
           in tick_scan now vn ks (clients(k \<mapsto> cli1), idle1, inited1)))"

text \<open>Clearing the dead primary and backup, then the restarted primary.\<close>

definition drop_dead :: "(string \<rightharpoonup> Client) \<Rightarrow> View \<Rightarrow> View go" where
  "drop_dead clients v = do {
     v1 \<leftarrow> (if Primary v \<noteq> '''' then do {
              c \<leftarrow> clients (Primary v);
              Some (if vc_dead c then v\<lparr>Primary := ''''\<rparr> else v) }
            else Some v);
     (if Backup v1 \<noteq> '''' then do {
        c \<leftarrow> clients (Backup v1);
        Some (if vc_dead c then v1\<lparr>Backup := ''''\<rparr> else v1) }
      else Some v1) }"

definition drop_restarted :: "ViewServer \<Rightarrow> ViewServer go" where
  "drop_restarted vs =
     (if vs_primaryRestarted vs then do {
        c \<leftarrow> vs_clients vs (Primary (vs_view vs));
        Some (vs\<lparr>vs_clients := (vs_clients vs)(Primary (vs_view vs) \<mapsto> c\<lparr>vc_idle := True\<rparr>),
                 vs_view := (vs_view vs)\<lparr>Primary := ''''\<rparr>,
                 vs_primaryRestarted := False\<rparr>) }
      else Some vs)"

text \<open>Filling the empty places; every branch that does so starts a new, unacknowledged view.\<close>

definition choose_view :: "string option \<Rightarrow> string option \<Rightarrow> ViewServer \<Rightarrow> ViewServer go" where
  "choose_view idle inited vs =
     (let v = vs_view vs in
      if Primary v = '''' \<and> Backup v = '''' then
        (case inited of
           None \<Rightarrow> Some vs
         | Some k \<Rightarrow> do {
             c \<leftarrow> vs_clients vs k;
             Some (vs\<lparr>vs_view := v\<lparr>Primary := vc_hostport c, Viewnum := Viewnum v + 1\<rparr>,
                      vs_acked := False,
                      vs_clients := (vs_clients vs)(k \<mapsto> c\<lparr>vc_idle := False\<rparr>)\<rparr>) })
      else if Primary v = '''' then do {
        c \<leftarrow> vs_clients vs (Backup v);
        Some (if vc_lastViewnum c = Viewnum v
              then vs\<lparr>vs_view := \<lparr>Viewnum = Viewnum v + 1, Primary = Backup v, Backup = ''''\<rparr>,
                      vs_acked := False\<rparr>
              else vs) }
      else if Backup v = '''' then
        (case idle of
           None \<Rightarrow> Some vs
         | Some k \<Rightarrow> do {
             c \<leftarrow> vs_clients vs k;
             Some (vs\<lparr>vs_view := v\<lparr>Backup := vc_hostport c, Viewnum := Viewnum v + 1\<rparr>,
                      vs_acked := False,
                      vs_clients := (vs_clients vs)(k \<mapsto> c\<lparr>vc_idle := False\<rparr>)\<rparr>) })
      else Some vs)"

definition vs_tick :: "time \<Rightarrow> string list \<Rightarrow> ViewServer \<Rightarrow> ViewServer go" where
  "vs_tick now order vs =
     (let (clients, idle, inited) =
            tick_scan now (Viewnum (vs_view vs)) order (vs_clients vs, None, None);
          vs1 = vs\<lparr>vs_clients := clients\<rparr>
      in if vs_acked vs1 then do {
           v \<leftarrow> drop_dead clients (vs_view vs1);
           vs2 \<leftarrow> drop_restarted (vs1\<lparr>vs_view := v\<rparr>);
           choose_view idle inited vs2 }
         else Some vs1)"

section \<open>Runs\<close>

datatype vs_event = PingFrom time string u64 | Tick time "string list"

fun vs_step :: "vs_event \<Rightarrow> ViewServer \<Rightarrow> ViewServer go" where
  "vs_step (PingFrom now me vn) vs = Some (fst (vs_Ping now me vn vs))"
| "vs_step (Tick now order) vs = vs_tick now order vs"

fun vs_run :: "vs_event list \<Rightarrow> ViewServer \<Rightarrow> ViewServer go" where
  "vs_run [] vs = Some vs"
| "vs_run (e # es) vs = Option.bind (vs_step e vs) (vs_run es)"

section \<open>The clerk\<close>

text \<open>\<open>call()\<close> is the remote call of the prelude; \<open>Ping\<close> returns an error when it fails.\<close>

datatype ck_error = Ping_failed u64

definition ck_Ping ::
  "delivery \<Rightarrow> time \<Rightarrow> string \<Rightarrow> u64 \<Rightarrow> ViewServer \<Rightarrow> ViewServer \<times> (ck_error + View)" where
  "ck_Ping d now me viewnum vs =
     (case rpc d (vs_Ping now me viewnum) vs of
        (vs', None) \<Rightarrow> (vs', Inl (Ping_failed viewnum))
      | (vs', Some v) \<Rightarrow> (vs', Inr v))"

definition ck_Get :: "delivery \<Rightarrow> ViewServer \<Rightarrow> View \<times> bool" where
  "ck_Get d vs =
     (case rpc d (\<lambda>s. (s, vs_Get s)) vs of
        (_, None) \<Rightarrow> (no_view, False)
      | (_, Some v) \<Rightarrow> (v, True))"

definition ck_Primary :: "delivery \<Rightarrow> ViewServer \<Rightarrow> string" where
  "ck_Primary d vs = (let (v, ok) = ck_Get d vs in if ok then Primary v else '''')"

section \<open>The scan\<close>

definition ready :: "time \<Rightarrow> Client \<Rightarrow> bool" where
  "ready now c = (\<not> vc_dead (mark_dead now c) \<and> vc_idle (mark_dead now c))"

lemma mark_dead_fields [simp]:
  "vc_hostport (mark_dead now c) = vc_hostport c"
  "vc_lastViewnum (mark_dead now c) = vc_lastViewnum c"
  "vc_lastPing (mark_dead now c) = vc_lastPing c"
  "mark_dead now (mark_dead now c) = mark_dead now c"
  "ready now (mark_dead now c) = ready now c"
  by (auto simp: mark_dead_def vs_expired_def ready_def)

definition scanned :: "time \<Rightarrow> string list \<Rightarrow> (string \<rightharpoonup> Client) \<Rightarrow> string \<rightharpoonup> Client" where
  "scanned now ks cl = (\<lambda>k. if k \<in> set ks then map_option (mark_dead now) (cl k) else cl k)"

definition first_ready :: "time \<Rightarrow> (Client \<Rightarrow> bool) \<Rightarrow> string list \<Rightarrow> (string \<rightharpoonup> Client) \<Rightarrow> string option" where
  "first_ready now P ks cl =
     List.find (\<lambda>k. case cl k of None \<Rightarrow> False | Some c \<Rightarrow> ready now c \<and> P c) ks"

lemma first_ready_simps [simp]:
  "first_ready now P [] cl = None"
  "first_ready now P (k # ks) cl =
     (case cl k of
        None \<Rightarrow> first_ready now P ks cl
      | Some c \<Rightarrow> if ready now c \<and> P c then Some k else first_ready now P ks cl)"
  by (auto simp: first_ready_def split: option.splits)

lemma first_ready_marked:
  assumes "cl k = Some c" "\<And>c. P (mark_dead now c) = P c"
  shows "first_ready now P ks (cl(k \<mapsto> mark_dead now c)) = first_ready now P ks cl"
  using assms by (induction ks) (auto split: option.splits)

lemma tick_scan_eq:
  "tick_scan now vn ks (cl, i, j) =
     (scanned now ks cl,
      (case i of Some _ \<Rightarrow> i | None \<Rightarrow> first_ready now (\<lambda>_. True) ks cl),
      (case j of Some _ \<Rightarrow> j | None \<Rightarrow> first_ready now (\<lambda>c. vc_lastViewnum c = vn) ks cl))"
proof (induction ks arbitrary: cl i j)
  case Nil
  then show ?case by (auto simp: scanned_def split: option.splits)
next
  case (Cons k ks)
  show ?case
  proof (cases "cl k")
    case None
    then have "scanned now (k # ks) cl = scanned now ks cl" by (auto simp: scanned_def)
    with None show ?thesis by (cases i; cases j) (simp_all add: Cons.IH)
  next
    case (Some c)
    have "scanned now ks (cl(k \<mapsto> mark_dead now c)) = scanned now (k # ks) cl"
      by (auto simp: scanned_def Some)
    with Some show ?thesis
      by (cases i; cases j) (simp_all add: Cons.IH first_ready_marked ready_def del: fun_upd_apply)
  qed
qed

lemma scanned_Some:
  "scanned now ks cl k = Some c \<Longrightarrow>
   \<exists>c0. cl k = Some c0 \<and> vc_hostport c = vc_hostport c0 \<and> vc_lastViewnum c = vc_lastViewnum c0"
  by (auto simp: scanned_def split: if_splits)

lemma scanned_None [simp]: "scanned now ks cl k = None \<longleftrightarrow> cl k = None"
  by (auto simp: scanned_def)

lemma scanned_known [simp]: "(\<exists>c. scanned now ks cl k = Some c) \<longleftrightarrow> (\<exists>c. cl k = Some c)"
  by (auto simp: scanned_def)

lemma dom_scanned [simp]: "dom (scanned now ks cl) = dom cl"
  by (auto simp: scanned_def dom_def)

lemma first_ready_Some:
  "first_ready now P ks cl = Some k \<Longrightarrow> \<exists>c. cl k = Some c \<and> ready now c \<and> P c \<and> k \<in> set ks"
  by (auto simp: first_ready_def dest!: find_Some_set split: option.splits)

section \<open>Invariant\<close>

text \<open>
  The primary and the backup are known clients; while a view is unacknowledged it has a primary;
  a restart is only noted for the primary of an acknowledged view.
\<close>

definition clients_ok :: "(string \<rightharpoonup> Client) \<Rightarrow> bool" where
  "clients_ok cl \<longleftrightarrow> (\<forall>k c. cl k = Some c \<longrightarrow> vc_hostport c = k \<and> k \<noteq> '''')"

definition vs_inv :: "ViewServer \<Rightarrow> bool" where
  "vs_inv vs \<longleftrightarrow>
     clients_ok (vs_clients vs) \<and>
     Primary (vs_view vs) \<in> insert '''' (dom (vs_clients vs)) \<and>
     Backup (vs_view vs) \<in> insert '''' (dom (vs_clients vs)) \<and>
     (\<not> vs_acked vs \<longrightarrow> Primary (vs_view vs) \<noteq> '''') \<and>
     (vs_primaryRestarted vs \<longrightarrow> vs_acked vs \<and> Primary (vs_view vs) \<noteq> '''')"

lemma vs_inv_init: "vs_inv StartServer"
  by (simp add: vs_inv_def clients_ok_def StartServer_def no_view_def)

lemma vs_inv_Ping: "vs_inv vs \<Longrightarrow> me \<noteq> '''' \<Longrightarrow> vs_inv (fst (vs_Ping now me vn vs))"
  by (auto simp: vs_inv_def clients_ok_def vs_Ping_def split: option.splits)

lemma clients_ok_scanned: "clients_ok cl \<Longrightarrow> clients_ok (scanned now ks cl)"
  by (auto simp: clients_ok_def dest!: scanned_Some)

lemma clients_ok_upd:
  "clients_ok cl \<Longrightarrow> cl k = Some c \<Longrightarrow> vc_hostport c' = vc_hostport c \<Longrightarrow> clients_ok (cl(k \<mapsto> c'))"
  by (auto simp: clients_ok_def)

lemma clients_ok_empty: "clients_ok cl \<Longrightarrow> cl '''' = None"
  by (cases "cl ''''") (auto simp: clients_ok_def)

section \<open>What a tick does\<close>

definition gone :: "(string \<rightharpoonup> Client) \<Rightarrow> string \<Rightarrow> bool" where
  "gone cl k = (case cl k of None \<Rightarrow> False | Some c \<Rightarrow> vc_dead c)"

definition unless_gone :: "(string \<rightharpoonup> Client) \<Rightarrow> string \<Rightarrow> string" where
  "unless_gone cl k = (if gone cl k then '''' else k)"

lemma unless_gone_empty [simp]: "unless_gone cl '''' = ''''"
  by (simp add: unless_gone_def)

lemma drop_dead_eq:
  assumes "clients_ok cl" "Primary v \<in> insert '''' (dom cl)" "Backup v \<in> insert '''' (dom cl)"
  shows "drop_dead cl v =
    Some (v\<lparr>Primary := unless_gone cl (Primary v), Backup := unless_gone cl (Backup v)\<rparr>)"
  using assms clients_ok_empty [OF assms(1)]
  by (auto simp: drop_dead_def unless_gone_def gone_def split: option.splits)

lemma vs_tick_unacked:
  "\<not> vs_acked vs \<Longrightarrow>
   vs_tick now order vs = Some (vs\<lparr>vs_clients := scanned now order (vs_clients vs)\<rparr>)"
  by (simp add: vs_tick_def tick_scan_eq)

text \<open>The state in which the new view is chosen.\<close>

definition settled :: "time \<Rightarrow> string list \<Rightarrow> ViewServer \<Rightarrow> ViewServer go" where
  "settled now order vs =
     (let cl = scanned now order (vs_clients vs); v = vs_view vs
      in drop_restarted (vs\<lparr>vs_clients := cl,
           vs_view := v\<lparr>Primary := unless_gone cl (Primary v), Backup := unless_gone cl (Backup v)\<rparr>\<rparr>))"

lemma vs_tick_acked:
  assumes "vs_inv vs" "vs_acked vs"
  shows "vs_tick now order vs =
    Option.bind (settled now order vs)
      (choose_view (first_ready now (\<lambda>_. True) order (vs_clients vs))
         (first_ready now (\<lambda>c. vc_lastViewnum c = Viewnum (vs_view vs)) order (vs_clients vs)))"
proof -
  from assms(1) have "drop_dead (scanned now order (vs_clients vs)) (vs_view vs) =
      Some ((vs_view vs)\<lparr>Primary := unless_gone (scanned now order (vs_clients vs)) (Primary (vs_view vs)),
        Backup := unless_gone (scanned now order (vs_clients vs)) (Backup (vs_view vs))\<rparr>)"
    by (intro drop_dead_eq) (auto simp: vs_inv_def clients_ok_scanned)
  then show ?thesis using assms(2) by (simp add: vs_tick_def tick_scan_eq settled_def)
qed

text \<open>
  Settling panics exactly when a restarted primary is also dead: its place was cleared before it
  is looked up.
\<close>

definition tick_crash :: "time \<Rightarrow> string list \<Rightarrow> ViewServer \<Rightarrow> bool" where
  "tick_crash now order vs \<longleftrightarrow>
     vs_primaryRestarted vs \<and> gone (scanned now order (vs_clients vs)) (Primary (vs_view vs))"

lemma settled_crash:
  assumes "vs_inv vs"
  shows "settled now order vs = None \<longleftrightarrow> tick_crash now order vs"
proof -
  define cl where "cl = scanned now order (vs_clients vs)"
  have empty: "cl '''' = None" using assms clients_ok_empty by (simp add: cl_def vs_inv_def)
  have dom: "dom cl = dom (vs_clients vs)" by (simp add: cl_def)
  show ?thesis
  proof (cases "vs_primaryRestarted vs")
    case True
    with assms dom obtain c where "cl (Primary (vs_view vs)) = Some c"
      unfolding vs_inv_def by (auto simp: dom_def)
    with True empty show ?thesis
      by (simp add: settled_def drop_restarted_def tick_crash_def unless_gone_def cl_def [symmetric])
  next
    case False
    then show ?thesis by (simp add: settled_def drop_restarted_def tick_crash_def)
  qed
qed

lemma settledE:
  assumes inv: "vs_inv vs" "vs_acked vs" and s: "settled now order vs = Some t"
  obtains "clients_ok (vs_clients t)" "dom (vs_clients t) = dom (vs_clients vs)"
    "\<And>k c. vs_clients t k = Some c \<Longrightarrow>
       \<exists>c0. vs_clients vs k = Some c0 \<and> vc_lastViewnum c = vc_lastViewnum c0"
    "vs_acked t" "\<not> vs_primaryRestarted t" "Viewnum (vs_view t) = Viewnum (vs_view vs)"
    "Primary (vs_view t) = (if vs_primaryRestarted vs then ''''
       else unless_gone (scanned now order (vs_clients vs)) (Primary (vs_view vs)))"
    "Backup (vs_view t) = unless_gone (scanned now order (vs_clients vs)) (Backup (vs_view vs))"
proof -
  let ?cl = "scanned now order (vs_clients vs)"
  have ok: "clients_ok ?cl" using inv(1) by (simp add: vs_inv_def clients_ok_scanned)
  have last: "\<exists>c0. vs_clients vs k = Some c0 \<and> vc_lastViewnum c = vc_lastViewnum c0"
    if "?cl k = Some c" for k c using scanned_Some [OF that] by blast
  show thesis
  proof (cases "vs_primaryRestarted vs")
    case True
    with s obtain p c where p: "p = unless_gone ?cl (Primary (vs_view vs))" "?cl p = Some c"
        "vs_clients t = ?cl(p \<mapsto> c\<lparr>vc_idle := True\<rparr>)"
        "vs_view t = (vs_view vs)\<lparr>Primary := '''', Backup := unless_gone ?cl (Backup (vs_view vs))\<rparr>"
        "\<not> vs_primaryRestarted t" "vs_acked t = vs_acked vs"
      by (auto simp: settled_def drop_restarted_def split: Option.bind_splits)
    show thesis
    proof (rule that)
      show "clients_ok (vs_clients t)" using clients_ok_upd [OF ok p(2), of "c\<lparr>vc_idle := True\<rparr>"] p(3) by simp
      have "p \<in> dom ?cl" using p(2) by blast
      then show "dom (vs_clients t) = dom (vs_clients vs)"
        unfolding p(3) by (simp add: insert_absorb)
      show "\<exists>c0. vs_clients vs k = Some c0 \<and> vc_lastViewnum c' = vc_lastViewnum c0"
        if "vs_clients t k = Some c'" for k c'
        using that last [of k c'] last [OF p(2)] p(3) by (auto split: if_splits)
    qed (use p inv(2) True in auto)
  next
    case False
    with s have "t = vs\<lparr>vs_clients := ?cl, vs_view := (vs_view vs)\<lparr>Primary := unless_gone ?cl (Primary (vs_view vs)),
        Backup := unless_gone ?cl (Backup (vs_view vs))\<rparr>\<rparr>"
      by (simp add: settled_def drop_restarted_def)
    with False ok last inv(2) show thesis by (intro that) auto
  qed
qed

lemma choose_viewE:
  assumes ok: "clients_ok (vs_clients t)"
    and ch: "choose_view idle inited t = Some u"
  obtains
    (same) "u = t"
  | (adopt) k c where "inited = Some k" "vs_clients t k = Some c" "Primary (vs_view t) = ''''"
      "Backup (vs_view t) = ''''" "k \<noteq> ''''"
      "u = t\<lparr>vs_view := \<lparr>Viewnum = Viewnum (vs_view t) + 1, Primary = k, Backup = ''''\<rparr>,
             vs_acked := False, vs_clients := (vs_clients t)(k \<mapsto> c\<lparr>vc_idle := False\<rparr>)\<rparr>"
  | (promote) c where "Primary (vs_view t) = ''''" "Backup (vs_view t) \<noteq> ''''"
      "vs_clients t (Backup (vs_view t)) = Some c" "vc_lastViewnum c = Viewnum (vs_view t)"
      "u = t\<lparr>vs_view := \<lparr>Viewnum = Viewnum (vs_view t) + 1, Primary = Backup (vs_view t), Backup = ''''\<rparr>,
             vs_acked := False\<rparr>"
  | (recruit) k c where "idle = Some k" "vs_clients t k = Some c" "Primary (vs_view t) \<noteq> ''''"
      "Backup (vs_view t) = ''''" "k \<noteq> ''''"
      "u = t\<lparr>vs_view := \<lparr>Viewnum = Viewnum (vs_view t) + 1, Primary = Primary (vs_view t), Backup = k\<rparr>,
             vs_acked := False, vs_clients := (vs_clients t)(k \<mapsto> c\<lparr>vc_idle := False\<rparr>)\<rparr>"
proof -
  have host: "vc_hostport c = k \<and> k \<noteq> ''''" if "vs_clients t k = Some c" for k c
    using ok that by (simp add: clients_ok_def)
  consider (both) "Primary (vs_view t) = ''''" "Backup (vs_view t) = ''''"
    | (prim) "Primary (vs_view t) = ''''" "Backup (vs_view t) \<noteq> ''''"
    | (backup) "Primary (vs_view t) \<noteq> ''''" "Backup (vs_view t) = ''''"
    | (none) "Primary (vs_view t) \<noteq> ''''" "Backup (vs_view t) \<noteq> ''''" by blast
  then show thesis
  proof cases
    case both
    show thesis
    proof (cases inited)
      case None
      with both ch same show thesis by (simp add: choose_view_def)
    next
      case (Some k)
      with both ch obtain c where c: "vs_clients t k = Some c"
        by (auto simp: choose_view_def split: Option.bind_splits)
      from host [OF c] both Some c ch show thesis
        by (intro adopt [OF Some c]) (auto simp: choose_view_def)
    qed
  next
    case prim
    with ch obtain c where c: "vs_clients t (Backup (vs_view t)) = Some c"
      by (auto simp: choose_view_def split: Option.bind_splits)
    with prim ch show thesis
      by (cases "vc_lastViewnum c = Viewnum (vs_view t)")
         (auto simp: choose_view_def intro: same promote [OF prim c])
  next
    case backup
    show thesis
    proof (cases idle)
      case None
      with backup ch same show thesis by (simp add: choose_view_def)
    next
      case (Some k)
      with backup ch obtain c where c: "vs_clients t k = Some c"
        by (auto simp: choose_view_def split: Option.bind_splits)
      from host [OF c] backup Some c ch show thesis
        by (intro recruit [OF Some c]) (auto simp: choose_view_def)
    qed
  next
    case none
    with ch same show thesis by (simp add: choose_view_def)
  qed
qed

lemma choose_view_total:
  assumes "Backup (vs_view t) \<in> insert '''' (dom (vs_clients t))"
    and "\<And>k. idle = Some k \<Longrightarrow> k \<in> dom (vs_clients t)" "\<And>k. inited = Some k \<Longrightarrow> k \<in> dom (vs_clients t)"
  shows "choose_view idle inited t \<noteq> None"
proof -
  have idle: "idle = None \<or> (\<exists>k c. idle = Some k \<and> vs_clients t k = Some c)"
    using assms(2) by (cases idle) auto
  have inited: "inited = None \<or> (\<exists>k c. inited = Some k \<and> vs_clients t k = Some c)"
    using assms(3) by (cases inited) auto
  show ?thesis using assms(1) idle inited by (auto simp: choose_view_def)
qed

lemma first_ready_dom: "first_ready now P ks cl = Some k \<Longrightarrow> k \<in> dom cl"
  by (auto dest!: first_ready_Some)

lemma vs_tick_None:
  assumes inv: "vs_inv vs"
  shows "vs_tick now order vs = None \<longleftrightarrow> tick_crash now order vs"
proof (cases "vs_acked vs")
  case True
  note settledE' = settledE [OF inv True]
  have "choose_view idle inited t \<noteq> None"
    if t: "settled now order vs = Some t"
      and "idle = first_ready now (\<lambda>_. True) order (vs_clients vs)"
      and "inited = first_ready now (\<lambda>c. vc_lastViewnum c = Viewnum (vs_view vs)) order (vs_clients vs)"
    for t idle inited
  proof (rule settledE' [OF t])
    assume "dom (vs_clients t) = dom (vs_clients vs)"
      "Backup (vs_view t) = unless_gone (scanned now order (vs_clients vs)) (Backup (vs_view vs))"
    with inv that(2,3) show ?thesis
      by (intro choose_view_total)
         (auto simp: vs_inv_def unless_gone_def dest: first_ready_dom [OF sym])
  qed
  with settled_crash [OF inv, of now order] show ?thesis
    by (cases "settled now order vs") (auto simp: vs_tick_acked [OF inv True])
next
  case False
  with inv show ?thesis by (auto simp: vs_tick_unacked tick_crash_def vs_inv_def)
qed

text \<open>A place of the view is open when it is empty, its holder is dead, or (the primary) restarted.\<close>

definition primary_open :: "time \<Rightarrow> string list \<Rightarrow> ViewServer \<Rightarrow> bool" where
  "primary_open now order vs \<longleftrightarrow>
     Primary (vs_view vs) = '''' \<or> vs_primaryRestarted vs \<or>
     gone (scanned now order (vs_clients vs)) (Primary (vs_view vs))"

definition backup_open :: "time \<Rightarrow> string list \<Rightarrow> ViewServer \<Rightarrow> bool" where
  "backup_open now order vs \<longleftrightarrow>
     Backup (vs_view vs) = '''' \<or> gone (scanned now order (vs_clients vs)) (Backup (vs_view vs))"

lemma vs_inv_tick:
  assumes inv: "vs_inv vs" and tick: "vs_tick now order vs = Some u"
  shows "vs_inv u"
proof (cases "vs_acked vs")
  case False
  with assms show ?thesis by (auto simp: vs_tick_unacked vs_inv_def clients_ok_scanned)
next
  case True
  from tick obtain t where t: "settled now order vs = Some t"
      and ch: "choose_view (first_ready now (\<lambda>_. True) order (vs_clients vs))
         (first_ready now (\<lambda>c. vc_lastViewnum c = Viewnum (vs_view vs)) order (vs_clients vs)) t = Some u"
    by (auto simp: vs_tick_acked [OF inv True] split: Option.bind_splits)
  show ?thesis
  proof (rule settledE [OF inv True t])
    assume ok: "clients_ok (vs_clients t)" and dom: "dom (vs_clients t) = dom (vs_clients vs)"
      and acked: "vs_acked t" "\<not> vs_primaryRestarted t"
      and prim: "Primary (vs_view t) = (if vs_primaryRestarted vs then ''''
         else unless_gone (scanned now order (vs_clients vs)) (Primary (vs_view vs)))"
      and backup: "Backup (vs_view t) = unless_gone (scanned now order (vs_clients vs)) (Backup (vs_view vs))"
    have t: "vs_inv t"
      using inv ok dom acked prim backup by (auto simp: vs_inv_def unless_gone_def)
    from ok ch show "vs_inv u"
    proof (cases rule: choose_viewE)
      case (adopt k c)
      with t acked clients_ok_upd [OF ok adopt(2), of "c\<lparr>vc_idle := False\<rparr>"]
      show ?thesis by (auto simp: vs_inv_def)
    next
      case (recruit k c)
      with t acked clients_ok_upd [OF ok recruit(2), of "c\<lparr>vc_idle := False\<rparr>"]
      show ?thesis by (auto simp: vs_inv_def)
    qed (use t acked in \<open>auto simp: vs_inv_def\<close>)
  qed
qed

text \<open>Hosts have nonempty names.\<close>

fun named :: "vs_event \<Rightarrow> bool" where
  "named (PingFrom now me vn) = (me \<noteq> '''')"
| "named (Tick now order) = True"

lemma vs_step_inv: "vs_inv vs \<Longrightarrow> named e \<Longrightarrow> vs_step e vs = Some u \<Longrightarrow> vs_inv u"
  by (cases e) (auto simp: vs_inv_Ping vs_inv_tick)

lemma vs_run_inv: "vs_inv vs \<Longrightarrow> list_all named es \<Longrightarrow> vs_run es vs = Some u \<Longrightarrow> vs_inv u"
  by (induction es arbitrary: vs) (auto split: Option.bind_splits intro: vs_step_inv)

section \<open>Properties\<close>

text \<open>The ping that acknowledges a view: from its primary, with its number.\<close>

fun acks :: "View \<Rightarrow> vs_event \<Rightarrow> bool" where
  "acks v (PingFrom now me vn) = (me = Primary v \<and> vn = Viewnum v)"
| "acks v (Tick now order) = False"

text \<open>
  C9: The view service never leaves an unacknowledged view: while the primary of a view has not
  pinged with the number of that view, no other pings and no ticks, in whatever number, order
  and timing, change the view in any way (and none crashes the service).
\<close>

theorem view_frozen_until_acked:
  assumes "\<not> vs_acked vs" and "list_all (\<lambda>e. \<not> acks (vs_view vs) e) es"
  shows "\<exists>u. vs_run es vs = Some u \<and> vs_view u = vs_view vs \<and> \<not> vs_acked u"
  using assms
proof (induction es arbitrary: vs)
  case (Cons e es)
  have "\<exists>t. vs_step e vs = Some t \<and> vs_view t = vs_view vs \<and> \<not> vs_acked t"
    using Cons.prems by (cases e) (auto simp: vs_Ping_def vs_tick_unacked)
  then obtain t where "vs_step e vs = Some t" "vs_view t = vs_view vs" "\<not> vs_acked t" by blast
  with Cons.IH [of t] Cons.prems(2) show ?case by auto
qed simp

theorem view_frozen_until_acked_witness:
  "\<exists>u. vs_run [Tick (seconds 9) [''a''], PingFrom (seconds 9) ''b'' 0, Tick (seconds 10) [''b'', ''a'']]
     \<lparr>vs_view = \<lparr>Viewnum = 1, Primary = ''a'', Backup = ''''\<rparr>,
      vs_clients = [''a'' \<mapsto> \<lparr>vc_hostport = ''a'', vc_dead = False, vc_idle = False,
                             vc_lastViewnum = 0, vc_lastPing = 0\<rparr>],
      vs_acked = False, vs_primaryRestarted = False\<rparr> = Some u \<and>
     vs_view u = \<lparr>Viewnum = 1, Primary = ''a'', Backup = ''''\<rparr>"
  using view_frozen_until_acked [of "\<lparr>vs_view = \<lparr>Viewnum = 1, Primary = ''a'', Backup = ''''\<rparr>,
      vs_clients = [''a'' \<mapsto> \<lparr>vc_hostport = ''a'', vc_dead = False, vc_idle = False,
                             vc_lastViewnum = 0, vc_lastPing = 0\<rparr>],
      vs_acked = False, vs_primaryRestarted = False\<rparr>"
    "[Tick (seconds 9) [''a''], PingFrom (seconds 9) ''b'' 0, Tick (seconds 10) [''b'', ''a'']]"]
  by auto

text \<open>
  The view after a tick, place by place.  A candidate is a client that is alive and idle at the tick.
\<close>

definition candidate :: "time \<Rightarrow> string list \<Rightarrow> ViewServer \<Rightarrow> string \<Rightarrow> bool" where
  "candidate now order vs k \<longleftrightarrow> k \<in> set order \<and> (\<exists>c. vs_clients vs k = Some c \<and> ready now c)"

definition has_seen :: "ViewServer \<Rightarrow> string \<Rightarrow> bool" where
  "has_seen vs k \<longleftrightarrow> (\<exists>c. vs_clients vs k = Some c \<and> vc_lastViewnum c = Viewnum (vs_view vs))"

definition tick_spec :: "time \<Rightarrow> string list \<Rightarrow> ViewServer \<Rightarrow> ViewServer \<Rightarrow> bool" where
  "tick_spec now order vs u \<longleftrightarrow>
     (let n = Viewnum (vs_view vs); P = Primary (vs_view vs); B = Backup (vs_view vs);
          stays = (\<lambda>p b. vs_view u = \<lparr>Viewnum = n, Primary = p, Backup = b\<rparr> \<and> vs_acked u = vs_acked vs);
          next = (\<lambda>p b. vs_view u = \<lparr>Viewnum = n + 1, Primary = p, Backup = b\<rparr> \<and> \<not> vs_acked u)
      in if \<not> vs_acked vs then stays P B
         else if primary_open now order vs \<and> backup_open now order vs then
           (if \<exists>k. candidate now order vs k \<and> has_seen vs k
            then \<exists>k. candidate now order vs k \<and> has_seen vs k \<and> next k '''' else stays '''' '''')
         else if primary_open now order vs then
           (if has_seen vs B then next B '''' else stays '''' B)
         else if backup_open now order vs then
           (if \<exists>k. candidate now order vs k then \<exists>k. candidate now order vs k \<and> next P k else stays P '''')
         else stays P B)"

lemma tick_spec_adopt:
  "tick_spec now order vs u \<Longrightarrow> vs_acked vs \<Longrightarrow> primary_open now order vs \<Longrightarrow> backup_open now order vs \<Longrightarrow>
   candidate now order vs k \<Longrightarrow> has_seen vs k \<Longrightarrow>
   \<exists>k. candidate now order vs k \<and> has_seen vs k \<and>
     vs_view u = \<lparr>Viewnum = Viewnum (vs_view vs) + 1, Primary = k, Backup = ''''\<rparr> \<and> \<not> vs_acked u"
  by (auto simp: tick_spec_def Let_def split: if_splits)

lemma first_ready_None:
  "first_ready now Q ks cl = None \<longleftrightarrow> (\<forall>k \<in> set ks. \<forall>c. cl k = Some c \<longrightarrow> ready now c \<longrightarrow> \<not> Q c)"
  by (auto simp: first_ready_def find_None_iff split: option.splits)

lemma first_candidate:
  "first_ready now (\<lambda>_. True) order (vs_clients vs) = None \<longleftrightarrow> \<not> (\<exists>k. candidate now order vs k)"
  "first_ready now (\<lambda>_. True) order (vs_clients vs) = Some k \<Longrightarrow> candidate now order vs k"
  "first_ready now (\<lambda>c. vc_lastViewnum c = Viewnum (vs_view vs)) order (vs_clients vs) = None \<longleftrightarrow>
     \<not> (\<exists>k. candidate now order vs k \<and> has_seen vs k)"
  "first_ready now (\<lambda>c. vc_lastViewnum c = Viewnum (vs_view vs)) order (vs_clients vs) = Some k \<Longrightarrow>
     candidate now order vs k \<and> has_seen vs k"
  by (auto simp: first_ready_None candidate_def has_seen_def dest!: first_ready_Some)

lemma vs_tick_spec:
  assumes inv: "vs_inv vs" and tick: "vs_tick now order vs = Some u"
  shows "tick_spec now order vs u"
proof (cases "vs_acked vs")
  case False
  with tick show ?thesis by (auto simp: vs_tick_unacked tick_spec_def Let_def)
next
  case True
  let ?cl = "scanned now order (vs_clients vs)"
  let ?inited = "first_ready now (\<lambda>c. vc_lastViewnum c = Viewnum (vs_view vs)) order (vs_clients vs)"
  let ?idle = "first_ready now (\<lambda>_. True) order (vs_clients vs)"
  from tick obtain t where t: "settled now order vs = Some t" and ch: "choose_view ?idle ?inited t = Some u"
    by (auto simp: vs_tick_acked [OF inv True] split: Option.bind_splits)
  show ?thesis
  proof (rule settledE [OF inv True t])
    assume ok: "clients_ok (vs_clients t)" and dom: "dom (vs_clients t) = dom (vs_clients vs)"
      and last: "\<And>k c. vs_clients t k = Some c \<Longrightarrow>
        \<exists>c0. vs_clients vs k = Some c0 \<and> vc_lastViewnum c = vc_lastViewnum c0"
      and vn: "Viewnum (vs_view t) = Viewnum (vs_view vs)" and acked: "vs_acked t"
      and prim: "Primary (vs_view t) = (if vs_primaryRestarted vs then ''''
         else unless_gone ?cl (Primary (vs_view vs)))"
      and backup: "Backup (vs_view t) = unless_gone ?cl (Backup (vs_view vs))"
    have host: "vc_hostport c = k" if "vs_clients t k = Some c" for k c
      using ok that by (simp add: clients_ok_def)
    have p: "Primary (vs_view t) = (if primary_open now order vs then '''' else Primary (vs_view vs))"
      by (auto simp: prim primary_open_def unless_gone_def)
    have b: "Backup (vs_view t) = (if backup_open now order vs then '''' else Backup (vs_view vs))"
      by (auto simp: backup backup_open_def unless_gone_def)
    have open_p: "Primary (vs_view vs) \<noteq> ''''" if "\<not> primary_open now order vs" using that by (simp add: primary_open_def)
    have open_b: "Backup (vs_view vs) \<noteq> ''''" if "\<not> backup_open now order vs" using that by (simp add: backup_open_def)
    have v: "vs_view t = \<lparr>Viewnum = Viewnum (vs_view t), Primary = Primary (vs_view t), Backup = Backup (vs_view t)\<rparr>" by simp
    have seen: "has_seen vs k \<longleftrightarrow> vc_lastViewnum c = Viewnum (vs_view vs)" if "vs_clients t k = Some c" for k c
      using last [OF that] by (auto simp: has_seen_def)
    show ?thesis
    proof (cases "primary_open now order vs"; cases "backup_open now order vs")
      assume o: "primary_open now order vs" "backup_open now order vs"
      show ?thesis
      proof (cases ?inited)
        case None
        with ch o p b vn acked True first_candidate(3) [where now = now and order = order and vs = vs] show ?thesis
          by (auto simp: tick_spec_def choose_view_def Let_def)
      next
        case (Some k)
        with ch o p b obtain c where c: "vs_clients t k = Some c" "vs_view u = (vs_view t)\<lparr>Primary := k, Viewnum := Viewnum (vs_view t) + 1\<rparr>" "\<not> vs_acked u"
          by (auto simp: choose_view_def Let_def host split: Option.bind_splits)
        with o p b vn True first_candidate(4) [OF Some] show ?thesis by (auto simp: tick_spec_def Let_def)
      qed
    next
      assume o: "primary_open now order vs" "\<not> backup_open now order vs"
      with ch p b open_b obtain c where c: "vs_clients t (Backup (vs_view vs)) = Some c"
        "u = (if vc_lastViewnum c = Viewnum (vs_view t)
              then t\<lparr>vs_view := \<lparr>Viewnum = Viewnum (vs_view t) + 1, Primary = Backup (vs_view vs), Backup = ''''\<rparr>, vs_acked := False\<rparr> else t)"
        by (auto simp: choose_view_def Let_def split: Option.bind_splits)
      with o p b vn acked True seen [OF c(1)] show ?thesis by (auto simp: tick_spec_def Let_def)
    next
      assume o: "\<not> primary_open now order vs" "backup_open now order vs"
      show ?thesis
      proof (cases ?idle)
        case None
        with ch o p b vn acked True open_p first_candidate(1) [where now = now and order = order and vs = vs] show ?thesis
          by (auto simp: tick_spec_def choose_view_def Let_def)
      next
        case (Some k)
        with ch o p b open_p obtain c where c: "vs_clients t k = Some c" "vs_view u = (vs_view t)\<lparr>Backup := k, Viewnum := Viewnum (vs_view t) + 1\<rparr>" "\<not> vs_acked u"
          by (auto simp: choose_view_def Let_def host split: Option.bind_splits)
        with o p b vn True first_candidate(2) [OF Some] show ?thesis by (auto simp: tick_spec_def Let_def)
      qed
    next
      assume o: "\<not> primary_open now order vs" "\<not> backup_open now order vs"
      with ch p b vn acked True open_p open_b show ?thesis
        by (auto simp: tick_spec_def choose_view_def Let_def)
    qed
  qed
qed

text \<open>
  C21: What a tick makes of the view, after any history.  It crashes exactly when the primary has
  restarted and is dead.  Otherwise an unacknowledged view stays as it is; of an acknowledged one
  the places of the dead and of the restarted primary are emptied, and then: when both places are
  empty, some live idle server that has seen the view becomes primary, if there is one; when only the
  primary's is, the backup becomes primary if it has seen the view, and its own place is empty; when
  only the backup's is, some live idle server becomes backup, if there is one.  Whenever a
  place is filled, and only then, the number grows by one and the new view waits for its acknowledgement.
\<close>

theorem tick_view_change:
  assumes "list_all named es" and "vs_run es StartServer = Some vs"
  shows "case vs_tick now order vs of
      None \<Rightarrow> tick_crash now order vs
    | Some u \<Rightarrow> \<not> tick_crash now order vs \<and> tick_spec now order vs u"
proof -
  have inv: "vs_inv vs" by (rule vs_run_inv [OF vs_inv_init assms])
  from vs_tick_None [OF inv, of now order] vs_tick_spec [OF inv, of now order] show ?thesis
    by (auto split: option.splits)
qed

theorem tick_view_change_witness:
  "\<exists>vs u. vs_run [PingFrom 0 ''a'' 0] StartServer = Some vs \<and> vs_tick 0 [''a''] vs = Some u \<and>
     vs_view u = \<lparr>Viewnum = 1, Primary = ''a'', Backup = ''''\<rparr> \<and> \<not> vs_acked u"
proof -
  define vs where "vs = fst (vs_Ping 0 ''a'' 0 StartServer)"
  have run: "vs_run [PingFrom 0 ''a'' 0] StartServer = Some vs" by (simp add: vs_def)
  have vs: "vs_acked vs" "vs_view vs = no_view" "\<not> vs_primaryRestarted vs"
      "candidate 0 [''a''] vs k \<and> has_seen vs k \<longleftrightarrow> k = ''a''" for k
    by (auto simp: vs_def vs_Ping_def StartServer_def no_view_def candidate_def has_seen_def ready_def mark_dead_def
        vs_expired_def PingInterval_def DeadPings_def)
  have "list_all named [PingFrom 0 ''a'' 0]" by simp
  note spec = tick_view_change [OF this run, of 0 "[''a'']"]
  have "\<not> tick_crash 0 [''a''] vs" using vs(3) by (simp add: tick_crash_def)
  with spec obtain u where u: "vs_tick 0 [''a''] vs = Some u" "tick_spec 0 [''a''] vs u"
    by (auto split: option.splits)
  have o: "primary_open 0 [''a''] vs" "backup_open 0 [''a''] vs"
    using vs(2) by (simp_all add: primary_open_def backup_open_def no_view_def)
  have a: "candidate 0 [''a''] vs ''a''" "has_seen vs ''a''" using vs(4) [of "''a''"] by simp_all
  from tick_spec_adopt [OF u(2) vs(1) o a] obtain k where
    "candidate 0 [''a''] vs k" "has_seen vs k" and k: "vs_view u = \<lparr>Viewnum = 1, Primary = k, Backup = ''''\<rparr>" "\<not> vs_acked u"
    unfolding vs(2) no_view_def by auto
  then have "k = ''a''" using vs(4) [of k] by blast
  with k run u(1) show ?thesis by blast
qed

text \<open>
  \<open>outlived n P B b es\<close>: \<open>es\<close> has no ping from \<open>P\<close>, and \<open>B\<close>, whose last ping was at time \<open>b\<close>, pings
  with number \<open>n\<close> often enough to be alive at every tick.  A tick goes over all clients.
\<close>

fun outlived :: "u64 \<Rightarrow> string \<Rightarrow> string \<Rightarrow> time \<Rightarrow> vs_event list \<Rightarrow> bool" where
  "outlived n P B b [] = True"
| "outlived n P B b (PingFrom now me vn # es) =
     (me \<noteq> P \<and> (me = B \<longrightarrow> vn = n) \<and> outlived n P B (if me = B then now else b) es)"
| "outlived n P B b (Tick now order # es) =
     (P \<in> set order \<and> now - b \<le> PingInterval * DeadPings \<and> outlived n P B b es)"

definition waiting :: "u64 \<Rightarrow> string \<Rightarrow> string \<Rightarrow> time \<Rightarrow> time \<Rightarrow> ViewServer \<Rightarrow> bool" where
  "waiting n P B a b vs \<longleftrightarrow>
     vs_inv vs \<and> vs_acked vs \<and> \<not> vs_primaryRestarted vs \<and>
     vs_view vs = \<lparr>Viewnum = n, Primary = P, Backup = B\<rparr> \<and>
     (\<exists>c. vs_clients vs P = Some c \<and> vc_lastPing c = a) \<and>
     (\<exists>c. vs_clients vs B = Some c \<and> \<not> vc_dead c \<and> vc_lastViewnum c = n \<and> vc_lastPing c = b)"

definition taken_over :: "u64 \<Rightarrow> string \<Rightarrow> ViewServer \<Rightarrow> bool" where
  "taken_over n B vs \<longleftrightarrow> vs_view vs = \<lparr>Viewnum = n + 1, Primary = B, Backup = ''''\<rparr> \<and> \<not> vs_acked vs"

lemma taken_over_step:
  assumes "taken_over n B vs" and "outlived n P B b (e # es)"
  shows "\<exists>u. vs_step e vs = Some u \<and> taken_over n B u"
  using assms by (cases e) (auto simp: taken_over_def vs_Ping_def vs_tick_unacked)

lemma waiting_ping:
  assumes "waiting n P B a b vs" and "me \<noteq> P" and "me = B \<longrightarrow> vn = n" and "me \<noteq> ''''"
  shows "waiting n P B a (if me = B then now else b) (fst (vs_Ping now me vn vs))"
proof -
  have "vs_inv (fst (vs_Ping now me vn vs))" using assms(1,4) by (simp add: waiting_def vs_inv_Ping)
  then show ?thesis using assms by (auto simp: waiting_def vs_Ping_def split: option.splits)
qed

lemma waiting_tick:
  assumes w: "waiting n P B a b vs" and fresh: "now - b \<le> PingInterval * DeadPings"
  shows "\<exists>u. vs_tick now order vs = Some u \<and> (waiting n P B a b u \<or> taken_over n B u)"
    and "P \<in> set order \<Longrightarrow> now - a > PingInterval * DeadPings \<Longrightarrow>
      \<exists>u. vs_tick now order vs = Some u \<and> taken_over n B u"
proof -
  have inv: "vs_inv vs" and acked: "vs_acked vs" and r: "\<not> vs_primaryRestarted vs"
    and v: "vs_view vs = \<lparr>Viewnum = n, Primary = P, Backup = B\<rparr>" using w by (simp_all add: waiting_def)
  obtain p where p: "vs_clients vs P = Some p" "vc_lastPing p = a" using w by (auto simp: waiting_def)
  obtain c where c: "vs_clients vs B = Some c" "\<not> vc_dead c" "vc_lastViewnum c = n" "vc_lastPing c = b"
    using w by (auto simp: waiting_def)
  have same: "mark_dead now c = c" using fresh c(4) by (simp add: mark_dead_def vs_expired_def)
  have "B \<noteq> ''''" using inv c(1) by (auto simp: vs_inv_def clients_ok_def)
  then have bo: "\<not> backup_open now order vs"
    using c same by (simp add: backup_open_def gone_def scanned_def v)
  have seen: "has_seen vs B" using c by (simp add: has_seen_def v)
  have "\<not> tick_crash now order vs" using r by (simp add: tick_crash_def)
  then obtain u where u: "vs_tick now order vs = Some u" using vs_tick_None [OF inv] by blast
  note spec = vs_tick_spec [OF inv u]
  have over: "taken_over n B u" if "primary_open now order vs"
    using spec that bo acked seen by (simp add: tick_spec_def taken_over_def v)
  have "waiting n P B a b u" if o: "\<not> primary_open now order vs"
  proof -
    have cl: "u = vs\<lparr>vs_clients := scanned now order (vs_clients vs)\<rparr>"
      using u r o bo by (simp add: vs_tick_acked [OF inv acked] settled_def drop_restarted_def choose_view_def v
          primary_open_def backup_open_def unless_gone_def) (use v in \<open>cases vs; auto\<close>)
    have "vs_inv u" by (rule vs_inv_tick [OF inv u])
    then show ?thesis using cl p c same acked r v by (simp add: waiting_def scanned_def)
  qed
  with u over show "\<exists>u. vs_tick now order vs = Some u \<and> (waiting n P B a b u \<or> taken_over n B u)" by blast
  show "\<exists>u. vs_tick now order vs = Some u \<and> taken_over n B u"
    if "P \<in> set order" "now - a > PingInterval * DeadPings"
  proof -
    have "primary_open now order vs"
      using that p by (simp add: primary_open_def gone_def scanned_def v mark_dead_def vs_expired_def)
    with u over show ?thesis by blast
  qed
qed

lemma outlived_run:
  assumes "waiting n P B a b vs \<or> taken_over n B vs" and "outlived n P B b (es @ [Tick t order])"
    and "list_all named es" and "t - a > PingInterval * DeadPings"
  shows "\<exists>u. vs_run (es @ [Tick t order]) vs = Some u \<and> taken_over n B u"
  using assms(1-3)
proof (induction es arbitrary: vs b)
  case Nil
  then show ?case
    using waiting_tick(2) [of n P B a b vs t order] taken_over_step [of n B vs P b "Tick t order" "[]"] assms(4) by auto
next
  case (Cons e es)
  have "\<exists>u b'. vs_step e vs = Some u \<and> (waiting n P B a b' u \<or> taken_over n B u) \<and> outlived n P B b' (es @ [Tick t order])"
  proof (cases "taken_over n B vs")
    case True
    from taken_over_step [OF True, of P b e "es @ [Tick t order]"] Cons.prems(2) show ?thesis by (cases e) auto
  next
    case False
    with Cons.prems have w: "waiting n P B a b vs" by blast
    show ?thesis
    proof (cases e)
      case (PingFrom now me vn)
      with waiting_ping [OF w, of me vn now] Cons.prems(2,3) show ?thesis by auto
    next
      case (Tick now order')
      with waiting_tick(1) [OF w, of now order'] Cons.prems(2) show ?thesis by auto
    qed
  qed
  with Cons.IH Cons.prems(3) show ?case by fastforce
qed

text \<open>
  C22: Fail-over: after any history that ends with an acknowledged view, whose primary has not been
  noted to have restarted and whose backup is alive and has seen the view, let the primary send
  no more pings and the backup go on pinging with the view's number, so that it is alive at every
  tick, while other servers ping as they like.  The first tick that comes later than the dead interval
  after the primary's last ping finds the backup promoted, or promotes it: it is the primary of the next view.
\<close>

theorem failover:
  assumes "list_all named es" and "vs_run es StartServer = Some vs"
    and "vs_acked vs" and "\<not> vs_primaryRestarted vs" and "vs_view vs = \<lparr>Viewnum = n, Primary = P, Backup = B\<rparr>"
    and "vs_clients vs P = Some p" and "vs_clients vs B = Some c" and "\<not> vc_dead c" and "vc_lastViewnum c = n"
    and "list_all named es'" and "outlived n P B (vc_lastPing c) (es' @ [Tick t order])"
    and "t - vc_lastPing p > PingInterval * DeadPings"
  shows "\<exists>u. vs_run (es' @ [Tick t order]) vs = Some u \<and> \<not> vs_acked u \<and>
    vs_view u = \<lparr>Viewnum = n + 1, Primary = B, Backup = ''''\<rparr>"
proof -
  have "waiting n P B (vc_lastPing p) (vc_lastPing c) vs"
    using vs_run_inv [OF vs_inv_init assms(1,2)] assms(3-9) by (simp add: waiting_def)
  from outlived_run [OF disjI1 [OF this] assms(11,10,12)] show ?thesis by (auto simp: taken_over_def)
qed

text \<open>Server a becomes primary and acknowledges, b becomes its backup, and both have seen view 2.\<close>

definition two_servers :: "vs_event list" where
  "two_servers =
     [PingFrom 0 ''a'' 0, Tick 0 [''a''], PingFrom 0 ''a'' 1, PingFrom 0 ''b'' 0, Tick 0 [''b'', ''a''],
      PingFrom 0 ''a'' 2, PingFrom (milliseconds 700) ''b'' 2]"

lemmas vs_eval = vs_tick_def vs_Ping_def StartServer_def no_view_def mark_dead_def vs_expired_def
  PingInterval_def DeadPings_def drop_dead_def drop_restarted_def choose_view_def

lemma two_servers_run:
  "\<exists>vs p c. vs_run two_servers StartServer = Some vs \<and> vs_acked vs \<and> \<not> vs_primaryRestarted vs \<and>
     vs_view vs = \<lparr>Viewnum = 2, Primary = ''a'', Backup = ''b''\<rparr> \<and>
     vs_clients vs ''a'' = Some p \<and> vc_lastPing p = 0 \<and>
     vs_clients vs ''b'' = Some c \<and> vc_lastViewnum c = 2 \<and> \<not> vc_dead c \<and> vc_lastPing c = milliseconds 700"
  by (simp add: two_servers_def vs_eval)

theorem failover_witness:
  "\<exists>u. vs_run (two_servers @ [PingFrom (milliseconds 750) ''b'' 2, PingFrom (milliseconds 760) ''c'' 0,
       Tick (milliseconds 800) [''a'', ''b'', ''c''], PingFrom (milliseconds 850) ''b'' 2,
       Tick (milliseconds 900) [''c'', ''a'', ''b'']]) StartServer = Some u \<and>
     vs_view u = \<lparr>Viewnum = 3, Primary = ''b'', Backup = ''''\<rparr>"
proof -
  let ?es = "[PingFrom (milliseconds 750) ''b'' 2, PingFrom (milliseconds 760) ''c'' 0,
       Tick (milliseconds 800) [''a'', ''b'', ''c''], PingFrom (milliseconds 850) ''b'' 2]"
  obtain vs p c where vs: "vs_run two_servers StartServer = Some vs" "vs_acked vs"
      "\<not> vs_primaryRestarted vs" "vs_view vs = \<lparr>Viewnum = 2, Primary = ''a'', Backup = ''b''\<rparr>"
      "vs_clients vs ''a'' = Some p" "vc_lastPing p = 0"
      "vs_clients vs ''b'' = Some c" "vc_lastViewnum c = 2" "\<not> vc_dead c" "vc_lastPing c = milliseconds 700"
    using two_servers_run by blast
  have "list_all named two_servers" by (simp add: two_servers_def)
  note * = failover [OF this vs(1-5,7,9,8), of ?es "milliseconds 900" "[''c'', ''a'', ''b'']"]
  have "\<exists>u. vs_run (?es @ [Tick (milliseconds 900) [''c'', ''a'', ''b'']]) vs = Some u \<and> \<not> vs_acked u \<and>
      vs_view u = \<lparr>Viewnum = 2 + 1, Primary = ''b'', Backup = ''''\<rparr>"
    by (rule *) (simp_all add: vs(6,10) PingInterval_def DeadPings_def)
  moreover have "vs_run (es @ es') s = Option.bind (vs_run es s) (vs_run es')" for es es' s
    by (induction es arbitrary: s) (auto split: Option.bind_splits)
  ultimately show ?thesis using vs(1) by auto
qed

text \<open>
  After any history a tick crashes the view service exactly when the primary has restarted
  and is dead at that tick (its place is emptied before it is looked up), and never otherwise.
\<close>

lemma tick_crashes_iff:
  assumes "list_all named es" and "vs_run es StartServer = Some vs"
  shows "vs_tick now order vs = None \<longleftrightarrow>
    vs_primaryRestarted vs \<and> gone (scanned now order (vs_clients vs)) (Primary (vs_view vs))"
  using vs_tick_None [OF vs_run_inv [OF vs_inv_init assms]] by (simp add: tick_crash_def)

text \<open>The primary restarts (it pings with number 0) and then stays silent for a second.\<close>

definition restart_then_silence :: "vs_event list" where
  "restart_then_silence =
     [PingFrom 0 ''a'' 0, Tick 0 [''a''], PingFrom 0 ''a'' 1, PingFrom 0 ''a'' 0]"

lemma tick_crashes_iff_witness:
  "\<exists>vs. vs_run restart_then_silence StartServer = Some vs \<and> vs_tick (seconds 1) [''a''] vs = None"
proof -
  obtain vs where vs: "vs_run restart_then_silence StartServer = Some vs" "vs_primaryRestarted vs"
      "gone (scanned (seconds 1) [''a''] (vs_clients vs)) (Primary (vs_view vs))"
    by (simp add: restart_then_silence_def vs_eval gone_def scanned_def)
  have "list_all named restart_then_silence" by (simp add: restart_then_silence_def)
  from tick_crashes_iff [OF this vs(1), of "seconds 1" "[''a'']"] vs show ?thesis by blast
qed

text \<open>
  The two roles of a view need not be two servers: a primary that was declared dead before
  it acknowledged its view counts as idle when it comes back, and the next tick appoints it as
  its own backup.
\<close>

lemma primary_backs_itself:
  "\<exists>u. vs_run [PingFrom 0 ''a'' 0, Tick 0 [''a''], Tick (milliseconds 600) [''a''],
           PingFrom (milliseconds 600) ''a'' 1, Tick (milliseconds 600) [''a'']] StartServer = Some u \<and>
     vs_view u = \<lparr>Viewnum = 2, Primary = ''a'', Backup = ''a''\<rparr>"
  by (simp add: vs_eval)

text \<open>
  A server that was neither primary nor backup can become primary: server c, which only
  ever watched, is promoted when the primary and the backup are both dead, although
  \<open>common.go\<close> says the new primary is always the previous primary or backup.
\<close>

lemma bystander_promoted:
  "\<exists>u. vs_run (two_servers @ [PingFrom (milliseconds 700) ''c'' 0, PingFrom (seconds 2) ''c'' 2,
           Tick (seconds 2) [''a'', ''b'', ''c'']]) StartServer = Some u \<and>
     vs_view u = \<lparr>Viewnum = 3, Primary = ''c'', Backup = ''''\<rparr>"
  by (simp add: two_servers_def vs_eval)

end
