(* ===== verification/PbService.thy ===== *)
theory PbService
  imports ViewService
begin

text \<open>
  The primary/backup key-value service of \<open>6.824-labs/pbservice\<close>: \<open>server.go\<close>, \<open>common.go\<close> and
  the clerk of \<open>client.go\<close>, on top of the view service.

  \<^item> The state is the whole system: the view server and the key-value servers by host name.
  \<^item> A handler runs under its server's mutex.  The mutex is held across the call to the backup, so
    a server that calls itself never gets an answer: the value \<open>None\<close>.
  \<^item> Every remote call has a \<open>delivery\<close> as an argument; a host without a server cannot be dialled.
  \<^item> The loops that retry take the list of their attempts; \<open>None\<close> says that the loop is still
    running after them.
\<close>

section \<open>Data\<close>

datatype Err = NoErr | OK | ErrNoKey | ErrWrongServer

datatype Op = OP_GET | OP_PUT

record PBServer =
  pb_store :: "string \<rightharpoonup> string"
  pb_view :: View

record pb_system =
  ps_vs :: ViewServer
  ps_servers :: "string \<rightharpoonup> PBServer"

definition pb_StartServer :: PBServer where
  "pb_StartServer = \<lparr>pb_store = Map.empty, pb_view = no_view\<rparr>"

text \<open>The server with a name; a name without a server reads as a fresh one (never used so).\<close>

definition pb_at :: "pb_system \<Rightarrow> string \<Rightarrow> PBServer" where
  "pb_at s me = (case ps_servers s me of None \<Rightarrow> pb_StartServer | Some pb \<Rightarrow> pb)"

definition pb_put :: "string \<Rightarrow> PBServer \<Rightarrow> pb_system \<Rightarrow> pb_system" where
  "pb_put me pb s = s\<lparr>ps_servers := (ps_servers s)(me \<mapsto> pb)\<rparr>"

text \<open>\<open>call(srv, ...)\<close> made by \<open>me\<close> while it holds its own mutex.\<close>

definition pb_call ::
  "delivery \<Rightarrow> string \<Rightarrow> string \<Rightarrow> (pb_system \<Rightarrow> pb_system \<times> 'r) \<Rightarrow> pb_system \<Rightarrow>
   (pb_system \<times> 'r option) option" where
  "pb_call d me srv h s =
     (if ps_servers s srv = None then Some (s, None)
      else if srv = me \<and> d \<noteq> RequestLost then None
      else Some (rpc d h s))"

section \<open>Handlers\<close>

definition pb_Forward :: "string \<Rightarrow> Op \<Rightarrow> string \<Rightarrow> string \<Rightarrow> pb_system \<Rightarrow> pb_system \<times> Err" where
  "pb_Forward me op key value s =
     (let pb = pb_at s me in
      if Backup (pb_view pb) \<noteq> me then (s, ErrWrongServer)
      else case op of
          OP_GET \<Rightarrow> (s, OK)
        | OP_PUT \<Rightarrow> (pb_put me (pb\<lparr>pb_store := (pb_store pb)(key \<mapsto> value)\<rparr>) s, OK))"

definition pb_Get ::
  "delivery \<Rightarrow> string \<Rightarrow> string \<Rightarrow> pb_system \<Rightarrow> (pb_system \<times> Err \<times> string) option" where
  "pb_Get d me key s =
     (let pb = pb_at s me; v = pb_view pb in do {
      (s1, ok) \<leftarrow> (if Primary v = me \<and> Backup v \<noteq> ''''
                  then map_option (\<lambda>(s1, r). (s1, r = Some OK))
                         (pb_call d me (Backup v) (pb_Forward (Backup v) OP_GET key '''') s)
                  else Some (s, True));
      Some (if \<not> ok then (s1, ErrWrongServer, '''')
            else case pb_store (pb_at s1 me) key of
                None \<Rightarrow> (s1, ErrNoKey, '''')
              | Some value \<Rightarrow> (s1, OK, value)) })"

definition pb_Put ::
  "delivery \<Rightarrow> string \<Rightarrow> string \<Rightarrow> string \<Rightarrow> pb_system \<Rightarrow> (pb_system \<times> Err) option" where
  "pb_Put d me key value s =
     (let pb = pb_at s me; v = pb_view pb in do {
      (s1, ok) \<leftarrow> (if Primary v = me \<and> Backup v \<noteq> ''''
                  then map_option (\<lambda>(s1, r). (s1, r = Some OK))
                         (pb_call d me (Backup v) (pb_Forward (Backup v) OP_PUT key value) s)
                  else Some (s, True));
      Some (if \<not> ok then (s1, ErrWrongServer)
            else (pb_put me ((pb_at s1 me)\<lparr>pb_store := (pb_store (pb_at s1 me))(key \<mapsto> value)\<rparr>) s1, OK)) })"

text \<open>
  \<open>pb.vs.Ping\<close>: the view it returns (the zero view when the call failed) and whether it failed.
\<close>

definition pb_Ping ::
  "delivery \<Rightarrow> time \<Rightarrow> string \<Rightarrow> pb_system \<Rightarrow> pb_system \<times> View \<times> bool" where
  "pb_Ping d now me s =
     (case ck_Ping d now me (Viewnum (pb_view (pb_at s me))) (ps_vs s) of
        (vs, Inl e) \<Rightarrow> (s\<lparr>ps_vs := vs\<rparr>, no_view, True)
      | (vs, Inr v) \<Rightarrow> (s\<lparr>ps_vs := vs\<rparr>, v, False))"

definition pb_Sync ::
  "delivery \<Rightarrow> time \<Rightarrow> string \<Rightarrow> (string \<rightharpoonup> string) \<Rightarrow> pb_system \<Rightarrow> pb_system \<times> Err" where
  "pb_Sync d now me store s =
     (let (s1, v, failed) = pb_Ping d now me s;
          pb = pb_at s1 me;
          pb1 = (if Viewnum v \<noteq> Viewnum (pb_view pb) then pb\<lparr>pb_view := v\<rparr> else pb)
      in if Backup (pb_view pb1) \<noteq> me then (pb_put me pb1 s1, ErrWrongServer)
         else (pb_put me (pb1\<lparr>pb_store := store\<rparr>) s1, OK))"

section \<open>The tick\<close>

text \<open>
  One attempt at a transfer: the delivery of the call of \<open>Sync\<close>, and those of the pings that the
  backup and (when the call failed) the primary make.
\<close>

record attempt =
  at_sync :: delivery
  at_ping_backup :: delivery
  at_ping :: delivery
  at_now :: time

definition send_Sync ::
  "attempt \<Rightarrow> string \<Rightarrow> (string \<rightharpoonup> string) \<Rightarrow> pb_system \<Rightarrow> (pb_system \<times> Err option) option" where
  "send_Sync a me store s =
     (let backup = Backup (pb_view (pb_at s me))
      in pb_call (at_sync a) me backup (pb_Sync (at_ping_backup a) (at_now a) backup store) s)"

text \<open>
  The loop \<open>for !ok\<close>: ping, and while there is a backup send it the store again.  The store in
  \<open>args\<close> is the map that the mutex protects, so it does not change meanwhile.
\<close>

fun sync_loop ::
  "attempt list \<Rightarrow> string \<Rightarrow> (string \<rightharpoonup> string) \<Rightarrow> pb_system \<Rightarrow> (pb_system \<times> Err) option" where
  "sync_loop [] me store s = None"
| "sync_loop (a # as) me store s =
     (let (s1, v, failed) = pb_Ping (at_ping a) (at_now a) me s;
          s2 = pb_put me ((pb_at s1 me)\<lparr>pb_view := v\<rparr>) s1
      in if Backup v = '''' then Some (s2, NoErr)
         else do {
           (s3, r) \<leftarrow> send_Sync a me store s2;
           case r of
             Some e \<Rightarrow> Some (s3, e)
           | None \<Rightarrow> sync_loop as me store s3 })"

text \<open>The result says how the transfer ended: \<open>NoErr\<close> when there was none.\<close>

definition pb_tick ::
  "delivery \<Rightarrow> time \<Rightarrow> attempt \<Rightarrow> attempt list \<Rightarrow> string \<Rightarrow> pb_system \<Rightarrow> (pb_system \<times> Err) option" where
  "pb_tick d now a as me s =
     (let (s1, v, failed) = pb_Ping d now me s;
          pb = pb_at s1 me
      in if failed \<or> Viewnum v = Viewnum (pb_view pb) then Some (s1, NoErr)
         else
           (let s2 = pb_put me (pb\<lparr>pb_view := v\<rparr>) s1 in
            if Primary v = me \<and> Backup v \<noteq> '''' then do {
              (s3, r) \<leftarrow> send_Sync a me (pb_store pb) s2;
              case r of
                Some e \<Rightarrow> Some (s3, e)
              | None \<Rightarrow> sync_loop as me (pb_store pb) s3 }
            else Some (s2, NoErr)))"

section \<open>The clerk\<close>

text \<open>
  A clerk's attempt sees whatever the system answers at that time: the view that \<open>updateView\<close>
  gets (\<open>None\<close> when its call fails) and the reply of each server (\<open>None\<close> when the call fails).
\<close>

type_synonym 'r answers = "(View option \<times> (string \<Rightarrow> 'r option)) list"

definition updateView :: "View option \<Rightarrow> View \<Rightarrow> View" where
  "updateView answer view = (case answer of None \<Rightarrow> view | Some v \<Rightarrow> v)"

text \<open>The first loop: \<open>for ck.view.Primary == ""\<close>.\<close>

fun find_primary :: "View option list \<Rightarrow> View \<Rightarrow> View option" where
  "find_primary vs view =
     (if Primary view \<noteq> '''' then Some view
      else case vs of [] \<Rightarrow> None | v # vs \<Rightarrow> find_primary vs (updateView v view))"

declare find_primary.simps [simp del]

definition wrong :: "('r \<Rightarrow> Err) \<Rightarrow> 'r option \<Rightarrow> bool" where
  "wrong err r = (case r of None \<Rightarrow> True | Some x \<Rightarrow> err x = ErrWrongServer)"

fun ask_loop :: "('r \<Rightarrow> Err) \<Rightarrow> 'r answers \<Rightarrow> View \<Rightarrow> 'r option \<Rightarrow> (View \<times> 'r) option" where
  "ask_loop err as view (Some r) =
     (if err r \<noteq> ErrWrongServer then Some (view, r)
      else case as of
          [] \<Rightarrow> None
        | (v, answer) # as \<Rightarrow>
            (let view1 = updateView v view in ask_loop err as view1 (answer (Primary view1))))"
| "ask_loop err as view None =
     (case as of
        [] \<Rightarrow> None
      | (v, answer) # as \<Rightarrow>
          (let view1 = updateView v view in ask_loop err as view1 (answer (Primary view1))))"

text \<open>\<open>string(reply.Err)\<close>.\<close>

fun Err_text :: "Err \<Rightarrow> string" where
  "Err_text NoErr = ''''"
| "Err_text OK = ''OK''"
| "Err_text ErrNoKey = ''ErrNoKey''"
| "Err_text ErrWrongServer = ''ErrWrongServer''"

definition pck_Get ::
  "View option list \<Rightarrow> (string \<Rightarrow> (Err \<times> string) option) \<Rightarrow> (Err \<times> string) answers \<Rightarrow> View \<Rightarrow>
   (View \<times> string) option" where
  "pck_Get vs first as view = do {
     v \<leftarrow> find_primary vs view;
     (v1, r) \<leftarrow> ask_loop fst as v (first (Primary v));
     Some (v1, if fst r = OK then snd r else Err_text (fst r)) }"

definition pck_Put ::
  "View option list \<Rightarrow> (string \<Rightarrow> Err option) \<Rightarrow> Err answers \<Rightarrow> View \<Rightarrow> View option" where
  "pck_Put vs first as view = do {
     v \<leftarrow> find_primary vs view;
     (v1, r) \<leftarrow> ask_loop id as v (first (Primary v));
     Some v1 }"

section \<open>A primary with its backup\<close>

definition pair :: "pb_system \<Rightarrow> string \<Rightarrow> string \<Rightarrow> bool" where
  "pair s p b \<longleftrightarrow>
     p \<noteq> b \<and> b \<noteq> '''' \<and> ps_servers s p \<noteq> None \<and> ps_servers s b \<noteq> None \<and>
     Primary (pb_view (pb_at s p)) = p \<and> Backup (pb_view (pb_at s p)) = b \<and>
     Backup (pb_view (pb_at s b)) = b"

definition store_at :: "pb_system \<Rightarrow> string \<Rightarrow> string \<rightharpoonup> string" where
  "store_at s h = pb_store (pb_at s h)"

lemma pb_at_put [simp]:
  "pb_at (pb_put h pb s) h' = (if h' = h then pb else pb_at s h')"
  "ps_servers (pb_put h pb s) = (ps_servers s)(h \<mapsto> pb)"
  "ps_vs (pb_put h pb s) = ps_vs s"
  by (auto simp: pb_at_def pb_put_def)

lemma store_at_put [simp]: "store_at (pb_put h pb s) h' = (if h' = h then pb_store pb else store_at s h')"
  by (simp add: store_at_def)

lemma pair_store: "pair s p b \<Longrightarrow> pair (pb_put h ((pb_at s h)\<lparr>pb_store := m\<rparr>) s) p b"
  by (auto simp: pair_def)

text \<open>Calls of a primary's clients, with the delivery of the call to the backup.\<close>

datatype pb_op = PutOp delivery string string | GetOp delivery string

datatype pb_reply = PutReply Err | GetReply Err string

fun pb_do :: "string \<Rightarrow> pb_op \<Rightarrow> pb_system \<Rightarrow> (pb_system \<times> pb_reply) option" where
  "pb_do p (PutOp d k v) s = map_option (\<lambda>(s1, e). (s1, PutReply e)) (pb_Put d p k v s)"
| "pb_do p (GetOp d k) s = map_option (\<lambda>(s1, e, v). (s1, GetReply e v)) (pb_Get d p k s)"

fun pb_run :: "string \<Rightarrow> pb_op list \<Rightarrow> pb_system \<Rightarrow> (pb_system \<times> pb_reply list) option" where
  "pb_run p [] s = Some (s, [])"
| "pb_run p (x # xs) s = do {
     (s1, r) \<leftarrow> pb_do p x s;
     (s2, rs) \<leftarrow> pb_run p xs s1;
     Some (s2, r # rs) }"

text \<open>The single map a client should believe it talks to.\<close>

fun map_do :: "pb_op \<Rightarrow> (string \<rightharpoonup> string) \<Rightarrow> (string \<rightharpoonup> string) \<times> pb_reply" where
  "map_do (PutOp d k v) m = (if d = Delivered then (m(k \<mapsto> v), PutReply OK) else (m, PutReply ErrWrongServer))"
| "map_do (GetOp d k) m =
     (m, if d = Delivered then (case m k of None \<Rightarrow> GetReply ErrNoKey '''' | Some v \<Rightarrow> GetReply OK v)
         else GetReply ErrWrongServer '''')"

fun map_run :: "pb_op list \<Rightarrow> (string \<rightharpoonup> string) \<Rightarrow> (string \<rightharpoonup> string) \<times> pb_reply list" where
  "map_run [] m = (m, [])"
| "map_run (x # xs) m =
     (let (m1, r) = map_do x m; (m2, rs) = map_run xs m1 in (m2, r # rs))"

fun reply_kept :: "pb_op \<Rightarrow> bool" where
  "reply_kept (PutOp d k v) = (d \<noteq> ReplyLost)"
| "reply_kept (GetOp d k) = True"

lemma pb_call_backup:
  "pair s p b \<Longrightarrow> pb_call d p b h s = Some (rpc d h s)"
  by (auto simp: pair_def pb_call_def)

lemma Forward_put:
  "pair s p b \<Longrightarrow> pb_Forward b OP_PUT k v s =
     (pb_put b ((pb_at s b)\<lparr>pb_store := (store_at s b)(k \<mapsto> v)\<rparr>) s, OK)"
  by (simp add: pair_def pb_Forward_def store_at_def)

lemma Forward_get: "pair s p b \<Longrightarrow> pb_Forward b OP_GET k v s = (s, OK)"
  by (simp add: pair_def pb_Forward_def)

lemma pb_Put_pair:
  assumes "pair s p b"
  shows "pb_Put d p k v s =
    (let s1 = pb_put b ((pb_at s b)\<lparr>pb_store := (store_at s b)(k \<mapsto> v)\<rparr>) s in
     case d of
       Delivered \<Rightarrow> Some (pb_put p ((pb_at s p)\<lparr>pb_store := (store_at s p)(k \<mapsto> v)\<rparr>) s1, OK)
     | RequestLost \<Rightarrow> Some (s, ErrWrongServer)
     | ReplyLost \<Rightarrow> Some (s1, ErrWrongServer))"
proof -
  from assms have v: "Primary (pb_view (pb_at s p)) = p" "Backup (pb_view (pb_at s p)) = b"
    "b \<noteq> ''''" "p \<noteq> b" by (auto simp: pair_def)
  show ?thesis
    by (cases d) (simp_all add: pb_Put_def v pb_call_backup [OF assms] Forward_put [OF assms] store_at_def)
qed

lemma pb_Get_pair:
  assumes "pair s p b"
  shows "pb_Get d p k s =
    Some (s, if d = Delivered then (case store_at s p k of None \<Rightarrow> (ErrNoKey, '''') | Some v \<Rightarrow> (OK, v))
             else (ErrWrongServer, ''''))"
proof -
  from assms have v: "Primary (pb_view (pb_at s p)) = p" "Backup (pb_view (pb_at s p)) = b"
    "b \<noteq> ''''" "p \<noteq> b" by (auto simp: pair_def)
  show ?thesis
    by (cases d) (simp_all add: pb_Get_def v pb_call_backup [OF assms] Forward_get [OF assms] store_at_def
        split: option.splits)
qed

text \<open>One call keeps the copies equal and behaves like the single map.\<close>

lemma pb_do_refines:
  assumes "pair s p b" "store_at s b = store_at s p" "reply_kept x"
  shows "\<exists>s'. pb_do p x s = Some (s', snd (map_do x (store_at s p))) \<and> pair s' p b \<and>
    store_at s' p = fst (map_do x (store_at s p)) \<and> store_at s' b = store_at s' p"
proof (cases x)
  case (PutOp d k v)
  have ne: "p \<noteq> b" "b \<noteq> p" using assms(1) by (auto simp: pair_def)
  show ?thesis
  proof (cases d)
    case Delivered
    let ?s1 = "pb_put b ((pb_at s b)\<lparr>pb_store := (store_at s b)(k \<mapsto> v)\<rparr>) s"
    have "pair ?s1 p b" by (rule pair_store [OF assms(1)])
    from pair_store [OF this, of p] ne have "pair (pb_put p ((pb_at s p)\<lparr>pb_store := (store_at s p)(k \<mapsto> v)\<rparr>) ?s1) p b"
      by simp
    with PutOp Delivered ne assms(2) show ?thesis by (simp add: pb_Put_pair [OF assms(1)])
  qed (use PutOp assms in \<open>auto simp: pb_Put_pair [OF assms(1)]\<close>)
next
  case (GetOp d k)
  with assms show ?thesis by (simp add: pb_Get_pair [OF assms(1)] split: option.splits)
qed

lemma pb_run_refines:
  assumes "pair s p b" "store_at s b = store_at s p" "list_all reply_kept xs"
  shows "\<exists>s'. pb_run p xs s = Some (s', snd (map_run xs (store_at s p))) \<and> pair s' p b \<and>
    store_at s' p = fst (map_run xs (store_at s p)) \<and> store_at s' b = store_at s' p"
  using assms
proof (induction xs arbitrary: s)
  case (Cons x xs)
  from Cons.prems(3) have "reply_kept x" by simp
  from pb_do_refines [OF Cons.prems(1,2) this] obtain s1 where s1:
    "pb_do p x s = Some (s1, snd (map_do x (store_at s p)))" "pair s1 p b"
    "store_at s1 p = fst (map_do x (store_at s p))" "store_at s1 b = store_at s1 p" by blast
  from Cons.IH [OF s1(2,4)] Cons.prems(3) s1(1,3) show ?case by (auto split: prod.splits)
qed simp

section \<open>What a clerk returns\<close>

text \<open>The replies the clerk's loop sees one after the other.\<close>

fun asked :: "'r answers \<Rightarrow> View \<Rightarrow> 'r option list" where
  "asked [] view = []"
| "asked ((v, answer) # as) view = answer (Primary (updateView v view)) # asked as (updateView v view)"

lemma ask_loop_first:
  "map_option snd (ask_loop err as view r) =
     (case List.find (\<lambda>x. \<not> wrong err x) (r # asked as view) of None \<Rightarrow> None | Some x \<Rightarrow> x)"
proof (induction as arbitrary: view r)
  case Nil
  then show ?case by (cases r) (auto simp: wrong_def)
next
  case (Cons a as)
  obtain v answer where a: "a = (v, answer)" by (cases a)
  show ?case
  proof (cases "wrong err r")
    case True
    then have "ask_loop err (a # as) view r =
        ask_loop err as (updateView v view) (answer (Primary (updateView v view)))"
      by (cases r) (simp_all add: a wrong_def)
    with Cons.IH True a show ?thesis by simp
  next
    case False
    then obtain x where "r = Some x" "err x \<noteq> ErrWrongServer" by (cases r) (auto simp: wrong_def)
    then show ?thesis by (simp add: wrong_def)
  qed
qed

section \<open>Properties\<close>

text \<open>A system in view 2 with primary p and backup b; \<open>m\<close> is the primary's store.\<close>

definition two_copies :: "(string \<rightharpoonup> string) \<Rightarrow> pb_system" where
  "two_copies m =
     (let v = \<lparr>Viewnum = 2, Primary = ''p'', Backup = ''b''\<rparr>
      in \<lparr>ps_vs = StartServer\<lparr>vs_view := v\<rparr>,
          ps_servers = [''p'' \<mapsto> \<lparr>pb_store = m, pb_view = v\<rparr>, ''b'' \<mapsto> \<lparr>pb_store = Map.empty, pb_view = v\<rparr>]\<rparr>)"

lemma two_copies_pair: "pair (two_copies m) ''p'' ''b''"
  by (simp add: pair_def two_copies_def pb_at_def)

lemma two_copies_store [simp]:
  "store_at (two_copies m) ''p'' = m" "store_at (two_copies m) ''b'' = Map.empty"
  by (simp_all add: store_at_def two_copies_def pb_at_def)

text \<open>
  C4: Primary and backup are one map to their clients: starting from equal copies, any sequence
  of \<open>Put\<close>s and \<open>Get\<close>s at the primary, any of whose forwarded calls may be lost on the way,
  returns exactly what a single map would return when a \<open>Put\<close> takes effect if and only if it is
  acknowledged, and leaves both copies equal to that map.  The one case excluded is a \<open>Put\<close> whose
  forwarding reply is lost.
\<close>

theorem primary_backup_agree:
  assumes "pair s p b" and "store_at s b = store_at s p" and "list_all reply_kept xs"
  shows "\<exists>s'. pb_run p xs s = Some (s', snd (map_run xs (store_at s p))) \<and>
    store_at s' p = fst (map_run xs (store_at s p)) \<and>
    store_at s' b = fst (map_run xs (store_at s p))"
  using pb_run_refines [OF assms] by fastforce

theorem primary_backup_agree_witness:
  "\<exists>s'. pb_run ''p'' [PutOp Delivered ''k'' ''1'', PutOp RequestLost ''k'' ''2'', GetOp Delivered ''k'']
       (two_copies Map.empty) =
     Some (s', [PutReply OK, PutReply ErrWrongServer, GetReply OK ''1'']) \<and>
     store_at s' ''b'' ''k'' = Some ''1''"
  using primary_backup_agree [OF two_copies_pair [of Map.empty],
    of "[PutOp Delivered ''k'' ''1'', PutOp RequestLost ''k'' ''2'', GetOp Delivered ''k'']"] by auto

text \<open>
  The excluded case: a \<open>Put\<close> whose forwarding reply is lost is refused by the primary, which
  keeps its old value, while the backup has already stored the new one; the clerk's retry of the
  same \<open>Put\<close>, once it gets through, makes the copies equal again.
\<close>

lemma lost_reply_diverges_then_heals:
  assumes "pair s p b" and "store_at s b = store_at s p"
  shows "\<exists>s1 s2. pb_Put ReplyLost p k v s = Some (s1, ErrWrongServer) \<and>
    store_at s1 p = store_at s p \<and> store_at s1 b = (store_at s p)(k \<mapsto> v) \<and>
    pb_Put Delivered p k v s1 = Some (s2, OK) \<and>
    store_at s2 p = (store_at s p)(k \<mapsto> v) \<and> store_at s2 b = store_at s2 p"
proof -
  have ne: "p \<noteq> b" "b \<noteq> p" using assms(1) by (auto simp: pair_def)
  let ?s1 = "pb_put b ((pb_at s b)\<lparr>pb_store := (store_at s b)(k \<mapsto> v)\<rparr>) s"
  have "pair ?s1 p b" by (rule pair_store [OF assms(1)])
  from pb_Put_pair [OF this, of Delivered k v] show ?thesis
    using pb_Put_pair [OF assms(1), of ReplyLost k v] ne assms(2) by simp
qed

lemma lost_reply_diverges_then_heals_witness:
  "\<exists>s1. pb_Put ReplyLost ''p'' ''k'' ''1'' (two_copies Map.empty) = Some (s1, ErrWrongServer) \<and>
     store_at s1 ''p'' ''k'' = None \<and> store_at s1 ''b'' ''k'' = Some ''1''"
proof -
  have "store_at (two_copies Map.empty) ''b'' = store_at (two_copies Map.empty) ''p''" by simp
  from lost_reply_diverges_then_heals [OF two_copies_pair this, of "''k''" "''1''"] show ?thesis by auto
qed

text \<open>
  State transfer: when a server's tick learns of a new view in which it is the primary with
  a backup, and its calls get through, then after that tick the backup's store is the primary's
  and both hold the new view.
\<close>

lemma tick_transfers_state:
  assumes "v = vs_view (ps_vs s)" and "Primary v = p" and "Backup v = b" and "p \<noteq> b" and "b \<noteq> ''''"
    and "ps_servers s p \<noteq> None" and "ps_servers s b \<noteq> None"
    and "Viewnum (pb_view (pb_at s p)) \<noteq> Viewnum v"
    and "Viewnum (pb_view (pb_at s b)) \<noteq> Viewnum v"
    and "at_sync a = Delivered" and "at_ping_backup a = Delivered"
  shows "\<exists>s'. pb_tick Delivered now a as p s = Some (s', OK) \<and>
    store_at s' b = store_at s p \<and> store_at s' p = store_at s p \<and>
    pb_view (pb_at s' p) = v \<and> pb_view (pb_at s' b) = v"
proof -
  have view: "vs_view (fst (vs_Ping t me n vs)) = vs_view vs" "snd (vs_Ping t me n vs) = vs_view vs"
    for t me n vs by (simp_all add: vs_Ping_def)
  have ping: "\<exists>vs. pb_Ping Delivered t me x = (x\<lparr>ps_vs := vs\<rparr>, v, False) \<and> vs_view vs = v"
    if "vs_view (ps_vs x) = v" for t me x
    using that
    by (intro exI [of _ "fst (vs_Ping t me (Viewnum (pb_view (pb_at x me))) (ps_vs x))"])
       (simp add: pb_Ping_def ck_Ping_def view)
  obtain w1 where w1: "pb_Ping Delivered now p s = (s\<lparr>ps_vs := w1\<rparr>, v, False)" "vs_view w1 = v"
    using ping assms(1) by blast
  have at: "pb_at (x\<lparr>ps_vs := w\<rparr>) h = pb_at x h" for x w h by (simp add: pb_at_def)
  define s2 where "s2 = pb_put p ((pb_at s p)\<lparr>pb_view := v\<rparr>) (s\<lparr>ps_vs := w1\<rparr>)"
  have s2: "pb_at s2 p = (pb_at s p)\<lparr>pb_view := v\<rparr>" "pb_at s2 b = pb_at s b" "ps_servers s2 b \<noteq> None"
    "vs_view (ps_vs s2) = v"
    using assms(4,7) w1(2) by (simp_all add: s2_def at)
  obtain w2 where w2: "pb_Ping Delivered (at_now a) b s2 = (s2\<lparr>ps_vs := w2\<rparr>, v, False)"
    using ping [OF s2(4)] by blast
  have sync: "send_Sync a p m s2 =
      Some (pb_put b ((pb_at s b)\<lparr>pb_view := v, pb_store := m\<rparr>) (s2\<lparr>ps_vs := w2\<rparr>), Some OK)" for m
    using assms(2-5,9-) s2 by (simp add: send_Sync_def pb_call_def pb_Sync_def w2 at)
  have "pb_tick Delivered now a as p s =
      Some (pb_put b ((pb_at s b)\<lparr>pb_view := v, pb_store := store_at s p\<rparr>) (s2\<lparr>ps_vs := w2\<rparr>), OK)"
    using assms(2-5,8) by (simp add: pb_tick_def w1(1) at s2_def [symmetric] sync store_at_def)
  with assms(4) s2(1) show ?thesis by (simp add: store_at_def at)
qed

lemma tick_transfers_state_witness:
  "\<exists>s'. pb_tick Delivered 0 \<lparr>at_sync = Delivered, at_ping_backup = Delivered, at_ping = Delivered, at_now = 0\<rparr> [] ''p''
       ((two_copies [''k'' \<mapsto> ''1''])\<lparr>ps_vs := StartServer\<lparr>vs_view := \<lparr>Viewnum = 3, Primary = ''p'', Backup = ''b''\<rparr>\<rparr>\<rparr>) =
     Some (s', OK) \<and> store_at s' ''b'' = [''k'' \<mapsto> ''1'']"
  using tick_transfers_state [of "\<lparr>Viewnum = 3, Primary = ''p'', Backup = ''b''\<rparr>"
    "(two_copies [''k'' \<mapsto> ''1''])\<lparr>ps_vs := StartServer\<lparr>vs_view := \<lparr>Viewnum = 3, Primary = ''p'', Backup = ''b''\<rparr>\<rparr>\<rparr>"
    "''p''" "''b''" "\<lparr>at_sync = Delivered, at_ping_backup = Delivered, at_ping = Delivered, at_now = 0\<rparr>" 0 "[]"]
  by (auto simp: two_copies_def pb_at_def store_at_def)

text \<open>
  Any server takes writes: \<open>Put\<close> at a server that is not the primary of its view is
  acknowledged and changes that server's copy alone.
\<close>

lemma non_primary_accepts:
  assumes "Primary (pb_view (pb_at s h)) \<noteq> h"
  shows "\<exists>s'. pb_Put d h k v s = Some (s', OK) \<and> store_at s' h = (store_at s h)(k \<mapsto> v) \<and>
    store_at s' = (store_at s)(h := (store_at s h)(k \<mapsto> v))"
  using assms by (auto simp: pb_Put_def store_at_def fun_eq_iff)

lemma non_primary_accepts_witness:
  "\<exists>s'. pb_Put Delivered ''b'' ''k'' ''1'' (two_copies Map.empty) = Some (s', OK) \<and>
     store_at s' ''b'' ''k'' = Some ''1'' \<and> store_at s' ''p'' ''k'' = None"
proof -
  have "Primary (pb_view (pb_at (two_copies Map.empty) ''b'')) \<noteq> ''b''"
    by (simp add: two_copies_def pb_at_def)
  from non_primary_accepts [OF this, of Delivered "''k''" "''1''"] show ?thesis by auto
qed

text \<open>
  A server that its view names both primary and backup (see the view service) hangs on the
  first \<open>Put\<close> or \<open>Get\<close> whose call is delivered: it waits for an answer from itself while it holds
  its own mutex.
\<close>

lemma self_backup_hangs:
  assumes "Primary (pb_view (pb_at s h)) = h" and "Backup (pb_view (pb_at s h)) = h" and "h \<noteq> ''''"
    and "ps_servers s h \<noteq> None" and "d \<noteq> RequestLost"
  shows "pb_Put d h k v s = None \<and> pb_Get d h k s = None"
  using assms by (simp add: pb_Put_def pb_Get_def pb_call_def)

lemma self_backup_hangs_witness:
  "pb_Put Delivered ''a'' ''k'' ''1''
     \<lparr>ps_vs = StartServer, ps_servers = [''a'' \<mapsto>
        \<lparr>pb_store = Map.empty, pb_view = \<lparr>Viewnum = 2, Primary = ''a'', Backup = ''a''\<rparr>\<rparr>]\<rparr> = None"
  using self_backup_hangs [of "\<lparr>ps_vs = StartServer, ps_servers = [''a'' \<mapsto>
        \<lparr>pb_store = Map.empty, pb_view = \<lparr>Viewnum = 2, Primary = ''a'', Backup = ''a''\<rparr>\<rparr>]\<rparr>" "''a''" Delivered]
  by (simp add: pb_at_def)

text \<open>
  The clerk's \<open>Get\<close> asks until the first reply that arrives and is not
  \<open>ErrWrongServer\<close>, following view changes in between, and returns what that reply says: the value,
  or the word \<open>ErrNoKey\<close> for a key that was never set (not the empty string the comment promises);
  while no such reply arrives it never returns.
\<close>

lemma clerk_get_first_answer:
  assumes "Primary view \<noteq> ''''"
  shows "map_option snd (pck_Get vs first as view) =
    (case List.find (\<lambda>x. \<not> wrong fst x) (first (Primary view) # asked as view) of
       Some (Some (e, value)) \<Rightarrow> Some (if e = OK then value else Err_text e)
     | _ \<Rightarrow> None)"
proof -
  have "find_primary vs view = Some view" using assms by (subst find_primary.simps) simp
  then have "map_option snd (pck_Get vs first as view) =
      map_option (\<lambda>r. if fst r = OK then snd r else Err_text (fst r))
        (map_option snd (ask_loop fst as view (first (Primary view))))"
    by (cases "ask_loop fst as view (first (Primary view))") (auto simp: pck_Get_def)
  then show ?thesis by (simp add: ask_loop_first split: option.splits prod.splits)
qed

lemma clerk_get_first_answer_witness:
  "map_option snd (pck_Get [] (\<lambda>_. None)
     [(None, \<lambda>_. Some (ErrWrongServer, '''')),
      (Some \<lparr>Viewnum = 3, Primary = ''b'', Backup = ''''\<rparr>, \<lambda>h. if h = ''b'' then Some (ErrNoKey, '''') else None)]
     \<lparr>Viewnum = 2, Primary = ''p'', Backup = ''b''\<rparr>) = Some ''ErrNoKey''"
  using clerk_get_first_answer [of "\<lparr>Viewnum = 2, Primary = ''p'', Backup = ''b''\<rparr>" "[]" "\<lambda>_. None"
     "[(None, \<lambda>_. Some (ErrWrongServer, '''')),
      (Some \<lparr>Viewnum = 3, Primary = ''b'', Backup = ''''\<rparr>, \<lambda>h. if h = ''b'' then Some (ErrNoKey, '''') else None)]"]
  by (simp add: updateView_def wrong_def)

end
