(* ===== verification/LockService.thy ===== *)
theory LockService
  imports Prelude
begin

text \<open>
  The lock service of \<open>6.824-labs/lockservice\<close>: the handlers of \<open>server.go\<close> and the clerk of
  \<open>client.go\<close>.  A primary answers the clerks and forwards every new request to its backup; the
  request's uuid lets a server that has handled it already repeat its answer.

  The handlers are written over the state of the server and a state that stands for whatever is
  behind \<open>call(ls.backup, ...)\<close>, with \<open>forward\<close> as that call's effect (its result is ignored).
\<close>

section \<open>Servers\<close>

record LockServer =
  ls_dead :: bool
  ls_am_primary :: bool
  ls_locks :: "string \<rightharpoonup> bool"
  ls_replays :: "int \<rightharpoonup> bool"

definition ls_StartServer :: "bool \<Rightarrow> LockServer" where
  "ls_StartServer am_primary =
     \<lparr>ls_dead = False, ls_am_primary = am_primary, ls_locks = Map.empty, ls_replays = Map.empty\<rparr>"

definition ls_locked :: "string \<Rightarrow> LockServer \<Rightarrow> bool" where
  "ls_locked name ls = (ls_locks ls name = Some True)"

definition ls_Lock ::
  "('b \<Rightarrow> 'b) \<Rightarrow> int \<Rightarrow> string \<Rightarrow> LockServer \<times> 'b \<Rightarrow> (LockServer \<times> 'b) \<times> bool" where
  "ls_Lock forward uuid lockname s =
     (let (ls, b) = s in
      case ls_replays ls uuid of
        Some r \<Rightarrow> ((ls, b), r)
      | None \<Rightarrow>
          (let locked = ls_locked lockname ls;
               ok = (\<not> locked);
               ls1 = (if locked then ls else ls\<lparr>ls_locks := (ls_locks ls)(lockname \<mapsto> True)\<rparr>);
               b1 = (if ls_am_primary ls1 then forward b else b)
           in ((ls1\<lparr>ls_replays := (ls_replays ls1)(uuid \<mapsto> ok)\<rparr>, b1), ok)))"

definition ls_Unlock ::
  "('b \<Rightarrow> 'b) \<Rightarrow> int \<Rightarrow> string \<Rightarrow> LockServer \<times> 'b \<Rightarrow> (LockServer \<times> 'b) \<times> bool" where
  "ls_Unlock forward uuid lockname s =
     (let (ls, b) = s in
      case ls_replays ls uuid of
        Some r \<Rightarrow> ((ls, b), r)
      | None \<Rightarrow>
          (let locked = ls_locked lockname ls;
               ok = locked;
               ls1 = (if locked then ls\<lparr>ls_locks := (ls_locks ls)(lockname \<mapsto> False)\<rparr> else ls);
               b1 = (if ls_am_primary ls1 then forward b else b)
           in ((ls1\<lparr>ls_replays := (ls_replays ls1)(uuid \<mapsto> ok)\<rparr>, b1), ok)))"

datatype lock_op = LockOp | UnlockOp

fun ls_op ::
  "lock_op \<Rightarrow> ('b \<Rightarrow> 'b) \<Rightarrow> int \<Rightarrow> string \<Rightarrow> LockServer \<times> 'b \<Rightarrow> (LockServer \<times> 'b) \<times> bool" where
  "ls_op LockOp = ls_Lock"
| "ls_op UnlockOp = ls_Unlock"

text \<open>The backup forwards to nobody.\<close>

definition backup_op :: "lock_op \<Rightarrow> int \<Rightarrow> string \<Rightarrow> LockServer \<Rightarrow> LockServer \<times> bool" where
  "backup_op op uuid name b = (let ((b1, u), r) = ls_op op id uuid name (b, ()) in (b1, r))"

section \<open>A primary, a backup and the clerk\<close>

text \<open>
  \<open>db\<close> is the delivery of the forwarded call.  A dead server cannot be called.  A primary with its
  flag \<open>dying\<close> set handles one more request, discards the reply and is dead.
\<close>

type_synonym lock_pair = "LockServer \<times> LockServer"

definition primary_op ::
  "delivery \<Rightarrow> lock_op \<Rightarrow> int \<Rightarrow> string \<Rightarrow> lock_pair \<Rightarrow> lock_pair \<times> bool" where
  "primary_op db op uuid name s =
     ls_op op (\<lambda>b. if ls_dead b then b else fst (rpc db (backup_op op uuid name) b)) uuid name s"

datatype fault = NoFault | Crash | Dying

definition call_primary ::
  "fault \<Rightarrow> delivery \<Rightarrow> lock_op \<Rightarrow> int \<Rightarrow> string \<Rightarrow> lock_pair \<Rightarrow> lock_pair \<times> bool option" where
  "call_primary f db op uuid name s =
     (if ls_dead (fst s) then (s, None)
      else case f of
          NoFault \<Rightarrow> (let (s1, r) = primary_op db op uuid name s in (s1, Some r))
        | Crash \<Rightarrow> ((fst s\<lparr>ls_dead := True\<rparr>, snd s), None)
        | Dying \<Rightarrow>
            (let (s1, r) = primary_op db op uuid name s in ((fst s1\<lparr>ls_dead := True\<rparr>, snd s1), None)))"

definition call_backup ::
  "delivery \<Rightarrow> lock_op \<Rightarrow> int \<Rightarrow> string \<Rightarrow> lock_pair \<Rightarrow> lock_pair \<times> bool option" where
  "call_backup d op uuid name s =
     (if ls_dead (snd s) then (s, None)
      else (let (b, r) = rpc d (backup_op op uuid name) (snd s) in ((fst s, b), r)))"

text \<open>\<open>Clerk.Lock\<close> and \<open>Clerk.Unlock\<close>: the primary, then the backup, with the same uuid.\<close>

definition lck_call ::
  "fault \<Rightarrow> delivery \<Rightarrow> delivery \<Rightarrow> lock_op \<Rightarrow> int \<Rightarrow> string \<Rightarrow> lock_pair \<Rightarrow> lock_pair \<times> bool" where
  "lck_call f db d op uuid name s =
     (let (s1, r1) = call_primary f db op uuid name s in
      case r1 of
        Some ok \<Rightarrow> (s1, ok)
      | None \<Rightarrow>
          (let (s2, r2) = call_backup d op uuid name s1 in
           case r2 of None \<Rightarrow> (s2, False) | Some ok \<Rightarrow> (s2, ok)))"

definition lck_Lock ::
  "fault \<Rightarrow> delivery \<Rightarrow> delivery \<Rightarrow> int \<Rightarrow> string \<Rightarrow> lock_pair \<Rightarrow> lock_pair \<times> bool" where
  "lck_Lock f db d uuid lockname s = lck_call f db d LockOp uuid lockname s"

definition lck_Unlock ::
  "fault \<Rightarrow> delivery \<Rightarrow> delivery \<Rightarrow> int \<Rightarrow> string \<Rightarrow> lock_pair \<Rightarrow> lock_pair \<times> bool" where
  "lck_Unlock f db d uuid lockname s = lck_call f db d UnlockOp uuid lockname s"

section \<open>The lock table a client sees\<close>

fun table_op :: "lock_op \<Rightarrow> string \<Rightarrow> string set \<Rightarrow> string set \<times> bool" where
  "table_op LockOp name held = (insert name held, name \<notin> held)"
| "table_op UnlockOp name held = (held - {name}, name \<in> held)"

definition held_by :: "LockServer \<Rightarrow> string set" where
  "held_by ls = {name. ls_locked name ls}"

lemma ls_op_replay [simp]:
  "ls_replays ls uuid = Some r \<Longrightarrow> ls_op op forward uuid name (ls, b) = ((ls, b), r)"
  by (cases op) (simp_all add: ls_Lock_def ls_Unlock_def)

lemma ls_op_new:
  assumes "ls_replays ls uuid = None"
  shows "\<exists>ls'. ls_op op forward uuid name (ls, b) =
      ((ls', if ls_am_primary ls then forward b else b), snd (table_op op name (held_by ls))) \<and>
    held_by ls' = fst (table_op op name (held_by ls)) \<and>
    ls_replays ls' = (ls_replays ls)(uuid \<mapsto> snd (table_op op name (held_by ls))) \<and>
    ls_am_primary ls' = ls_am_primary ls \<and> ls_dead ls' = ls_dead ls"
  using assms
  by (cases op) (auto simp: ls_Lock_def ls_Unlock_def held_by_def ls_locked_def)

lemma backup_op_replay: "ls_replays b uuid = Some r \<Longrightarrow> backup_op op uuid name b = (b, r)"
  by (simp add: backup_op_def)

lemma backup_op_new:
  assumes "ls_replays b uuid = None"
  shows "\<exists>b'. backup_op op uuid name b = (b', snd (table_op op name (held_by b))) \<and>
    held_by b' = fst (table_op op name (held_by b)) \<and>
    ls_replays b' = (ls_replays b)(uuid \<mapsto> snd (table_op op name (held_by b))) \<and>
    ls_dead b' = ls_dead b"
  using ls_op_new [OF assms, of op id name "()"] by (auto simp: backup_op_def)

text \<open>
  The pair serves the table \<open>held\<close> when the backup is alive and has it, and so has the primary
  unless it is dead, with the same record of answers.
\<close>

definition serves :: "lock_pair \<Rightarrow> string set \<Rightarrow> int set \<Rightarrow> bool" where
  "serves s held used \<longleftrightarrow>
     \<not> ls_dead (snd s) \<and> held_by (snd s) = held \<and> dom (ls_replays (snd s)) \<subseteq> used \<and>
     (\<not> ls_dead (fst s) \<longrightarrow>
        ls_am_primary (fst s) \<and> held_by (fst s) = held \<and> ls_replays (fst s) = ls_replays (snd s))"

lemma primary_op_serves:
  assumes s: "serves s held used" and alive: "\<not> ls_dead (fst s)" and new: "uuid \<notin> used"
    and db: "db \<noteq> RequestLost"
  shows "\<exists>p b. primary_op db op uuid name s = ((p, b), snd (table_op op name held)) \<and>
    serves (p, b) (fst (table_op op name held)) (insert uuid used) \<and>
    ls_replays b uuid = Some (snd (table_op op name held)) \<and> \<not> ls_dead p"
proof -
  from s alive have p: "ls_am_primary (fst s)" "held_by (fst s) = held"
      "ls_replays (fst s) = ls_replays (snd s)"
    and b: "\<not> ls_dead (snd s)" "held_by (snd s) = held" "dom (ls_replays (snd s)) \<subseteq> used"
    by (auto simp: serves_def)
  from b(3) new have none: "ls_replays (snd s) uuid = None" by blast
  obtain b' where b': "backup_op op uuid name (snd s) = (b', snd (table_op op name held))"
      "held_by b' = fst (table_op op name held)"
      "ls_replays b' = (ls_replays (snd s))(uuid \<mapsto> snd (table_op op name held))" "\<not> ls_dead b'"
    using backup_op_new [OF none, of op name] b by auto
  let ?f = "\<lambda>b. if ls_dead b then b else fst (rpc db (backup_op op uuid name) b)"
  have fwd: "?f (snd s) = b'" using db b(1) b'(1) by (cases db) auto
  obtain p' where p': "ls_op op ?f uuid name (fst s, snd s) = ((p', ?f (snd s)), snd (table_op op name held))"
      "held_by p' = fst (table_op op name held)"
      "ls_replays p' = (ls_replays (snd s))(uuid \<mapsto> snd (table_op op name held))"
      "ls_am_primary p'" "ls_dead p' = ls_dead (fst s)"
    using ls_op_new [of "fst s" uuid op ?f name "snd s"] none p by auto
  from p'(1) fwd have "primary_op db op uuid name s = ((p', b'), snd (table_op op name held))"
    by (simp add: primary_op_def)
  with p' b' b(3) alive show ?thesis by (auto simp: serves_def)
qed

lemma call_backup_serves:
  assumes s: "serves s held used" and new: "uuid \<notin> used" and dead: "ls_dead (fst s)"
  shows "\<exists>s'. call_backup Delivered op uuid name s = (s', Some (snd (table_op op name held))) \<and>
    serves s' (fst (table_op op name held)) (insert uuid used)"
proof -
  from s have b: "\<not> ls_dead (snd s)" "held_by (snd s) = held" "dom (ls_replays (snd s)) \<subseteq> used"
    by (auto simp: serves_def)
  from b(3) new have none: "ls_replays (snd s) uuid = None" by blast
  obtain b' where b': "backup_op op uuid name (snd s) = (b', snd (table_op op name held))"
      "held_by b' = fst (table_op op name held)"
      "ls_replays b' = (ls_replays (snd s))(uuid \<mapsto> snd (table_op op name held))" "\<not> ls_dead b'"
    using backup_op_new [OF none, of op name] b by auto
  from b'(3) b(3) have "dom (ls_replays b') \<subseteq> insert uuid used" by auto
  with b' b(1) dead show ?thesis by (simp add: call_backup_def serves_def)
qed

text \<open>One call of a clerk, whatever happens to the primary during it, takes effect exactly once.\<close>

lemma lck_call_serves:
  assumes s: "serves s held used" and new: "uuid \<notin> used" and db: "db \<noteq> RequestLost"
  shows "\<exists>s'. lck_call f db Delivered op uuid name s = (s', snd (table_op op name held)) \<and>
    serves s' (fst (table_op op name held)) (insert uuid used)"
proof (cases "ls_dead (fst s)")
  case True
  with call_backup_serves [OF s new True, of op name] show ?thesis
    by (auto simp: lck_call_def call_primary_def)
next
  case False
  obtain p b where pb: "primary_op db op uuid name s = ((p, b), snd (table_op op name held))"
      "serves (p, b) (fst (table_op op name held)) (insert uuid used)"
      "ls_replays b uuid = Some (snd (table_op op name held))"
    using primary_op_serves [OF s False new db] by blast
  show ?thesis
  proof (cases f)
    case NoFault
    with False pb show ?thesis by (simp add: lck_call_def call_primary_def)
  next
    case Crash
    have "serves (fst s\<lparr>ls_dead := True\<rparr>, snd s) held used" using s by (simp add: serves_def)
    from call_backup_serves [OF this new, of op name] Crash False show ?thesis
      by (auto simp: lck_call_def call_primary_def)
  next
    case Dying
    have b: "\<not> ls_dead b" using pb(2) by (simp add: serves_def)
    have "call_backup Delivered op uuid name (p\<lparr>ls_dead := True\<rparr>, b) =
        ((p\<lparr>ls_dead := True\<rparr>, b), Some (snd (table_op op name held)))"
      using b by (simp add: call_backup_def backup_op_replay [OF pb(3)])
    moreover have "serves (p\<lparr>ls_dead := True\<rparr>, b) (fst (table_op op name held)) (insert uuid used)"
      using pb(2) by (simp add: serves_def)
    ultimately show ?thesis using Dying False pb(1) by (simp add: lck_call_def call_primary_def)
  qed
qed

section \<open>Histories\<close>

text \<open>Calls of clerks, one after the other, with their uuids and the fault that hits each.\<close>

record clerk_call =
  cc_op :: lock_op
  cc_uuid :: int
  cc_name :: string
  cc_fault :: fault
  cc_forward :: delivery

fun lck_run :: "clerk_call list \<Rightarrow> lock_pair \<Rightarrow> lock_pair \<times> bool list" where
  "lck_run [] s = (s, [])"
| "lck_run (c # cs) s =
     (let (s1, r) = lck_call (cc_fault c) (cc_forward c) Delivered (cc_op c) (cc_uuid c) (cc_name c) s;
          (s2, rs) = lck_run cs s1
      in (s2, r # rs))"

fun table_run :: "clerk_call list \<Rightarrow> string set \<Rightarrow> string set \<times> bool list" where
  "table_run [] held = (held, [])"
| "table_run (c # cs) held =
     (let (held1, r) = table_op (cc_op c) (cc_name c) held; (held2, rs) = table_run cs held1
      in (held2, r # rs))"

lemma lck_run_serves:
  assumes "serves s held used" "distinct (map cc_uuid cs)" "set (map cc_uuid cs) \<inter> used = {}"
    and "list_all (\<lambda>c. cc_forward c \<noteq> RequestLost) cs"
  shows "snd (lck_run cs s) = snd (table_run cs held) \<and>
    held_by (snd (fst (lck_run cs s))) = fst (table_run cs held)"
  using assms
proof (induction cs arbitrary: s held used)
  case Nil
  then show ?case by (simp add: serves_def)
next
  case (Cons c cs)
  from Cons.prems have "cc_uuid c \<notin> used" "cc_forward c \<noteq> RequestLost" by auto
  from lck_call_serves [OF Cons.prems(1) this] obtain s1 where s1:
      "lck_call (cc_fault c) (cc_forward c) Delivered (cc_op c) (cc_uuid c) (cc_name c) s =
         (s1, snd (table_op (cc_op c) (cc_name c) held))"
      "serves s1 (fst (table_op (cc_op c) (cc_name c) held)) (insert (cc_uuid c) used)" by blast
  from Cons.IH [OF s1(2)] Cons.prems s1(1) show ?case by (auto split: prod.splits)
qed

lemma serves_init: "serves (ls_StartServer True, ls_StartServer False) {} {}"
  by (simp add: serves_def ls_StartServer_def held_by_def ls_locked_def)

section \<open>Properties\<close>

text \<open>
  C5: Exactly once, across the primary's death: for any calls of clerks with distinct uuids, and
  wherever in them the primary crashes before a request or dies after handling one without
  replying, every clerk gets the answer a single lock table would give to the calls in that
  order (so no lock is granted twice without an unlock in between), and the backup ends up
  holding exactly that table.  The forwarded requests must reach the backup, which must live.
\<close>

theorem locks_exactly_once:
  assumes "distinct (map cc_uuid cs)" and "list_all (\<lambda>c. cc_forward c \<noteq> RequestLost) cs"
  shows "snd (lck_run cs (ls_StartServer True, ls_StartServer False)) = snd (table_run cs {}) \<and>
    held_by (snd (fst (lck_run cs (ls_StartServer True, ls_StartServer False)))) = fst (table_run cs {})"
  using lck_run_serves [OF serves_init assms(1) _ assms(2)] by simp

theorem locks_exactly_once_witness:
  "snd (lck_run
     [\<lparr>cc_op = LockOp, cc_uuid = 1, cc_name = ''a'', cc_fault = NoFault, cc_forward = Delivered\<rparr>,
      \<lparr>cc_op = LockOp, cc_uuid = 2, cc_name = ''b'', cc_fault = Dying, cc_forward = ReplyLost\<rparr>,
      \<lparr>cc_op = LockOp, cc_uuid = 3, cc_name = ''a'', cc_fault = NoFault, cc_forward = Delivered\<rparr>,
      \<lparr>cc_op = UnlockOp, cc_uuid = 4, cc_name = ''b'', cc_fault = NoFault, cc_forward = Delivered\<rparr>]
     (ls_StartServer True, ls_StartServer False)) = [True, True, False, True]"
  using locks_exactly_once [of "[\<lparr>cc_op = LockOp, cc_uuid = 1, cc_name = ''a'', cc_fault = NoFault, cc_forward = Delivered\<rparr>,
      \<lparr>cc_op = LockOp, cc_uuid = 2, cc_name = ''b'', cc_fault = Dying, cc_forward = ReplyLost\<rparr>,
      \<lparr>cc_op = LockOp, cc_uuid = 3, cc_name = ''a'', cc_fault = NoFault, cc_forward = Delivered\<rparr>,
      \<lparr>cc_op = UnlockOp, cc_uuid = 4, cc_name = ''b'', cc_fault = NoFault, cc_forward = Delivered\<rparr>]"]
  by simp

text \<open>
  Repeating a request changes nothing: a server, primary or backup, that handles a request
  it has handled before (same uuid) returns the same answer as the first time, does not touch a
  lock and forwards nothing, whatever the lock name and whatever has happened to it since.
\<close>

lemma replay_idempotent:
  assumes "ls_replays ls uuid = ls_replays (fst (fst (ls_op op forward uuid name s))) uuid"
  shows "ls_op op' forward' uuid name' (ls, b) = ((ls, b), snd (ls_op op forward uuid name s))"
proof -
  obtain ls0 b0 where s: "s = (ls0, b0)" by (cases s)
  have "ls_replays (fst (fst (ls_op op forward uuid name s))) uuid = Some (snd (ls_op op forward uuid name s))"
    using ls_op_new [of ls0 uuid op forward name b0] s by (cases "ls_replays ls0 uuid") auto
  with assms show ?thesis by simp
qed

lemma replay_idempotent_witness:
  "ls_op LockOp id 7 ''a'' (fst (fst (ls_op LockOp id 7 ''a'' (ls_StartServer False, 0::nat))), 0::nat) =
     ((fst (fst (ls_op LockOp id 7 ''a'' (ls_StartServer False, 0::nat))), 0), True)"
proof -
  have "snd (ls_op LockOp id 7 ''a'' (ls_StartServer False, 0::nat)) = True"
    by (simp add: ls_Lock_def ls_StartServer_def ls_locked_def)
  with replay_idempotent [where op = LockOp and forward = id and uuid = 7 and name = "''a''" and
      s = "(ls_StartServer False, 0::nat)" and op' = LockOp and forward' = id and name' = "''a''" and b = "0::nat",
      OF refl]
  show ?thesis by simp
qed

end
