(* ===== verification/GotoKey.thy ===== *)
theory GotoKey
  imports Prelude
begin

text \<open>
  The key generator of the URL shortener, \<open>goto/key.go\<close>.  \<open>genKey_loop\<close> is its loop: the third
  argument is the part \<open>s[i:]\<close> of the buffer that is already filled, the second is \<open>i\<close>.  An index
  below zero panics.
\<close>

section \<open>The generator\<close>

definition keyChar :: string where
  "keyChar = ''0123456789abcdefghijklmnopqrstuvwxyzABCDEFGHIJKLMNOPQRSTUVWXYZ''"

function genKey_loop :: "int \<Rightarrow> int \<Rightarrow> string \<Rightarrow> string go" where
  "genKey_loop n i acc =
     (if n > 0 \<and> i \<ge> 0 then
        (let i1 = i - 1;
             j = n mod int (length keyChar);
             n1 = (n - j) div int (length keyChar)
         in if i1 < 0 then None else genKey_loop n1 i1 (keyChar ! nat j # acc))
      else Some acc)"
  by auto

lemma keyChar_length: "length keyChar = 62"
  by (simp add: keyChar_def)

lemma genKey_quotient: "(n - n mod 62) div 62 = n div (62::int)"
  by (simp add: minus_mod_eq_mult_div)

termination genKey_loop
  by (relation "measure (\<lambda>(n, i, acc). nat n)")
     (simp_all add: keyChar_length genKey_quotient nat_less_iff)

declare genKey_loop.simps [simp del]

definition genKey :: "int \<Rightarrow> string go" where
  "genKey n = (if n = 0 then Some [keyChar ! 0] else genKey_loop n 20 [])"

section \<open>Reading a key back\<close>

fun char_index :: "char \<Rightarrow> string \<Rightarrow> nat" where
  "char_index c [] = 0"
| "char_index c (d # ds) = (if c = d then 0 else Suc (char_index c ds))"

definition key_value :: "string \<Rightarrow> int" where
  "key_value s = foldl (\<lambda>a c. a * 62 + int (char_index c keyChar)) 0 s"

lemma key_value_Nil [simp]: "key_value [] = 0"
  by (simp add: key_value_def)

lemma key_value_snoc [simp]: "key_value (s @ [c]) = key_value s * 62 + int (char_index c keyChar)"
  by (simp add: key_value_def)

lemma char_index_nth: "distinct ds \<Longrightarrow> j < length ds \<Longrightarrow> char_index (ds ! j) ds = j"
  by (induction ds arbitrary: j) (auto simp: nth_Cons split: nat.splits)

lemma keyChar_distinct: "distinct keyChar"
  unfolding keyChar_def by code_simp

lemma keyChar_index: "0 \<le> j \<Longrightarrow> j < 62 \<Longrightarrow> char_index (keyChar ! nat j) keyChar = nat j"
  by (rule char_index_nth) (simp_all add: keyChar_distinct keyChar_length)

text \<open>A number of at most \<open>k\<close> base-62 digits is written in at most \<open>k\<close> characters.\<close>

lemma genKey_loop_value:
  "0 \<le> n \<Longrightarrow> n < 62 ^ k \<Longrightarrow> int k \<le> i \<Longrightarrow>
   \<exists>p. genKey_loop n i acc = Some (p @ acc) \<and> key_value p = n \<and> length p \<le> k \<and> set p \<subseteq> set keyChar \<and>
       (n > 0 \<longrightarrow> p \<noteq> [] \<and> hd p \<noteq> keyChar ! 0)"
proof (induction k arbitrary: n i acc)
  case 0
  then show ?case by (intro exI [of _ "[]"]) (simp add: genKey_loop.simps)
next
  case (Suc k)
  show ?case
  proof (cases "n = 0")
    case True
    then show ?thesis by (intro exI [of _ "[]"]) (simp add: genKey_loop.simps)
  next
    case False
    let ?c = "keyChar ! nat (n mod 62)"
    have q: "0 \<le> n div 62" "n div 62 < 62 ^ k" "int k \<le> i - 1" using Suc.prems by auto
    from Suc.IH [OF q, of "?c # acc"] obtain p where
      p: "genKey_loop (n div 62) (i - 1) (?c # acc) = Some (p @ ?c # acc)" "key_value p = n div 62"
         "length p \<le> k" "set p \<subseteq> set keyChar" "n div 62 > 0 \<longrightarrow> p \<noteq> [] \<and> hd p \<noteq> keyChar ! 0" by blast
    have "genKey_loop n i acc = genKey_loop (n div 62) (i - 1) (?c # acc)"
      using Suc.prems False q(3) by (subst genKey_loop.simps) (simp add: keyChar_length genKey_quotient)
    moreover have "int (char_index ?c keyChar) = n mod 62"
      using keyChar_index [of "n mod 62"] by simp
    then have "key_value (p @ [?c]) = n" using p(2) by simp
    moreover have "?c \<in> set keyChar"
      by (rule nth_mem) (simp add: keyChar_length nat_less_iff)
    moreover have "hd (p @ [?c]) \<noteq> keyChar ! 0"
    proof (cases "n div 62 = 0")
      case True
      with p(1,2) have "p = []"
        by (cases p) (auto simp: genKey_loop.simps)
      moreover have "n mod 62 = n" "n < 62" using True Suc.prems(1) by (auto simp: div_eq_0_iff)
      ultimately show ?thesis
        using False Suc.prems(1) nth_eq_iff_index_eq [OF keyChar_distinct, of "nat n" 0]
        by (auto simp: keyChar_length)
    next
      case False
      with q(1) p(5) have "p \<noteq> []" "hd p \<noteq> keyChar ! 0" by auto
      then show ?thesis by simp
    qed
    ultimately show ?thesis
      using p(1,3,4) by (intro exI [of _ "p @ [?c]"]) simp
  qed
qed

text \<open>Every count a 64-bit \<open>int\<close> can hold fits in 11 characters, well inside the 20-byte buffer.\<close>

lemma genKey_ok:
  assumes "0 \<le> n" "n < 2 ^ 63"
  shows "\<exists>s. genKey n = Some s \<and> key_value s = n \<and> s \<noteq> [] \<and> length s \<le> 11 \<and> set s \<subseteq> set keyChar"
proof (cases "n = 0")
  case True
  have "char_index (keyChar ! 0) keyChar = 0" using keyChar_index [of 0] by simp
  then have "key_value [keyChar ! 0] = 0" using key_value_snoc [of "[]" "keyChar ! 0"] by simp
  moreover have "keyChar ! 0 \<in> set keyChar" by (rule nth_mem) (simp add: keyChar_length)
  ultimately show ?thesis using True by (simp add: genKey_def)
next
  case False
  have "n < 62 ^ 11" using assms(2) by simp
  from genKey_loop_value [OF assms(1) this, of 20 "[]"] False assms(1) show ?thesis
    by (auto simp: genKey_def)
qed

text \<open>The key of a number, for numbers in range.\<close>

definition key_of :: "nat \<Rightarrow> string" where
  "key_of n = the (genKey (int n))"

lemma key_of_genKey: "n < 2 ^ 63 \<Longrightarrow> genKey (int n) = Some (key_of n)"
  using genKey_ok [of "int n"] by (auto simp: key_of_def)

lemma key_of_value: "n < 2 ^ 63 \<Longrightarrow> key_value (key_of n) = int n"
  using genKey_ok [of "int n"] by (auto simp: key_of_def)

lemma key_of_inject: "m < 2 ^ 63 \<Longrightarrow> n < 2 ^ 63 \<Longrightarrow> key_of m = key_of n \<longleftrightarrow> m = n"
  using key_of_value by (metis of_nat_eq_iff)

lemma inj_on_key_of: "N \<le> 2 ^ 63 \<Longrightarrow> inj_on key_of {..<N}"
  by (auto simp: inj_on_def key_of_inject)

section \<open>Properties\<close>

text \<open>
  C38: For every count that a 64-bit \<open>int\<close> can hold, \<open>genKey\<close> returns without an index panic a
  nonempty key of at most 11 base-62 characters that reads back as the count, so different counts
  have different keys; the overflow of the 20-byte buffer that a comment fears cannot happen.
\<close>

theorem genKey_roundtrip:
  assumes "0 \<le> n" and "n < 2 ^ 63"
  shows "\<exists>s. genKey n = Some s \<and> key_value s = n \<and> s \<noteq> [] \<and> length s \<le> 11 \<and> set s \<subseteq> set keyChar \<and>
    inj_on genKey {0..<2 ^ 63}"
proof -
  have "inj_on genKey {0..<2 ^ 63}"
  proof (rule inj_onI)
    fix x y :: int
    assume "x \<in> {0..<2 ^ 63}" "y \<in> {0..<2 ^ 63}" "genKey x = genKey y"
    then show "x = y" using genKey_ok [of x] genKey_ok [of y] by auto
  qed
  with genKey_ok [OF assms] show ?thesis by blast
qed

theorem genKey_roundtrip_witness:
  "genKey 3843 = Some ''ZZ'' \<and> key_value ''ZZ'' = 3843"
proof -
  have "genKey 3843 = Some ''ZZ''" by (simp add: genKey_def genKey_loop.simps keyChar_def)
  with genKey_roundtrip [of 3843] show ?thesis by auto
qed

end
