(* ===== verification/GotoStore.thy ===== *)
theory GotoStore
  imports GotoKey
begin

text \<open>
  The store of the URL shortener, \<open>goto/store.go\<close>, and the HTTP handlers of \<open>goto/main.go\<close>.

  \<^item> The map \<open>urls\<close> is the list of its entries in the order they were set; an entry is never
    changed or deleted.  Each method locks the store, so each is one step.
  \<^item> \<open>Put\<close> loops until its \<open>Set\<close> succeeds; \<open>put_loop\<close> is that loop when nobody else uses the store
    (\<open>None\<close>: it never returns), the relation \<open>goto_step\<close> interleaves any number of \<open>Put\<close>s with the
    saving goroutine.
  \<^item> The data file holds JSON records.  A state of it is the list of its complete records, which
    is what \<open>load\<close> decodes; \<open>bufio\<close> may write out any prefix of what it buffers at any time.
\<close>

section \<open>The store\<close>

type_synonym record_ = "string \<times> string"

record URLStore =
  us_urls :: "record_ list"

definition us_new :: URLStore where
  "us_new = \<lparr>us_urls = []\<rparr>"

definition us_Get :: "string \<Rightarrow> URLStore \<Rightarrow> string result" where
  "us_Get key s =
     (case map_of (us_urls s) key of
        Some u \<Rightarrow> Inr u
      | None \<Rightarrow> Inl ''key not found'')"

definition us_Set :: "string \<Rightarrow> string \<Rightarrow> URLStore \<Rightarrow> URLStore \<times> unit result" where
  "us_Set key url s =
     (if map_of (us_urls s) key \<noteq> None then (s, Inl ''key already exists'')
      else (s\<lparr>us_urls := us_urls s @ [(key, url)]\<rparr>, Inr ()))"

definition us_Count :: "URLStore \<Rightarrow> int" where
  "us_Count s = int (length (us_urls s))"

text \<open>The loop of \<open>Put\<close>: \<open>None\<close> when it does not return, \<open>Some None\<close> when \<open>genKey\<close> panics.\<close>

partial_function (option) put_loop :: "string \<Rightarrow> URLStore \<Rightarrow> (URLStore \<times> string) go option" where
  "put_loop url s =
     (case genKey (us_Count s) of
        None \<Rightarrow> Some None
      | Some key \<Rightarrow>
          (case us_Set key url s of
             (s1, Inr u) \<Rightarrow> Some (Some (s1, key))
           | (s1, Inl e) \<Rightarrow> put_loop url s1))"

text \<open>\<open>load\<close> sets the decoded records one by one and ignores the errors of \<open>Set\<close>.\<close>

definition us_load :: "record_ list \<Rightarrow> URLStore \<Rightarrow> URLStore" where
  "us_load rs s = fold (\<lambda>(key, url) s. fst (us_Set key url s)) rs s"

section \<open>Puts and the saving goroutine\<close>

definition saveQueueLength :: nat where "saveQueueLength = 1000"

datatype put_pc =
  NotStarted | Counting string | Setting string string | Saving string string | Returned_key string string

record goto_state =
  gs_store :: URLStore
  gs_save :: "record_ list"
  gs_buffer :: "record_ list"
  gs_file :: "record_ list"
  gs_pc :: "nat \<Rightarrow> put_pc"

definition goto_init :: goto_state where
  "goto_init =
     \<lparr>gs_store = us_new, gs_save = [], gs_buffer = [], gs_file = [], gs_pc = (\<lambda>_. NotStarted)\<rparr>"

inductive goto_step :: "goto_state \<Rightarrow> goto_state \<Rightarrow> bool" where
  call_put: "gs_pc s i = NotStarted \<Longrightarrow> goto_step s (s\<lparr>gs_pc := (gs_pc s)(i := Counting url)\<rparr>)"
| count: "gs_pc s i = Counting url \<Longrightarrow> genKey (us_Count (gs_store s)) = Some key \<Longrightarrow>
    goto_step s (s\<lparr>gs_pc := (gs_pc s)(i := Setting url key)\<rparr>)"
| set_ok: "gs_pc s i = Setting url key \<Longrightarrow> us_Set key url (gs_store s) = (t, Inr ()) \<Longrightarrow>
    goto_step s (s\<lparr>gs_store := t, gs_pc := (gs_pc s)(i := Saving url key)\<rparr>)"
| set_again: "gs_pc s i = Setting url key \<Longrightarrow> us_Set key url (gs_store s) = (t, Inl e) \<Longrightarrow>
    goto_step s (s\<lparr>gs_store := t, gs_pc := (gs_pc s)(i := Counting url)\<rparr>)"
| save: "gs_pc s i = Saving url key \<Longrightarrow> length (gs_save s) < saveQueueLength \<Longrightarrow>
    goto_step s (s\<lparr>gs_save := gs_save s @ [(key, url)], gs_pc := (gs_pc s)(i := Returned_key url key)\<rparr>)"
| encode: "gs_save s = r # rs \<Longrightarrow>
    goto_step s (s\<lparr>gs_save := rs, gs_buffer := gs_buffer s @ [r]\<rparr>)"
| flush: "goto_step s (s\<lparr>gs_file := gs_file s @ take n (gs_buffer s), gs_buffer := drop n (gs_buffer s)\<rparr>)"

inductive goto_reachable :: "goto_state \<Rightarrow> bool" where
  start: "goto_reachable goto_init"
| step: "goto_reachable s \<Longrightarrow> goto_step s t \<Longrightarrow> goto_reachable t"

section \<open>Invariant\<close>

text \<open>
  The \<open>n\<close>-th entry has the \<open>n\<close>-th key; a \<open>Put\<close> about to set holds the key of an earlier or the
  present count; finished and saving \<open>Put\<close>s own different entries of the store; the entries are
  those saved (queued, buffered or on file, each once) and those of the \<open>Put\<close>s still saving.
\<close>

fun owned :: "put_pc \<Rightarrow> record_ option" where
  "owned (Saving url key) = Some (key, url)"
| "owned (Returned_key url key) = Some (key, url)"
| "owned _ = None"

definition saved :: "goto_state \<Rightarrow> record_ list" where
  "saved s = gs_file s @ gs_buffer s @ gs_save s"

definition keys_ok :: "record_ list \<Rightarrow> bool" where
  "keys_ok urls \<longleftrightarrow> map fst urls = map key_of [0..<length urls]"

definition pcs_ok :: "goto_state \<Rightarrow> bool" where
  "pcs_ok s \<longleftrightarrow>
     (\<forall>i url key. gs_pc s i = Setting url key \<longrightarrow>
        (\<exists>m \<le> length (us_urls (gs_store s)). key = key_of m)) \<and>
     (\<forall>i r. owned (gs_pc s i) = Some r \<longrightarrow> r \<in> set (us_urls (gs_store s))) \<and>
     (\<forall>i j r q. owned (gs_pc s i) = Some r \<and> owned (gs_pc s j) = Some q \<and> i \<noteq> j \<longrightarrow> fst r \<noteq> fst q)"

definition saved_ok :: "goto_state \<Rightarrow> bool" where
  "saved_ok s \<longleftrightarrow>
     distinct (saved s) \<and>
     (\<forall>r. r \<in> set (us_urls (gs_store s)) \<longleftrightarrow>
        r \<in> set (saved s) \<or> (\<exists>i. gs_pc s i = Saving (snd r) (fst r))) \<and>
     (\<forall>i url key. gs_pc s i = Saving url key \<longrightarrow> (key, url) \<notin> set (saved s))"

definition goto_inv :: "goto_state \<Rightarrow> bool" where
  "goto_inv s \<longleftrightarrow> keys_ok (us_urls (gs_store s)) \<and> pcs_ok s \<and> saved_ok s"

lemma keys_ok_lookup:
  assumes "keys_ok urls" "length urls < 2 ^ 63" "m < 2 ^ 63"
  shows "map_of urls (key_of m) = None \<longleftrightarrow> length urls \<le> m"
proof -
  have "map_of urls (key_of m) = None \<longleftrightarrow> key_of m \<notin> set (map fst urls)"
    by (simp add: map_of_eq_None_iff)
  also have "\<dots> \<longleftrightarrow> (\<forall>k < length urls. key_of m \<noteq> key_of k)"
    using assms(1) by (auto simp: keys_ok_def)
  also have "\<dots> \<longleftrightarrow> (\<forall>k < length urls. m \<noteq> k)"
    using assms(2,3) by (auto simp: key_of_inject)
  also have "\<dots> \<longleftrightarrow> length urls \<le> m" by (metis leI less_irrefl not_less)
  finally show ?thesis .
qed

lemma keys_ok_snoc: "keys_ok urls \<Longrightarrow> keys_ok (urls @ [(key_of (length urls), url)])"
  by (simp add: keys_ok_def)

lemma keys_ok_distinct: "keys_ok urls \<Longrightarrow> length urls < 2 ^ 63 \<Longrightarrow> distinct (map fst urls)"
  by (auto simp: keys_ok_def distinct_map inj_on_def key_of_inject)

lemma keys_ok_map_of:
  "keys_ok urls \<Longrightarrow> length urls < 2 ^ 63 \<Longrightarrow> (k, u) \<in> set urls \<Longrightarrow> map_of urls k = Some u"
  using keys_ok_distinct by (simp add: map_of_is_SomeI)

section \<open>A \<open>Put\<close> alone\<close>

lemma put_loop_alone:
  assumes "keys_ok (us_urls s)" "length (us_urls s) < 2 ^ 63"
  shows "put_loop url s =
    Some (Some (s\<lparr>us_urls := us_urls s @ [(key_of (length (us_urls s)), url)]\<rparr>, key_of (length (us_urls s))))"
  using keys_ok_lookup [OF assms assms(2)] key_of_genKey [OF assms(2)]
  by (subst put_loop.simps) (simp add: us_Count_def us_Set_def)

text \<open>With the next key already in use the loop never ends.\<close>

lemma put_loop_diverges_aux:
  assumes "put_loop url s = Some r"
  shows "\<not> (\<exists>key. genKey (us_Count s) = Some key \<and> map_of (us_urls s) key \<noteq> None)"
proof (rule put_loop.raw_induct [OF _ assms])
  fix put url s r
  assume IH: "\<And>url s r. put url s = Some r \<Longrightarrow>
      \<not> (\<exists>key. genKey (us_Count s) = Some key \<and> map_of (us_urls s) key \<noteq> None)"
    and body: "(case genKey (us_Count s) of
        None \<Rightarrow> Some None
      | Some key \<Rightarrow>
          (case us_Set key url s of
             (s1, Inr u) \<Rightarrow> Some (Some (s1, key))
           | (s1, Inl e) \<Rightarrow> put url s1)) = Some r"
  show "\<not> (\<exists>key. genKey (us_Count s) = Some key \<and> map_of (us_urls s) key \<noteq> None)"
  proof
    assume used: "\<exists>key. genKey (us_Count s) = Some key \<and> map_of (us_urls s) key \<noteq> None"
    with body have "put url s = Some r" by (auto simp: us_Set_def)
    from IH [OF this] used show False by blast
  qed
qed

lemma put_loop_diverges:
  assumes "genKey (us_Count s) = Some key" "map_of (us_urls s) key \<noteq> None"
  shows "put_loop url s = None"
  using put_loop_diverges_aux [of url s] assms by (cases "put_loop url s") auto

section \<open>The invariant is kept\<close>

lemma saved_simps [simp]:
  "saved (s\<lparr>gs_pc := p\<rparr>) = saved s" "saved (s\<lparr>gs_store := t\<rparr>) = saved s"
  "saved (s\<lparr>gs_store := t, gs_pc := p\<rparr>) = saved s"
  by (simp_all add: saved_def)

lemma pcs_ok_move:
  assumes "pcs_ok s" "owned p = None"
    and "\<And>url key. p = Setting url key \<Longrightarrow> \<exists>m \<le> length (us_urls (gs_store s)). key = key_of m"
  shows "pcs_ok (s\<lparr>gs_pc := (gs_pc s)(i := p)\<rparr>)"
  using assms unfolding pcs_ok_def by (auto split: if_splits)

lemma saved_ok_move:
  assumes "saved_ok s" "owned (gs_pc s i) = None" "owned p = None"
  shows "saved_ok (s\<lparr>gs_pc := (gs_pc s)(i := p)\<rparr>)"
proof -
  let ?t = "s\<lparr>gs_pc := (gs_pc s)(i := p)\<rparr>"
  have eq: "gs_pc ?t j = Saving u k \<longleftrightarrow> gs_pc s j = Saving u k" for j u k
    using assms(2,3) by auto
  have st: "gs_store ?t = gs_store s" by simp
  show ?thesis using assms(1) unfolding saved_ok_def eq st saved_simps .
qed

lemma goto_inv_move:
  assumes "goto_inv s" "owned (gs_pc s i) = None" "owned p = None"
    and "\<And>url key. p = Setting url key \<Longrightarrow> \<exists>m \<le> length (us_urls (gs_store s)). key = key_of m"
  shows "goto_inv (s\<lparr>gs_pc := (gs_pc s)(i := p)\<rparr>)"
  using assms pcs_ok_move [of s p i] saved_ok_move [of s i p] by (simp add: goto_inv_def)

lemma goto_inv_set:
  assumes inv: "goto_inv s" and pc: "gs_pc s i = Setting url key"
    and set: "us_Set key url (gs_store s) = (t, Inr ())"
    and bound: "length (us_urls (gs_store s)) < 2 ^ 63"
  shows "goto_inv (s\<lparr>gs_store := t, gs_pc := (gs_pc s)(i := Saving url key)\<rparr>)"
proof -
  let ?urls = "us_urls (gs_store s)"
  let ?s = "s\<lparr>gs_store := t, gs_pc := (gs_pc s)(i := Saving url key)\<rparr>"
  from inv have keys: "keys_ok ?urls" and pcs: "pcs_ok s" and sv: "saved_ok s"
    by (auto simp: goto_inv_def)
  from set have new: "map_of ?urls key = None" and t: "us_urls t = ?urls @ [(key, url)]"
    by (auto simp: us_Set_def split: if_splits)
  from pcs pc obtain m where m: "m \<le> length ?urls" "key = key_of m" unfolding pcs_ok_def by blast
  have "length ?urls \<le> m" using new m keys_ok_lookup [OF keys bound, of m] bound by simp
  with m have key: "key = key_of (length ?urls)" by simp
  have fresh: "key \<notin> fst ` set ?urls" using new by (simp add: map_of_eq_None_iff)
  have own: "fst r \<noteq> key" if "owned (gs_pc s j) = Some r" for j r
    using pcs that fresh unfolding pcs_ok_def by (metis image_eqI)
  have no_save: "gs_pc s j = Saving u k \<Longrightarrow> j \<noteq> i" for j u k using pc by auto
  have "keys_ok (us_urls t)" using keys_ok_snoc [OF keys] key t by simp
  moreover have "pcs_ok ?s"
    unfolding pcs_ok_def
  proof (intro conjI allI impI)
    fix j u k assume "gs_pc ?s j = Setting u k"
    then have "gs_pc s j = Setting u k" by (simp split: if_splits)
    with pcs obtain l where "l \<le> length ?urls" "k = key_of l" unfolding pcs_ok_def by blast
    with t show "\<exists>l \<le> length (us_urls (gs_store ?s)). k = key_of l"
      by (intro exI [of _ l]) simp
  next
    fix j r assume j: "owned (gs_pc ?s j) = Some r"
    have "owned (gs_pc s j) = Some r \<Longrightarrow> r \<in> set ?urls" using pcs unfolding pcs_ok_def by blast
    with j t show "r \<in> set (us_urls (gs_store ?s))" by (auto split: if_splits)
  next
    fix j l r q
    assume a: "owned (gs_pc ?s j) = Some r \<and> owned (gs_pc ?s l) = Some q \<and> j \<noteq> l"
    have unequal: "owned (gs_pc s j) = Some r \<and> owned (gs_pc s l) = Some q \<Longrightarrow> fst r \<noteq> fst q"
      using pcs a unfolding pcs_ok_def by blast
    consider "j = i" | "l = i" | "j \<noteq> i \<and> l \<noteq> i" by blast
    then show "fst r \<noteq> fst q"
    proof cases
      case 1
      with a have "r = (key, url)" "owned (gs_pc s l) = Some q" by auto
      with own [of l q] show ?thesis by simp
    next
      case 2
      with a have "q = (key, url)" "owned (gs_pc s j) = Some r" by auto
      with own [of j r] show ?thesis by simp
    next
      case 3
      with a unequal show ?thesis by simp
    qed
  qed
  moreover have "saved_ok ?s"
    unfolding saved_ok_def
  proof (intro conjI allI impI)
    show "distinct (saved ?s)" using sv by (simp add: saved_ok_def)
  next
    fix r
    have pcs': "(\<exists>j. gs_pc ?s j = Saving (snd r) (fst r)) \<longleftrightarrow>
        (\<exists>j. gs_pc s j = Saving (snd r) (fst r)) \<or> r = (key, url)"
      using no_save by (cases r) auto
    have store': "r \<in> set (us_urls (gs_store ?s)) \<longleftrightarrow> r \<in> set ?urls \<or> r = (key, url)"
      using t by auto
    have "r \<in> set ?urls \<longleftrightarrow> r \<in> set (saved s) \<or> (\<exists>j. gs_pc s j = Saving (snd r) (fst r))"
      using sv unfolding saved_ok_def by blast
    then show "r \<in> set (us_urls (gs_store ?s)) \<longleftrightarrow>
        r \<in> set (saved ?s) \<or> (\<exists>j. gs_pc ?s j = Saving (snd r) (fst r))"
      unfolding pcs' store' saved_simps by blast
  next
    fix j u k assume "gs_pc ?s j = Saving u k"
    moreover have "(key, url) \<notin> set (saved s)" using sv fresh unfolding saved_ok_def by force
    ultimately show "(k, u) \<notin> set (saved ?s)"
      using sv unfolding saved_ok_def by (auto split: if_splits)
  qed
  ultimately show ?thesis by (simp add: goto_inv_def)
qed

lemma goto_inv_save:
  assumes inv: "goto_inv s" and pc: "gs_pc s i = Saving url key"
  shows "goto_inv (s\<lparr>gs_save := gs_save s @ [(key, url)], gs_pc := (gs_pc s)(i := Returned_key url key)\<rparr>)"
    (is "goto_inv ?s")
proof -
  from inv have keys: "keys_ok (us_urls (gs_store s))" and pcs: "pcs_ok s" and sv: "saved_ok s"
    by (auto simp: goto_inv_def)
  have sav: "saved ?s = saved s @ [(key, url)]" by (simp add: saved_def)
  have own: "owned (gs_pc ?s j) = owned (gs_pc s j)" for j using pc by simp
  have setting: "gs_pc ?s j = Setting u k \<Longrightarrow> gs_pc s j = Setting u k" for j u k by (simp split: if_splits)
  have other: "gs_pc ?s j = Saving u k \<longleftrightarrow> gs_pc s j = Saving u k \<and> j \<noteq> i" for j u k by simp
  have alone: "j = i" if "gs_pc s j = Saving url key" for j
  proof (rule ccontr)
    assume "j \<noteq> i"
    moreover have "owned (gs_pc s j) = Some (key, url)" "owned (gs_pc s i) = Some (key, url)"
      using that pc by simp_all
    ultimately show False using pcs unfolding pcs_ok_def by blast
  qed
  have st: "gs_store ?s = gs_store s" by simp
  have "pcs_ok ?s"
    unfolding pcs_ok_def own st using pcs setting unfolding pcs_ok_def by blast
  moreover have "saved_ok ?s"
    unfolding saved_ok_def sav other st
  proof (intro conjI allI impI)
    have "(key, url) \<notin> set (saved s)" "distinct (saved s)" using sv pc unfolding saved_ok_def by blast+
    then show "distinct (saved s @ [(key, url)])" by simp
  next
    fix r
    have "(\<exists>j. gs_pc s j = Saving (snd r) (fst r)) \<longleftrightarrow>
        (\<exists>j. gs_pc s j = Saving (snd r) (fst r) \<and> j \<noteq> i) \<or> r = (key, url)"
      using pc by (cases r) auto
    moreover have "r \<in> set (us_urls (gs_store s)) \<longleftrightarrow>
        r \<in> set (saved s) \<or> (\<exists>j. gs_pc s j = Saving (snd r) (fst r))"
      using sv unfolding saved_ok_def by blast
    ultimately show "r \<in> set (us_urls (gs_store s)) \<longleftrightarrow>
        r \<in> set (saved s @ [(key, url)]) \<or> (\<exists>j. gs_pc s j = Saving (snd r) (fst r) \<and> j \<noteq> i)"
      by auto
  next
    fix j u k assume j: "gs_pc s j = Saving u k \<and> j \<noteq> i"
    then have "(k, u) \<notin> set (saved s)" using sv unfolding saved_ok_def by blast
    moreover have "(k, u) \<noteq> (key, url)" using j alone by blast
    ultimately show "(k, u) \<notin> set (saved s @ [(key, url)])" by simp
  qed
  ultimately show ?thesis using keys by (simp add: goto_inv_def)
qed

lemma goto_inv_saved:
  assumes "goto_inv s" "saved t = saved s" "gs_store t = gs_store s" "gs_pc t = gs_pc s"
  shows "goto_inv t"
proof -
  have "pcs_ok t = pcs_ok s" "saved_ok t = saved_ok s"
    by (simp_all only: pcs_ok_def saved_ok_def assms)
  with assms show ?thesis by (simp add: goto_inv_def)
qed

lemma goto_inv_step:
  assumes step: "goto_step s t" and inv: "goto_inv s"
    and bound: "length (us_urls (gs_store s)) < 2 ^ 63"
  shows "goto_inv t"
  using step
proof cases
  case (call_put i url)
  with inv show ?thesis by (auto intro: goto_inv_move)
next
  case (count i url key)
  have "key = key_of (length (us_urls (gs_store s)))"
    using count(3) by (simp add: us_Count_def key_of_def)
  with count inv show ?thesis by (auto intro: goto_inv_move)
next
  case (set_ok i url key u)
  with goto_inv_set [OF inv set_ok(2,3) bound] show ?thesis by simp
next
  case (set_again i url key u e)
  then have "u = gs_store s" by (auto simp: us_Set_def split: if_splits)
  with set_again goto_inv_move [OF inv, of i "Counting url"] show ?thesis by simp
next
  case (save i url key)
  with goto_inv_save [OF inv save(2)] show ?thesis by simp
next
  case (encode r rs)
  with inv show ?thesis by (auto intro!: goto_inv_saved [OF inv] simp: saved_def)
next
  case (flush n)
  have "saved t = gs_file s @ (take n (gs_buffer s) @ drop n (gs_buffer s)) @ gs_save s"
    using flush by (simp add: saved_def)
  with flush show ?thesis by (auto intro!: goto_inv_saved [OF inv] simp: saved_def)
qed

lemma goto_step_grows: "goto_step s t \<Longrightarrow> length (us_urls (gs_store s)) \<le> length (us_urls (gs_store t))"
  by (induction rule: goto_step.induct) (auto simp: us_Set_def split: if_splits)

lemma goto_inv_init: "goto_inv goto_init"
  by (simp add: goto_inv_def goto_init_def keys_ok_def us_new_def pcs_ok_def saved_ok_def saved_def)

lemma goto_reachable_inv:
  "goto_reachable s \<Longrightarrow> length (us_urls (gs_store s)) < 2 ^ 63 \<Longrightarrow> goto_inv s"
proof (induction rule: goto_reachable.induct)
  case start
  show ?case by (rule goto_inv_init)
next
  case (step s t)
  from goto_step_grows [OF step.hyps(2)] step.prems have b: "length (us_urls (gs_store s)) < 2 ^ 63"
    by simp
  show ?case by (rule goto_inv_step [OF step.hyps(2) step.IH [OF b] b])
qed

section \<open>Saving and loading\<close>

lemma us_load_fresh:
  "distinct (map fst rs) \<Longrightarrow> fst ` set rs \<inter> fst ` set (us_urls s) = {} \<Longrightarrow>
   us_urls (us_load rs s) = us_urls s @ rs"
proof (induction rs arbitrary: s)
  case Nil
  then show ?case by (simp add: us_load_def)
next
  case (Cons r rs)
  obtain k u where r: "r = (k, u)" by (cases r)
  from Cons.prems r have "map_of (us_urls s) k = None" by (auto simp: map_of_eq_None_iff)
  then have set: "fst (us_Set k u s) = s\<lparr>us_urls := us_urls s @ [(k, u)]\<rparr>" by (simp add: us_Set_def)
  have "us_load (r # rs) s = us_load rs (s\<lparr>us_urls := us_urls s @ [(k, u)]\<rparr>)"
    by (simp add: us_load_def r set)
  with Cons.IH [of "s\<lparr>us_urls := us_urls s @ [(k, u)]\<rparr>"] Cons.prems r show ?case by auto
qed

lemma saved_distinct_keys:
  assumes "goto_inv s" "length (us_urls (gs_store s)) < 2 ^ 63"
  shows "distinct (map fst (saved s))"
proof -
  have "keys_ok (us_urls (gs_store s))" "saved_ok s" using assms(1) by (auto simp: goto_inv_def)
  then have "distinct (saved s)" "set (saved s) \<subseteq> set (us_urls (gs_store s))"
    and "inj_on fst (set (us_urls (gs_store s)))"
    using keys_ok_distinct [OF _ assms(2)] unfolding saved_ok_def by (auto simp: distinct_map)
  then show ?thesis by (auto simp: distinct_map intro: inj_on_subset)
qed

text \<open>Nothing is under way: every record is on file.\<close>

definition quiet :: "goto_state \<Rightarrow> bool" where
  "quiet s \<longleftrightarrow> gs_save s = [] \<and> gs_buffer s = [] \<and> (\<forall>i url key. gs_pc s i \<noteq> Saving url key)"

lemma quiet_file:
  assumes "goto_inv s" "length (us_urls (gs_store s)) < 2 ^ 63" "quiet s"
  shows "set (gs_file s) = set (us_urls (gs_store s))" "distinct (map fst (gs_file s))"
proof -
  have sv: "saved_ok s" using assms(1) by (simp add: goto_inv_def)
  have "saved s = gs_file s" using assms(3) by (simp add: saved_def quiet_def)
  moreover have "r \<in> set (us_urls (gs_store s)) \<longleftrightarrow> r \<in> set (saved s)" for r
    using sv assms(3) unfolding saved_ok_def quiet_def by blast
  ultimately show "set (gs_file s) = set (us_urls (gs_store s))" by auto
  show "distinct (map fst (gs_file s))"
    using saved_distinct_keys [OF assms(1,2)] \<open>saved s = gs_file s\<close> by simp
qed

lemma map_of_same_entries:
  assumes "set xs = set ys" "distinct (map fst xs)" "distinct (map fst ys)"
  shows "map_of xs = map_of ys"
proof
  fix k show "map_of xs k = map_of ys k"
  proof (cases "map_of xs k")
    case None
    then have "k \<notin> fst ` set ys" using assms(1) by (simp add: map_of_eq_None_iff)
    with None show ?thesis by (simp add: map_of_eq_None_iff [THEN iffD2])
  next
    case (Some v)
    then have "(k, v) \<in> set ys" using assms(1) by (auto dest: map_of_SomeD)
    with Some assms(3) show ?thesis by simp
  qed
qed

section \<open>The proxy store\<close>

text \<open>
  \<open>px_client\<close> is false when the dialling failed; the store is made nevertheless and the first
  call through the nil client panics.  The master is any store that answers the two calls.
\<close>

record ProxyStore =
  px_urls :: URLStore
  px_client :: bool

definition px_new :: "bool \<Rightarrow> ProxyStore" where
  "px_new dialled = \<lparr>px_urls = us_new, px_client = dialled\<rparr>"

definition px_Get ::
  "delivery \<Rightarrow> string \<Rightarrow> ProxyStore \<times> URLStore \<Rightarrow> ((ProxyStore \<times> URLStore) \<times> string result) go" where
  "px_Get d key s =
     (let (px, master) = s in
      case us_Get key (px_urls px) of
        Inr u \<Rightarrow> Some ((px, master), Inr u)
      | Inl _ \<Rightarrow>
          if \<not> px_client px then None
          else (case rpc d (\<lambda>m. (m, us_Get key m)) master of
              (m, None) \<Rightarrow> Some ((px, m), Inl ''rpc'')
            | (m, Some (Inl e)) \<Rightarrow> Some ((px, m), Inl e)
            | (m, Some (Inr u)) \<Rightarrow>
                Some ((px\<lparr>px_urls := fst (us_Set key u (px_urls px))\<rparr>, m), Inr u)))"

definition px_Put ::
  "delivery \<Rightarrow> string \<Rightarrow> ProxyStore \<times> URLStore \<Rightarrow>
   ((ProxyStore \<times> URLStore) \<times> string result) go option" where
  "px_Put d url s =
     (let (px, master) = s in
      if \<not> px_client px then Some None
      else if d = RequestLost then Some (Some ((px, master), Inl ''rpc''))
      else map_option (map_option (\<lambda>(m, key).
             if d = Delivered
             then ((px\<lparr>px_urls := fst (us_Set key url (px_urls px))\<rparr>, m), Inr key)
             else ((px, m), Inl ''rpc''))) (put_loop url master))"

text \<open>What the proxy remembers is what the master says.\<close>

definition coherent :: "ProxyStore \<times> URLStore \<Rightarrow> bool" where
  "coherent s \<longleftrightarrow> map_of (us_urls (px_urls (fst s))) \<subseteq>\<^sub>m map_of (us_urls (snd s))"

lemma map_of_Set:
  "map_of (us_urls (fst (us_Set key url s))) =
     (if map_of (us_urls s) key = None then (map_of (us_urls s))(key \<mapsto> url) else map_of (us_urls s))"
  by (auto simp: us_Set_def map_add_def fun_eq_iff split: option.splits)

lemma coherent_cache:
  "coherent (px, m) \<Longrightarrow> map_of (us_urls m) key = Some u \<Longrightarrow>
   coherent (px\<lparr>px_urls := fst (us_Set key u (px_urls px))\<rparr>, m)"
  by (auto simp: coherent_def map_of_Set map_le_def split: if_splits)

lemma us_Get_Inr: "us_Get key s = Inr u \<longleftrightarrow> map_of (us_urls s) key = Some u"
  by (auto simp: us_Get_def split: option.splits)

lemma px_Get_coherent:
  assumes "coherent s" "px_client (fst s)"
  shows "\<exists>s' r. px_Get d key s = Some (s', r) \<and> coherent s' \<and> snd s' = snd s \<and> px_client (fst s') \<and>
    (d = Delivered \<longrightarrow> r = us_Get key (snd s)) \<and>
    (\<forall>u. r = Inr u \<longrightarrow> us_Get key (snd s) = Inr u)"
proof -
  obtain px m where s: "s = (px, m)" by (cases s)
  have hit: "us_Get key m = Inr u" if "us_Get key (px_urls px) = Inr u" for u
    using assms(1) that s unfolding coherent_def us_Get_Inr map_le_def
    by (metis domI fst_conv snd_conv)
  show ?thesis
  proof (cases "us_Get key (px_urls px)")
    case (Inr u)
    with hit [of u] assms s show ?thesis by (simp add: px_Get_def)
  next
    case (Inl e)
    show ?thesis
    proof (cases "us_Get key m")
      case (Inr u)
      then have "map_of (us_urls m) key = Some u" by (simp add: us_Get_Inr)
      from coherent_cache [OF _ this, of px] Inl Inr assms s show ?thesis
        by (cases d) (simp_all add: px_Get_def)
    next
      case (Inl e')
      with \<open>us_Get key (px_urls px) = Inl e\<close> assms s show ?thesis
        by (cases d) (simp_all add: px_Get_def)
    qed
  qed
qed

section \<open>The handlers\<close>

text \<open>
  The responses a handler writes.  \<open>r.URL.Path[1:]\<close> panics on an empty path.  The handlers use the
  \<open>Store\<close> interface; here its operations are arguments.
\<close>

datatype response = NotFound | InternalServerError string | RedirectTo string | AddForm | Page string

definition Redirect :: "(string \<Rightarrow> string result) \<Rightarrow> string \<Rightarrow> response go" where
  "Redirect get path =
     (case path of
        [] \<Rightarrow> None
      | c # key \<Rightarrow>
          if key = '''' then Some NotFound
          else (case get key of
              Inl e \<Rightarrow> Some (InternalServerError e)
            | Inr url \<Rightarrow> Some (RedirectTo url)))"

definition Add ::
  "(string \<Rightarrow> 's \<Rightarrow> ('s \<times> string result) go option) \<Rightarrow> string \<Rightarrow> string \<Rightarrow> 's \<Rightarrow>
   ('s \<times> response) go option" where
  "Add put hostname url s =
     (if url = '''' then Some (Some (s, AddForm))
      else map_option (map_option (\<lambda>(s1, r). (s1, case r of
             Inl e \<Rightarrow> InternalServerError e
           | Inr key \<Rightarrow> Page (''http://'' @ hostname @ ''/'' @ key)))) (put url s))"

text \<open>\<open>URLStore\<close> as a \<open>Store\<close>: its \<open>Put\<close> returns no error.\<close>

definition us_Put :: "string \<Rightarrow> URLStore \<Rightarrow> (URLStore \<times> string result) go option" where
  "us_Put url s = map_option (map_option (\<lambda>(s1, key). (s1, Inr key))) (put_loop url s)"

section \<open>Properties\<close>

text \<open>A run with one \<open>Put\<close>, finished, encoded and flushed.\<close>

definition one_put :: goto_state where
  "one_put =
     \<lparr>gs_store = \<lparr>us_urls = [(''0'', ''u'')]\<rparr>, gs_save = [], gs_buffer = [], gs_file = [(''0'', ''u'')],
      gs_pc = (\<lambda>_. NotStarted)(0 := Returned_key ''u'' ''0'')\<rparr>"

lemma first_keys: "genKey 0 = Some ''0''" "genKey 1 = Some ''1''" "key_of 0 = ''0''" "key_of 1 = ''1''"
  by (simp_all add: genKey_def genKey_loop.simps keyChar_def key_of_def)

lemma goto_reachable_upd:
  "goto_reachable s \<Longrightarrow> goto_step s t' \<Longrightarrow> t' = t \<Longrightarrow> goto_reachable t"
  using goto_reachable.step by blast

lemma one_put_reachable: "goto_reachable one_put"
proof -
  let ?c = "goto_init\<lparr>gs_pc := (\<lambda>_. NotStarted)(0 := Counting ''u'')\<rparr>"
  let ?d = "goto_init\<lparr>gs_pc := (\<lambda>_. NotStarted)(0 := Setting ''u'' ''0'')\<rparr>"
  let ?e = "goto_init\<lparr>gs_store := \<lparr>us_urls = [(''0'', ''u'')]\<rparr>, gs_pc := (\<lambda>_. NotStarted)(0 := Saving ''u'' ''0'')\<rparr>"
  let ?f = "?e\<lparr>gs_save := [(''0'', ''u'')], gs_pc := (\<lambda>_. NotStarted)(0 := Returned_key ''u'' ''0'')\<rparr>"
  let ?g = "?f\<lparr>gs_save := [], gs_buffer := [(''0'', ''u'')]\<rparr>"
  note defs = goto_init_def us_new_def us_Count_def us_Set_def first_keys saveQueueLength_def one_put_def
  have "goto_reachable ?c"
    by (rule goto_reachable_upd [OF goto_reachable.start goto_step.call_put [of _ 0 "''u''"]])
       (simp_all add: defs)
  then have "goto_reachable ?d"
    by (rule goto_reachable_upd [OF _ goto_step.count [of _ 0 "''u''" "''0''"]]) (simp_all add: defs)
  then have "goto_reachable ?e"
    by (rule goto_reachable_upd [OF _ goto_step.set_ok [of _ 0 "''u''" "''0''" "\<lparr>us_urls = [(''0'', ''u'')]\<rparr>"]])
       (simp_all add: defs)
  then have "goto_reachable ?f"
    by (rule goto_reachable_upd [OF _ goto_step.save [of _ 0 "''u''" "''0''"]]) (simp_all add: defs)
  then have "goto_reachable ?g"
    by (rule goto_reachable_upd [OF _ goto_step.encode [of _ "(''0'', ''u'')" "[]"]]) (simp_all add: defs)
  then show ?thesis
    by (rule goto_reachable_upd [OF _ goto_step.flush [of _ 1]]) (simp_all add: defs)
qed

text \<open>
  C8: However many \<open>Put\<close>s run at once, each gets a key of its own: the key a \<open>Put\<close> returned maps
  to the URL it was given, and no other \<open>Put\<close> returned it.
\<close>

theorem puts_get_own_keys:
  assumes "goto_reachable s" and "length (us_urls (gs_store s)) < 2 ^ 63"
    and "gs_pc s i = Returned_key url key"
  shows "us_Get key (gs_store s) = Inr url \<and>
    (\<forall>j url' key'. j \<noteq> i \<and> gs_pc s j = Returned_key url' key' \<longrightarrow> key' \<noteq> key)"
proof -
  from goto_reachable_inv [OF assms(1,2)] have keys: "keys_ok (us_urls (gs_store s))" and pcs: "pcs_ok s"
    by (auto simp: goto_inv_def)
  have own: "owned (gs_pc s i) = Some (key, url)" using assms(3) by simp
  with pcs have "(key, url) \<in> set (us_urls (gs_store s))" unfolding pcs_ok_def by blast
  moreover have "key' \<noteq> key" if "j \<noteq> i" "gs_pc s j = Returned_key url' key'" for j url' key'
  proof -
    have "owned (gs_pc s j) = Some (key', url')" using that(2) by simp
    with own pcs that(1) show ?thesis unfolding pcs_ok_def by (metis fst_conv)
  qed
  ultimately show ?thesis using keys_ok_map_of [OF keys assms(2), of key url] unfolding us_Get_Inr by blast
qed

theorem puts_get_own_keys_witness:
  "us_Get ''0'' (gs_store one_put) = Inr ''u''"
  using puts_get_own_keys [OF one_put_reachable, of 0 "''u''" "''0''"] by (simp add: one_put_def)

text \<open>
  A \<open>Put\<close> that meets no concurrent one returns: after any history of concurrent \<open>Put\<close>s it
  ends on its first attempt with the next key, stores the URL under it and changes no other
  entry.
\<close>

lemma put_returns:
  assumes "goto_reachable s" and "length (us_urls (gs_store s)) < 2 ^ 63"
  shows "\<exists>t key. put_loop url (gs_store s) = Some (Some (t, key)) \<and>
    genKey (us_Count (gs_store s)) = Some key \<and> us_Get key (gs_store s) = Inl ''key not found'' \<and>
    map_of (us_urls t) = (map_of (us_urls (gs_store s)))(key \<mapsto> url)"
proof -
  let ?urls = "us_urls (gs_store s)"
  from goto_reachable_inv [OF assms] have keys: "keys_ok ?urls" by (simp add: goto_inv_def)
  have new: "map_of ?urls (key_of (length ?urls)) = None"
    using keys_ok_lookup [OF keys assms(2,2)] by simp
  then have "map_of (?urls @ [(key_of (length ?urls), url)]) = (map_of ?urls)(key_of (length ?urls) \<mapsto> url)"
    by (auto simp: map_add_def fun_eq_iff split: option.splits)
  with put_loop_alone [OF keys assms(2)] key_of_genKey [OF assms(2)] new show ?thesis
    by (simp add: us_Count_def us_Get_def)
qed

lemma put_returns_witness:
  "\<exists>t. put_loop ''v'' (gs_store one_put) = Some (Some (t, ''1''))"
  using put_returns [OF one_put_reachable, of "''v''"] first_keys by (auto simp: one_put_def us_Count_def)

text \<open>
  C25: The data file restores the store: whenever no \<open>Put\<close> is saving and the queue and the
  writer's buffer are empty, loading the file into a new store gives every key the URL it has in
  the running one, and a \<open>Put\<close> on the restarted server finds the same next key.
\<close>

theorem load_restores:
  assumes "goto_reachable s" and "length (us_urls (gs_store s)) < 2 ^ 63" and "quiet s"
  shows "us_Get key (us_load (gs_file s) us_new) = us_Get key (gs_store s) \<and>
    us_Count (us_load (gs_file s) us_new) = us_Count (gs_store s)"
proof -
  have inv: "goto_inv s" by (rule goto_reachable_inv [OF assms(1,2)])
  note on_file = quiet_file [OF inv assms(2,3)]
  have keys: "distinct (map fst (us_urls (gs_store s)))"
    using inv keys_ok_distinct assms(2) by (simp add: goto_inv_def)
  have load: "us_urls (us_load (gs_file s) us_new) = gs_file s"
    using us_load_fresh [OF on_file(2), of us_new] by (simp add: us_new_def)
  moreover have "length (gs_file s) = length (us_urls (gs_store s))"
    using on_file keys by (metis distinct_card length_map set_map)
  ultimately show ?thesis
    using map_of_same_entries [OF on_file keys] by (simp add: us_Get_def us_Count_def)
qed

theorem load_restores_witness:
  "us_Get ''0'' (us_load (gs_file one_put) us_new) = Inr ''u''"
proof -
  have "quiet one_put" by (simp add: quiet_def one_put_def)
  from load_restores [OF one_put_reachable _ this, of "''0''"] show ?thesis
    by (simp add: one_put_def us_Get_def)
qed

text \<open>
  C39: A restart after a crash can leave a store on which every \<open>Put\<close> loops for ever: two
  concurrent \<open>Put\<close>s may reach the file in the other order, and if only the second one did before
  the crash, the reloaded store has one entry under the key \<open>1\<close>, which is the key \<open>Put\<close> tries.
\<close>

theorem crash_gap_put_hangs:
  "\<exists>s. goto_reachable s \<and> gs_file s = [(''1'', ''v'')] \<and>
     (\<forall>url. put_loop url (us_load (gs_file s) us_new) = None)"
proof -
  let ?pc = "\<lambda>p q. (\<lambda>_. NotStarted)(0 := p, 1 := q)"
  let ?a = "goto_init\<lparr>gs_pc := (\<lambda>_. NotStarted)(0 := Counting ''u'')\<rparr>"
  let ?b = "goto_init\<lparr>gs_pc := (\<lambda>_. NotStarted)(0 := Setting ''u'' ''0'')\<rparr>"
  let ?s0 = "\<lparr>us_urls = [(''0'', ''u'')]\<rparr>"
  let ?s1 = "\<lparr>us_urls = [(''0'', ''u''), (''1'', ''v'')]\<rparr>"
  let ?c = "goto_init\<lparr>gs_store := ?s0, gs_pc := (\<lambda>_. NotStarted)(0 := Saving ''u'' ''0'')\<rparr>"
  let ?d = "?c\<lparr>gs_pc := ?pc (Saving ''u'' ''0'') (Counting ''v'')\<rparr>"
  let ?e = "?c\<lparr>gs_pc := ?pc (Saving ''u'' ''0'') (Setting ''v'' ''1'')\<rparr>"
  let ?f = "?c\<lparr>gs_store := ?s1, gs_pc := ?pc (Saving ''u'' ''0'') (Saving ''v'' ''1'')\<rparr>"
  let ?g = "?f\<lparr>gs_save := [(''1'', ''v'')], gs_pc := ?pc (Saving ''u'' ''0'') (Returned_key ''v'' ''1'')\<rparr>"
  let ?h = "?g\<lparr>gs_save := [], gs_buffer := [(''1'', ''v'')]\<rparr>"
  let ?i = "?h\<lparr>gs_file := [(''1'', ''v'')], gs_buffer := []\<rparr>"
  note defs = goto_init_def us_new_def us_Count_def us_Set_def first_keys saveQueueLength_def
  have "goto_reachable ?a"
    by (rule goto_reachable_upd [OF goto_reachable.start goto_step.call_put [of _ 0 "''u''"]])
       (simp_all add: defs)
  then have "goto_reachable ?b"
    by (rule goto_reachable_upd [OF _ goto_step.count [of _ 0 "''u''" "''0''"]]) (simp_all add: defs)
  then have "goto_reachable ?c"
    by (rule goto_reachable_upd [OF _ goto_step.set_ok [of _ 0 "''u''" "''0''" ?s0]]) (simp_all add: defs)
  then have "goto_reachable ?d"
    by (rule goto_reachable_upd [OF _ goto_step.call_put [of _ 1 "''v''"]]) (simp_all add: defs)
  then have "goto_reachable ?e"
    by (rule goto_reachable_upd [OF _ goto_step.count [of _ 1 "''v''" "''1''"]]) (simp_all add: defs)
  then have "goto_reachable ?f"
    by (rule goto_reachable_upd [OF _ goto_step.set_ok [of _ 1 "''v''" "''1''" ?s1]]) (simp_all add: defs)
  then have "goto_reachable ?g"
    by (rule goto_reachable_upd [OF _ goto_step.save [of _ 1 "''v''" "''1''"]]) (simp_all add: defs)
  then have "goto_reachable ?h"
    by (rule goto_reachable_upd [OF _ goto_step.encode [of _ "(''1'', ''v'')" "[]"]]) (simp_all add: defs)
  then have "goto_reachable ?i"
    by (rule goto_reachable_upd [OF _ goto_step.flush [of _ 1]]) (simp_all add: defs)
  moreover have "put_loop url (us_load [(''1'', ''v'')] us_new) = None" for url
    by (rule put_loop_diverges [of _ "''1''"]) (simp_all add: us_load_def defs)
  ultimately show ?thesis by (intro exI [of _ ?i]) simp
qed

text \<open>
  The proxy is transparent: with a cache that agrees with the master (as the empty one does)
  and a client that was dialled, \<open>Get\<close> never panics, keeps the cache in agreement, returns only
  URLs the master has for the key, and returns exactly the master's answer when its call gets
  through.
\<close>

lemma proxy_transparent:
  assumes "coherent s" and "px_client (fst s)"
  shows "\<exists>s' r. px_Get d key s = Some (s', r) \<and> coherent s' \<and> snd s' = snd s \<and>
    (d = Delivered \<longrightarrow> r = us_Get key (snd s)) \<and>
    (\<forall>u. r = Inr u \<longrightarrow> us_Get key (snd s) = Inr u)"
  using px_Get_coherent [OF assms] by blast

lemma proxy_transparent_witness:
  "\<exists>s'. px_Get Delivered ''0'' (px_new True, gs_store one_put) = Some (s', Inr ''u'') \<and> coherent s'"
proof -
  have "coherent (px_new True, gs_store one_put)" "px_client (fst (px_new True, gs_store one_put))"
    by (simp_all add: coherent_def px_new_def us_new_def)
  from proxy_transparent [OF this, of Delivered "''0''"] show ?thesis
    by (auto simp: one_put_def us_Get_def)
qed

text \<open>
  Shorten, then follow: on a store reached by any concurrent history, adding a nonempty URL
  answers with the page \<open>http://<host>/<key>\<close>, and a request for the path of that key is
  redirected to the URL.
\<close>

lemma add_then_redirect:
  assumes "goto_reachable s" and "length (us_urls (gs_store s)) < 2 ^ 63" and "url \<noteq> ''''"
  shows "\<exists>t key. Add us_Put host url (gs_store s) =
      Some (Some (t, Page (''http://'' @ host @ ''/'' @ key))) \<and>
    Redirect (\<lambda>k. us_Get k t) (CHR ''/'' # key) = Some (RedirectTo url)"
proof -
  let ?n = "length (us_urls (gs_store s))"
  from goto_reachable_inv [OF assms(1,2)] have keys: "keys_ok (us_urls (gs_store s))"
    by (simp add: goto_inv_def)
  have "map_of (us_urls (gs_store s)) (key_of ?n) = None"
    using keys_ok_lookup [OF keys assms(2,2)] by simp
  then have "map_of (us_urls (gs_store s) @ [(key_of ?n, url)]) (key_of ?n) = Some url"
    by (simp add: map_add_def)
  moreover have "key_of ?n \<noteq> ''''" using genKey_ok [of "int ?n"] assms(2) by (auto simp: key_of_def)
  ultimately show ?thesis
    using assms(3) put_loop_alone [OF keys assms(2), of url]
    by (simp add: Add_def us_Put_def Redirect_def us_Get_def)
qed

lemma add_then_redirect_witness:
  "\<exists>t key. Add us_Put ''h'' ''v'' (gs_store one_put) = Some (Some (t, Page (''http://h/'' @ key))) \<and>
     Redirect (\<lambda>k. us_Get k t) (CHR ''/'' # key) = Some (RedirectTo ''v'')"
  using add_then_redirect [OF one_put_reachable, of "''v''" "''h''"] by (simp add: one_put_def)

end
