(* ===== verification/Storage.thy ===== *)
theory Storage
  imports Prelude
begin

text \<open>
  The storage server of \<open>15-440/P2-F11\<close>: \<open>storageproto\<close> and \<open>storageimpl\<close>.

  \<^item> The bytes kept per key are JSON texts of a string or of a list of strings; \<open>doc\<close> is the value
    such a text denotes.  Decoding a text of the other kind fails, and the code ignores that
    error and goes on with the zero value.
  \<^item> Handlers take the clock as an argument.  A mutation first revokes the leases on its key; what
    the holders answer is the argument \<open>answers\<close>, and the result says when the revocation was
    over and which holders have executed the call.
  \<^item> Each handler is one step here; \<open>StorageThreads\<close> has the handlers as goroutines that interleave,
    and says when they are as good as these.
\<close>

section \<open>Protocol\<close>

datatype status_code =
  OK | EKEYNOTFOUND | EITEMNOTFOUND | EWRONGSERVER | EPUTFAILED | EITEMEXISTS

definition QUERY_CACHE_SECONDS :: int where "QUERY_CACHE_SECONDS = 10"
definition QUERY_CACHE_THRESH :: nat where "QUERY_CACHE_THRESH = 3"
definition LEASE_SECONDS :: int where "LEASE_SECONDS = 10"
definition LEASE_GUARD_SECONDS :: int where "LEASE_GUARD_SECONDS = 2"

lemmas lease_defs = LEASE_SECONDS_def LEASE_GUARD_SECONDS_def

record LeaseStruct =
  Granted :: bool
  ValidSeconds :: int

definition no_lease :: LeaseStruct where
  "no_lease = \<lparr>Granted = False, ValidSeconds = 0\<rparr>"

record Node =
  HostPort :: string
  NodeID :: u32

datatype doc = JStr string | JArr "string list"

fun doc_string :: "doc \<Rightarrow> string" where
  "doc_string (JStr s) = s"
| "doc_string (JArr l) = ''''"

fun doc_list :: "doc option \<Rightarrow> string list" where
  "doc_list (Some (JArr l)) = l"
| "doc_list _ = []"

section \<open>State\<close>

record holder =
  h_address :: string
  h_issueTime :: time

record leaseEntry =
  le_pending :: bool
  le_holders :: "holder list"

record StorageServer =
  ss_ismaster :: bool
  ss_numnodes :: int
  ss_nodes :: "Node list"
  ss_hashmap :: "string \<rightharpoonup> doc"
  ss_leasePool :: "string \<rightharpoonup> leaseEntry"

definition NewStorageserver :: "bool \<Rightarrow> int \<Rightarrow> Node \<Rightarrow> StorageServer" where
  "NewStorageserver ismaster numnodes self =
     \<lparr>ss_ismaster = ismaster, ss_numnodes = (if ismaster then numnodes else 0),
      ss_nodes = (if ismaster then [self] else []),
      ss_hashmap = Map.empty, ss_leasePool = Map.empty\<rparr>"

section \<open>Leases\<close>

text \<open>
  A client that is found among the holders keeps its entry as it is: \<open>h.issueTime = time.Now()\<close>
  assigns to the loop's copy of the holder.
\<close>

definition addLeasePool :: "time \<Rightarrow> string \<Rightarrow> string \<Rightarrow> StorageServer \<Rightarrow> StorageServer \<times> LeaseStruct" where
  "addLeasePool now key client ss =
     (let lease = \<lparr>Granted = True, ValidSeconds = LEASE_SECONDS\<rparr> in
      case ss_leasePool ss key of
        Some e \<Rightarrow>
          if le_pending e then (ss, no_lease)
          else if \<exists>h \<in> set (le_holders e). h_address h = client then (ss, lease)
          else (ss\<lparr>ss_leasePool := (ss_leasePool ss)(key \<mapsto>
                 e\<lparr>le_holders := le_holders e @ [\<lparr>h_address = client, h_issueTime = now\<rparr>]\<rparr>)\<rparr>, lease)
      | None \<Rightarrow>
          (ss\<lparr>ss_leasePool := (ss_leasePool ss)(key \<mapsto>
              \<lparr>le_pending = False, le_holders = [\<lparr>h_address = client, h_issueTime = now\<rparr>]\<rparr>)\<rparr>, lease))"

text \<open>
  What becomes of the call to one holder: the dialling fails, the call comes back with an error
  because nothing is registered there as \<open>CacheRPC\<close>, it is executed and answered, or no answer
  comes and the server waits for the whole lease and guard time (the call may have been executed
  all the same).  The error of the call is not looked at, so \<open>Refused\<close> is to the server what
  \<open>Answered\<close> is.  When the dialling fails, the deferred \<open>cli.Close()\<close> on the nil client panics.
\<close>

datatype revoke_answer = DialFails | Refused | Answered | Unanswered bool

definition lease_over :: "time \<Rightarrow> holder \<Rightarrow> bool" where
  "lease_over now h = (now - h_issueTime h > seconds (LEASE_SECONDS + LEASE_GUARD_SECONDS))"

fun revoke_holders ::
  "(string \<Rightarrow> revoke_answer) \<Rightarrow> time \<Rightarrow> holder list \<Rightarrow> (time \<times> string list) go" where
  "revoke_holders answers now [] = Some (now, [])"
| "revoke_holders answers now (h # hs) =
     (if lease_over now h then revoke_holders answers now hs
      else case answers (h_address h) of
          DialFails \<Rightarrow> None
        | Refused \<Rightarrow> revoke_holders answers now hs
        | Answered \<Rightarrow> do {
            (t, rs) \<leftarrow> revoke_holders answers now hs;
            Some (t, h_address h # rs) }
        | Unanswered executed \<Rightarrow> do {
            (t, rs) \<leftarrow> revoke_holders answers
                         (now + seconds (LEASE_SECONDS + LEASE_GUARD_SECONDS)) hs;
            Some (t, if executed then h_address h # rs else rs) })"

text \<open>\<open>pending\<close> is true during the loop; with handlers as single steps nobody sees it.\<close>

definition revokeLease ::
  "(string \<Rightarrow> revoke_answer) \<Rightarrow> time \<Rightarrow> string \<Rightarrow> StorageServer \<Rightarrow>
   (StorageServer \<times> time \<times> string list) go" where
  "revokeLease answers now key ss =
     (case ss_leasePool ss key of
        None \<Rightarrow> Some (ss, now, [])
      | Some e \<Rightarrow> do {
          (t, rs) \<leftarrow> revoke_holders answers now (le_holders e);
          Some (ss\<lparr>ss_leasePool := (ss_leasePool ss)(key \<mapsto> e\<lparr>le_pending := False\<rparr>)\<rparr>, t, rs) })"

section \<open>Handlers\<close>

record GetArgs =
  ga_Key :: string
  ga_WantLease :: bool
  ga_LeaseClient :: string

definition ss_Get ::
  "time \<Rightarrow> GetArgs \<Rightarrow> StorageServer \<Rightarrow> StorageServer \<times> status_code \<times> string \<times> LeaseStruct" where
  "ss_Get now args ss =
     (case ss_hashmap ss (ga_Key args) of
        None \<Rightarrow> (ss, EWRONGSERVER, '''', no_lease)
      | Some value \<Rightarrow>
          (let (ss1, lease) = (if ga_WantLease args
                 then addLeasePool now (ga_Key args) (ga_LeaseClient args) ss else (ss, no_lease))
           in (ss1, OK, doc_string value, lease)))"

definition ss_GetList ::
  "time \<Rightarrow> GetArgs \<Rightarrow> StorageServer \<Rightarrow> StorageServer \<times> status_code \<times> string list \<times> LeaseStruct" where
  "ss_GetList now args ss =
     (case ss_hashmap ss (ga_Key args) of
        None \<Rightarrow> (ss, EKEYNOTFOUND, [], no_lease)
      | Some value \<Rightarrow>
          (let (ss1, lease) = (if ga_WantLease args
                 then addLeasePool now (ga_Key args) (ga_LeaseClient args) ss else (ss, no_lease))
           in (ss1, OK, doc_list (Some value), lease)))"

text \<open>A mutation returns the new state, the time its revocation ended, the revoked holders, and the status.\<close>

type_synonym mutation = "(StorageServer \<times> time \<times> string list \<times> status_code) go"

definition ss_Put ::
  "(string \<Rightarrow> revoke_answer) \<Rightarrow> time \<Rightarrow> string \<Rightarrow> string \<Rightarrow> StorageServer \<Rightarrow> mutation" where
  "ss_Put answers now key value ss = do {
     (ss1, t, rs) \<leftarrow> revokeLease answers now key ss;
     Some (ss1\<lparr>ss_hashmap := (ss_hashmap ss1)(key \<mapsto> JStr value)\<rparr>, t, rs, OK) }"

definition ss_AppendToList ::
  "(string \<Rightarrow> revoke_answer) \<Rightarrow> time \<Rightarrow> string \<Rightarrow> string \<Rightarrow> StorageServer \<Rightarrow> mutation" where
  "ss_AppendToList answers now key value ss = do {
     (ss1, t, rs) \<leftarrow> revokeLease answers now key ss;
     let l = doc_list (ss_hashmap ss1 key);
     Some (if value \<in> set l then (ss1, t, rs, EITEMEXISTS)
           else (ss1\<lparr>ss_hashmap := (ss_hashmap ss1)(key \<mapsto> JArr (l @ [value]))\<rparr>, t, rs, OK)) }"

definition ss_RemoveFromList ::
  "(string \<Rightarrow> revoke_answer) \<Rightarrow> time \<Rightarrow> string \<Rightarrow> string \<Rightarrow> StorageServer \<Rightarrow> mutation" where
  "ss_RemoveFromList answers now key value ss =
     (case ss_hashmap ss key of
        None \<Rightarrow> Some (ss, now, [], EKEYNOTFOUND)
      | Some bytes \<Rightarrow> do {
          (ss1, t, rs) \<leftarrow> revokeLease answers now key ss;
          let l = doc_list (Some bytes);
          Some (if value \<in> set l
                then (ss1\<lparr>ss_hashmap := (ss_hashmap ss1)(key \<mapsto> JArr (remove1 value l))\<rparr>, t, rs, OK)
                else (ss1, t, rs, EITEMNOTFOUND)) })"

text \<open>
  \<open>nodes\<close> is a set in the code; the list keeps it without duplicates, in an order that the reply
  does not promise.
\<close>

definition ss_RegisterServer ::
  "Node \<Rightarrow> StorageServer \<Rightarrow> StorageServer \<times> (bool \<times> Node list) result" where
  "ss_RegisterServer node ss =
     (if \<not> ss_ismaster ss then (ss, Inl ''calling non-master node for register'')
      else
        (let ss1 = (if node \<in> set (ss_nodes ss) then ss
                    else ss\<lparr>ss_nodes := ss_nodes ss @ [node]\<rparr>)
         in (ss1, Inr (if ss_numnodes ss1 = int (length (ss_nodes ss1)) then (True, ss_nodes ss1)
                       else (False, [])))))"

definition ss_GetServers :: "StorageServer \<Rightarrow> (bool \<times> Node list) result" where
  "ss_GetServers ss =
     (if \<not> ss_ismaster ss then Inl ''calling non-master node for GetServers''
      else if ss_numnodes ss \<noteq> int (length (ss_nodes ss)) then Inr (False, [])
      else Inr (True, ss_nodes ss))"

section \<open>What revocation does\<close>

lemma revoke_holders_time: "revoke_holders answers now hs = Some (t, rs) \<Longrightarrow> now \<le> t"
proof (induction answers now hs arbitrary: t rs rule: revoke_holders.induct)
  case (2 answers now h hs)
  then show ?case
    by (fastforce simp: lease_defs split: if_splits revoke_answer.splits Option.bind_splits prod.splits)
qed simp

text \<open>
  After the loop every holder has either executed the revocation, or its issue time lies more
  than a lease and a guard in the past, or the server waited that long for it, provided that no
  holder refuses the call.
\<close>

definition serving :: "(string \<Rightarrow> revoke_answer) \<Rightarrow> bool" where
  "serving answers \<longleftrightarrow> (\<forall>h. answers h \<noteq> Refused)"

lemma revoke_holders_covers:
  assumes "revoke_holders answers now hs = Some (t, rs)" "h \<in> set hs" "serving answers"
  shows "h_address h \<in> set rs \<or> lease_over now h \<or>
    (\<exists>n \<ge> now. t \<ge> n + seconds (LEASE_SECONDS + LEASE_GUARD_SECONDS)) \<or> lease_over t h"
  using assms
proof (induction answers now hs arbitrary: t rs rule: revoke_holders.induct)
  case (2 answers now g hs)
  show ?case
  proof (cases "lease_over now g")
    case True
    with 2 show ?thesis by auto
  next
    case False
    show ?thesis
    proof (cases "answers (h_address g)")
      case DialFails
      with False "2.prems" show ?thesis by simp
    next
      case Refused
      with "2.prems"(3) show ?thesis by (simp add: serving_def)
    next
      case Answered
      with False "2.prems" obtain rs' where r: "revoke_holders answers now hs = Some (t, rs')"
          "rs = h_address g # rs'" by (auto split: Option.bind_splits)
      with "2.IH"(3) [OF False Answered r(1)] "2.prems"(2,3) show ?thesis by auto
    next
      case (Unanswered ex)
      let ?n = "now + seconds (LEASE_SECONDS + LEASE_GUARD_SECONDS)"
      from Unanswered False "2.prems" obtain rs' where r: "revoke_holders answers ?n hs = Some (t, rs')"
        by (auto split: Option.bind_splits)
      from revoke_holders_time [OF r] show ?thesis by blast
    qed
  qed
qed simp

end
