(* ===== verification/Cache.thy ===== *)
theory Cache
  imports Storage
begin

text \<open>
  The lease cache of a libstore client, \<open>15-440/P2-F11/cache\<close>, and the two methods of
  \<open>cacherpc\<close> that hand revocations to it.  A cached value is the string or the list of a \<open>doc\<close>.
  \<open>evict\<close> treats every entry by itself, so the order of its iteration does not matter and it is a
  function on maps.
\<close>

section \<open>Operations\<close>

record entry =
  en_granted :: bool
  en_ll :: "time list"
  en_val :: doc
  en_leaseTime :: time
  en_leaseDur :: time

type_synonym cache = "string \<rightharpoonup> entry"

definition NewCache :: cache where
  "NewCache = Map.empty"

definition new_entry :: entry where
  "new_entry = \<lparr>en_granted = False, en_ll = [], en_val = JStr '''', en_leaseTime = 0, en_leaseDur = 0\<rparr>"

definition clean :: "time \<Rightarrow> entry \<Rightarrow> entry" where
  "clean now e = e\<lparr>en_ll := dropWhile (\<lambda>t. now - t > seconds QUERY_CACHE_SECONDS) (en_ll e)\<rparr>"

definition expire :: "time \<Rightarrow> entry \<Rightarrow> entry" where
  "expire now e =
     (if en_granted e \<and> now - en_leaseTime e > en_leaseDur e then e\<lparr>en_granted := False\<rparr> else e)"

definition evict :: "time \<Rightarrow> cache \<Rightarrow> cache" where
  "evict now c = (\<lambda>k. case c k of
       None \<Rightarrow> None
     | Some e \<Rightarrow> (let e1 = clean now (expire now e) in if en_ll e1 = [] then None else Some e1))"

text \<open>\<open>Get\<close> returns the cached value, or whether a lease is to be asked for.\<close>

definition cache_Get :: "time \<Rightarrow> string \<Rightarrow> bool \<Rightarrow> cache \<Rightarrow> cache \<times> (bool + doc)" where
  "cache_Get now key want c =
     (let c1 = evict now c;
          e = (case c1 key of None \<Rightarrow> new_entry | Some e \<Rightarrow> e)
      in if en_granted e then (c1(key \<mapsto> e), Inr (en_val e))
         else
           (let e1 = e\<lparr>en_ll := en_ll e @ [now]\<rparr>
            in (c1(key \<mapsto> e1), Inl (want \<or> length (en_ll e1) > QUERY_CACHE_THRESH))))"

definition cache_Revoke :: "string \<Rightarrow> cache \<Rightarrow> cache \<times> bool" where
  "cache_Revoke key c =
     (case c key of
        None \<Rightarrow> (c, False)
      | Some e \<Rightarrow> (c(key \<mapsto> e\<lparr>en_granted := False\<rparr>), True))"

definition cache_Grant :: "time \<Rightarrow> string \<Rightarrow> doc \<Rightarrow> LeaseStruct \<Rightarrow> cache \<Rightarrow> cache go" where
  "cache_Grant now key val lease c = do {
     e \<leftarrow> c key;
     Some (c(key \<mapsto> e\<lparr>en_granted := True, en_val := val, en_leaseTime := now,
                      en_leaseDur := seconds (ValidSeconds lease)\<rparr>)) }"

text \<open>\<open>Libstore.RevokeLease\<close>, the callback to be registered as \<open>CacheRPC.RevokeLease\<close>.\<close>

definition RevokeLease :: "string \<Rightarrow> cache \<Rightarrow> cache \<times> status_code" where
  "RevokeLease key c = (let (c1, ok) = cache_Revoke key c in (c1, if ok then OK else EKEYNOTFOUND))"

section \<open>What an observer sees of a cache\<close>

text \<open>\<open>fresh now c k\<close>: the value a \<open>Get\<close> at time \<open>now\<close> would be answered with from the cache.\<close>

definition fresh :: "time \<Rightarrow> cache \<Rightarrow> string \<Rightarrow> doc option" where
  "fresh now c k =
     (case evict now c k of None \<Rightarrow> None | Some e \<Rightarrow> if en_granted e then Some (en_val e) else None)"

lemma evict_Some:
  "evict now c k = Some e \<Longrightarrow> \<exists>e0. c k = Some e0 \<and> e = clean now (expire now e0) \<and> en_ll e \<noteq> []"
  by (auto simp: evict_def split: option.splits if_splits)

lemma fresh_Some:
  assumes "fresh now c k = Some v"
  obtains e where "c k = Some e" "en_granted e" "en_val e = v" "now - en_leaseTime e \<le> en_leaseDur e"
proof -
  from assms obtain e where "evict now c k = Some e" "en_granted e" "en_val e = v"
    by (auto simp: fresh_def split: option.splits if_splits)
  with evict_Some [OF this(1)] show thesis
    by (auto simp: clean_def expire_def split: if_splits intro: that)
qed

lemma cache_Get_hit: "fresh now c k = Some v \<Longrightarrow> snd (cache_Get now k want c) = Inr v"
  by (auto simp: fresh_def cache_Get_def split: option.splits if_splits)

lemma cache_Get_Inr: "snd (cache_Get now k want c) = Inr v \<Longrightarrow> fresh now c k = Some v"
  by (auto simp: fresh_def cache_Get_def new_entry_def split: option.splits if_splits)

text \<open>After a missed \<open>Get\<close> the entry is there for the grant that may follow.\<close>

lemma cache_Get_entry: "fst (cache_Get now k want c) k \<noteq> None"
  by (simp add: cache_Get_def)

lemma cache_Grant_ok: "c k \<noteq> None \<Longrightarrow> cache_Grant now k v l c \<noteq> None"
  by (auto simp: cache_Grant_def)

text \<open>The counted queries are those of the last ten seconds, in order.\<close>

lemma cache_Get_counts:
  assumes "fresh now c k = None"
  shows "snd (cache_Get now k want c) =
    Inl (want \<or> length (case evict now c k of None \<Rightarrow> [] | Some e \<Rightarrow> en_ll e) \<ge> QUERY_CACHE_THRESH)"
  using assms
  by (auto simp: fresh_def cache_Get_def new_entry_def split: option.splits if_splits)

section \<open>The cache at one time\<close>

lemma evict_None: "c k = None \<Longrightarrow> evict now c k = None"
  by (simp add: evict_def)

lemma evict_upd:
  "evict now (c(k \<mapsto> e)) =
     (let e1 = clean now (expire now e)
      in if en_ll e1 = [] then (evict now c)(k := None) else (evict now c)(k \<mapsto> e1))"
  by (auto simp: evict_def fun_eq_iff)

lemma evict_empty [simp]: "evict now Map.empty = Map.empty"
  by (simp add: evict_def fun_eq_iff)

lemma expire_clean: "expire now (clean now (expire now e)) = clean now (expire now e)"
  by (auto simp: expire_def clean_def)

lemma clean_clean: "clean now (clean now e) = clean now e"
  by (cases e) (simp add: clean_def)

lemma evict_evict: "evict now (evict now c) = evict now c"
  by (auto simp: evict_def fun_eq_iff expire_clean clean_clean split: option.splits)

end
