(* ===== verification/Libstore.thy ===== *)
theory Libstore
  imports Cache
begin

text \<open>
  The client library of the storage system, \<open>15-440/P2-F11/libstore\<close>, together with the storage
  servers and the caches of all clients.

  \<^item> \<open>StoreHash\<close> is the 32-bit FNV-1 hash of Go's \<open>hash/fnv\<close>: multiply, then exclusive-or.
  \<^item> \<open>pickServer\<close> walks the nodes, sorted by id; an empty node list is an index panic.
  \<^item> A handler is one step.  An operation has the time at which the server handles it and the time
    at which the client gets the reply.
\<close>

unbundle bit_operations_syntax

section \<open>Placement\<close>

fun fnv1 :: "u32 \<Rightarrow> string \<Rightarrow> u32" where
  "fnv1 h [] = h"
| "fnv1 h (c # cs) = fnv1 (h * 16777619 XOR word_of_nat (of_char c)) cs"

definition StoreHash :: "string \<Rightarrow> u32" where
  "StoreHash key = fnv1 2166136261 key"

text \<open>\<open>strings.Split(key, ":")[0]\<close>.\<close>

definition key_prefix :: "string \<Rightarrow> string" where
  "key_prefix key = takeWhile (\<lambda>c. c \<noteq> CHR '':'') key"

fun first_at_least :: "u32 \<Rightarrow> nat \<Rightarrow> Node list \<Rightarrow> nat" where
  "first_at_least hash i [] = 0"
| "first_at_least hash i (n # ns) = (if NodeID n \<ge> hash then i else first_at_least hash (Suc i) ns)"

definition pickServer :: "Node list \<Rightarrow> string \<Rightarrow> Node go" where
  "pickServer nodes key =
     (let i = first_at_least (StoreHash (key_prefix key)) 0 nodes
      in if i < length nodes then Some (nodes ! i) else None)"

section \<open>The system\<close>

text \<open>
  The storage system as a whole: the nodes the clients know, what serves at each address, and the
  cache of each client.  What serves is a storage server, but for a test that puts a proxy before it.
\<close>

record 's lib_world =
  sys_nodes :: "Node list"
  sys_servers :: "string \<rightharpoonup> 's"
  sys_caches :: "string \<rightharpoonup> cache"

type_synonym lib_system = "StorageServer lib_world"

text \<open>
  \<open>iNewLibstore\<close>: at most five questions to the master, whose answers are the argument (\<open>None\<close> for
  a failed call, which leaves the reply as it was).  An empty host and port panics.
\<close>

fun ask_ready :: "(bool \<times> Node list) option list \<Rightarrow> (bool \<times> Node list) \<Rightarrow> bool \<times> Node list" where
  "ask_ready [] reply = reply"
| "ask_ready (a # as) reply =
     (let reply1 = (case a of None \<Rightarrow> reply | Some r \<Rightarrow> r)
      in if fst reply1 then reply1 else ask_ready as reply1)"

definition iNewLibstore ::
  "bool \<Rightarrow> (bool \<times> Node list) option list \<Rightarrow> string \<Rightarrow> Node list result go" where
  "iNewLibstore dialled replies myhostport =
     (if myhostport = '''' then None
      else if \<not> dialled then Some (Inl ''DialHTTP'')
      else
        (let (ready, servers) = ask_ready (take 5 replies) (False, [])
         in Some (if ready then Inr (sort_key NodeID servers) else Inl ''StorageServer not ready'')))"

definition cache_of :: "'s lib_world \<Rightarrow> string \<Rightarrow> cache" where
  "cache_of sys c = (case sys_caches sys c of None \<Rightarrow> NewCache | Some x \<Rightarrow> x)"

definition put_cache :: "string \<Rightarrow> cache \<Rightarrow> 's lib_world \<Rightarrow> 's lib_world" where
  "put_cache c x sys = sys\<lparr>sys_caches := (sys_caches sys)(c \<mapsto> x)\<rparr>"

definition put_server :: "string \<Rightarrow> 's \<Rightarrow> 's lib_world \<Rightarrow> 's lib_world" where
  "put_server h ss sys = sys\<lparr>sys_servers := (sys_servers sys)(h \<mapsto> ss)\<rparr>"

text \<open>A holder's cache executes the revocation; an address without a client has none.\<close>

definition revoke_at :: "string \<Rightarrow> string \<Rightarrow> 's lib_world \<Rightarrow> 's lib_world" where
  "revoke_at key c sys =
     (case sys_caches sys c of
        None \<Rightarrow> sys
      | Some x \<Rightarrow> put_cache c (fst (RevokeLease key x)) sys)"

definition revoke_all :: "string \<Rightarrow> string list \<Rightarrow> 's lib_world \<Rightarrow> 's lib_world" where
  "revoke_all key cs sys = fold (revoke_at key) cs sys"

section \<open>Reading\<close>

record call_env =
  cl_now :: time
  cl_back :: time
  cl_delivery :: delivery

text \<open>
  The common part of \<open>iGet\<close> and \<open>iGetList\<close>: \<open>call\<close> is the call of the server, \<open>None\<close> when it comes
  back with an error, and \<open>as_doc\<close> what is put into the cache.  The result is the cached value or
  what the server said.
\<close>

definition fetch_via ::
  "(GetArgs \<Rightarrow> 's \<Rightarrow> 's \<times> (status_code \<times> 'v \<times> LeaseStruct) option) \<Rightarrow>
   ('v \<Rightarrow> doc) \<Rightarrow> (doc \<Rightarrow> 'v go) \<Rightarrow> bool \<Rightarrow> time \<Rightarrow> time \<Rightarrow> string \<Rightarrow> string \<Rightarrow> 's lib_world \<Rightarrow>
   ('s lib_world \<times> 'v result) go" where
  "fetch_via call as_doc of_doc always now back c key sys =
     (case cache_Get now key False (cache_of sys c) of
        (x1, Inr v) \<Rightarrow> map_option (\<lambda>s. (put_cache c x1 sys, Inr s)) (of_doc v)
      | (x1, Inl want) \<Rightarrow>
          (let sys1 = put_cache c x1 sys;
               args = \<lparr>ga_Key = key, ga_WantLease = want \<or> always, ga_LeaseClient = c\<rparr>
           in do {
             node \<leftarrow> pickServer (sys_nodes sys1) key;
             case sys_servers sys1 (HostPort node) of
               None \<Rightarrow> Some (sys1, Inl ''DialHTTP error'')
             | Some ss \<Rightarrow>
                 (case call args ss of
                    (ss1, None) \<Rightarrow> Some (put_server (HostPort node) ss1 sys1, Inl ''rpc call error'')
                  | (ss1, Some (status, v, lease)) \<Rightarrow>
                      (let sys2 = put_server (HostPort node) ss1 sys1
                       in if status \<noteq> OK then Some (sys2, Inl ''Get error'')
                          else if Granted lease
                          then map_option (\<lambda>x2. (put_cache c x2 sys2, Inr v))
                                 (cache_Grant back key (as_doc v) lease x1)
                          else Some (sys2, Inr v))) }))"

text \<open>The call of a storage server itself.\<close>

definition lib_fetch ::
  "(time \<Rightarrow> GetArgs \<Rightarrow> StorageServer \<Rightarrow> StorageServer \<times> status_code \<times> 'v \<times> LeaseStruct) \<Rightarrow>
   ('v \<Rightarrow> doc) \<Rightarrow> (doc \<Rightarrow> 'v go) \<Rightarrow> bool \<Rightarrow> call_env \<Rightarrow> string \<Rightarrow> string \<Rightarrow> lib_system \<Rightarrow>
   (lib_system \<times> 'v result) go" where
  "lib_fetch handler as_doc of_doc always env =
     fetch_via (\<lambda>args. rpc (cl_delivery env) (handler (cl_now env) args)) as_doc of_doc always
       (cl_now env) (cl_back env)"

text \<open>The type assertions on a cached value: \<open>val.(string)\<close> and \<open>val.([]string)\<close>.\<close>

definition iGet :: "bool \<Rightarrow> call_env \<Rightarrow> string \<Rightarrow> string \<Rightarrow> lib_system \<Rightarrow> (lib_system \<times> string result) go" where
  "iGet = lib_fetch ss_Get JStr (\<lambda>v. case v of JStr s \<Rightarrow> Some s | JArr l \<Rightarrow> None)"

definition iGetList ::
  "bool \<Rightarrow> call_env \<Rightarrow> string \<Rightarrow> string \<Rightarrow> lib_system \<Rightarrow> (lib_system \<times> string list result) go" where
  "iGetList = lib_fetch ss_GetList JArr (\<lambda>v. case v of JStr s \<Rightarrow> None | JArr l \<Rightarrow> Some l)"

section \<open>Writing\<close>

text \<open>
  The common part of \<open>iPut\<close>, \<open>iAppendToList\<close> and \<open>iRemoveFromList\<close>: the call says when it was over,
  whose caches were told, and the status (\<open>None\<close> when the call comes back with an error).
\<close>

definition mutate_via ::
  "('s \<Rightarrow> ('s \<times> time \<times> string list \<times> status_code option) go) \<Rightarrow> time \<Rightarrow> string \<Rightarrow> 's lib_world \<Rightarrow>
   ('s lib_world \<times> time \<times> unit result) go" where
  "mutate_via call now key sys = do {
     node \<leftarrow> pickServer (sys_nodes sys) key;
     case sys_servers sys (HostPort node) of
       None \<Rightarrow> Some (sys, now, Inl ''DialHTTP error'')
     | Some ss \<Rightarrow> do {
         (ss1, t, rs, reply) \<leftarrow> call ss;
         let sys1 = put_server (HostPort node) ss1 (revoke_all key rs sys);
         Some (sys1, t, case reply of None \<Rightarrow> Inl ''rpc call error''
                        | Some status \<Rightarrow> if status \<noteq> OK then Inl ''error status'' else Inr ()) } }"

definition lib_mutate ::
  "(time \<Rightarrow> StorageServer \<Rightarrow> mutation) \<Rightarrow> call_env \<Rightarrow> string \<Rightarrow> lib_system \<Rightarrow>
   (lib_system \<times> time \<times> unit result) go" where
  "lib_mutate handler env key =
     mutate_via (\<lambda>ss.
       if cl_delivery env = RequestLost then Some (ss, cl_now env, [], None)
       else map_option (\<lambda>(ss1, t, rs, status).
              (ss1, t, rs, if cl_delivery env = ReplyLost then None else Some status))
              (handler (cl_now env) ss)) (cl_now env) key"

definition iPut ::
  "(string \<Rightarrow> revoke_answer) \<Rightarrow> call_env \<Rightarrow> string \<Rightarrow> string \<Rightarrow> lib_system \<Rightarrow>
   (lib_system \<times> time \<times> unit result) go" where
  "iPut answers env key value = lib_mutate (\<lambda>now. ss_Put answers now key value) env key"

definition iAppendToList ::
  "(string \<Rightarrow> revoke_answer) \<Rightarrow> call_env \<Rightarrow> string \<Rightarrow> string \<Rightarrow> lib_system \<Rightarrow>
   (lib_system \<times> time \<times> unit result) go" where
  "iAppendToList answers env key newitem =
     lib_mutate (\<lambda>now. ss_AppendToList answers now key newitem) env key"

definition iRemoveFromList ::
  "(string \<Rightarrow> revoke_answer) \<Rightarrow> call_env \<Rightarrow> string \<Rightarrow> string \<Rightarrow> lib_system \<Rightarrow>
   (lib_system \<times> time \<times> unit result) go" where
  "iRemoveFromList answers env key removeitem =
     lib_mutate (\<lambda>now. ss_RemoveFromList answers now key removeitem) env key"

section \<open>Placement on the ring\<close>

lemma first_at_least_spec:
  "(\<exists>n \<in> set ns. NodeID n \<ge> hash) \<Longrightarrow>
   \<exists>j < length ns. first_at_least hash i ns = i + j \<and> NodeID (ns ! j) \<ge> hash \<and>
     (\<forall>l < j. NodeID (ns ! l) < hash)"
proof (induction ns arbitrary: i)
  case (Cons n ns)
  show ?case
  proof (cases "NodeID n \<ge> hash")
    case True
    then show ?thesis by (intro exI [of _ 0]) simp
  next
    case False
    with Cons.prems have "\<exists>n \<in> set ns. NodeID n \<ge> hash" by auto
    from Cons.IH [OF this, of "Suc i"] obtain j where j: "j < length ns"
        "first_at_least hash (Suc i) ns = Suc i + j" "NodeID (ns ! j) \<ge> hash"
        "\<forall>l < j. NodeID (ns ! l) < hash" by blast
    with False show ?thesis
      by (intro exI [of _ "Suc j"]) (auto simp: nth_Cons not_le split: nat.splits)
  qed
qed simp

lemma first_at_least_none:
  "(\<forall>n \<in> set ns. NodeID n < hash) \<Longrightarrow> first_at_least hash i ns = 0"
  by (induction ns arbitrary: i) (auto simp: not_le)

text \<open>The nodes are sorted by id, as \<open>iNewLibstore\<close> leaves them.\<close>

lemma pickServer_ring:
  fixes key :: string
  assumes "nodes \<noteq> []" "sorted (map NodeID nodes)"
  defines "hash \<equiv> StoreHash (key_prefix key)"
  shows "\<exists>n \<in> set nodes. pickServer nodes key = Some n \<and>
    (if \<exists>m \<in> set nodes. NodeID m \<ge> hash
     then NodeID n \<ge> hash \<and> (\<forall>m \<in> set nodes. NodeID m \<ge> hash \<longrightarrow> NodeID n \<le> NodeID m)
     else \<forall>m \<in> set nodes. NodeID n \<le> NodeID m)"
proof (cases "\<exists>m \<in> set nodes. NodeID m \<ge> hash")
  case True
  from first_at_least_spec [OF this, of 0] obtain j where j: "j < length nodes"
      "first_at_least hash 0 nodes = j" "NodeID (nodes ! j) \<ge> hash"
      "\<forall>l < j. NodeID (nodes ! l) < hash" by auto
  have "NodeID (nodes ! j) \<le> NodeID m" if m: "m \<in> set nodes" "NodeID m \<ge> hash" for m
  proof -
    from m(1) obtain l where l: "l < length nodes" "m = nodes ! l" by (auto simp: in_set_conv_nth)
    with m(2) j(4) have "j \<le> l" by (meson leD leI)
    with assms(2) l show ?thesis
      using sorted_nth_mono [of "map NodeID nodes" j l] by simp
  qed
  with True j show ?thesis
    by (intro bexI [of _ "nodes ! j"]) (auto simp: pickServer_def hash_def [symmetric])
next
  case False
  then have none: "\<forall>m \<in> set nodes. NodeID m < hash" by (auto simp: not_le)
  have "NodeID (nodes ! 0) \<le> NodeID m" if "m \<in> set nodes" for m
    using that assms(2) by (cases nodes) auto
  with False assms(1) first_at_least_none [OF none, of 0] show ?thesis
    by (intro bexI [of _ "nodes ! 0"]) (auto simp: pickServer_def hash_def [symmetric])
qed

section \<open>Lease consistency\<close>

text \<open>
  The document and the lease holders that the server responsible for a key has.
\<close>

definition server_for :: "lib_system \<Rightarrow> string \<Rightarrow> (string \<times> StorageServer) option" where
  "server_for sys key =
     (case pickServer (sys_nodes sys) key of
        None \<Rightarrow> None
      | Some node \<Rightarrow> map_option (\<lambda>ss. (HostPort node, ss)) (sys_servers sys (HostPort node)))"

definition pool_holders :: "string \<Rightarrow> StorageServer \<Rightarrow> holder list" where
  "pool_holders key ss = (case ss_leasePool ss key of None \<Rightarrow> [] | Some e \<Rightarrow> le_holders e)"

definition doc_at :: "lib_system \<Rightarrow> string \<Rightarrow> doc option" where
  "doc_at sys key = (case server_for sys key of None \<Rightarrow> None | Some (h, ss) \<Rightarrow> ss_hashmap ss key)"

definition holders_at :: "lib_system \<Rightarrow> string \<Rightarrow> holder list" where
  "holders_at sys key = (case server_for sys key of None \<Rightarrow> [] | Some (h, ss) \<Rightarrow> pool_holders key ss)"

text \<open>A cached value is what one of the two read operations makes of the document.\<close>

definition val_ok :: "doc \<Rightarrow> doc option \<Rightarrow> bool" where
  "val_ok v d \<longleftrightarrow> (\<exists>x. d = Some x \<and> (v = JStr (doc_string x) \<or> v = JArr (doc_list (Some x))))"

definition lapsed :: "time \<Rightarrow> entry \<Rightarrow> bool" where
  "lapsed T e = (T - en_leaseTime e > en_leaseDur e)"

definition covered :: "string \<Rightarrow> entry \<Rightarrow> holder list \<Rightarrow> bool" where
  "covered c e hs \<longleftrightarrow>
     (\<exists>h \<in> set hs. h_address h = c \<and>
        en_leaseTime e + en_leaseDur e \<le> h_issueTime h + seconds (LEASE_SECONDS + LEASE_GUARD_SECONDS))"

definition entry_inv :: "time \<Rightarrow> string \<Rightarrow> string \<Rightarrow> lib_system \<Rightarrow> entry \<Rightarrow> bool" where
  "entry_inv T c k sys e \<longleftrightarrow>
     en_leaseTime e \<le> T \<and> en_leaseDur e = seconds LEASE_SECONDS \<and>
     (lapsed T e \<or> val_ok (en_val e) (doc_at sys k) \<and> covered c e (holders_at sys k))"

definition lease_inv :: "time \<Rightarrow> lib_system \<Rightarrow> bool" where
  "lease_inv T sys \<longleftrightarrow>
     (\<forall>c x k e. sys_caches sys c = Some x \<and> x k = Some e \<and> en_granted e \<longrightarrow> entry_inv T c k sys e)"

lemma lease_invD:
  "lease_inv T sys \<Longrightarrow> sys_caches sys c = Some x \<Longrightarrow> x k = Some e \<Longrightarrow> en_granted e \<Longrightarrow> entry_inv T c k sys e"
  unfolding lease_inv_def by blast

lemma lease_invI:
  "(\<And>c x k e. sys_caches sys c = Some x \<Longrightarrow> x k = Some e \<Longrightarrow> en_granted e \<Longrightarrow> entry_inv T c k sys e) \<Longrightarrow>
   lease_inv T sys"
  unfolding lease_inv_def by blast

lemma entry_inv_later: "entry_inv T c k sys e \<Longrightarrow> T \<le> T' \<Longrightarrow> entry_inv T' c k sys e"
  by (auto simp: entry_inv_def lapsed_def)

lemma lease_inv_later: "lease_inv T sys \<Longrightarrow> T \<le> T' \<Longrightarrow> lease_inv T' sys"
  by (blast intro: lease_invI entry_inv_later dest: lease_invD)

lemma entry_inv_same:
  "en_leaseTime e' = en_leaseTime e \<Longrightarrow> en_leaseDur e' = en_leaseDur e \<Longrightarrow> en_val e' = en_val e \<Longrightarrow>
   entry_inv T c k sys e' = entry_inv T c k sys e"
  by (simp add: entry_inv_def lapsed_def covered_def)

lemma entry_inv_frame:
  "entry_inv T c k sys e \<Longrightarrow> doc_at sys' k = doc_at sys k \<Longrightarrow>
   set (holders_at sys k) \<subseteq> set (holders_at sys' k) \<Longrightarrow> entry_inv T c k sys' e"
  by (auto simp: entry_inv_def covered_def)

text \<open>No stale read: what a fresh cache answers is what the server has.\<close>

lemma lease_inv_fresh:
  assumes "lease_inv T sys" "T \<le> now" "fresh now (cache_of sys c) k = Some v"
  shows "val_ok v (doc_at sys k)"
proof -
  from assms(3) obtain e where e: "cache_of sys c k = Some e" "en_granted e" "en_val e = v"
      "now - en_leaseTime e \<le> en_leaseDur e" by (rule fresh_Some)
  then obtain x where "sys_caches sys c = Some x" "x k = Some e"
    by (auto simp: cache_of_def NewCache_def split: option.splits)
  with lease_invD [OF assms(1) _ _ e(2)] have "entry_inv T c k sys e" by blast
  with e assms(2) show ?thesis by (auto simp: entry_inv_def lapsed_def)
qed

section \<open>Changing one key of one server\<close>

lemma put_fields [simp]:
  "sys_caches (put_cache c x sys) = (sys_caches sys)(c \<mapsto> x)"
  "sys_caches (put_server h ss sys) = sys_caches sys"
  "sys_nodes (put_cache c x sys) = sys_nodes sys" "sys_nodes (put_server h ss sys) = sys_nodes sys"
  "sys_servers (put_cache c x sys) = sys_servers sys"
  by (simp_all add: put_cache_def put_server_def)

lemma put_server_same: "sys_servers sys h = Some ss \<Longrightarrow> put_server h ss sys = sys"
  by (simp add: put_server_def fun_upd_idem)

lemma server_for_caches [simp]: "server_for (put_cache c x sys) k = server_for sys k"
  by (simp add: server_for_def split: option.splits)

lemma doc_at_caches [simp]:
  "doc_at (put_cache c x sys) k = doc_at sys k" "holders_at (put_cache c x sys) k = holders_at sys k"
  by (simp_all add: doc_at_def holders_at_def)

text \<open>Servers that differ at one key only.\<close>

definition only_at :: "string \<Rightarrow> StorageServer \<Rightarrow> StorageServer \<Rightarrow> bool" where
  "only_at key ss ss' \<longleftrightarrow>
     (\<forall>k. k \<noteq> key \<longrightarrow> ss_hashmap ss' k = ss_hashmap ss k \<and> ss_leasePool ss' k = ss_leasePool ss k)"

lemma put_server_at:
  assumes "sys_servers sys h = Some ss" "only_at key ss ss'"
  shows "k \<noteq> key \<Longrightarrow> doc_at (put_server h ss' sys) k = doc_at sys k"
    and "k \<noteq> key \<Longrightarrow> holders_at (put_server h ss' sys) k = holders_at sys k"
    and "server_for sys key = Some (h, ss) \<Longrightarrow> doc_at (put_server h ss' sys) key = ss_hashmap ss' key"
    and "server_for sys key = Some (h, ss) \<Longrightarrow> holders_at (put_server h ss' sys) key = pool_holders key ss'"
  using assms
  by (auto simp: doc_at_def holders_at_def server_for_def put_server_def only_at_def pool_holders_def
      split: option.splits)

lemma server_for_pick:
  assumes "pickServer (sys_nodes sys) key = Some node" "sys_servers sys (HostPort node) = Some ss"
  shows "server_for sys key = Some (HostPort node, ss)"
  using assms by (simp add: server_for_def)

lemma entry_inv_caches [simp]: "entry_inv T c k (put_cache d x sys) e = entry_inv T c k sys e"
  by (simp add: entry_inv_def)

section \<open>Readers\<close>

lemma addLeasePool_spec:
  assumes "addLeasePool now k c ss = (ss', lease)"
  shows "ss_hashmap ss' = ss_hashmap ss" and "only_at k ss ss'"
    and "set (pool_holders k ss) \<subseteq> set (pool_holders k ss')"
    and "Granted lease \<Longrightarrow> ValidSeconds lease = LEASE_SECONDS"
    and "Granted lease \<Longrightarrow> \<exists>h \<in> set (pool_holders k ss'). h_address h = c \<and>
           (h \<in> set (pool_holders k ss) \<or> h_issueTime h = now)"
  using assms
  by (auto simp: addLeasePool_def only_at_def pool_holders_def no_lease_def split: option.splits if_splits)

text \<open>What the two read handlers of the server and their clients' conversions have in common.\<close>

locale lease_reader =
  fixes handler :: "time \<Rightarrow> GetArgs \<Rightarrow> StorageServer \<Rightarrow> StorageServer \<times> status_code \<times> 'v \<times> LeaseStruct"
    and as_doc :: "'v \<Rightarrow> doc"
    and of_doc :: "doc \<Rightarrow> 'v go"
  assumes lease: "handler now args ss = (ss', st, v, l) \<Longrightarrow>
        (ss' = ss \<and> \<not> Granted l) \<or> addLeasePool now (ga_Key args) (ga_LeaseClient args) ss = (ss', l)"
    and current: "handler now args ss = (ss', OK, v, l) \<Longrightarrow> val_ok (as_doc v) (ss_hashmap ss (ga_Key args))"
    and of_doc: "of_doc d = Some v \<Longrightarrow> d = as_doc v"
begin

lemma effect:
  assumes "handler now args ss = (ss', st, v, l)"
  shows "ss_hashmap ss' = ss_hashmap ss" "only_at (ga_Key args) ss ss'"
    "set (pool_holders (ga_Key args) ss) \<subseteq> set (pool_holders (ga_Key args) ss')"
proof -
  have same: "only_at (ga_Key args) ss ss" by (simp add: only_at_def)
  show "ss_hashmap ss' = ss_hashmap ss" "only_at (ga_Key args) ss ss'"
    "set (pool_holders (ga_Key args) ss) \<subseteq> set (pool_holders (ga_Key args) ss')"
    using lease [OF assms] same addLeasePool_spec(1-3) [of now "ga_Key args" "ga_LeaseClient args" ss ss' l]
    by blast+
qed

lemma grant:
  assumes "handler now args ss = (ss', st, v, l)" "Granted l"
  shows "ValidSeconds l = LEASE_SECONDS"
    "\<exists>h \<in> set (pool_holders (ga_Key args) ss'). h_address h = ga_LeaseClient args \<and>
       (h \<in> set (pool_holders (ga_Key args) ss) \<or> h_issueTime h = now)"
  using lease [OF assms(1)] assms(2) addLeasePool_spec(4,5) by blast+

text \<open>A read with its lease: its outcomes.\<close>

lemma fetchE:
  assumes "lib_fetch handler as_doc of_doc always env c key sys = Some (sys', r)"
  obtains
    (hit) v x where "cache_Get (cl_now env) key False (cache_of sys c) = (x, Inr (as_doc v))"
      "sys' = put_cache c x sys" "r = Inr v"
  | (alone) x want e where "cache_Get (cl_now env) key False (cache_of sys c) = (x, Inl want)"
      "sys' = put_cache c x sys" "r = Inl e"
  | (called) x want h ss args ss1 st v l where
      "cache_Get (cl_now env) key False (cache_of sys c) = (x, Inl want)"
      "server_for sys key = Some (h, ss)" "sys_servers sys h = Some ss"
      "args = \<lparr>ga_Key = key, ga_WantLease = want \<or> always, ga_LeaseClient = c\<rparr>" "handler (cl_now env) args ss = (ss1, st, v, l)"
      "sys' = put_server h ss (put_cache c x sys) \<and> (\<exists>e. r = Inl e) \<or>
       sys' = put_server h ss1 (put_cache c x sys) \<and> (r = Inr v \<longrightarrow> st = OK) \<and> (\<forall>u. r = Inr u \<longrightarrow> u = v) \<or>
       (\<exists>y. Granted l \<and> st = OK \<and> cl_delivery env = Delivered \<and> cache_Grant (cl_back env) key (as_doc v) l x = Some y \<and>
            sys' = put_cache c y (put_server h ss1 (put_cache c x sys)) \<and> r = Inr v)"
proof -
  obtain x a where g: "cache_Get (cl_now env) key False (cache_of sys c) = (x, a)"
    by (cases "cache_Get (cl_now env) key False (cache_of sys c)")
  show thesis
  proof (cases a)
    case (Inr d)
    with assms g obtain v where v: "of_doc d = Some v" "sys' = put_cache c x sys" "r = Inr v"
      by (auto simp: lib_fetch_def fetch_via_def)
    with of_doc [OF v(1)] Inr g show thesis by (intro hit) auto
  next
    case (Inl want)
    let ?args = "\<lparr>ga_Key = key, ga_WantLease = want \<or> always, ga_LeaseClient = c\<rparr>"
    from assms g Inl obtain node where node: "pickServer (sys_nodes sys) key = Some node"
      by (auto simp: lib_fetch_def fetch_via_def split: Option.bind_splits)
    show thesis
    proof (cases "sys_servers sys (HostPort node)")
      case None
      with assms g Inl node show thesis by (intro alone) (auto simp: lib_fetch_def fetch_via_def)
    next
      case (Some ss)
      obtain ss1 st v l where h: "handler (cl_now env) ?args ss = (ss1, st, v, l)"
        by (cases "handler (cl_now env) ?args ss")
      have "sys' = put_server (HostPort node) ss (put_cache c x sys) \<and> (\<exists>e. r = Inl e) \<or>
          sys' = put_server (HostPort node) ss1 (put_cache c x sys) \<and> (r = Inr v \<longrightarrow> st = OK) \<and>
            (\<forall>u. r = Inr u \<longrightarrow> u = v) \<or>
          (\<exists>y. Granted l \<and> st = OK \<and> cl_delivery env = Delivered \<and> cache_Grant (cl_back env) key (as_doc v) l x = Some y \<and>
            sys' = put_cache c y (put_server (HostPort node) ss1 (put_cache c x sys)) \<and> r = Inr v)"
        using assms g Inl node Some h
        by (cases "cl_delivery env") (auto simp: lib_fetch_def fetch_via_def split: if_splits)
      with called [OF g [unfolded Inl] server_for_pick [OF node Some] Some refl h] show thesis by simp
    qed
  qed
qed

end

section \<open>Reads keep the leases consistent\<close>

lemma cache_Get_granted:
  assumes "cache_Get now k want c = (c', r)" "c' k' = Some e" "en_granted e"
  shows "\<exists>e0. c k' = Some e0 \<and> en_granted e0 \<and> en_val e = en_val e0 \<and>
    en_leaseTime e = en_leaseTime e0 \<and> en_leaseDur e = en_leaseDur e0"
proof -
  have old: "\<exists>e0. c k' = Some e0 \<and> en_granted e0 \<and> en_val e = en_val e0 \<and>
      en_leaseTime e = en_leaseTime e0 \<and> en_leaseDur e = en_leaseDur e0"
    if "evict now c k' = Some e" "en_granted e" for e
    using evict_Some [OF that(1)] that(2) by (auto simp: clean_def expire_def split: if_splits)
  have "evict now c k' = Some e"
  proof (cases "evict now c k")
    case None
    with assms show ?thesis by (cases "k' = k") (auto simp: cache_Get_def new_entry_def)
  next
    case (Some e1)
    with assms show ?thesis
      by (cases "k' = k"; cases "en_granted e1") (auto simp: cache_Get_def)
  qed
  from old [OF this assms(3)] show ?thesis .
qed

lemma lease_inv_put_cache:
  assumes "lease_inv T sys" "\<And>k e. x k = Some e \<Longrightarrow> en_granted e \<Longrightarrow> entry_inv T c k sys e"
  shows "lease_inv T (put_cache c x sys)"
proof (rule lease_invI)
  fix d y k e
  assume a: "sys_caches (put_cache c x sys) d = Some y" "y k = Some e" "en_granted e"
  show "entry_inv T d k (put_cache c x sys) e"
  proof (cases "d = c")
    case True
    with a assms(2) [of k e] show ?thesis by simp
  next
    case False
    with a have "sys_caches sys d = Some y" "y k = Some e" "en_granted e" by auto
    from lease_invD [OF assms(1) this] show ?thesis by simp
  qed
qed

lemma lease_inv_Get:
  assumes inv: "lease_inv T sys" and g: "cache_Get now key want (cache_of sys c) = (x, r)"
  shows "lease_inv T (put_cache c x sys)"
proof (rule lease_inv_put_cache [OF inv])
  fix k e assume e: "x k = Some e" "en_granted e"
  from cache_Get_granted [OF g e] obtain e0 where e0: "cache_of sys c k = Some e0" "en_granted e0"
      "en_val e = en_val e0" "en_leaseTime e = en_leaseTime e0" "en_leaseDur e = en_leaseDur e0" by blast
  from e0(1) obtain y where "sys_caches sys c = Some y" "y k = Some e0"
    by (auto simp: cache_of_def NewCache_def split: option.splits)
  with lease_invD [OF inv _ _ e0(2)] have "entry_inv T c k sys e0" by blast
  then show "entry_inv T c k sys e" using entry_inv_same [OF e0(4,5,3)] by blast
qed

lemma lease_inv_frame:
  assumes "lease_inv T sys" "sys_caches sys' = sys_caches sys"
    and "\<And>k. doc_at sys' k = doc_at sys k" "\<And>k. set (holders_at sys k) \<subseteq> set (holders_at sys' k)"
  shows "lease_inv T sys'"
proof (rule lease_invI)
  fix c x k e assume "sys_caches sys' c = Some x" "x k = Some e" "en_granted e"
  with assms(2) lease_invD [OF assms(1)] have "entry_inv T c k sys e" by simp
  from entry_inv_frame [OF this assms(3,4)] show "entry_inv T c k sys' e" .
qed

text \<open>A read that brings its client a lease: neither the cache nor a server without a lease answers it.\<close>

definition takes_lease ::
  "(time \<Rightarrow> GetArgs \<Rightarrow> StorageServer \<Rightarrow> StorageServer \<times> status_code \<times> 'v \<times> LeaseStruct) \<Rightarrow> bool \<Rightarrow>
   call_env \<Rightarrow> string \<Rightarrow> string \<Rightarrow> lib_system \<Rightarrow> bool" where
  "takes_lease handler always env c key sys =
     (case cache_Get (cl_now env) key False (cache_of sys c) of
        (x, Inr v) \<Rightarrow> False
      | (x, Inl want) \<Rightarrow>
          (case server_for sys key of
             None \<Rightarrow> False
           | Some (h, ss) \<Rightarrow>
               (case handler (cl_now env)
                       \<lparr>ga_Key = key, ga_WantLease = want \<or> always, ga_LeaseClient = c\<rparr> ss of
                  (ss1, st, v, l) \<Rightarrow> cl_delivery env = Delivered \<and> st = OK \<and> Granted l)))"

text \<open>
  A grant is prompt when it reaches the client within the guard time, counted from the issue time
  that the server has on record for the client.
\<close>

definition prompt :: "call_env \<Rightarrow> string \<Rightarrow> string \<Rightarrow> lib_system \<Rightarrow> bool" where
  "prompt env c key sys \<longleftrightarrow>
     cl_now env \<le> cl_back env \<and> cl_back env \<le> cl_now env + seconds LEASE_GUARD_SECONDS \<and>
     (\<forall>h \<in> set (holders_at sys key). h_address h = c \<longrightarrow>
        cl_back env \<le> h_issueTime h + seconds LEASE_GUARD_SECONDS)"

context lease_reader begin

lemma called_frame:
  assumes inv: "lease_inv T sys" and s: "server_for sys key = Some (h, ss)" "sys_servers sys h = Some ss"
    and k: "ga_Key args = key" and h: "handler now args ss = (ss1, st, v, l)"
  shows "lease_inv T (put_server h ss sys)" "lease_inv T (put_server h ss1 sys)"
    and "doc_at (put_server h ss1 sys) key = doc_at sys key"
proof -
  have same: "only_at key ss ss" by (simp add: only_at_def)
  have d: "doc_at sys key = ss_hashmap ss key" "holders_at sys key = pool_holders key ss"
    using s(1) by (simp_all add: doc_at_def holders_at_def)
  note eff = effect [OF h, unfolded k]
  note p = put_server_at [OF s(2) eff(2)] and p0 = put_server_at [OF s(2) same]
  show doc: "doc_at (put_server h ss1 sys) key = doc_at sys key"
    using p(3) [OF s(1)] eff(1) d by simp
  have "doc_at (put_server h ss1 sys) k = doc_at sys k \<and>
      set (holders_at sys k) \<subseteq> set (holders_at (put_server h ss1 sys) k)" for k
    using p(1,2) [of k] doc p(4) [OF s(1)] eff(3) d by (cases "k = key") auto
  then show "lease_inv T (put_server h ss1 sys)" by (intro lease_inv_frame [OF inv]) auto
  have "doc_at (put_server h ss sys) k = doc_at sys k \<and>
      set (holders_at sys k) \<subseteq> set (holders_at (put_server h ss sys) k)" for k
    using p0(1,2) [of k] p0(3,4) [OF s(1)] d by (cases "k = key") auto
  then show "lease_inv T (put_server h ss sys)" by (intro lease_inv_frame [OF inv]) auto
qed

lemma fetch_inv:
  assumes inv: "lease_inv T sys" and T: "T \<le> cl_now env" and later: "cl_now env \<le> cl_back env"
    and prompt: "takes_lease handler always env c key sys \<Longrightarrow> prompt env c key sys"
    and f: "lib_fetch handler as_doc of_doc always env c key sys = Some (sys', r)"
  shows "lease_inv (cl_back env) sys'"
proof -
  from inv T later have inv': "lease_inv (cl_back env) sys"
    by (auto intro: lease_inv_later)
  from f show ?thesis
  proof (cases rule: fetchE)
    case (hit v x)
    with lease_inv_Get [OF inv'] show ?thesis by blast
  next
    case (alone x want e)
    with lease_inv_Get [OF inv'] show ?thesis by blast
  next
    case (called x want h ss args ss1 st v l)
    let ?s = "put_cache c x sys"
    have s: "lease_inv (cl_back env) ?s" using lease_inv_Get [OF inv' called(1)] .
    have sf: "server_for ?s key = Some (h, ss)" "sys_servers ?s h = Some ss"
      using called(2,3) by simp_all
    have args: "ga_Key args = key" "ga_LeaseClient args = c" using called(4) by simp_all
    note frame = called_frame [OF s sf args(1) called(5)]
    show ?thesis
    proof (cases "\<exists>y. Granted l \<and> st = OK \<and> cl_delivery env = Delivered \<and> cache_Grant (cl_back env) key (as_doc v) l x = Some y \<and>
            sys' = put_cache c y (put_server h ss1 ?s) \<and> r = Inr v")
      case False
      with called(6) frame(1,2) show ?thesis by auto
    next
      case True
      then obtain y where y: "Granted l" "st = OK" "cache_Grant (cl_back env) key (as_doc v) l x = Some y"
          "sys' = put_cache c y (put_server h ss1 ?s)" "cl_delivery env = Delivered" by blast
      have prompt: "prompt env c key sys"
        by (rule prompt) (use called(1,2,4,5) y(1,2,5) in \<open>simp add: takes_lease_def\<close>)
      let ?t = "put_server h ss1 ?s"
      obtain e where e: "x key = Some e" "y = x(key \<mapsto> e\<lparr>en_granted := True, en_val := as_doc v,
          en_leaseTime := cl_back env, en_leaseDur := seconds (ValidSeconds l)\<rparr>)"
        using y(3) by (auto simp: cache_Grant_def split: Option.bind_splits)
      note g = grant [OF called(5) y(1), unfolded args]
      have "val_ok (as_doc v) (ss_hashmap ss key)"
        using current [of "cl_now env" args ss ss1 v l] called(5) args y(2) by simp
      then have val: "val_ok (as_doc v) (doc_at ?t key)"
        using frame(3) sf(1) by (simp add: doc_at_def)
      from g(2) obtain hd where hd: "hd \<in> set (pool_holders key ss1)" "h_address hd = c"
          "hd \<in> set (pool_holders key ss) \<or> h_issueTime hd = cl_now env" by blast
      have "only_at key ss ss1" using effect(2) [OF called(5)] args by simp
      from put_server_at(4) [OF sf(2) this sf(1)] hd(1) have at: "hd \<in> set (holders_at ?t key)" by simp
      have "holders_at sys key = pool_holders key ss" using called(2) by (simp add: holders_at_def)
      with prompt hd(2,3) have "cl_back env \<le> h_issueTime hd + seconds LEASE_GUARD_SECONDS"
        by (auto simp: prompt_def)
      with at hd(2) val have new: "entry_inv (cl_back env) c key ?t
          (e\<lparr>en_granted := True, en_val := as_doc v, en_leaseTime := cl_back env,
             en_leaseDur := seconds (ValidSeconds l)\<rparr>)"
        by (auto simp: entry_inv_def covered_def lease_defs g(1) intro!: bexI [of _ hd])
      have "entry_inv (cl_back env) c k ?t e'" if "y k = Some e'" "en_granted e'" for k e'
      proof (cases "k = key")
        case True
        with new that(1) e(2) show ?thesis by simp
      next
        case False
        with that(1) e(2) have "x k = Some e'" by simp
        moreover have "sys_caches ?t c = Some x" by simp
        ultimately show ?thesis using lease_invD [OF frame(2)] that(2) by blast
      qed
      from lease_inv_put_cache [OF frame(2) this] y(4) show ?thesis by simp
    qed
  qed
qed

text \<open>What a read returns is what the server has at the time of the read.\<close>

lemma fetch_current:
  assumes inv: "lease_inv T sys" and T: "T \<le> cl_now env"
    and f: "lib_fetch handler as_doc of_doc always env c key sys = Some (sys', Inr v)"
  shows "val_ok (as_doc v) (doc_at sys key)"
  using f
proof (cases rule: fetchE)
  case (hit u x)
  then have "snd (cache_Get (cl_now env) key False (cache_of sys c)) = Inr (as_doc u)" by simp
  from lease_inv_fresh [OF inv T cache_Get_Inr [OF this]] hit(3) show ?thesis by simp
next
  case (called x want h ss args ss1 st u l)
  then have "st = OK" "v = u" by auto
  with current [of "cl_now env" args ss ss1 u l] called(2,4,5) show ?thesis by (simp add: doc_at_def)
qed simp

end

lemma ss_Get_reader:
  "lease_reader ss_Get JStr (\<lambda>v. case v of JStr s \<Rightarrow> Some s | JArr l \<Rightarrow> None)"
  by unfold_locales
    (auto simp: ss_Get_def no_lease_def val_ok_def split: option.splits if_splits prod.splits doc.splits)

lemma ss_GetList_reader:
  "lease_reader ss_GetList JArr (\<lambda>v. case v of JStr s \<Rightarrow> None | JArr l \<Rightarrow> Some l)"
  by unfold_locales
    (auto simp: ss_GetList_def no_lease_def val_ok_def split: option.splits if_splits prod.splits doc.splits)

interpretation get_reader: lease_reader ss_Get JStr "\<lambda>v. case v of JStr s \<Rightarrow> Some s | JArr l \<Rightarrow> None"
  by (rule ss_Get_reader)

interpretation list_reader: lease_reader ss_GetList JArr "\<lambda>v. case v of JStr s \<Rightarrow> None | JArr l \<Rightarrow> Some l"
  by (rule ss_GetList_reader)

section \<open>Writes keep the leases consistent\<close>

lemma revoke_at_granted:
  assumes "sys_caches (revoke_at key d sys) c = Some x'" "x' k = Some e" "en_granted e"
  shows "\<exists>x. sys_caches sys c = Some x \<and> x k = Some e \<and> (k = key \<longrightarrow> c \<noteq> d)"
proof (cases "sys_caches sys d")
  case None
  with assms show ?thesis by (auto simp: revoke_at_def)
next
  case (Some y)
  show ?thesis
  proof (cases "c = d")
    case False
    with Some assms show ?thesis by (simp add: revoke_at_def)
  next
    case True
    with Some assms(1) have "x' = fst (RevokeLease key y)" by (simp add: revoke_at_def)
    with assms(2,3) Some True show ?thesis
      by (cases "y key"; cases "k = key") (auto simp: RevokeLease_def cache_Revoke_def)
  qed
qed

lemma revoke_all_granted:
  "sys_caches (revoke_all key cs sys) c = Some x' \<Longrightarrow> x' k = Some e \<Longrightarrow> en_granted e \<Longrightarrow>
   \<exists>x. sys_caches sys c = Some x \<and> x k = Some e \<and> (k = key \<longrightarrow> c \<notin> set cs)"
proof (induction cs arbitrary: sys)
  case Nil
  then show ?case by (simp add: revoke_all_def)
next
  case (Cons d cs)
  from Cons.prems(1) have "sys_caches (revoke_all key cs (revoke_at key d sys)) c = Some x'"
    by (simp add: revoke_all_def)
  from Cons.IH [OF this Cons.prems(2,3)] obtain x where
    x: "sys_caches (revoke_at key d sys) c = Some x" "x k = Some e" "k = key \<longrightarrow> c \<notin> set cs" by blast
  from revoke_at_granted [OF x(1,2) Cons.prems(3)] x(3) show ?case by auto
qed

lemma revoke_at_servers [simp]:
  "sys_nodes (revoke_at key d sys) = sys_nodes sys" "sys_servers (revoke_at key d sys) = sys_servers sys"
  by (simp_all add: revoke_at_def split: option.splits)

lemma revoke_all_servers [simp]:
  "sys_nodes (revoke_all key cs sys) = sys_nodes sys" "sys_servers (revoke_all key cs sys) = sys_servers sys"
  unfolding revoke_all_def by (induction cs arbitrary: sys) auto

lemma server_for_revoke_all [simp]: "server_for (revoke_all key cs sys) k = server_for sys k"
  by (simp add: server_for_def split: option.splits)

text \<open>What the three mutations of the server have in common.\<close>

locale lease_writer =
  fixes handler :: "time \<Rightarrow> StorageServer \<Rightarrow> mutation"
    and answers :: "string \<Rightarrow> revoke_answer"
    and key :: string
  assumes local_: "handler now ss = Some (ss', t, rs, st) \<Longrightarrow> only_at key ss ss'"
    and pool: "handler now ss = Some (ss', t, rs, st) \<Longrightarrow> pool_holders key ss' = pool_holders key ss"
    and clock: "handler now ss = Some (ss', t, rs, st) \<Longrightarrow> now \<le> t"
    and revokes: "handler now ss = Some (ss', t, rs, st) \<Longrightarrow> ss_hashmap ss' key = ss_hashmap ss key \<or>
      revoke_holders answers now (pool_holders key ss) = Some (t, rs)"
begin

text \<open>After the revocation no covered lease on a changed document is still good.\<close>

lemma entry_after:
  assumes e: "entry_inv T c key sys e" and T: "T \<le> now" and sf: "server_for sys key = Some (h, ss)"
    and r: "revoke_holders answers now (pool_holders key ss) = Some (t, rs)" and c: "c \<notin> set rs"
    and serving: "serving answers"
  shows "lapsed t e"
proof (cases "lapsed T e")
  case True
  with T revoke_holders_time [OF r] show ?thesis by (simp add: lapsed_def)
next
  case False
  with e have t: "en_leaseTime e \<le> T" "en_leaseDur e = seconds LEASE_SECONDS"
    and cov: "covered c e (holders_at sys key)" by (auto simp: entry_inv_def)
  from cov sf obtain hd where hd: "hd \<in> set (pool_holders key ss)" "h_address hd = c"
      "en_leaseTime e + en_leaseDur e \<le> h_issueTime hd + seconds (LEASE_SECONDS + LEASE_GUARD_SECONDS)"
    by (auto simp: covered_def holders_at_def)
  from revoke_holders_covers [OF r hd(1) serving] hd(2) c
  consider "lease_over now hd" | n where "n \<ge> now" "t \<ge> n + seconds (LEASE_SECONDS + LEASE_GUARD_SECONDS)"
    | "lease_over t hd" by blast
  then show ?thesis
  proof cases
    case 1
    with hd(3) revoke_holders_time [OF r] show ?thesis by (simp add: lapsed_def lease_over_def)
  next
    case 2
    with t T show ?thesis by (simp add: lapsed_def lease_defs)
  next
    case 3
    with hd(3) show ?thesis by (simp add: lapsed_def lease_over_def)
  qed
qed

lemma mutate_inv:
  assumes inv: "lease_inv T sys" and T: "T \<le> cl_now env" and serving: "serving answers"
    and m: "lib_mutate handler env key sys = Some (sys', t, r)"
  shows "lease_inv t sys' \<and> T \<le> t"
proof -
  from m obtain node where node: "pickServer (sys_nodes sys) key = Some node"
    by (auto simp: lib_mutate_def mutate_via_def split: Option.bind_splits)
  show ?thesis
  proof (cases "sys_servers sys (HostPort node) = None \<or> cl_delivery env = RequestLost")
    case True
    with m node have "sys' = sys" "t = cl_now env"
      by (auto simp: lib_mutate_def mutate_via_def revoke_all_def put_server_same split: option.splits)
    with inv T lease_inv_later show ?thesis by blast
  next
    case False
    then obtain ss where ss: "sys_servers sys (HostPort node) = Some ss" by auto
    let ?h = "HostPort node"
    from m node False ss obtain ss1 rs st where w: "handler (cl_now env) ss = Some (ss1, t, rs, st)"
        "sys' = put_server ?h ss1 (revoke_all key rs sys)"
      by (auto simp: lib_mutate_def mutate_via_def split: Option.bind_splits)
    let ?s = "revoke_all key rs sys"
    have sf: "server_for sys key = Some (?h, ss)" using server_for_pick [OF node ss] .
    have ss': "sys_servers ?s ?h = Some ss" using ss by simp
    note p = put_server_at [OF ss' local_ [OF w(1)]]
    have Tt: "T \<le> t" using T clock [OF w(1)] by simp
    have "lease_inv t sys'"
    proof (rule lease_invI)
      fix c x' k e assume x': "sys_caches sys' c = Some x'" "x' k = Some e" "en_granted e"
      with w(2) have "sys_caches ?s c = Some x'" by simp
      from revoke_all_granted [OF this x'(2,3)] obtain x where
        x: "sys_caches sys c = Some x" "x k = Some e" "k = key \<longrightarrow> c \<notin> set rs" by blast
      have e: "entry_inv T c k sys e" by (rule lease_invD [OF inv x(1,2) x'(3)])
      have base: "doc_at ?s l = doc_at sys l" "holders_at ?s l = holders_at sys l" for l
        by (simp_all add: doc_at_def holders_at_def)
      show "entry_inv t c k sys' e"
      proof (cases "k = key")
        case False
        then have "doc_at sys' k = doc_at sys k" "holders_at sys' k = holders_at sys k"
          using p(1,2) [of k] w(2) base by simp_all
        with entry_inv_frame [OF entry_inv_later [OF e Tt]] show ?thesis by simp
      next
        case True
        have hs: "holders_at sys' key = holders_at sys key"
          using p(4) sf w(2) pool [OF w(1)] by (simp add: holders_at_def)
        from revokes [OF w(1)] show ?thesis
        proof
          assume "ss_hashmap ss1 key = ss_hashmap ss key"
          then have "doc_at sys' key = doc_at sys key" using p(3) sf w(2) by (simp add: doc_at_def)
          with True hs entry_inv_frame [OF entry_inv_later [OF e Tt]] show ?thesis by simp
        next
          assume r: "revoke_holders answers (cl_now env) (pool_holders key ss) = Some (t, rs)"
          from entry_after [OF e [unfolded True] T sf r _ serving] x(3) True have "lapsed t e" by blast
          with entry_inv_later [OF e Tt] show ?thesis by (simp add: entry_inv_def)
        qed
      qed
    qed
    with Tt show ?thesis by blast
  qed
qed

end

lemma revokeLease_spec:
  assumes "revokeLease answers now key ss = Some (ss1, t, rs)"
  shows "ss_hashmap ss1 = ss_hashmap ss" "only_at key ss ss1" "pool_holders key ss1 = pool_holders key ss"
    "revoke_holders answers now (pool_holders key ss) = Some (t, rs)"
  using assms
  by (auto simp: revokeLease_def only_at_def pool_holders_def split: option.splits Option.bind_splits)

lemma pool_holders_upd [simp]: "pool_holders k (ss\<lparr>ss_hashmap := m\<rparr>) = pool_holders k ss"
  by (simp add: pool_holders_def)

lemma only_at_upd: "only_at key ss ss1 \<Longrightarrow> only_at key ss (ss1\<lparr>ss_hashmap := (ss_hashmap ss1)(key \<mapsto> d)\<rparr>)"
  by (simp add: only_at_def)

text \<open>A mutation that revokes and then perhaps changes the document of its key.\<close>

definition revoked_change ::
  "(string \<Rightarrow> revoke_answer) \<Rightarrow> time \<Rightarrow> string \<Rightarrow> StorageServer \<Rightarrow> StorageServer \<Rightarrow> time \<Rightarrow>
   string list \<Rightarrow> bool" where
  "revoked_change answers now key ss ss' t rs \<longleftrightarrow>
     (\<exists>ss1. revokeLease answers now key ss = Some (ss1, t, rs) \<and>
        (ss' = ss1 \<or> (\<exists>d. ss' = ss1\<lparr>ss_hashmap := (ss_hashmap ss1)(key \<mapsto> d)\<rparr>)))"

lemma revoked_change_spec:
  assumes "revoked_change answers now key ss ss' t rs"
  shows "only_at key ss ss'" "pool_holders key ss' = pool_holders key ss" "now \<le> t"
    "revoke_holders answers now (pool_holders key ss) = Some (t, rs)"
proof -
  from assms obtain ss1 where r: "revokeLease answers now key ss = Some (ss1, t, rs)"
    and ss': "ss' = ss1 \<or> (\<exists>d. ss' = ss1\<lparr>ss_hashmap := (ss_hashmap ss1)(key \<mapsto> d)\<rparr>)"
    unfolding revoked_change_def by blast
  note s = revokeLease_spec [OF r]
  show "only_at key ss ss'" using only_at_upd [OF s(2)] s(2) ss' by blast
  show "pool_holders key ss' = pool_holders key ss" using s(3) ss' by auto
  show "now \<le> t" using revoke_holders_time [OF s(4)] .
  show "revoke_holders answers now (pool_holders key ss) = Some (t, rs)" by (rule s(4))
qed

lemma ss_Put_change:
  "ss_Put answers now key v ss = Some (ss', t, rs, st) \<Longrightarrow> revoked_change answers now key ss ss' t rs"
  by (auto simp: ss_Put_def revoked_change_def split: Option.bind_splits)

lemma ss_AppendToList_change:
  assumes "ss_AppendToList answers now key v ss = Some (ss', t, rs, st)"
  shows "revoked_change answers now key ss ss' t rs"
proof -
  from assms obtain ss1 where r: "revokeLease answers now key ss = Some (ss1, t, rs)"
    by (auto simp: ss_AppendToList_def split: Option.bind_splits if_splits)
  with assms have "ss' = ss1 \<or> ss' = ss1\<lparr>ss_hashmap := (ss_hashmap ss1)(key \<mapsto> JArr (doc_list (ss_hashmap ss1 key) @ [v]))\<rparr>"
    by (auto simp: ss_AppendToList_def split: if_splits)
  with r show ?thesis unfolding revoked_change_def by blast
qed

lemma ss_RemoveFromList_change:
  assumes "ss_RemoveFromList answers now key v ss = Some (ss', t, rs, st)"
  shows "ss' = ss \<and> t = now \<or> revoked_change answers now key ss ss' t rs"
proof (cases "ss_hashmap ss key")
  case None
  with assms show ?thesis by (simp add: ss_RemoveFromList_def)
next
  case (Some d)
  with assms obtain ss1 where r: "revokeLease answers now key ss = Some (ss1, t, rs)"
    by (auto simp: ss_RemoveFromList_def split: Option.bind_splits if_splits)
  with assms Some have "ss' = ss1 \<or> ss' = ss1\<lparr>ss_hashmap := (ss_hashmap ss1)(key \<mapsto> JArr (remove1 v (doc_list (Some d))))\<rparr>"
    by (auto simp: ss_RemoveFromList_def split: if_splits)
  with r show ?thesis unfolding revoked_change_def by blast
qed

interpretation put_writer: lease_writer "\<lambda>now. ss_Put answers now key v" answers key for answers key v
  by unfold_locales (blast dest: ss_Put_change revoked_change_spec)+

interpretation append_writer: lease_writer "\<lambda>now. ss_AppendToList answers now key v" answers key for answers key v
  by unfold_locales (blast dest: ss_AppendToList_change revoked_change_spec)+

interpretation remove_writer: lease_writer "\<lambda>now. ss_RemoveFromList answers now key v" answers key for answers key v
proof unfold_locales
  fix now ss ss' t rs st
  assume "ss_RemoveFromList answers now key v ss = Some (ss', t, rs, st)"
  note c = ss_RemoveFromList_change [OF this]
  show "only_at key ss ss'" using c revoked_change_spec(1) by (auto simp: only_at_def)
  show "pool_holders key ss' = pool_holders key ss" using c revoked_change_spec(2) by blast
  show "now \<le> t" using c revoked_change_spec(3) by blast
  show "ss_hashmap ss' key = ss_hashmap ss key \<or>
      revoke_holders answers now (pool_holders key ss) = Some (t, rs)"
    using c revoked_change_spec(4) by blast
qed

section \<open>Histories of a storage system\<close>

text \<open>
  Any operations of any clients, one after the other, in which every lease that is granted reaches its
  client promptly and every client has its callback registered.  A read that is answered by the cache
  or without a lease may take any time.
\<close>

inductive lib_reach :: "time \<Rightarrow> lib_system \<Rightarrow> bool" where
  start: "(\<forall>c x. sys_caches sys c = Some x \<longrightarrow> x = NewCache) \<Longrightarrow> lib_reach T sys"
| get: "lib_reach T sys \<Longrightarrow> T \<le> cl_now env \<Longrightarrow> cl_now env \<le> cl_back env \<Longrightarrow>
    (takes_lease ss_Get always env c key sys \<longrightarrow> prompt env c key sys) \<Longrightarrow>
    iGet always env c key sys = Some (sys', r) \<Longrightarrow> lib_reach (cl_back env) sys'"
| get_list: "lib_reach T sys \<Longrightarrow> T \<le> cl_now env \<Longrightarrow> cl_now env \<le> cl_back env \<Longrightarrow>
    (takes_lease ss_GetList always env c key sys \<longrightarrow> prompt env c key sys) \<Longrightarrow>
    iGetList always env c key sys = Some (sys', rl) \<Longrightarrow> lib_reach (cl_back env) sys'"
| put: "lib_reach T sys \<Longrightarrow> T \<le> cl_now env \<Longrightarrow> serving answers \<Longrightarrow>
    iPut answers env key v sys = Some (sys', t, u) \<Longrightarrow> lib_reach t sys'"
| append: "lib_reach T sys \<Longrightarrow> T \<le> cl_now env \<Longrightarrow> serving answers \<Longrightarrow>
    iAppendToList answers env key v sys = Some (sys', t, u) \<Longrightarrow> lib_reach t sys'"
| remove: "lib_reach T sys \<Longrightarrow> T \<le> cl_now env \<Longrightarrow> serving answers \<Longrightarrow>
    iRemoveFromList answers env key v sys = Some (sys', t, u) \<Longrightarrow> lib_reach t sys'"

lemma lease_inv_start:
  assumes "\<forall>c x. sys_caches sys c = Some x \<longrightarrow> x = NewCache"
  shows "lease_inv T sys"
proof (rule lease_invI)
  fix c x k e assume "sys_caches sys c = Some x" "x k = Some e"
  with assms show "entry_inv T c k sys e" by (auto simp: NewCache_def)
qed

lemma lib_reach_inv: "lib_reach T sys \<Longrightarrow> lease_inv T sys"
proof (induction rule: lib_reach.induct)
  case (start sys T)
  then show ?case by (rule lease_inv_start)
next
  case (get T sys env c key always sys' r)
  then show ?case by (auto simp: iGet_def intro: get_reader.fetch_inv)
next
  case (get_list T sys env c key always sys' rl)
  then show ?case by (auto simp: iGetList_def intro: list_reader.fetch_inv)
next
  case (put T sys env answers key v sys' t u)
  then show ?case using put_writer.mutate_inv [of T sys env answers key v sys' t u] by (simp add: iPut_def)
next
  case (append T sys env answers key v sys' t u)
  then show ?case using append_writer.mutate_inv [of T sys env answers key v sys' t u]
    by (simp add: iAppendToList_def)
next
  case (remove T sys env answers key v sys' t u)
  then show ?case using remove_writer.mutate_inv [of T sys env answers key v sys' t u]
    by (simp add: iRemoveFromList_def)
qed

section \<open>How long a cached value lasts\<close>

text \<open>
  A lease on \<open>k\<close> that the cache of \<open>c\<close> answers from until a time: the lease has not run out then, and
  a query that the cache has counted is not yet old, so the entry is not evicted.
\<close>

definition leased :: "time \<Rightarrow> string \<Rightarrow> string \<Rightarrow> doc \<Rightarrow> lib_system \<Rightarrow> bool" where
  "leased until c k v sys \<longleftrightarrow>
     (\<exists>x e. sys_caches sys c = Some x \<and> x k = Some e \<and> en_granted e \<and> en_val e = v \<and>
        until - en_leaseTime e \<le> en_leaseDur e \<and> (\<exists>q \<in> set (en_ll e). until - q \<le> seconds QUERY_CACHE_SECONDS))"

lemma dropWhile_keeps: "q \<in> set ts \<Longrightarrow> \<not> P q \<Longrightarrow> q \<in> set (dropWhile P ts)"
  by (induction ts) auto

lemma evict_leased:
  assumes "x k = Some e" "until - en_leaseTime e \<le> en_leaseDur e"
    and "q \<in> set (en_ll e)" "until - q \<le> seconds QUERY_CACHE_SECONDS" "now \<le> until"
  shows "evict now x k = Some (clean now e) \<and> q \<in> set (en_ll (clean now e))"
proof -
  have "expire now e = e" using assms(2,5) by (auto simp: expire_def)
  moreover have q: "q \<in> set (en_ll (clean now e))"
    using assms(3-5) by (auto simp: clean_def intro!: dropWhile_keeps)
  then have "en_ll (clean now e) \<noteq> []" by (metis empty_iff empty_set)
  ultimately show ?thesis using assms(1) q by (simp add: evict_def)
qed

lemma clean_fields [simp]:
  "en_granted (clean now e) = en_granted e" "en_val (clean now e) = en_val e"
  "en_leaseTime (clean now e) = en_leaseTime e" "en_leaseDur (clean now e) = en_leaseDur e"
  by (simp_all add: clean_def)

lemma leasedE:
  assumes "leased until c k v sys"
  obtains x e q where "sys_caches sys c = Some x" "x k = Some e" "en_granted e" "en_val e = v"
    "until - en_leaseTime e \<le> en_leaseDur e" "q \<in> set (en_ll e)" "until - q \<le> seconds QUERY_CACHE_SECONDS"
  using assms unfolding leased_def by blast

lemma leased_hit:
  assumes "leased until c k v sys" "now \<le> until"
  shows "\<exists>x. cache_Get now k want (cache_of sys c) = (x, Inr v)"
proof -
  from assms(1) obtain x e q where e: "sys_caches sys c = Some x" "x k = Some e" "en_granted e" "en_val e = v"
    "until - en_leaseTime e \<le> en_leaseDur e" "q \<in> set (en_ll e)" "until - q \<le> seconds QUERY_CACHE_SECONDS"
    by (rule leasedE)
  from evict_leased [of x k e until q now] e assms(2) show ?thesis by (simp add: cache_Get_def cache_of_def)
qed

lemma leased_Get:
  assumes "leased until c k v sys" "now \<le> until" "cache_Get now k' want (cache_of sys d) = (x', r)"
  shows "leased until c k v (put_cache d x' sys)"
proof (cases "d = c")
  case True
  from assms(1) obtain x e q where e: "sys_caches sys c = Some x" "x k = Some e" "en_granted e" "en_val e = v"
    "until - en_leaseTime e \<le> en_leaseDur e" "q \<in> set (en_ll e)" "until - q \<le> seconds QUERY_CACHE_SECONDS"
    by (rule leasedE)
  have ev: "evict now x k = Some (clean now e)" "q \<in> set (en_ll (clean now e))"
    using evict_leased [of x k e until q now] e assms(2) by simp_all
  have "x' k = Some (clean now e)"
    using assms(3) e(1,3) ev(1) True
    by (cases "k' = k") (auto simp: cache_Get_def cache_of_def Let_def split: if_splits)
  with True e(3-5,7) ev(2) show ?thesis unfolding leased_def by (auto intro!: bexI [of _ q])
next
  case False
  with assms(1) show ?thesis by (simp add: leased_def)
qed

lemma leased_servers [simp]: "leased until c k v (put_server h ss sys) = leased until c k v sys"
  by (simp add: leased_def)

lemma leased_fetch:
  assumes "leased until c k v sys" "now \<le> until"
    and f: "fetch_via call as_doc of_doc always now back d key sys = Some (sys', r)"
  shows "leased until c k v sys'"
proof -
  obtain x a where g: "cache_Get now key False (cache_of sys d) = (x, a)"
    by (cases "cache_Get now key False (cache_of sys d)")
  note kept = leased_Get [OF assms(1,2) g]
  show ?thesis
  proof (cases a)
    case (Inr b)
    with f g kept show ?thesis by (auto simp: fetch_via_def)
  next
    case (Inl want)
    have other: "\<not> (d = c \<and> key = k)" using leased_hit [OF assms(1,2), of False] g Inl by auto
    have grant: "leased until c k v (put_cache d y (put_server h ss (put_cache d x sys)))"
      if "cache_Grant back key u l x = Some y" for y h ss u l
      using that kept other
      by (cases "d = c") (auto simp: leased_def cache_Grant_def split: Option.bind_splits)
    from f g Inl kept grant show ?thesis
      by (auto simp: fetch_via_def split: Option.bind_splits option.splits prod.splits if_splits)
  qed
qed

lemma leased_revoke_at: "leased until c k v sys \<Longrightarrow> \<not> (key = k \<and> d = c) \<Longrightarrow> leased until c k v (revoke_at key d sys)"
  by (auto simp: leased_def revoke_at_def RevokeLease_def cache_Revoke_def split: option.splits prod.splits)

lemma leased_revoke_all:
  "leased until c k v sys \<Longrightarrow> \<not> (key = k \<and> c \<in> set rs) \<Longrightarrow> leased until c k v (revoke_all key rs sys)"
proof (induction rs arbitrary: sys)
  case (Cons d rs)
  then show ?case using leased_revoke_at [of until c k v sys key d] by (auto simp: revoke_all_def)
qed (simp add: revoke_all_def)

lemma leased_mutate:
  assumes "leased until c k v sys"
    and f: "mutate_via call now key sys = Some (sys', t, r)"
    and "\<And>ss ss1 t rs reply. call ss = Some (ss1, t, rs, reply) \<Longrightarrow> \<not> (key = k \<and> c \<in> set rs)"
  shows "leased until c k v sys'"
  using f assms(1) leased_revoke_all [OF assms(1)] assms(3)
  by (auto simp: mutate_via_def split: Option.bind_splits option.splits)

text \<open>What ends it is only a revocation that the client executes.\<close>

definition not_executed :: "revoke_answer \<Rightarrow> bool" where
  "not_executed a \<longleftrightarrow> a \<notin> {Answered, Unanswered True}"

lemma revoke_holders_not_executed:
  assumes "not_executed (answers c)" "revoke_holders answers now hs = Some (t, rs)"
  shows "c \<notin> set rs"
  using assms(2)
proof (induction hs arbitrary: now t rs)
  case (Cons h hs)
  show ?case
  proof (cases "lease_over now h \<or> answers (h_address h) = Refused")
    case True
    with Cons show ?thesis by (auto split: if_splits)
  next
    case False
    with Cons.prems obtain now' rs' where r: "revoke_holders answers now' hs = Some (t, rs')"
      and rs: "rs = rs' \<or> rs = h_address h # rs' \<and> answers (h_address h) \<in> {Answered, Unanswered True}"
      by (auto split: revoke_answer.splits Option.bind_splits if_splits)
    from Cons.IH [OF r] rs assms(1) show ?thesis by (auto simp: not_executed_def)
  qed
qed simp

lemma revokeLease_not_executed:
  "not_executed (answers c) \<Longrightarrow> revokeLease answers now key ss = Some (ss1, t, rs) \<Longrightarrow> c \<notin> set rs"
  by (auto simp: revokeLease_def split: option.splits Option.bind_splits dest: revoke_holders_not_executed)

text \<open>Any operations of any clients until a time.\<close>

inductive lib_history :: "(string \<Rightarrow> revoke_answer) \<Rightarrow> time \<Rightarrow> lib_system \<Rightarrow> lib_system \<Rightarrow> bool"
  for answers :: "string \<Rightarrow> revoke_answer" and until :: time and sys :: lib_system where
  history_start: "lib_history answers until sys sys"
| history_get: "lib_history answers until sys s \<Longrightarrow> cl_now env \<le> until \<Longrightarrow> iGet always env d key s = Some (s', r) \<Longrightarrow>
    lib_history answers until sys s'"
| history_list: "lib_history answers until sys s \<Longrightarrow> cl_now env \<le> until \<Longrightarrow> iGetList always env d key s = Some (s', rl) \<Longrightarrow>
    lib_history answers until sys s'"
| history_put: "lib_history answers until sys s \<Longrightarrow> iPut answers env key x s = Some (s', t, u) \<Longrightarrow>
    lib_history answers until sys s'"
| history_append: "lib_history answers until sys s \<Longrightarrow> iAppendToList answers env key x s = Some (s', t, u) \<Longrightarrow>
    lib_history answers until sys s'"
| history_remove: "lib_history answers until sys s \<Longrightarrow> iRemoveFromList answers env key x s = Some (s', t, u) \<Longrightarrow>
    lib_history answers until sys s'"

lemma leased_lib_mutate:
  assumes "leased until c k v sys" and "not_executed (answers c)"
    and "\<And>now ss ss1 t rs st. handler now ss = Some (ss1, t, rs, st) \<Longrightarrow>
      rs = [] \<or> (\<exists>ss2. revokeLease answers now key ss = Some (ss2, t, rs))"
    and "lib_mutate handler env key sys = Some (sys', t, r)"
  shows "leased until c k v sys'"
  using assms(4) unfolding lib_mutate_def
proof (rule leased_mutate [OF assms(1)])
  fix ss ss1 t rs reply
  assume "(if cl_delivery env = RequestLost then Some (ss, cl_now env, [], None)
      else map_option (\<lambda>(ss1, t, rs, status). (ss1, t, rs, if cl_delivery env = ReplyLost then None else Some status))
        (handler (cl_now env) ss)) = Some (ss1, t, rs, reply)"
  then have "rs = [] \<or> (\<exists>st. handler (cl_now env) ss = Some (ss1, t, rs, st))" by (auto split: if_splits)
  with assms(3) revokeLease_not_executed [of answers c, OF assms(2)] show "\<not> (key = k \<and> c \<in> set rs)" by fastforce
qed

lemma leased_history:
  assumes "leased until c k v sys" and "not_executed (answers c)" and "lib_history answers until sys s"
  shows "leased until c k v s"
  using assms(3)
proof induction
  case history_start
  show ?case by (rule assms(1))
next
  case (history_get s env always d key s' r)
  then show ?case by (auto simp: iGet_def lib_fetch_def intro: leased_fetch)
next
  case (history_list s env always d key s' rl)
  then show ?case by (auto simp: iGetList_def lib_fetch_def intro: leased_fetch)
next
  case (history_put s env key x s' t u)
  from history_put(2) show ?case unfolding iPut_def
    by (rule leased_lib_mutate [where answers = answers, rotated 3, OF _ history_put(3) assms(2)])
      (auto simp: ss_Put_def split: Option.bind_splits)
next
  case (history_append s env key x s' t u)
  from history_append(2) show ?case unfolding iAppendToList_def
    by (rule leased_lib_mutate [where answers = answers, rotated 3, OF _ history_append(3) assms(2)])
      (auto simp: ss_AppendToList_def Let_def split: Option.bind_splits if_splits)
next
  case (history_remove s env key x s' t u)
  from history_remove(2) show ?case unfolding iRemoveFromList_def
    by (rule leased_lib_mutate [where answers = answers, rotated 3, OF _ history_remove(3) assms(2)])
      (auto simp: ss_RemoveFromList_def Let_def split: Option.bind_splits if_splits option.splits)
qed

text \<open>A read that is granted a lease makes its value last for ten seconds.\<close>

context lease_reader begin

lemma granted:
  assumes "takes_lease handler always env c key sys" "cl_now env \<le> cl_back env"
  obtains h ss ss1 v l args sys' where "server_for sys key = Some (h, ss)" "ga_Key args = key" "ga_LeaseClient args = c"
    "handler (cl_now env) args ss = (ss1, OK, v, l)" "Granted l"
    "lib_fetch handler as_doc of_doc always env c key sys = Some (sys', Inr v)"
    "leased (cl_now env + seconds LEASE_SECONDS) c key (as_doc v) sys'"
    "server_for sys' key = Some (h, ss1)"
proof -
  obtain x want where g: "cache_Get (cl_now env) key False (cache_of sys c) = (x, Inl want)"
    using assms(1) by (auto simp: takes_lease_def split: prod.splits sum.splits)
  let ?args = "\<lparr>ga_Key = key, ga_WantLease = want \<or> always, ga_LeaseClient = c\<rparr>"
  obtain node ss where n: "pickServer (sys_nodes sys) key = Some node" "sys_servers sys (HostPort node) = Some ss"
    using assms(1) g by (auto simp: takes_lease_def server_for_def split: option.splits)
  obtain ss1 st v l where h: "handler (cl_now env) ?args ss = (ss1, st, v, l)"
    by (cases "handler (cl_now env) ?args ss")
  have t: "pickServer (sys_nodes sys) key = Some node" "sys_servers sys (HostPort node) = Some ss"
    "handler (cl_now env) ?args ss = (ss1, OK, v, l)" "Granted l" "cl_delivery env = Delivered"
    using assms(1) g n h by (auto simp: takes_lease_def server_for_def)
  obtain e where e: "x key = Some e" "cl_now env \<in> set (en_ll e)"
    using g by (auto simp: cache_Get_def Let_def split: if_splits)
  then obtain y where y: "cache_Grant (cl_back env) key (as_doc v) l x = Some y" by (auto simp: cache_Grant_def)
  let ?s = "put_cache c y (put_server (HostPort node) ss1 (put_cache c x sys))"
  have "lib_fetch handler as_doc of_doc always env c key sys = Some (?s, Inr v)"
    using g t y by (simp add: lib_fetch_def fetch_via_def)
  moreover have "leased (cl_now env + seconds LEASE_SECONDS) c key (as_doc v) ?s"
    using y e assms(2) grant(1) [OF t(3,4)]
    by (auto simp: cache_Grant_def leased_def lease_defs QUERY_CACHE_SECONDS_def intro!: bexI [of _ "cl_now env"])
  moreover have "server_for ?s key = Some (HostPort node, ss1)"
    using t(1) by (simp add: server_for_def) (simp add: put_server_def)
  ultimately show thesis using that [of "HostPort node" ss ?args ss1 v l ?s] t server_for_pick [OF t(1,2)] by simp
qed

end

lemma revoke_holders_over: "\<forall>hd \<in> set hs. lease_over now hd \<Longrightarrow> revoke_holders answers now hs = Some (now, [])"
  by (induction hs) auto

section \<open>Properties\<close>

text \<open>A storage system of one node with one document, and the times of a call that takes none.\<close>

definition one_node :: lib_system where
  "one_node =
     \<lparr>sys_nodes = [\<lparr>HostPort = ''h'', NodeID = 0\<rparr>],
      sys_servers = [''h'' \<mapsto> (NewStorageserver True 1 \<lparr>HostPort = ''h'', NodeID = 0\<rparr>)
                       \<lparr>ss_hashmap := [''k'' \<mapsto> JStr ''old'']\<rparr>],
      sys_caches = Map.empty\<rparr>"

definition at_once :: "time \<Rightarrow> call_env" where
  "at_once t = \<lparr>cl_now = t, cl_back = t, cl_delivery = Delivered\<rparr>"

text \<open>
  C2: No stale reads under the lease protocol's assumption: after any history of operations, one after
  the other, of any number of clients with their caches, on any number of servers, with revocations
  answered or lost, in which every client has registered the callback that revokes its leases and
  every read that is granted a lease gets its reply within the guard time of the issue time the server
  has recorded for the client, a successful \<open>Get\<close> or \<open>GetList\<close>, from the cache or from
  the server, returns what the responsible server holds at that moment.  Reads from the cache and
  without a lease may come at any time.  (No program of the repository registers the callback, and a
  renewed lease keeps its old issue time: \<open>own_write_not_read\<close> and \<open>renewed_lease_stale\<close> show what
  happens then.)
\<close>

theorem no_stale_reads:
  assumes "lib_reach T sys" and "T \<le> cl_now env"
  shows "(iGet always env c key sys = Some (sys', Inr s) \<longrightarrow>
      (\<exists>d. doc_at sys key = Some d \<and> s = doc_string d)) \<and>
    (iGetList always env c key sys = Some (sys', Inr l) \<longrightarrow> l = doc_list (doc_at sys key))"
proof -
  note inv = lib_reach_inv [OF assms(1)]
  have "val_ok (JStr s) (doc_at sys key)" if "iGet always env c key sys = Some (sys', Inr s)"
    using get_reader.fetch_current [OF inv assms(2)] that by (simp add: iGet_def)
  moreover have "val_ok (JArr l) (doc_at sys key)" if "iGetList always env c key sys = Some (sys', Inr l)"
    using list_reader.fetch_current [OF inv assms(2)] that by (simp add: iGetList_def)
  ultimately show ?thesis by (auto simp: val_ok_def)
qed

lemmas lib_eval = iGet_def lib_fetch_def fetch_via_def iPut_def lib_mutate_def mutate_via_def one_node_def at_once_def cache_of_def
  put_cache_def put_server_def pickServer_def ss_Get_def ss_Put_def revokeLease_def lease_over_def
  addLeasePool_def cache_Get_def cache_Grant_def evict_def expire_def clean_def new_entry_def NewCache_def
  NewStorageserver_def lease_defs QUERY_CACHE_SECONDS_def QUERY_CACHE_THRESH_def no_lease_def revoke_all_def
  revoke_at_def RevokeLease_def cache_Revoke_def

theorem no_stale_reads_witness:
  "\<exists>s1 s2 s3. iGet True (at_once 0) ''c'' ''k'' one_node = Some (s1, Inr ''old'') \<and>
     iGet True (at_once (seconds 3)) ''c'' ''k'' s1 = Some (s2, Inr ''old'') \<and>
     iGet True (at_once (seconds 9)) ''c'' ''k'' s2 = Some (s3, Inr ''old'') \<and>
     (\<exists>d. doc_at s2 ''k'' = Some d \<and> ''old'' = doc_string d)"
proof -
  obtain s1 s2 s3 where s: "iGet True (at_once 0) ''c'' ''k'' one_node = Some (s1, Inr ''old'')"
      "iGet True (at_once (seconds 3)) ''c'' ''k'' s1 = Some (s2, Inr ''old'')"
      "iGet True (at_once (seconds 9)) ''c'' ''k'' s2 = Some (s3, Inr ''old'')"
      "\<not> takes_lease ss_Get True (at_once (seconds 3)) ''c'' ''k'' s1"
    by (simp add: lib_eval takes_lease_def server_for_def)
  have 0: "lib_reach 0 one_node" by (rule lib_reach.start) (simp add: one_node_def)
  have "prompt (at_once 0) ''c'' ''k'' one_node"
    by (simp add: prompt_def at_once_def lease_defs holders_at_def server_for_def pool_holders_def
        one_node_def NewStorageserver_def pickServer_def)
  with lib_reach.get [OF 0 _ _ _ s(1)] have 1: "lib_reach 0 s1" by (simp add: at_once_def)
  with lib_reach.get [OF 1 _ _ _ s(2)] s(4) have 2: "lib_reach (seconds 3) s2" by (simp add: at_once_def)
  from no_stale_reads [OF 2, of "at_once (seconds 9)" True "''c''" "''k''" s3 "''old''"] s
  show ?thesis by (auto simp: at_once_def)
qed



text \<open>
  Placement: with a nonempty list of nodes sorted by id, \<open>pickServer\<close> picks the node with the
  least id that is not below the hash of the key's part before the colon, or the node with the
  least id when all are below; so all keys of a user are on one server.
\<close>

lemma pickServer_successor:
  assumes "nodes \<noteq> []" and "sorted (map NodeID nodes)" and "key_prefix key' = key_prefix key"
  shows "\<exists>n \<in> set nodes. pickServer nodes key = Some n \<and> pickServer nodes key' = Some n \<and>
    (if \<exists>m \<in> set nodes. NodeID m \<ge> StoreHash (key_prefix key)
     then NodeID n \<ge> StoreHash (key_prefix key) \<and>
       (\<forall>m \<in> set nodes. NodeID m \<ge> StoreHash (key_prefix key) \<longrightarrow> NodeID n \<le> NodeID m)
     else \<forall>m \<in> set nodes. NodeID n \<le> NodeID m)"
proof -
  have "pickServer nodes key' = pickServer nodes key" using assms(3) by (simp add: pickServer_def)
  with pickServer_ring [OF assms(1,2), of key] show ?thesis by auto
qed

lemma pickServer_successor_witness:
  "pickServer [\<lparr>HostPort = ''h'', NodeID = 7\<rparr>] ''ann:U'' = Some \<lparr>HostPort = ''h'', NodeID = 7\<rparr> \<and>
   pickServer [\<lparr>HostPort = ''h'', NodeID = 7\<rparr>] ''ann:T'' = Some \<lparr>HostPort = ''h'', NodeID = 7\<rparr>"
  using pickServer_successor [of "[\<lparr>HostPort = ''h'', NodeID = 7\<rparr>]" "''ann:T''" "''ann:U''"]
  by (auto simp: key_prefix_def)

end
