(* ===== verification/ProxyCounter.thy ===== *)
theory ProxyCounter
  imports Storage
begin

text \<open>
  The counting proxy of \<open>15-440/P2-F11/proxycounter\<close>, which the tests put between a libstore and
  one storage server.  It forwards the storage calls, counts calls, bytes and leases in 32-bit
  counters, and can be told to override answers or leases.

  \<^item> A forwarded call has a \<open>delivery\<close>; when it fails the reply keeps its zero value (status
    \<open>OK\<close>, no value, no lease) and the error is passed on.
  \<^item> A status the tests install by \<open>OverrideStatus\<close> is one of the protocol's status codes.
  \<^item> Every method is one step; the counters are updated atomically in the code.
\<close>

section \<open>State\<close>

record ProxyCounter =
  pc_myhostport :: string
  pc_rpcCount :: u32
  pc_byteCount :: u32
  pc_leaseRequestCount :: u32
  pc_leaseGrantedCount :: u32
  pc_override :: bool
  pc_overrideErr :: "string option"
  pc_overrideStatus :: status_code
  pc_disableLease :: bool
  pc_overrideLeaseSeconds :: int

text \<open>\<open>NewProxyCounter\<close> returns nil when the server cannot be dialled.\<close>

definition NewProxyCounter :: "bool \<Rightarrow> string \<Rightarrow> ProxyCounter option" where
  "NewProxyCounter dialled myhostport =
     (if \<not> dialled then None
      else Some \<lparr>pc_myhostport = myhostport, pc_rpcCount = 0, pc_byteCount = 0,
                 pc_leaseRequestCount = 0, pc_leaseGrantedCount = 0, pc_override = False,
                 pc_overrideErr = None, pc_overrideStatus = OK, pc_disableLease = False,
                 pc_overrideLeaseSeconds = 0\<rparr>)"

definition pc_Reset :: "ProxyCounter \<Rightarrow> ProxyCounter" where
  "pc_Reset pc = pc\<lparr>pc_rpcCount := 0, pc_byteCount := 0, pc_leaseRequestCount := 0,
                    pc_leaseGrantedCount := 0\<rparr>"

definition pc_OverrideLeaseSeconds :: "int \<Rightarrow> ProxyCounter \<Rightarrow> ProxyCounter" where
  "pc_OverrideLeaseSeconds leaseSeconds pc = pc\<lparr>pc_overrideLeaseSeconds := leaseSeconds\<rparr>"

definition pc_DisableLease :: "ProxyCounter \<Rightarrow> ProxyCounter" where
  "pc_DisableLease pc = pc\<lparr>pc_disableLease := True\<rparr>"

definition pc_EnableLease :: "ProxyCounter \<Rightarrow> ProxyCounter" where
  "pc_EnableLease pc = pc\<lparr>pc_disableLease := False\<rparr>"

definition pc_OverrideErr :: "ProxyCounter \<Rightarrow> ProxyCounter" where
  "pc_OverrideErr pc = pc\<lparr>pc_overrideErr := Some ''error'', pc_override := True\<rparr>"

definition pc_OverrideStatus :: "status_code \<Rightarrow> ProxyCounter \<Rightarrow> ProxyCounter" where
  "pc_OverrideStatus status pc = pc\<lparr>pc_overrideStatus := status, pc_override := True\<rparr>"

definition pc_OverrideOff :: "ProxyCounter \<Rightarrow> ProxyCounter" where
  "pc_OverrideOff pc = pc\<lparr>pc_override := False, pc_overrideErr := None, pc_overrideStatus := OK\<rparr>"

section \<open>Forwarded calls\<close>

text \<open>
  The reply of a read with its error; \<open>bytes\<close> says how many bytes a value counts.  \<open>GetList\<close> and
  \<open>Get\<close> differ in the handler and in that number only.
\<close>

type_synonym 'v read_reply = "(status_code \<times> 'v \<times> LeaseStruct) \<times> string option"

definition call_read ::
  "'v \<Rightarrow> (time \<Rightarrow> GetArgs \<Rightarrow> StorageServer \<Rightarrow> StorageServer \<times> status_code \<times> 'v \<times> LeaseStruct) \<Rightarrow>
   delivery \<Rightarrow> time \<Rightarrow> GetArgs \<Rightarrow> StorageServer \<Rightarrow> StorageServer \<times> 'v read_reply" where
  "call_read zero handler d now args ss =
     (case rpc d (handler now args) ss of
        (ss1, None) \<Rightarrow> (ss1, (OK, zero, no_lease), Some ''rpc'')
      | (ss1, Some reply) \<Rightarrow> (ss1, reply, None))"

definition pc_read ::
  "'v \<Rightarrow> ('v \<Rightarrow> nat) \<Rightarrow>
   (time \<Rightarrow> GetArgs \<Rightarrow> StorageServer \<Rightarrow> StorageServer \<times> status_code \<times> 'v \<times> LeaseStruct) \<Rightarrow>
   delivery \<Rightarrow> time \<Rightarrow> GetArgs \<Rightarrow> ProxyCounter \<times> StorageServer \<Rightarrow>
   (ProxyCounter \<times> StorageServer) \<times> 'v read_reply" where
  "pc_read zero bytes handler d now args s =
     (let (pc, ss) = s in
      if pc_override pc then (s, (pc_overrideStatus pc, zero, no_lease), pc_overrideErr pc)
      else
        (let pc1 = (if ga_WantLease args
                    then pc\<lparr>pc_leaseRequestCount := pc_leaseRequestCount pc + 1\<rparr> else pc);
             args1 = (if pc_disableLease pc1 then args\<lparr>ga_WantLease := False\<rparr> else args);
             (ss1, (status, value, lease), err) = call_read zero handler d now args1 ss;
             byteCount = length (ga_Key args) + bytes value;
             lease1 = (if Granted lease \<and> pc_overrideLeaseSeconds pc1 > 0
                       then lease\<lparr>ValidSeconds := pc_overrideLeaseSeconds pc1\<rparr> else lease);
             pc2 = (if Granted lease
                    then pc1\<lparr>pc_leaseGrantedCount := pc_leaseGrantedCount pc1 + 1\<rparr> else pc1)
         in ((pc2\<lparr>pc_rpcCount := pc_rpcCount pc2 + 1,
                  pc_byteCount := pc_byteCount pc2 + of_nat byteCount\<rparr>, ss1),
             (status, value, lease1), err)))"

definition pc_Get ::
  "delivery \<Rightarrow> time \<Rightarrow> GetArgs \<Rightarrow> ProxyCounter \<times> StorageServer \<Rightarrow>
   (ProxyCounter \<times> StorageServer) \<times> string read_reply" where
  "pc_Get = pc_read '''' length ss_Get"

definition pc_GetList ::
  "delivery \<Rightarrow> time \<Rightarrow> GetArgs \<Rightarrow> ProxyCounter \<times> StorageServer \<Rightarrow>
   (ProxyCounter \<times> StorageServer) \<times> string list read_reply" where
  "pc_GetList = pc_read [] (\<lambda>l. sum_list (map length l)) ss_GetList"

text \<open>A mutation, of which the server may panic; the times and holders it returns are dropped.\<close>

type_synonym write_reply = "status_code \<times> string option"

definition call_write ::
  "(StorageServer \<Rightarrow> mutation) \<Rightarrow> delivery \<Rightarrow> StorageServer \<Rightarrow> (StorageServer \<times> write_reply) go" where
  "call_write handler d ss =
     (if d = RequestLost then Some (ss, OK, Some ''rpc'')
      else map_option (\<lambda>(ss1, t, rs, status).
             if d = Delivered then (ss1, status, None) else (ss1, OK, Some ''rpc'')) (handler ss))"

definition pc_write ::
  "(string \<Rightarrow> string \<Rightarrow> StorageServer \<Rightarrow> mutation) \<Rightarrow> delivery \<Rightarrow> string \<Rightarrow> string \<Rightarrow>
   ProxyCounter \<times> StorageServer \<Rightarrow> ((ProxyCounter \<times> StorageServer) \<times> write_reply) go" where
  "pc_write handler d key value s =
     (let (pc, ss) = s in
      if pc_override pc then Some (s, pc_overrideStatus pc, pc_overrideErr pc)
      else do {
        (ss1, reply) \<leftarrow> call_write (handler key value) d ss;
        Some ((pc\<lparr>pc_rpcCount := pc_rpcCount pc + 1,
                  pc_byteCount := pc_byteCount pc + of_nat (length key + length value)\<rparr>, ss1), reply) })"

definition pc_Put ::
  "(string \<Rightarrow> revoke_answer) \<Rightarrow> time \<Rightarrow> delivery \<Rightarrow> string \<Rightarrow> string \<Rightarrow>
   ProxyCounter \<times> StorageServer \<Rightarrow> ((ProxyCounter \<times> StorageServer) \<times> write_reply) go" where
  "pc_Put answers now = pc_write (ss_Put answers now)"

definition pc_AppendToList ::
  "(string \<Rightarrow> revoke_answer) \<Rightarrow> time \<Rightarrow> delivery \<Rightarrow> string \<Rightarrow> string \<Rightarrow>
   ProxyCounter \<times> StorageServer \<Rightarrow> ((ProxyCounter \<times> StorageServer) \<times> write_reply) go" where
  "pc_AppendToList answers now = pc_write (ss_AppendToList answers now)"

definition pc_RemoveFromList ::
  "(string \<Rightarrow> revoke_answer) \<Rightarrow> time \<Rightarrow> delivery \<Rightarrow> string \<Rightarrow> string \<Rightarrow>
   ProxyCounter \<times> StorageServer \<Rightarrow> ((ProxyCounter \<times> StorageServer) \<times> write_reply) go" where
  "pc_RemoveFromList answers now = pc_write (ss_RemoveFromList answers now)"

text \<open>\<open>GetServers\<close> puts the proxy in the place of the one node; more nodes are a panic.\<close>

definition pc_GetServers ::
  "delivery \<Rightarrow> ProxyCounter \<Rightarrow> StorageServer \<Rightarrow> ((bool \<times> Node list) \<times> string option) go" where
  "pc_GetServers d pc ss =
     (let (reply, err) = (case rpc d (\<lambda>s. (s, ss_GetServers s)) ss of
            (_, None) \<Rightarrow> ((False, []), Some ''rpc'')
          | (_, Some (Inl e)) \<Rightarrow> ((False, []), Some e)
          | (_, Some (Inr r)) \<Rightarrow> (r, None))
      in case snd reply of
           [] \<Rightarrow> Some (reply, err)
         | [node] \<Rightarrow> Some ((fst reply, [node\<lparr>HostPort := pc_myhostport pc\<rparr>]), err)
         | _ \<Rightarrow> None)"

section \<open>Histories of calls\<close>

datatype storage_call =
  SGet GetArgs | SGetList GetArgs | SPut string string | SAppend string string | SRemove string string

record counted_call =
  cc_call :: storage_call
  cc_time :: time
  cc_answers :: "string \<Rightarrow> revoke_answer"
  cc_delivery :: delivery

datatype storage_reply =
  ValueReply "string read_reply" | ListReply "string list read_reply" | WriteReply write_reply

text \<open>A call made at the server itself, and through the proxy.\<close>

fun server_call :: "counted_call \<Rightarrow> StorageServer \<Rightarrow> (StorageServer \<times> storage_reply) go" where
  "server_call c ss =
     (case cc_call c of
        SGet args \<Rightarrow> Some (map_prod id ValueReply (call_read '''' ss_Get (cc_delivery c) (cc_time c) args ss))
      | SGetList args \<Rightarrow> Some (map_prod id ListReply (call_read [] ss_GetList (cc_delivery c) (cc_time c) args ss))
      | SPut k v \<Rightarrow> map_option (map_prod id WriteReply)
          (call_write (ss_Put (cc_answers c) (cc_time c) k v) (cc_delivery c) ss)
      | SAppend k v \<Rightarrow> map_option (map_prod id WriteReply)
          (call_write (ss_AppendToList (cc_answers c) (cc_time c) k v) (cc_delivery c) ss)
      | SRemove k v \<Rightarrow> map_option (map_prod id WriteReply)
          (call_write (ss_RemoveFromList (cc_answers c) (cc_time c) k v) (cc_delivery c) ss))"

fun proxy_call ::
  "counted_call \<Rightarrow> ProxyCounter \<times> StorageServer \<Rightarrow>
   ((ProxyCounter \<times> StorageServer) \<times> storage_reply) go" where
  "proxy_call c s =
     (case cc_call c of
        SGet args \<Rightarrow> Some (map_prod id ValueReply (pc_Get (cc_delivery c) (cc_time c) args s))
      | SGetList args \<Rightarrow> Some (map_prod id ListReply (pc_GetList (cc_delivery c) (cc_time c) args s))
      | SPut k v \<Rightarrow> map_option (map_prod id WriteReply)
          (pc_Put (cc_answers c) (cc_time c) (cc_delivery c) k v s)
      | SAppend k v \<Rightarrow> map_option (map_prod id WriteReply)
          (pc_AppendToList (cc_answers c) (cc_time c) (cc_delivery c) k v s)
      | SRemove k v \<Rightarrow> map_option (map_prod id WriteReply)
          (pc_RemoveFromList (cc_answers c) (cc_time c) (cc_delivery c) k v s))"

fun server_calls :: "counted_call list \<Rightarrow> StorageServer \<Rightarrow> (StorageServer \<times> storage_reply list) go" where
  "server_calls [] ss = Some (ss, [])"
| "server_calls (c # cs) ss = do {
     (ss1, r) \<leftarrow> server_call c ss;
     (ss2, rs) \<leftarrow> server_calls cs ss1;
     Some (ss2, r # rs) }"

fun proxy_calls ::
  "counted_call list \<Rightarrow> ProxyCounter \<times> StorageServer \<Rightarrow>
   ((ProxyCounter \<times> StorageServer) \<times> storage_reply list) go" where
  "proxy_calls [] s = Some (s, [])"
| "proxy_calls (c # cs) s = do {
     (s1, r) \<leftarrow> proxy_call c s;
     (s2, rs) \<leftarrow> proxy_calls cs s1;
     Some (s2, r # rs) }"

declare server_call.simps [simp del] proxy_call.simps [simp del]

text \<open>What the counters count, read off a call and its reply.\<close>

fun call_bytes :: "storage_call \<Rightarrow> storage_reply \<Rightarrow> nat" where
  "call_bytes (SGet args) (ValueReply ((st, v, l), e)) = length (ga_Key args) + length v"
| "call_bytes (SGetList args) (ListReply ((st, v, l), e)) =
     length (ga_Key args) + sum_list (map length v)"
| "call_bytes (SPut k v) r = length k + length v"
| "call_bytes (SAppend k v) r = length k + length v"
| "call_bytes (SRemove k v) r = length k + length v"
| "call_bytes _ _ = 0"

fun wants_lease :: "storage_call \<Rightarrow> bool" where
  "wants_lease (SGet args) = ga_WantLease args"
| "wants_lease (SGetList args) = ga_WantLease args"
| "wants_lease _ = False"

fun got_lease :: "storage_reply \<Rightarrow> bool" where
  "got_lease (ValueReply ((st, v, l), e)) = Granted l"
| "got_lease (ListReply ((st, v, l), e)) = Granted l"
| "got_lease (WriteReply w) = False"

definition count_calls :: "(counted_call \<times> storage_reply) list \<Rightarrow> ProxyCounter \<Rightarrow> ProxyCounter" where
  "count_calls crs pc = pc
     \<lparr>pc_rpcCount := pc_rpcCount pc + of_nat (length crs),
      pc_byteCount := pc_byteCount pc + of_nat (\<Sum>(c, r) \<leftarrow> crs. call_bytes (cc_call c) r),
      pc_leaseRequestCount := pc_leaseRequestCount pc +
        of_nat (length (filter (\<lambda>(c, r). wants_lease (cc_call c)) crs)),
      pc_leaseGrantedCount := pc_leaseGrantedCount pc +
        of_nat (length (filter (\<lambda>(c, r). got_lease r) crs))\<rparr>"

text \<open>A proxy that was not told to change anything.\<close>

definition plain :: "ProxyCounter \<Rightarrow> bool" where
  "plain pc \<longleftrightarrow> \<not> pc_override pc \<and> \<not> pc_disableLease pc \<and> pc_overrideLeaseSeconds pc \<le> 0"

lemma count_calls_Nil [simp]: "count_calls [] pc = pc"
  by (simp add: count_calls_def)

lemma count_calls_Cons: "count_calls crs (count_calls [cr] pc) = count_calls (cr # crs) pc"
  by (auto simp: count_calls_def split: prod.splits)

lemma plain_count [simp]: "plain (count_calls crs pc) = plain pc"
  by (simp add: plain_def count_calls_def)

lemma pc_read_plain:
  assumes "plain pc"
  shows "pc_read zero bytes h d now args (pc, ss) =
    (let (ss1, (st, v, l), e) = call_read zero h d now args ss
     in ((pc\<lparr>pc_rpcCount := pc_rpcCount pc + 1,
             pc_byteCount := pc_byteCount pc + of_nat (length (ga_Key args) + bytes v),
             pc_leaseRequestCount := pc_leaseRequestCount pc + (if ga_WantLease args then 1 else 0),
             pc_leaseGrantedCount := pc_leaseGrantedCount pc + (if Granted l then 1 else 0)\<rparr>, ss1),
         (st, v, l), e))"
  using assms by (auto simp: pc_read_def plain_def split: prod.splits)

lemma pc_write_plain:
  assumes "plain pc"
  shows "pc_write h d k v (pc, ss) =
    map_option (\<lambda>(ss1, r). ((pc\<lparr>pc_rpcCount := pc_rpcCount pc + 1,
             pc_byteCount := pc_byteCount pc + of_nat (length k + length v)\<rparr>, ss1), r))
      (call_write (h k v) d ss)"
  using assms by (cases "call_write (h k v) d ss") (auto simp: pc_write_def plain_def)

lemmas pc_read_defs = pc_Get_def pc_GetList_def
lemmas pc_write_defs = pc_Put_def pc_AppendToList_def pc_RemoveFromList_def

lemma proxy_call_plain:
  assumes "plain pc"
  shows "proxy_call c (pc, ss) =
    map_option (\<lambda>(ss1, r). ((count_calls [(c, r)] pc, ss1), r)) (server_call c ss)"
proof (cases "cc_call c")
  case (SGet args)
  then show ?thesis
    by (auto simp: proxy_call.simps server_call.simps pc_read_defs pc_read_plain [OF assms]
        count_calls_def split: prod.splits)
next
  case (SGetList args)
  then show ?thesis
    by (auto simp: proxy_call.simps server_call.simps pc_read_defs pc_read_plain [OF assms]
        count_calls_def split: prod.splits)
qed (simp_all add: proxy_call.simps server_call.simps pc_write_defs pc_write_plain [OF assms]
       count_calls_def option.map_comp comp_def map_prod_def case_prod_unfold)

lemma proxy_calls_plain:
  assumes "plain pc"
  shows "proxy_calls cs (pc, ss) =
    map_option (\<lambda>(ss1, rs). ((count_calls (zip cs rs) pc, ss1), rs)) (server_calls cs ss)"
  using assms
proof (induction cs arbitrary: pc ss)
  case (Cons c cs)
  show ?case
  proof (cases "server_call c ss")
    case None
    then show ?thesis by (simp add: proxy_call_plain [OF Cons.prems])
  next
    case (Some x)
    obtain ss1 r where x: "x = (ss1, r)" by (cases x)
    from Cons.IH [of "count_calls [(c, r)] pc" ss1] Cons.prems Some x show ?thesis
      by (cases "server_calls cs ss1")
        (auto simp: proxy_call_plain count_calls_Cons)
  qed
qed simp

section \<open>Any use of the proxy\<close>

datatype proxy_use =
  Call counted_call | Reset | LeaseSeconds int | NoLeases | Leases | Errs | Status status_code | Off

fun proxy_event ::
  "proxy_use \<Rightarrow> ProxyCounter \<times> StorageServer \<Rightarrow> (ProxyCounter \<times> StorageServer) go" where
  "proxy_event (Call c) s = map_option fst (proxy_call c s)"
| "proxy_event Reset (pc, ss) = Some (pc_Reset pc, ss)"
| "proxy_event (LeaseSeconds n) (pc, ss) = Some (pc_OverrideLeaseSeconds n pc, ss)"
| "proxy_event NoLeases (pc, ss) = Some (pc_DisableLease pc, ss)"
| "proxy_event Leases (pc, ss) = Some (pc_EnableLease pc, ss)"
| "proxy_event Errs (pc, ss) = Some (pc_OverrideErr pc, ss)"
| "proxy_event (Status st) (pc, ss) = Some (pc_OverrideStatus st pc, ss)"
| "proxy_event Off (pc, ss) = Some (pc_OverrideOff pc, ss)"

fun proxy_events ::
  "proxy_use list \<Rightarrow> ProxyCounter \<times> StorageServer \<Rightarrow> (ProxyCounter \<times> StorageServer) go" where
  "proxy_events [] s = Some s"
| "proxy_events (e # es) s = Option.bind (proxy_event e s) (proxy_events es)"

text \<open>
  Granted leases were requested and requested ones were calls, as long as fewer than \<open>2 ^ 32\<close>
  calls were made.
\<close>

definition counts_ok :: "nat \<Rightarrow> ProxyCounter \<Rightarrow> bool" where
  "counts_ok n pc \<longleftrightarrow>
     unat (pc_leaseGrantedCount pc) \<le> unat (pc_leaseRequestCount pc) \<and>
     unat (pc_leaseRequestCount pc) \<le> unat (pc_rpcCount pc) \<and> unat (pc_rpcCount pc) \<le> n"

lemma counts_ok_mono: "counts_ok n pc \<Longrightarrow> n \<le> m \<Longrightarrow> counts_ok m pc"
  by (auto simp: counts_ok_def)

lemma unat_inc: "unat (x::u32) \<le> n \<Longrightarrow> Suc n < 2 ^ 32 \<Longrightarrow> unat (x + 1) = Suc (unat x)"
  by (subst unat_add_lem [THEN iffD1]) simp_all

text \<open>A handler that grants leases only to those who want one, as both read handlers do.\<close>

definition lease_on_request ::
  "(time \<Rightarrow> GetArgs \<Rightarrow> StorageServer \<Rightarrow> StorageServer \<times> status_code \<times> 'v \<times> LeaseStruct) \<Rightarrow> bool" where
  "lease_on_request h \<longleftrightarrow>
     (\<forall>now args ss. \<not> ga_WantLease args \<longrightarrow> \<not> Granted (snd (snd (snd (h now args ss)))))"

lemma read_handlers_lease: "lease_on_request ss_Get" "lease_on_request ss_GetList"
  by (auto simp: lease_on_request_def ss_Get_def ss_GetList_def no_lease_def split: option.splits)

lemma lease_on_requestD:
  "lease_on_request h \<Longrightarrow> snd (h now args ss) = (st, v, l) \<Longrightarrow> Granted l \<Longrightarrow> ga_WantLease args"
  by (metis lease_on_request_def snd_conv)

lemma call_read_lease:
  assumes "lease_on_request h" "call_read zero h d now args ss = (ss1, (st, v, l), e)" "Granted l"
  shows "ga_WantLease args"
  using assms(2,3)
  by (cases d) (auto simp: call_read_def no_lease_def dest: lease_on_requestD [OF assms(1)])

lemma pc_read_counts:
  assumes handler: "lease_on_request h"
  and ok: "counts_ok n pc" and n: "Suc n < 2 ^ 32"
  shows "counts_ok (Suc n) (fst (fst (pc_read zero bytes h d now args (pc, ss))))"
proof (cases "pc_override pc")
  case True
  with counts_ok_mono [OF ok, of "Suc n"] show ?thesis by (simp add: pc_read_def)
next
  case False
  let ?a = "if pc_disableLease pc then args\<lparr>ga_WantLease := False\<rparr> else args"
  obtain ss1 st v l e where r: "call_read zero h d now ?a ss = (ss1, (st, v, l), e)"
    by (metis prod_cases3 surj_pair)
  have granted: "ga_WantLease args" if "Granted l"
    using call_read_lease [OF handler r that] by (simp split: if_splits)
  have inc: "unat (pc_rpcCount pc + 1) = Suc (unat (pc_rpcCount pc))"
      "unat (pc_leaseRequestCount pc + 1) = Suc (unat (pc_leaseRequestCount pc))"
      "unat (pc_leaseGrantedCount pc + 1) = Suc (unat (pc_leaseGrantedCount pc))"
    using ok n by (auto simp: counts_ok_def intro!: unat_inc [where n = n])
  show ?thesis
    using False r granted ok inc
    by (cases "pc_disableLease pc"; cases "Granted l"; cases "ga_WantLease args")
      (simp_all add: pc_read_def counts_ok_def)
qed

lemma pc_write_counts:
  assumes ok: "counts_ok n pc" and n: "Suc n < 2 ^ 32" and w: "pc_write h d k v (pc, ss) = Some (s', r)"
  shows "counts_ok (Suc n) (fst s')"
proof -
  have "unat (pc_rpcCount pc + 1) = Suc (unat (pc_rpcCount pc))"
    using ok n by (auto simp: counts_ok_def intro!: unat_inc [where n = n])
  with ok w show ?thesis
    by (auto simp: pc_write_def counts_ok_def split: if_splits Option.bind_splits)
qed

lemma proxy_call_counts:
  assumes "counts_ok n pc" "Suc n < 2 ^ 32" "proxy_call c (pc, ss) = Some (s', r)"
  shows "counts_ok (Suc n) (fst s')"
proof -
  note read = pc_read_counts [OF read_handlers_lease(1) assms(1,2), of "''''" length "cc_delivery c" "cc_time c" _ ss]
    pc_read_counts [OF read_handlers_lease(2) assms(1,2), of "[]" "\<lambda>l. sum_list (map length l)" "cc_delivery c" "cc_time c" _ ss]
  show ?thesis
  proof (cases "cc_call c")
    case (SGet args)
    with assms(3) read(1) [of args] show ?thesis by (auto simp: proxy_call.simps pc_Get_def map_prod_def split: prod.splits)
  next
    case (SGetList args)
    with assms(3) read(2) [of args] show ?thesis by (auto simp: proxy_call.simps pc_GetList_def map_prod_def split: prod.splits)
  qed (use assms in \<open>auto simp: proxy_call.simps pc_write_defs intro: pc_write_counts\<close>)
qed

lemma proxy_event_counts:
  assumes "counts_ok n (fst s)" "Suc n < 2 ^ 32" "proxy_event e s = Some s'"
  shows "counts_ok (Suc n) (fst s')"
proof (cases e)
  case (Call c)
  with assms proxy_call_counts show ?thesis by (cases s) fastforce
qed (use assms in \<open>cases s; auto simp: counts_ok_def pc_Reset_def pc_OverrideLeaseSeconds_def
       pc_DisableLease_def pc_EnableLease_def pc_OverrideErr_def pc_OverrideStatus_def pc_OverrideOff_def\<close>)+

lemma proxy_events_counts:
  assumes "counts_ok n (fst s)" "n + length es < 2 ^ 32" "proxy_events es s = Some s'"
  shows "counts_ok (n + length es) (fst s')"
  using assms
proof (induction es arbitrary: n s)
  case (Cons e es)
  then obtain s1 where s1: "proxy_event e s = Some s1" "proxy_events es s1 = Some s'"
    by (auto split: Option.bind_splits)
  have "counts_ok (Suc n) (fst s1)" using proxy_event_counts [OF Cons.prems(1) _ s1(1)] Cons.prems(2) by simp
  from Cons.IH [OF this _ s1(2)] Cons.prems(2) show ?case by simp
qed simp

section \<open>Properties\<close>

text \<open>
  C16: The proxy is transparent and counts exactly: a proxy that was not told to override anything
  gives every sequence of reads and writes, whatever calls are lost, the replies and the final
  server state of the same calls made at the server (and panics where the server does), and its
  counters have grown by the number of calls, of bytes of keys and values, of requests for a lease
  and of granted leases, modulo \<open>2 ^ 32\<close>.
\<close>

theorem proxy_equals_server:
  assumes "plain pc"
  shows "proxy_calls cs (pc, ss) =
    map_option (\<lambda>(ss', rs). ((count_calls (zip cs rs) pc, ss'), rs)) (server_calls cs ss)"
  using assms by (rule proxy_calls_plain)

text \<open>A server with one document and a proxy to it, whose call counter is about to wrap.\<close>

definition at_wrap :: "ProxyCounter \<times> StorageServer" where
  "at_wrap =
     ((the (NewProxyCounter True ''p''))\<lparr>pc_rpcCount := 4294967295\<rparr>,
      (NewStorageserver True 1 \<lparr>HostPort = ''h'', NodeID = 0\<rparr>)\<lparr>ss_hashmap := [''k'' \<mapsto> JStr ''abc'']\<rparr>)"

definition two_reads :: "counted_call list" where
  "two_reads =
     (let c = \<lparr>cc_call = SGet \<lparr>ga_Key = ''k'', ga_WantLease = True, ga_LeaseClient = ''c''\<rparr>,
               cc_time = 0, cc_answers = (\<lambda>_. Answered), cc_delivery = Delivered\<rparr>
      in [c, c\<lparr>cc_delivery := ReplyLost\<rparr>])"

theorem proxy_equals_server_witness:
  "\<exists>pc ss rs. proxy_calls two_reads at_wrap = Some ((pc, ss), rs) \<and>
     pc_rpcCount pc = 1 \<and> pc_byteCount pc = 5 \<and> pc_leaseRequestCount pc = 2 \<and>
     pc_leaseGrantedCount pc = 1"
proof -
  have "plain (fst at_wrap)" by (simp add: plain_def at_wrap_def NewProxyCounter_def)
  from proxy_equals_server [OF this, of two_reads "snd at_wrap"] show ?thesis
    by (simp add: two_reads_def at_wrap_def NewProxyCounter_def server_call.simps call_read_def ss_Get_def
        addLeasePool_def NewStorageserver_def count_calls_def lease_defs no_lease_def)
qed

text \<open>
  However a proxy is used, with leases switched off and on, lease times, statuses and errors
  overridden, counters reset and calls lost, in fewer than \<open>2 ^ 32\<close> uses it never counts more granted
  leases than requested ones, nor more requested ones than calls, nor more calls than were made.
\<close>

lemma leases_within_calls:
  assumes "NewProxyCounter True me = Some pc" and "length es < 2 ^ 32"
    and "proxy_events es (pc, ss) = Some s"
  shows "unat (pc_leaseGrantedCount (fst s)) \<le> unat (pc_leaseRequestCount (fst s)) \<and>
    unat (pc_leaseRequestCount (fst s)) \<le> unat (pc_rpcCount (fst s)) \<and>
    unat (pc_rpcCount (fst s)) \<le> length es"
proof -
  have "counts_ok 0 (fst (pc, ss))" using assms(1) by (auto simp: NewProxyCounter_def counts_ok_def)
  from proxy_events_counts [OF this _ assms(3)] assms(2) show ?thesis by (simp add: counts_ok_def)
qed

lemma leases_within_calls_witness:
  "\<exists>s. proxy_events [NoLeases, Call (two_reads ! 0), Leases, Call (two_reads ! 0)]
         (the (NewProxyCounter True ''p''), snd at_wrap) = Some s \<and>
     unat (pc_leaseGrantedCount (fst s)) \<le> unat (pc_leaseRequestCount (fst s)) \<and>
     pc_leaseGrantedCount (fst s) = 1 \<and> pc_leaseRequestCount (fst s) = 2"
proof -
  let ?es = "[NoLeases, Call (two_reads ! 0), Leases, Call (two_reads ! 0)]"
  note defs = two_reads_def at_wrap_def NewProxyCounter_def proxy_call.simps pc_Get_def pc_read_def
    call_read_def ss_Get_def addLeasePool_def NewStorageserver_def lease_defs no_lease_def
    pc_DisableLease_def pc_EnableLease_def
  obtain s where s: "proxy_events ?es (the (NewProxyCounter True ''p''), snd at_wrap) = Some s"
      "pc_leaseGrantedCount (fst s) = 1" "pc_leaseRequestCount (fst s) = 2"
    by (simp add: defs)
  have "NewProxyCounter True ''p'' = Some (the (NewProxyCounter True ''p''))"
    by (simp add: NewProxyCounter_def)
  from leases_within_calls [OF this _ s(1)] s show ?thesis by auto
qed

end
