(* ===== verification/Strconv.thy ===== *)
theory Strconv
  imports Prelude
begin

text \<open>
  The decimal text of an integer, as \<open>strconv.Itoa\<close> and the verb \<open>%d\<close> of Go's standard library
  write it, and that different integers have different texts.
\<close>

fun digits :: "nat \<Rightarrow> string" where
  "digits n = (if n < 10 then [char_of (48 + n)] else digits (n div 10) @ [char_of (48 + n mod 10)])"

declare digits.simps [simp del]

definition Itoa :: "int \<Rightarrow> string" where
  "Itoa i = (if i < 0 then CHR ''-'' # digits (nat (- i)) else digits (nat i))"

text \<open>Reading the digits gives the number back.\<close>

definition number :: "string \<Rightarrow> nat" where
  "number s = foldl (\<lambda>a c. a * 10 + (of_char c - 48)) 0 s"

lemma number_digits: "number (digits n) = n"
proof (induction n rule: digits.induct)
  case (1 n)
  show ?case
  proof (cases "n < 10")
    case True
    then show ?thesis by (subst digits.simps) (simp add: number_def)
  next
    case False
    have "number (digits n) = number (digits (n div 10)) * 10 + n mod 10"
      using False by (subst digits.simps) (simp add: number_def)
    with 1 False show ?thesis by simp
  qed
qed

lemma digits_chars: "c \<in> set (digits n) \<Longrightarrow> of_char c \<in> {48..<58::nat}"
proof (induction n rule: digits.induct)
  case (1 n)
  from "1.prems" have "c = char_of (48 + n mod 10) \<or> \<not> n < 10 \<and> c \<in> set (digits (n div 10))"
    by (subst (asm) digits.simps) (auto split: if_splits)
  with "1.IH" show ?case by auto
qed

lemma digits_no_sign: "CHR ''-'' \<notin> set (digits n)" "CHR '':'' \<notin> set (digits n)"
  using digits_chars [of "CHR ''-''" n] digits_chars [of "CHR '':''" n] by auto

lemma digits_inj [simp]: "digits m = digits n \<longleftrightarrow> m = n"
  using number_digits by metis

lemma Itoa_inj [simp]: "Itoa i = Itoa j \<longleftrightarrow> i = j"
proof -
  have "CHR ''-'' # digits m \<noteq> digits n" "digits n \<noteq> CHR ''-'' # digits m" for m n
    using digits_no_sign(1) [of n] by (metis list.set_intros(1))+
  then show ?thesis by (auto simp: Itoa_def)
qed

lemma Itoa_no_colon: "CHR '':'' \<notin> set (Itoa i)"
  using digits_no_sign(2) by (simp add: Itoa_def)

end
