(* ===== verification/Trib.thy ===== *)
theory Trib
  imports Storage Strconv
begin

text \<open>
  The tribble server of \<open>15-440/P2-F11\<close>: \<open>tribproto\<close> and \<open>tribimpl\<close>, a small social network kept
  in a key-value store.

  \<^item> The store is used through its five operations, a record of functions; each may panic (\<open>None\<close>)
    or return an error.  The locale \<open>kv_store\<close> says what they promise, and is interpreted on the
    handlers of the storage server.
  \<^item> \<open>json.Marshal\<close> and \<open>json.Unmarshal\<close> of a tribble are the arguments \<open>enc\<close> and \<open>dec\<close>; that a
    text decodes to what was encoded is a hypothesis where it is needed.
  \<^item> Each request is one step, at a time it is given.
  \<^item> \<open>sort.Sort\<close> leaves the order of tribbles with the same time open; the model keeps it.
\<close>

section \<open>Protocol\<close>

datatype trib_status = OK | ENOSUCHUSER | ENOSUCHTARGETUSER | EEXISTS

record Tribble =
  tr_Userid :: string
  tr_Posted :: time
  tr_Contents :: string

section \<open>The store\<close>

record 's store_ops =
  st_Get :: "string \<Rightarrow> 's \<Rightarrow> ('s \<times> string result) go"
  st_GetList :: "string \<Rightarrow> 's \<Rightarrow> ('s \<times> string list result) go"
  st_Put :: "string \<Rightarrow> string \<Rightarrow> 's \<Rightarrow> ('s \<times> unit result) go"
  st_AppendToList :: "string \<Rightarrow> string \<Rightarrow> 's \<Rightarrow> ('s \<times> unit result) go"
  st_RemoveFromList :: "string \<Rightarrow> string \<Rightarrow> 's \<Rightarrow> ('s \<times> unit result) go"

section \<open>Keys\<close>

definition user_key :: "string \<Rightarrow> string" where "user_key u = u @ '':U''"
definition trib_key :: "string \<Rightarrow> string" where "trib_key u = u @ '':T''"
definition foll_key :: "string \<Rightarrow> string" where "foll_key u = u @ '':F''"

definition message_key :: "string \<Rightarrow> string \<Rightarrow> string \<Rightarrow> string" where
  "message_key u i hostport = u @ '':'' @ i @ '':'' @ hostport"

section \<open>The server\<close>

record Tribserver =
  ts_hostport :: string
  ts_id :: "32 word"

text \<open>\<open>NewTribserver\<close> returns nil when no libstore can be made.\<close>

definition NewTribserver :: "bool \<Rightarrow> string \<Rightarrow> Tribserver option" where
  "NewTribserver store_ok myhostport =
     (if store_ok then Some \<lparr>ts_hostport = myhostport, ts_id = 0\<rparr> else None)"

fun failed :: "'a result \<Rightarrow> bool" where
  "failed (Inl e) = True"
| "failed (Inr x) = False"

definition ts_CreateUser :: "'s store_ops \<Rightarrow> string \<Rightarrow> 's \<Rightarrow> ('s \<times> trib_status) go" where
  "ts_CreateUser ops u s = do {
     (s, r) \<leftarrow> st_Get ops (user_key u) s;
     if \<not> failed r then Some (s, EEXISTS)
     else do {
       (s, r) \<leftarrow> st_Put ops (user_key u) u s;
       Some (s, if failed r then EEXISTS else OK) } }"

definition ts_AddSubscription ::
  "'s store_ops \<Rightarrow> string \<Rightarrow> string \<Rightarrow> 's \<Rightarrow> ('s \<times> trib_status) go" where
  "ts_AddSubscription ops u target s = do {
     (s, r) \<leftarrow> st_Get ops (user_key u) s;
     if failed r then Some (s, ENOSUCHUSER)
     else do {
       (s, r) \<leftarrow> st_Get ops (user_key target) s;
       if failed r then Some (s, ENOSUCHTARGETUSER)
       else do {
         (s, r) \<leftarrow> st_AppendToList ops (foll_key u) target s;
         Some (s, if failed r then EEXISTS else OK) } } }"

definition ts_RemoveSubscription ::
  "'s store_ops \<Rightarrow> string \<Rightarrow> string \<Rightarrow> 's \<Rightarrow> ('s \<times> trib_status) go" where
  "ts_RemoveSubscription ops u target s = do {
     (s, r) \<leftarrow> st_Get ops (user_key u) s;
     if failed r then Some (s, ENOSUCHUSER)
     else do {
       (s, r) \<leftarrow> st_Get ops (user_key target) s;
       if failed r then Some (s, ENOSUCHTARGETUSER)
       else do {
         (s, r) \<leftarrow> st_RemoveFromList ops (foll_key u) target s;
         Some (s, if failed r then ENOSUCHTARGETUSER else OK) } } }"

definition ts_GetSubscriptions ::
  "'s store_ops \<Rightarrow> string \<Rightarrow> 's \<Rightarrow> ('s \<times> trib_status \<times> string list) go" where
  "ts_GetSubscriptions ops u s = do {
     (s, r) \<leftarrow> st_Get ops (user_key u) s;
     if failed r then Some (s, ENOSUCHUSER, [])
     else do {
       (s, r) \<leftarrow> st_GetList ops (foll_key u) s;
       Some (case r of Inl e \<Rightarrow> (s, ENOSUCHUSER, []) | Inr ids \<Rightarrow> (s, OK, ids)) } }"

text \<open>
  The loop of \<open>GetTribbles\<close> over the ids it reads, newest first; \<open>Inl\<close> is the error that the
  remote call returns when a message is missing.
\<close>

fun get_messages ::
  "'s store_ops \<Rightarrow> (string \<Rightarrow> Tribble) \<Rightarrow> string \<Rightarrow> string \<Rightarrow> string list \<Rightarrow> 's \<Rightarrow>
   ('s \<times> Tribble list result) go" where
  "get_messages ops dec hostport u [] s = Some (s, Inr [])"
| "get_messages ops dec hostport u (i # ids) s = do {
     (s, r) \<leftarrow> st_Get ops (message_key u i hostport) s;
     case r of
       Inl e \<Rightarrow> Some (s, Inl ''get tribble message error'')
     | Inr text \<Rightarrow> do {
         (s, rs) \<leftarrow> get_messages ops dec hostport u ids s;
         Some (s, case rs of Inl e \<Rightarrow> Inl e | Inr ts \<Rightarrow> Inr (dec text # ts)) } }"

definition ts_GetTribbles ::
  "'s store_ops \<Rightarrow> (string \<Rightarrow> Tribble) \<Rightarrow> string \<Rightarrow> string \<Rightarrow> 's \<Rightarrow>
   ('s \<times> (trib_status \<times> Tribble list) result) go" where
  "ts_GetTribbles ops dec hostport u s = do {
     (s, r) \<leftarrow> st_Get ops (user_key u) s;
     if failed r then Some (s, Inr (ENOSUCHUSER, []))
     else do {
       (s, r) \<leftarrow> st_GetList ops (trib_key u) s;
       case r of
         Inl e \<Rightarrow> Some (s, Inr (ENOSUCHUSER, []))
       | Inr ids \<Rightarrow> do {
           (s, ts) \<leftarrow> get_messages ops dec hostport u (take 100 (rev ids)) s;
           Some (s, case ts of Inl e \<Rightarrow> Inl e | Inr l \<Rightarrow> Inr (OK, l)) } } }"

definition ts_PostTribble ::
  "'s store_ops \<Rightarrow> (Tribble \<Rightarrow> string) \<Rightarrow> time \<Rightarrow> string \<Rightarrow> string \<Rightarrow> Tribserver \<times> 's \<Rightarrow>
   ((Tribserver \<times> 's) \<times> trib_status) go" where
  "ts_PostTribble ops enc now u contents st =
     (let (ts, s) = st in do {
      (s, r) \<leftarrow> st_Get ops (user_key u) s;
      if failed r then Some ((ts, s), ENOSUCHUSER)
      else do {
        let ts = ts\<lparr>ts_id := ts_id ts + 1\<rparr>;
        let i = Itoa (sint (ts_id ts));
        (s, r) \<leftarrow> st_AppendToList ops (trib_key u) i s;
        if failed r then Some ((ts, s), EEXISTS)
        else do {
          let trib = \<lparr>tr_Userid = u, tr_Posted = now, tr_Contents = contents\<rparr>;
          (s, r) \<leftarrow> st_Put ops (message_key u i (ts_hostport ts)) (enc trib) s;
          Some ((ts, s), if failed r then EEXISTS else OK) } } })"

text \<open>
  The loop of \<open>GetTribblesBySubscription\<close>: it stops at the first error and takes whatever
  tribbles come with any status.
\<close>

fun collect ::
  "'s store_ops \<Rightarrow> (string \<Rightarrow> Tribble) \<Rightarrow> string \<Rightarrow> string list \<Rightarrow> 's \<Rightarrow>
   ('s \<times> Tribble list result) go" where
  "collect ops dec hostport [] s = Some (s, Inr [])"
| "collect ops dec hostport (u # us) s = do {
     (s, r) \<leftarrow> ts_GetTribbles ops dec hostport u s;
     case r of
       Inl e \<Rightarrow> Some (s, Inl e)
     | Inr (status, ts) \<Rightarrow> do {
         (s, rs) \<leftarrow> collect ops dec hostport us s;
         Some (s, case rs of Inl e \<Rightarrow> Inl e | Inr ts' \<Rightarrow> Inr (ts @ ts')) } }"

definition newest_first :: "Tribble list \<Rightarrow> Tribble list" where
  "newest_first ts = sort_key (\<lambda>t. - tr_Posted t) ts"

definition ts_GetTribblesBySubscription ::
  "'s store_ops \<Rightarrow> (string \<Rightarrow> Tribble) \<Rightarrow> string \<Rightarrow> string \<Rightarrow> 's \<Rightarrow>
   ('s \<times> (trib_status \<times> Tribble list) result) go" where
  "ts_GetTribblesBySubscription ops dec hostport u s = do {
     (s, r) \<leftarrow> st_Get ops (user_key u) s;
     if failed r then Some (s, Inr (ENOSUCHUSER, []))
     else do {
       (s, r) \<leftarrow> st_GetList ops (foll_key u) s;
       case r of
         Inl e \<Rightarrow> Some (s, Inr (ENOSUCHUSER, []))
       | Inr follows \<Rightarrow> do {
           (s, ts) \<leftarrow> collect ops dec hostport follows s;
           Some (s, case ts of
               Inl e \<Rightarrow> Inl e
             | Inr tribs \<Rightarrow>
                 (let tribs = newest_first tribs
                  in Inr (OK, if length tribs > 100 then take 100 tribs else tribs))) } } }"

section \<open>Requests\<close>

datatype trib_call =
  CreateUser string
| AddSubscription string string
| RemoveSubscription string string
| GetSubscriptions string
| PostTribble time string string
| GetTribbles string
| GetTribblesBySubscription string

datatype trib_reply =
  StatusReply trib_status
| UsersReply trib_status "string list"
| TribblesReply trib_status "Tribble list"
| RpcError string

fun tribbles_reply :: "(trib_status \<times> Tribble list) result \<Rightarrow> trib_reply" where
  "tribbles_reply (Inl e) = RpcError e"
| "tribbles_reply (Inr (status, ts)) = TribblesReply status ts"

definition trib_step ::
  "'s store_ops \<Rightarrow> (Tribble \<Rightarrow> string) \<Rightarrow> (string \<Rightarrow> Tribble) \<Rightarrow> trib_call \<Rightarrow> Tribserver \<times> 's \<Rightarrow>
   ((Tribserver \<times> 's) \<times> trib_reply) go" where
  "trib_step ops enc dec c st =
     (let (ts, s) = st; h = ts_hostport ts in
      case c of
        CreateUser u \<Rightarrow> map_option (\<lambda>(s, x). ((ts, s), StatusReply x)) (ts_CreateUser ops u s)
      | AddSubscription u t \<Rightarrow>
          map_option (\<lambda>(s, x). ((ts, s), StatusReply x)) (ts_AddSubscription ops u t s)
      | RemoveSubscription u t \<Rightarrow>
          map_option (\<lambda>(s, x). ((ts, s), StatusReply x)) (ts_RemoveSubscription ops u t s)
      | GetSubscriptions u \<Rightarrow>
          map_option (\<lambda>(s, x, us). ((ts, s), UsersReply x us)) (ts_GetSubscriptions ops u s)
      | PostTribble now u m \<Rightarrow>
          map_option (\<lambda>(st, x). (st, StatusReply x)) (ts_PostTribble ops enc now u m st)
      | GetTribbles u \<Rightarrow>
          map_option (\<lambda>(s, r). ((ts, s), tribbles_reply r)) (ts_GetTribbles ops dec h u s)
      | GetTribblesBySubscription u \<Rightarrow>
          map_option (\<lambda>(s, r). ((ts, s), tribbles_reply r)) (ts_GetTribblesBySubscription ops dec h u s))"

fun trib_run ::
  "'s store_ops \<Rightarrow> (Tribble \<Rightarrow> string) \<Rightarrow> (string \<Rightarrow> Tribble) \<Rightarrow> trib_call list \<Rightarrow> Tribserver \<times> 's \<Rightarrow>
   ((Tribserver \<times> 's) \<times> trib_reply list) go" where
  "trib_run ops enc dec [] st = Some (st, [])"
| "trib_run ops enc dec (c # cs) st = do {
     (st, r) \<leftarrow> trib_step ops enc dec c st;
     (st, rs) \<leftarrow> trib_run ops enc dec cs st;
     Some (st, r # rs) }"

section \<open>Distinct keys\<close>

lemma last_separator:
  assumes "xs @ c # ys = xs' @ c # ys'" "c \<notin> set ys" "c \<notin> set ys'"
  shows "xs = xs' \<and> ys = ys'"
proof -
  have "takeWhile (\<lambda>x. x \<noteq> c) (rev (zs @ c # ws)) = rev ws" if "c \<notin> set ws" for zs ws :: "'a list"
    using that by (subst rev_append) (auto simp: takeWhile_tail)
  with assms have "rev ys = rev ys'" by metis
  with assms(1) show ?thesis by simp
qed

lemma message_key_inj [simp]: "message_key u (Itoa i) h = message_key v (Itoa j) h \<longleftrightarrow> u = v \<and> i = j"
proof
  assume "message_key u (Itoa i) h = message_key v (Itoa j) h"
  then have "u @ CHR '':'' # Itoa i = v @ CHR '':'' # Itoa j" by (simp add: message_key_def)
  from last_separator [OF this] Itoa_no_colon show "u = v \<and> i = j" by simp
qed simp

lemma key_inj [simp]:
  "user_key u = user_key v \<longleftrightarrow> u = v" "trib_key u = trib_key v \<longleftrightarrow> u = v" "foll_key u = foll_key v \<longleftrightarrow> u = v"
  "user_key u \<noteq> trib_key v" "user_key u \<noteq> foll_key v" "trib_key u \<noteq> user_key v"
  "trib_key u \<noteq> foll_key v" "foll_key u \<noteq> user_key v" "foll_key u \<noteq> trib_key v"
  by (auto simp: user_key_def trib_key_def foll_key_def)

text \<open>A server's address ends in a port, so a message key is no other kind of key.\<close>

definition host_ok :: "string \<Rightarrow> bool" where
  "host_ok h \<longleftrightarrow> h \<noteq> '''' \<and> last h \<notin> {CHR ''U'', CHR ''T'', CHR ''F''}"

lemma message_key_other:
  assumes "host_ok h"
  shows "message_key u i h \<noteq> user_key v" "message_key u i h \<noteq> trib_key v" "message_key u i h \<noteq> foll_key v"
    "user_key v \<noteq> message_key u i h" "trib_key v \<noteq> message_key u i h" "foll_key v \<noteq> message_key u i h"
proof -
  have "last (message_key u i h) = last h" using assms by (simp add: message_key_def host_ok_def)
  moreover have "last (user_key v) = CHR ''U''" "last (trib_key v) = CHR ''T''" "last (foll_key v) = CHR ''F''"
    by (simp_all add: user_key_def trib_key_def foll_key_def)
  ultimately show "message_key u i h \<noteq> user_key v" "message_key u i h \<noteq> trib_key v"
      "message_key u i h \<noteq> foll_key v" "user_key v \<noteq> message_key u i h"
      "trib_key v \<noteq> message_key u i h" "foll_key v \<noteq> message_key u i h"
    using assms unfolding host_ok_def by auto
qed

section \<open>The abstract network\<close>

text \<open>
  Members, whom each follows and what each posted (oldest first, with its number).  A member who
  has never followed or posted has no list.
\<close>

record network =
  sn_members :: "string set"
  sn_follows :: "string \<rightharpoonup> string list"
  sn_posts :: "string \<rightharpoonup> (int \<times> Tribble) list"
  sn_count :: int

definition empty_network :: network where
  "empty_network = \<lparr>sn_members = {}, sn_follows = Map.empty, sn_posts = Map.empty, sn_count = 0\<rparr>"

definition listed :: "'a list option \<Rightarrow> 'a list" where
  "listed x = (case x of None \<Rightarrow> [] | Some l \<Rightarrow> l)"

definition newest :: "network \<Rightarrow> string \<Rightarrow> Tribble list" where
  "newest sn u = (if u \<in> sn_members sn then take 100 (rev (map snd (listed (sn_posts sn u)))) else [])"

definition timeline :: "network \<Rightarrow> string list \<Rightarrow> Tribble list" where
  "timeline sn us = take 100 (newest_first (concat (map (newest sn) us)))"

fun network_step :: "trib_call \<Rightarrow> network \<Rightarrow> network \<times> trib_reply" where
  "network_step (CreateUser u) sn =
     (if u \<in> sn_members sn then (sn, StatusReply EEXISTS)
      else (sn\<lparr>sn_members := insert u (sn_members sn)\<rparr>, StatusReply OK))"
| "network_step (AddSubscription u t) sn =
     (if u \<notin> sn_members sn then (sn, StatusReply ENOSUCHUSER)
      else if t \<notin> sn_members sn then (sn, StatusReply ENOSUCHTARGETUSER)
      else if t \<in> set (listed (sn_follows sn u)) then (sn, StatusReply EEXISTS)
      else (sn\<lparr>sn_follows := (sn_follows sn)(u \<mapsto> listed (sn_follows sn u) @ [t])\<rparr>, StatusReply OK))"
| "network_step (RemoveSubscription u t) sn =
     (if u \<notin> sn_members sn then (sn, StatusReply ENOSUCHUSER)
      else if t \<notin> sn_members sn \<or> t \<notin> set (listed (sn_follows sn u)) then (sn, StatusReply ENOSUCHTARGETUSER)
      else (sn\<lparr>sn_follows := (sn_follows sn)(u \<mapsto> remove1 t (listed (sn_follows sn u)))\<rparr>, StatusReply OK))"
| "network_step (GetSubscriptions u) sn =
     (sn, if u \<in> sn_members sn
          then (case sn_follows sn u of None \<Rightarrow> UsersReply ENOSUCHUSER [] | Some us \<Rightarrow> UsersReply OK us)
          else UsersReply ENOSUCHUSER [])"
| "network_step (PostTribble now u m) sn =
     (if u \<notin> sn_members sn then (sn, StatusReply ENOSUCHUSER)
      else (sn\<lparr>sn_count := sn_count sn + 1,
              sn_posts := (sn_posts sn)(u \<mapsto> listed (sn_posts sn u) @
                [(sn_count sn + 1, \<lparr>tr_Userid = u, tr_Posted = now, tr_Contents = m\<rparr>)])\<rparr>, StatusReply OK))"
| "network_step (GetTribbles u) sn =
     (sn, if u \<in> sn_members sn \<and> sn_posts sn u \<noteq> None then TribblesReply OK (newest sn u)
          else TribblesReply ENOSUCHUSER [])"
| "network_step (GetTribblesBySubscription u) sn =
     (sn, if u \<in> sn_members sn
          then (case sn_follows sn u of
              None \<Rightarrow> TribblesReply ENOSUCHUSER []
            | Some us \<Rightarrow> TribblesReply OK (timeline sn us))
          else TribblesReply ENOSUCHUSER [])"

fun network_run :: "trib_call list \<Rightarrow> network \<Rightarrow> network \<times> trib_reply list" where
  "network_run [] sn = (sn, [])"
| "network_run (c # cs) sn =
     (let (sn1, r) = network_step c sn; (sn2, rs) = network_run cs sn1 in (sn2, r # rs))"

end
