(* ===== verification/TribStore.thy ===== *)
theory TribStore
  imports Trib "HOL-Library.Multiset"
begin

text \<open>
  What the tribble server needs of its store (the locale \<open>kv_store\<close>), the proof that over any
  such store it refines the abstract network of \<open>Trib\<close>, and the interpretation of the locale on
  the handlers of the storage server.
\<close>

section \<open>The contract of a store\<close>

text \<open>
  \<open>docs s\<close> is the content of the store in state \<open>s\<close> and \<open>ok\<close> an invariant of its own.  A write is
  promised to work only where the key is \<open>free\<close>, which reads of other keys do not change; a key
  without a document is free.  A string is read from a string and a list from a list.
\<close>

locale kv_store =
  fixes ops :: "'s store_ops"
    and ok :: "'s \<Rightarrow> bool"
    and docs :: "'s \<Rightarrow> string \<Rightarrow> doc option"
    and free :: "string \<Rightarrow> 's \<Rightarrow> bool"
  assumes get_none: "ok s \<Longrightarrow> docs s k = None \<Longrightarrow>
      \<exists>s' e. st_Get ops k s = Some (s', Inl e) \<and> ok s' \<and> docs s' = docs s \<and> (\<forall>k'. k' \<noteq> k \<longrightarrow> free k' s \<longrightarrow> free k' s')"
    and get_some: "ok s \<Longrightarrow> docs s k = Some (JStr v) \<Longrightarrow>
      \<exists>s'. st_Get ops k s = Some (s', Inr v) \<and> ok s' \<and> docs s' = docs s \<and> (\<forall>k'. k' \<noteq> k \<longrightarrow> free k' s \<longrightarrow> free k' s')"
    and list_none: "ok s \<Longrightarrow> docs s k = None \<Longrightarrow>
      \<exists>s' e. st_GetList ops k s = Some (s', Inl e) \<and> ok s' \<and> docs s' = docs s"
    and list_some: "ok s \<Longrightarrow> docs s k = Some (JArr l) \<Longrightarrow>
      \<exists>s'. st_GetList ops k s = Some (s', Inr l) \<and> ok s' \<and> docs s' = docs s"
    and free_new: "ok s \<Longrightarrow> docs s k = None \<Longrightarrow> free k s"
    and put: "ok s \<Longrightarrow> free k s \<Longrightarrow>
      \<exists>s'. st_Put ops k v s = Some (s', Inr ()) \<and> ok s' \<and> docs s' = (docs s)(k \<mapsto> JStr v)"
    and append_new: "ok s \<Longrightarrow> free k s \<Longrightarrow> v \<notin> set (doc_list (docs s k)) \<Longrightarrow>
      \<exists>s'. st_AppendToList ops k v s = Some (s', Inr ()) \<and> ok s' \<and>
        docs s' = (docs s)(k \<mapsto> JArr (doc_list (docs s k) @ [v]))"
    and append_old: "ok s \<Longrightarrow> free k s \<Longrightarrow> v \<in> set (doc_list (docs s k)) \<Longrightarrow>
      \<exists>s' e. st_AppendToList ops k v s = Some (s', Inl e) \<and> ok s' \<and> docs s' = docs s"
    and remove_there: "ok s \<Longrightarrow> free k s \<Longrightarrow> v \<in> set (doc_list (docs s k)) \<Longrightarrow>
      \<exists>s'. st_RemoveFromList ops k v s = Some (s', Inr ()) \<and> ok s' \<and>
        docs s' = (docs s)(k \<mapsto> JArr (remove1 v (doc_list (docs s k))))"
    and remove_absent: "ok s \<Longrightarrow> free k s \<Longrightarrow> v \<notin> set (doc_list (docs s k)) \<Longrightarrow>
      \<exists>s' e. st_RemoveFromList ops k v s = Some (s', Inl e) \<and> ok s' \<and> docs s' = docs s"

section \<open>How a store holds a network\<close>

text \<open>
  The hypothesis on \<open>json.Marshal\<close> and \<open>json.Unmarshal\<close>, for tribbles whose texts are valid UTF-8: what
  is not is replaced by \<open>encoding/json\<close>, so for them the left inverse is an idealisation.
\<close>

definition codec_ok :: "(Tribble \<Rightarrow> string) \<Rightarrow> (string \<Rightarrow> Tribble) \<Rightarrow> bool" where
  "codec_ok enc dec \<longleftrightarrow> (\<forall>t. dec (enc t) = t)"

definition holds_members :: "(string \<Rightarrow> doc option) \<Rightarrow> network \<Rightarrow> bool" where
  "holds_members D sn \<longleftrightarrow>
     (\<forall>u. D (user_key u) = (if u \<in> sn_members sn then Some (JStr u) else None))"

definition holds_follows :: "(string \<Rightarrow> doc option) \<Rightarrow> network \<Rightarrow> bool" where
  "holds_follows D sn \<longleftrightarrow> (\<forall>u. D (foll_key u) = map_option JArr (sn_follows sn u))"

definition holds_ids :: "(string \<Rightarrow> doc option) \<Rightarrow> network \<Rightarrow> bool" where
  "holds_ids D sn \<longleftrightarrow>
     (\<forall>u. D (trib_key u) = map_option (\<lambda>l. JArr (map (\<lambda>(i, t). Itoa i) l)) (sn_posts sn u))"

definition holds_messages ::
  "string \<Rightarrow> (Tribble \<Rightarrow> string) \<Rightarrow> (string \<Rightarrow> doc option) \<Rightarrow> network \<Rightarrow> bool" where
  "holds_messages h enc D sn \<longleftrightarrow>
     (\<forall>u i t. (i, t) \<in> set (listed (sn_posts sn u)) \<longrightarrow>
        D (message_key u (Itoa i) h) = Some (JStr (enc t)) \<and> i \<le> sn_count sn) \<and>
     (\<forall>u i. sn_count sn < i \<longrightarrow> D (message_key u (Itoa i) h) = None)"

definition holds ::
  "string \<Rightarrow> (Tribble \<Rightarrow> string) \<Rightarrow> (string \<Rightarrow> doc option) \<Rightarrow> network \<Rightarrow> bool" where
  "holds h enc D sn \<longleftrightarrow>
     holds_members D sn \<and> holds_follows D sn \<and> holds_ids D sn \<and> holds_messages h enc D sn"

lemmas holds_defs = holds_members_def holds_follows_def holds_ids_def holds_messages_def

lemma holdsD:
  assumes "holds h enc D sn"
  shows "u \<in> sn_members sn \<Longrightarrow> D (user_key u) = Some (JStr u)"
    and "u \<notin> sn_members sn \<Longrightarrow> D (user_key u) = None"
    and "D (foll_key u) = map_option JArr (sn_follows sn u)"
    and "D (trib_key u) = map_option (\<lambda>l. JArr (map (\<lambda>(i, t). Itoa i) l)) (sn_posts sn u)"
    and "(i, t) \<in> set (listed (sn_posts sn u)) \<Longrightarrow> D (message_key u (Itoa i) h) = Some (JStr (enc t))"
    and "(i, t) \<in> set (listed (sn_posts sn u)) \<Longrightarrow> i \<le> sn_count sn"
    and "sn_count sn < i \<Longrightarrow> D (message_key u (Itoa i) h) = None"
  using assms by (auto simp: holds_def holds_defs)

lemma holds_lists:
  assumes "holds h enc D sn"
  shows "doc_list (D (foll_key u)) = listed (sn_follows sn u)"
    and "doc_list (D (trib_key u)) = map (\<lambda>(i, t). Itoa i) (listed (sn_posts sn u))"
  using holdsD(3,4) [OF assms, of u] by (auto simp: listed_def split: option.splits)

lemma holds_create:
  assumes "holds h enc D sn" "host_ok h"
  shows "holds h enc (D(user_key u \<mapsto> JStr u)) (sn\<lparr>sn_members := insert u (sn_members sn)\<rparr>)"
  using assms by (auto simp: holds_def holds_defs message_key_other)

lemma holds_follow:
  assumes "holds h enc D sn" "host_ok h"
  shows "holds h enc (D(foll_key u \<mapsto> JArr l)) (sn\<lparr>sn_follows := (sn_follows sn)(u \<mapsto> l)\<rparr>)"
  using assms by (auto simp: holds_def holds_defs message_key_other)

lemma holds_post:
  assumes "holds h enc D sn" "host_ok h"
  defines "i \<equiv> sn_count sn + 1"
  shows "holds h enc
    (D(trib_key u \<mapsto> JArr (map (\<lambda>(i, t). Itoa i) (listed (sn_posts sn u)) @ [Itoa i]),
       message_key u (Itoa i) h \<mapsto> JStr (enc t)))
    (sn\<lparr>sn_count := i, sn_posts := (sn_posts sn)(u \<mapsto> listed (sn_posts sn u) @ [(i, t)])\<rparr>)"
    (is "holds h enc ?D ?sn")
  unfolding holds_def
proof (intro conjI)
  show "holds_members ?D ?sn" using assms by (auto simp: holds_def holds_defs message_key_other)
  show "holds_follows ?D ?sn" using assms by (auto simp: holds_def holds_defs message_key_other)
  show "holds_ids ?D ?sn" using assms by (auto simp: holds_def holds_defs message_key_other)
  have new: "(j, t') \<in> set (listed (sn_posts sn v)) \<Longrightarrow> j < i" for j t' v
    using holdsD(6) [OF assms(1)] by (fastforce simp: i_def)
  show "holds_messages h enc ?D ?sn"
    unfolding holds_messages_def
  proof (rule conjI; intro allI impI)
    fix v j
    assume "sn_count ?sn < j"
    then show "?D (message_key v (Itoa j) h) = None"
      using holdsD(7) [OF assms(1), of j v] assms(2) by (simp add: i_def message_key_other)
  next
    fix v j t'
    assume "(j, t') \<in> set (listed (sn_posts ?sn v))"
    then consider "v = u" "j = i" "t' = t" | "(j, t') \<in> set (listed (sn_posts sn v))"
      by (auto simp: listed_def split: if_splits)
    then show "?D (message_key v (Itoa j) h) = Some (JStr (enc t')) \<and> j \<le> sn_count ?sn"
    proof cases
      case 2
      with new [OF 2] holdsD(5) [OF assms(1) 2] assms(2) show ?thesis
        by (simp add: message_key_other)
    qed simp
  qed
qed

section \<open>Refinement over any store\<close>

definition server_of :: "string \<Rightarrow> network \<Rightarrow> Tribserver" where
  "server_of h sn = \<lparr>ts_hostport = h, ts_id = of_int (sn_count sn)\<rparr>"

definition network_ok :: "network \<Rightarrow> bool" where
  "network_ok sn \<longleftrightarrow> 0 \<le> sn_count sn \<and> (\<forall>u. sn_posts sn u \<noteq> None \<longrightarrow> u \<in> sn_members sn)"

lemma sint_of_count: "0 \<le> n \<Longrightarrow> n < 2 ^ 31 \<Longrightarrow> sint (of_int n :: 32 word) = n"
  by (simp add: int_word_sint)

lemma newest_shape: "newest sn u = take 100 (map snd (rev (listed (sn_posts sn u))))" if "u \<in> sn_members sn"
  using that by (simp add: newest_def rev_map)

context kv_store
begin

lemma get_user:
  assumes "ok s" "holds h enc (docs s) sn"
  shows "\<exists>s' r. st_Get ops (user_key u) s = Some (s', r) \<and> failed r = (u \<notin> sn_members sn) \<and>
    ok s' \<and> docs s' = docs s \<and> (\<forall>k'. k' \<noteq> user_key u \<longrightarrow> free k' s \<longrightarrow> free k' s')"
proof (cases "u \<in> sn_members sn")
  case True
  from get_some [OF assms(1) holdsD(1) [OF assms(2) True]] True show ?thesis by auto
next
  case False
  from get_none [OF assms(1) holdsD(2) [OF assms(2) False]] False show ?thesis by auto
qed

lemma create_user:
  assumes "ok s" "holds h enc (docs s) sn" "host_ok h"
  shows "\<exists>s'. ts_CreateUser ops u s = Some (s', if u \<in> sn_members sn then EEXISTS else OK) \<and> ok s' \<and>
    holds h enc (docs s') (fst (network_step (CreateUser u) sn))"
proof -
  from get_user [OF assms(1,2), of u] obtain s1 r where s1: "st_Get ops (user_key u) s = Some (s1, r)"
      "failed r = (u \<notin> sn_members sn)" "ok s1" "docs s1 = docs s" by blast
  show ?thesis
  proof (cases "u \<in> sn_members sn")
    case True
    with s1 assms show ?thesis by (simp add: ts_CreateUser_def)
  next
    case False
    from free_new [OF s1(3), of "user_key u"] holdsD(2) [OF assms(2) False] s1(4) have "free (user_key u) s1" by simp
    from put [OF s1(3) this, of u] obtain s2 where "st_Put ops (user_key u) u s1 = Some (s2, Inr ())"
      "ok s2" "docs s2 = (docs s)(user_key u \<mapsto> JStr u)" using s1(4) by auto
    with s1 assms False holds_create [OF assms(2,3), of u] show ?thesis by (simp add: ts_CreateUser_def)
  qed
qed

lemma add_subscription:
  assumes "ok s" "holds h enc (docs s) sn" "host_ok h" "free (foll_key u) s"
  shows "\<exists>s'. map_option (\<lambda>(s, x). (s, StatusReply x)) (ts_AddSubscription ops u t s) =
      Some (s', snd (network_step (AddSubscription u t) sn)) \<and> ok s' \<and>
    holds h enc (docs s') (fst (network_step (AddSubscription u t) sn))"
proof -
  let ?l = "listed (sn_follows sn u)"
  from get_user [OF assms(1,2), of u] obtain s1 r where s1: "st_Get ops (user_key u) s = Some (s1, r)"
      "failed r = (u \<notin> sn_members sn)" "ok s1" "docs s1 = docs s" "free (foll_key u) s1"
    using assms(4) by (metis key_inj(8))
  from get_user [OF s1(3), of h enc sn t] assms(2) s1(4) obtain s2 r2 where
    s2: "st_Get ops (user_key t) s1 = Some (s2, r2)" "failed r2 = (t \<notin> sn_members sn)" "ok s2"
      "docs s2 = docs s" "free (foll_key u) s2" using s1(5) by (metis key_inj(8))
  show ?thesis
  proof (cases "t \<in> set ?l")
    case True
    with append_old [OF s2(3,5), of t] holds_lists(1) [OF assms(2)] s2(4) obtain s3 e where
      "st_AppendToList ops (foll_key u) t s2 = Some (s3, Inl e)" "ok s3" "docs s3 = docs s" by auto
    with True s1 s2 assms show ?thesis by (simp add: ts_AddSubscription_def)
  next
    case False
    with append_new [OF s2(3,5), of t] holds_lists(1) [OF assms(2)] s2(4) obtain s3 where
      "st_AppendToList ops (foll_key u) t s2 = Some (s3, Inr ())" "ok s3"
      "docs s3 = (docs s)(foll_key u \<mapsto> JArr (?l @ [t]))" by auto
    with False s1 s2 assms holds_follow [OF assms(2,3), of u] show ?thesis
      by (simp add: ts_AddSubscription_def)
  qed
qed

lemma remove_subscription:
  assumes "ok s" "holds h enc (docs s) sn" "host_ok h" "free (foll_key u) s"
  shows "\<exists>s'. map_option (\<lambda>(s, x). (s, StatusReply x)) (ts_RemoveSubscription ops u t s) =
      Some (s', snd (network_step (RemoveSubscription u t) sn)) \<and> ok s' \<and>
    holds h enc (docs s') (fst (network_step (RemoveSubscription u t) sn))"
proof -
  let ?l = "listed (sn_follows sn u)"
  from get_user [OF assms(1,2), of u] obtain s1 r where s1: "st_Get ops (user_key u) s = Some (s1, r)"
      "failed r = (u \<notin> sn_members sn)" "ok s1" "docs s1 = docs s" "free (foll_key u) s1"
    using assms(4) by (metis key_inj(8))
  from get_user [OF s1(3), of h enc sn t] assms(2) s1(4) obtain s2 r2 where
    s2: "st_Get ops (user_key t) s1 = Some (s2, r2)" "failed r2 = (t \<notin> sn_members sn)" "ok s2"
      "docs s2 = docs s" "free (foll_key u) s2" using s1(5) by (metis key_inj(8))
  show ?thesis
  proof (cases "t \<in> set ?l")
    case True
    with remove_there [OF s2(3,5), of t] holds_lists(1) [OF assms(2)] s2(4) obtain s3 where
      "st_RemoveFromList ops (foll_key u) t s2 = Some (s3, Inr ())" "ok s3"
      "docs s3 = (docs s)(foll_key u \<mapsto> JArr (remove1 t ?l))" by auto
    with True s1 s2 assms holds_follow [OF assms(2,3), of u] show ?thesis
      by (simp add: ts_RemoveSubscription_def)
  next
    case False
    with remove_absent [OF s2(3,5), of t] holds_lists(1) [OF assms(2)] s2(4) obtain s3 e where
      "st_RemoveFromList ops (foll_key u) t s2 = Some (s3, Inl e)" "ok s3" "docs s3 = docs s" by auto
    with False s1 s2 assms show ?thesis by (simp add: ts_RemoveSubscription_def)
  qed
qed

lemma get_subscriptions:
  assumes "ok s" "holds h enc (docs s) sn"
  shows "\<exists>s'. map_option (\<lambda>(s, x, us). (s, UsersReply x us)) (ts_GetSubscriptions ops u s) =
      Some (s', snd (network_step (GetSubscriptions u) sn)) \<and> ok s' \<and> docs s' = docs s"
proof -
  from get_user [OF assms, of u] obtain s1 r where s1: "st_Get ops (user_key u) s = Some (s1, r)"
      "failed r = (u \<notin> sn_members sn)" "ok s1" "docs s1 = docs s" by blast
  show ?thesis
  proof (cases "sn_follows sn u")
    case None
    with list_none [OF s1(3), of "foll_key u"] holdsD(3) [OF assms(2), of u] s1 show ?thesis
      by (auto simp: ts_GetSubscriptions_def)
  next
    case (Some us)
    with list_some [OF s1(3), of "foll_key u"] holdsD(3) [OF assms(2), of u] s1 show ?thesis
      by (auto simp: ts_GetSubscriptions_def)
  qed
qed

lemma messages:
  assumes "codec_ok enc dec" "ok s" "\<And>i t. (i, t) \<in> set ps \<Longrightarrow> docs s (message_key u (Itoa i) h) = Some (JStr (enc t))"
  shows "\<exists>s'. get_messages ops dec h u (map (\<lambda>(i, t). Itoa i) ps) s = Some (s', Inr (map snd ps)) \<and>
    ok s' \<and> docs s' = docs s"
  using assms(2,3)
proof (induction ps arbitrary: s)
  case (Cons p ps)
  obtain i t where p: "p = (i, t)" by (cases p)
  from get_some [OF Cons.prems(1) Cons.prems(2) [of i t]] p obtain s1 where
    s1: "st_Get ops (message_key u (Itoa i) h) s = Some (s1, Inr (enc t))" "ok s1" "docs s1 = docs s" by auto
  from Cons.IH [OF s1(2)] Cons.prems(2) s1(3) obtain s2 where
    "get_messages ops dec h u (map (\<lambda>(i, t). Itoa i) ps) s1 = Some (s2, Inr (map snd ps))" "ok s2" "docs s2 = docs s1"
    by auto
  with s1 p assms(1) show ?case by (simp add: codec_ok_def)
qed auto

lemma get_tribbles:
  assumes "codec_ok enc dec" "ok s" "holds h enc (docs s) sn"
  shows "\<exists>s'. ts_GetTribbles ops dec h u s =
      Some (s', Inr (if u \<in> sn_members sn \<and> sn_posts sn u \<noteq> None then (OK, newest sn u) else (ENOSUCHUSER, []))) \<and>
    ok s' \<and> docs s' = docs s"
proof -
  from get_user [OF assms(2,3), of u] obtain s1 r where s1: "st_Get ops (user_key u) s = Some (s1, r)"
      "failed r = (u \<notin> sn_members sn)" "ok s1" "docs s1 = docs s" by blast
  show ?thesis
  proof (cases "sn_posts sn u")
    case None
    with list_none [OF s1(3), of "trib_key u"] holdsD(4) [OF assms(3), of u] s1 show ?thesis
      by (auto simp: ts_GetTribbles_def)
  next
    case (Some ps)
    with list_some [OF s1(3), of "trib_key u"] holdsD(4) [OF assms(3), of u] s1(4) obtain s2 where
      s2: "st_GetList ops (trib_key u) s1 = Some (s2, Inr (map (\<lambda>(i, t). Itoa i) ps))" "ok s2" "docs s2 = docs s"
      by auto
    let ?ps = "take 100 (rev ps)"
    have ids: "take 100 (rev (map (\<lambda>(i, t). Itoa i) ps)) = map (\<lambda>(i, t). Itoa i) ?ps"
      by (simp add: rev_map take_map)
    have "docs s2 (message_key u (Itoa i) h) = Some (JStr (enc t))" if "(i, t) \<in> set ?ps" for i t
      using holdsD(5) [OF assms(3), of i t u] in_set_takeD [OF that] Some s2(3) by (simp add: listed_def)
    from messages [OF assms(1) s2(2) this] obtain s3 where
      "get_messages ops dec h u (map (\<lambda>(i, t). Itoa i) ?ps) s2 = Some (s3, Inr (map snd ?ps))"
      "ok s3" "docs s3 = docs s" using s2(3) by auto
    with s1 s2(1) Some show ?thesis
      by (simp add: ts_GetTribbles_def ids newest_shape listed_def take_map)
  qed
qed

end

text \<open>The lists of the store that a request may change.\<close>

fun changed :: "trib_call \<Rightarrow> string list" where
  "changed (AddSubscription u t) = [foll_key u]"
| "changed (RemoveSubscription u t) = [foll_key u]"
| "changed (PostTribble now u m) = [trib_key u]"
| "changed c = []"

text \<open>A network on which every request so far fits the 32-bit counter.\<close>

definition fits :: "trib_call list \<Rightarrow> network \<Rightarrow> bool" where
  "fits cs sn \<longleftrightarrow> 0 \<le> sn_count sn \<and> sn_count sn + int (length cs) < 2 ^ 31"

lemma network_step_count:
  "sn_count sn \<le> sn_count (fst (network_step c sn)) \<and> sn_count (fst (network_step c sn)) \<le> sn_count sn + 1"
  by (cases c) auto

lemma fits_step: "fits (c # cs) sn \<Longrightarrow> fits cs (fst (network_step c sn))"
  using network_step_count [of sn c] by (auto simp: fits_def)

lemma network_ok_step: "network_ok sn \<Longrightarrow> network_ok (fst (network_step c sn))"
  by (cases c) (auto simp: network_ok_def)

context kv_store
begin

lemma post_tribble:
  assumes "ok s" "holds h enc (docs s) sn" "host_ok h" "fits [c] sn" "free (trib_key u) s"
  shows "\<exists>s'. map_option (\<lambda>(st, x). (st, StatusReply x)) (ts_PostTribble ops enc now u m (server_of h sn, s)) =
      Some ((server_of h (fst (network_step (PostTribble now u m) sn)), s'),
            snd (network_step (PostTribble now u m) sn)) \<and> ok s' \<and>
    holds h enc (docs s') (fst (network_step (PostTribble now u m) sn))"
proof -
  let ?i = "sn_count sn + 1" and ?t = "\<lparr>tr_Userid = u, tr_Posted = now, tr_Contents = m\<rparr>"
  let ?ids = "map (\<lambda>(i, t). Itoa i) (listed (sn_posts sn u))"
  have i: "sint (of_int (sn_count sn) + 1 :: 32 word) = ?i"
    using assms(4) sint_of_count [of ?i] by (simp add: fits_def)
  from get_user [OF assms(1,2), of u] obtain s1 r where s1: "st_Get ops (user_key u) s = Some (s1, r)"
      "failed r = (u \<notin> sn_members sn)" "ok s1" "docs s1 = docs s" "free (trib_key u) s1"
    using assms(5) by (metis key_inj(6))
  have "Itoa ?i \<notin> set ?ids"
    using holdsD(6) [OF assms(2)] by fastforce
  with append_new [OF s1(3,5), of "Itoa ?i"] holds_lists(2) [OF assms(2)] s1(4) obtain s2 where
    s2: "st_AppendToList ops (trib_key u) (Itoa ?i) s1 = Some (s2, Inr ())" "ok s2"
      "docs s2 = (docs s)(trib_key u \<mapsto> JArr (?ids @ [Itoa ?i]))" by auto
  have "free (message_key u (Itoa ?i) h) s2"
    using free_new [OF s2(2)] s2(3) holdsD(7) [OF assms(2), of ?i u] message_key_other(2) [OF assms(3)] by simp
  from put [OF s2(2) this, of "enc ?t"] s2(3) obtain s3 where
    s3: "st_Put ops (message_key u (Itoa ?i) h) (enc ?t) s2 = Some (s3, Inr ())" "ok s3"
      "docs s3 = (docs s)(trib_key u \<mapsto> JArr (?ids @ [Itoa ?i]), message_key u (Itoa ?i) h \<mapsto> JStr (enc ?t))"
    by auto
  show ?thesis
  proof (cases "u \<in> sn_members sn")
    case True
    with s1 s2(1) s3 i holds_post [OF assms(2,3), of u ?t] show ?thesis
      by (simp add: ts_PostTribble_def server_of_def)
  next
    case False
    with s1 assms(2) show ?thesis by (simp add: ts_PostTribble_def server_of_def)
  qed
qed

lemma collect_newest:
  assumes "codec_ok enc dec" "ok s" "holds h enc (docs s) sn" "network_ok sn"
  shows "\<exists>s'. collect ops dec h us s = Some (s', Inr (concat (map (newest sn) us))) \<and> ok s' \<and> docs s' = docs s"
  using assms(2,3)
proof (induction us arbitrary: s)
  case (Cons u us)
  have none: "newest sn u = []" if "\<not> (u \<in> sn_members sn \<and> sn_posts sn u \<noteq> None)"
    using that by (auto simp: newest_def listed_def)
  from get_tribbles [OF assms(1) Cons.prems, of u] obtain s1 where
    s1: "ts_GetTribbles ops dec h u s =
      Some (s1, Inr (if u \<in> sn_members sn \<and> sn_posts sn u \<noteq> None then (OK, newest sn u) else (ENOSUCHUSER, [])))"
      "ok s1" "docs s1 = docs s" by blast
  from Cons.IH [OF s1(2)] Cons.prems(2) s1(3) obtain s2 where
    "collect ops dec h us s1 = Some (s2, Inr (concat (map (newest sn) us)))" "ok s2" "docs s2 = docs s" by auto
  with s1(1) none show ?case by (cases "u \<in> sn_members sn \<and> sn_posts sn u \<noteq> None") auto
qed simp

lemma by_subscription:
  assumes "codec_ok enc dec" "ok s" "holds h enc (docs s) sn" "network_ok sn"
  shows "\<exists>s'. map_option (\<lambda>(s, r). (s, tribbles_reply r)) (ts_GetTribblesBySubscription ops dec h u s) =
      Some (s', snd (network_step (GetTribblesBySubscription u) sn)) \<and> ok s' \<and> docs s' = docs s"
proof -
  from get_user [OF assms(2,3), of u] obtain s1 r where s1: "st_Get ops (user_key u) s = Some (s1, r)"
      "failed r = (u \<notin> sn_members sn)" "ok s1" "docs s1 = docs s" by blast
  show ?thesis
  proof (cases "sn_follows sn u")
    case None
    with list_none [OF s1(3), of "foll_key u"] holdsD(3) [OF assms(3), of u] s1 show ?thesis
      by (auto simp: ts_GetTribblesBySubscription_def)
  next
    case (Some us)
    with list_some [OF s1(3), of "foll_key u"] holdsD(3) [OF assms(3), of u] s1(4) obtain s2 where
      s2: "st_GetList ops (foll_key u) s1 = Some (s2, Inr us)" "ok s2" "docs s2 = docs s" by auto
    from collect_newest [OF assms(1) s2(2), of h sn us] assms(3,4) s2(3) obtain s3 where
      "collect ops dec h us s2 = Some (s3, Inr (concat (map (newest sn) us)))" "ok s3" "docs s3 = docs s" by auto
    with s1 s2(1) Some show ?thesis
      by (simp add: ts_GetTribblesBySubscription_def timeline_def)
  qed
qed

lemma step_refines:
  assumes "codec_ok enc dec" "host_ok h" "ok s" "holds h enc (docs s) sn" "network_ok sn" "fits [c] sn"
    and "\<forall>k \<in> set (changed c). free k s"
  shows "\<exists>s'. trib_step ops enc dec c (server_of h sn, s) =
      Some ((server_of h (fst (network_step c sn)), s'), snd (network_step c sn)) \<and> ok s' \<and>
    holds h enc (docs s') (fst (network_step c sn))"
proof (cases c)
  case (CreateUser u)
  with create_user [OF assms(3,4,2), of u] show ?thesis by (auto simp: trib_step_def server_of_def)
next
  case (AddSubscription u t)
  with add_subscription [OF assms(3,4,2), of u t] assms(7) show ?thesis
    by (auto simp: trib_step_def server_of_def)
next
  case (RemoveSubscription u t)
  with remove_subscription [OF assms(3,4,2), of u t] assms(7) show ?thesis
    by (auto simp: trib_step_def server_of_def)
next
  case (GetSubscriptions u)
  with get_subscriptions [OF assms(3,4), of u] assms(4) show ?thesis
    by (auto simp: trib_step_def server_of_def split: option.splits)
next
  case (PostTribble now u m)
  with post_tribble [OF assms(3,4,2,6), of u now m] assms(7) show ?thesis by (auto simp: trib_step_def)
next
  case (GetTribbles u)
  with get_tribbles [OF assms(1,3,4), of u] assms(4) show ?thesis
    by (auto simp: trib_step_def server_of_def)
next
  case (GetTribblesBySubscription u)
  with by_subscription [OF assms(1,3-5), of u] assms(4) show ?thesis
    by (auto simp: trib_step_def server_of_def)
qed

lemma run_refines:
  assumes "codec_ok enc dec" "host_ok h" "ok s" "holds h enc (docs s) sn" "network_ok sn" "fits cs sn" "\<And>k s. free k s"
  shows "\<exists>s'. trib_run ops enc dec cs (server_of h sn, s) =
      Some ((server_of h (fst (network_run cs sn)), s'), snd (network_run cs sn)) \<and> ok s' \<and>
    holds h enc (docs s') (fst (network_run cs sn))"
  using assms(3-6)
proof (induction cs arbitrary: s sn)
  case (Cons c cs)
  have "fits [c] sn" using Cons.prems(4) by (simp add: fits_def)
  from step_refines [OF assms(1,2) Cons.prems(1-3) this] assms(7) obtain s1 where
    s1: "trib_step ops enc dec c (server_of h sn, s) =
      Some ((server_of h (fst (network_step c sn)), s1), snd (network_step c sn))" "ok s1"
      "holds h enc (docs s1) (fst (network_step c sn))" by blast
  from Cons.IH [OF s1(2,3) network_ok_step [OF Cons.prems(3)] fits_step [OF Cons.prems(4)]] s1(1) show ?case
    by (auto split: prod.splits)
qed simp

end

section \<open>The storage server as a store\<close>

text \<open>
  The operations of a libstore that never asks for a lease: the handlers of one storage server,
  whose status other than \<open>OK\<close> is an error.  Without leases a mutation has nothing to revoke.
\<close>

definition read_result :: "'s \<times> status_code \<times> 'v \<times> LeaseStruct \<Rightarrow> ('s \<times> 'v result) go" where
  "read_result x = (case x of (s, status, v, lease) \<Rightarrow>
     Some (s, if status \<noteq> status_code.OK then Inl ''Get error'' else Inr v))"

definition write_result :: "mutation \<Rightarrow> (StorageServer \<times> unit result) go" where
  "write_result x = (case x of
       None \<Rightarrow> None
     | Some (s, t, rs, status) \<Rightarrow>
         Some (s, if status \<noteq> status_code.OK then Inl ''error status'' else Inr ()))"

definition storage_ops :: "(string \<Rightarrow> revoke_answer) \<Rightarrow> time \<Rightarrow> StorageServer store_ops" where
  "storage_ops answers now =
     \<lparr>st_Get = (\<lambda>k s. read_result (ss_Get now \<lparr>ga_Key = k, ga_WantLease = False, ga_LeaseClient = ''''\<rparr> s)),
      st_GetList = (\<lambda>k s. read_result (ss_GetList now \<lparr>ga_Key = k, ga_WantLease = False, ga_LeaseClient = ''''\<rparr> s)),
      st_Put = (\<lambda>k v s. write_result (ss_Put answers now k v s)),
      st_AppendToList = (\<lambda>k v s. write_result (ss_AppendToList answers now k v s)),
      st_RemoveFromList = (\<lambda>k v s. write_result (ss_RemoveFromList answers now k v s))\<rparr>"

lemmas storage_op_defs = storage_ops_def read_result_def write_result_def ss_Get_def ss_GetList_def
  ss_Put_def ss_AppendToList_def ss_RemoveFromList_def revokeLease_def

interpretation storage: kv_store "storage_ops answers now" "\<lambda>s. ss_leasePool s = Map.empty" ss_hashmap "\<lambda>k s. True"
  for answers now
proof unfold_locales
  fix s :: StorageServer and k v
  assume ok: "ss_leasePool s = Map.empty"
  show "\<exists>s'. st_RemoveFromList (storage_ops answers now) k v s = Some (s', Inr ()) \<and> ss_leasePool s' = Map.empty \<and>
      ss_hashmap s' = (ss_hashmap s)(k \<mapsto> JArr (remove1 v (doc_list (ss_hashmap s k))))"
    if "v \<in> set (doc_list (ss_hashmap s k))"
    using that ok by (cases "ss_hashmap s k") (auto simp: storage_op_defs)
  show "\<exists>s' e. st_RemoveFromList (storage_ops answers now) k v s = Some (s', Inl e) \<and> ss_leasePool s' = Map.empty \<and>
      ss_hashmap s' = ss_hashmap s"
    if "v \<notin> set (doc_list (ss_hashmap s k))"
    using that ok by (cases "ss_hashmap s k") (auto simp: storage_op_defs)
qed (auto simp: storage_op_defs split: option.splits)

lemma holds_empty: "holds h enc Map.empty empty_network"
  by (simp add: holds_def holds_defs empty_network_def listed_def)

lemma empty_network_ok [simp]: "network_ok empty_network" "sn_count empty_network = 0"
  by (simp_all add: network_ok_def empty_network_def)

lemma fresh_server: "NewTribserver True h = Some (server_of h empty_network)"
  by (simp add: NewTribserver_def server_of_def)

definition fresh_store :: StorageServer where
  "fresh_store = NewStorageserver True 1 \<lparr>HostPort = ''localhost:9009'', NodeID = 1\<rparr>"

lemma fresh_store [simp]: "ss_leasePool fresh_store = Map.empty" "ss_hashmap fresh_store = Map.empty"
  by (simp_all add: fresh_store_def NewStorageserver_def)

lemma fresh_store_holds: "holds h enc (ss_hashmap fresh_store) empty_network"
  by (simp add: holds_empty)

section \<open>Timelines\<close>

lemma newest_first_set [simp]: "set (newest_first ts) = set ts" "length (newest_first ts) = length ts"
  by (simp_all add: newest_first_def)

lemma newest_first_sorted: "sorted_wrt (\<lambda>a b. tr_Posted b \<le> tr_Posted a) (newest_first ts)"
  using sorted_sort_key [of "\<lambda>t. - tr_Posted t" ts]
  by (simp add: newest_first_def sorted_map)

lemma network_run_snoc:
  "network_run (cs @ [c]) sn =
     (let (sn1, rs) = network_run cs sn; (sn2, r) = network_step c sn1 in (sn2, rs @ [r]))"
  by (induction cs arbitrary: sn) (auto split: prod.splits)

section \<open>Properties\<close>

text \<open>
  C6: The tribble server implements the social network: any sequence of requests to a new server
  over an empty store gets exactly the replies of the abstract network (members, followed users
  and posts), errors included, and never panics, provided that the server's address is no key suffix, that
  decoding inverts encoding, and that there are fewer than \<open>2 ^ 31\<close> requests.  The store is the
  storage server without leases; over the caching libstore see \<open>trib_program_shows\<close> and \<open>own_write_not_read\<close>.
\<close>

theorem trib_refines_network:
  assumes "codec_ok enc dec" and "host_ok h" and "length cs < 2 ^ 31"
    and "NewTribserver True h = Some ts"
  shows "map_option snd (trib_run (storage_ops answers now) enc dec cs (ts, fresh_store)) =
    Some (snd (network_run cs empty_network))"
proof -
  have "fits cs empty_network" using assms(3) by (simp add: fits_def)
  from storage.run_refines [OF assms(1,2) fresh_store(1) fresh_store_holds empty_network_ok(1) this] assms(4)
  show ?thesis by (fastforce simp: fresh_server)
qed

text \<open>A codec: the author's name and the time counted out in letters.\<close>

definition enc_letters :: "Tribble \<Rightarrow> string" where
  "enc_letters t =
     replicate (length (tr_Userid t)) CHR ''u'' @ CHR ''.'' # tr_Userid t @
     (if tr_Posted t < 0 then CHR ''-'' else CHR ''+'') # replicate (nat \<bar>tr_Posted t\<bar>) CHR ''n'' @
     CHR ''.'' # tr_Contents t"

definition dec_letters :: "string \<Rightarrow> Tribble" where
  "dec_letters s =
     (let n = length (takeWhile (\<lambda>c. c = CHR ''u'') s);
          s1 = drop (n + 1) s; s2 = drop n s1;
          p = length (takeWhile (\<lambda>c. c = CHR ''n'') (tl s2))
      in \<lparr>tr_Userid = take n s1, tr_Posted = (if hd s2 = CHR ''-'' then - int p else int p),
          tr_Contents = drop (p + 1) (tl s2)\<rparr>)"

lemma takeWhile_replicate: "P c \<Longrightarrow> \<not> P d \<Longrightarrow> takeWhile P (replicate n c @ d # s) = replicate n c"
  by (induction n) auto

lemma codec_letters: "codec_ok enc_letters dec_letters"
  by (auto simp: codec_ok_def enc_letters_def dec_letters_def takeWhile_replicate)

theorem trib_refines_network_witness:
  "map_option snd (trib_run (storage_ops (\<lambda>_. Answered) 0) enc_letters dec_letters
     [CreateUser ''ann'', PostTribble 7 ''ann'' ''hi'', GetTribbles ''ann'', AddSubscription ''ann'' ''bob'']
     (\<lparr>ts_hostport = ''localhost:9010'', ts_id = 0\<rparr>, fresh_store)) =
   Some [StatusReply OK, StatusReply OK,
         TribblesReply OK [\<lparr>tr_Userid = ''ann'', tr_Posted = 7, tr_Contents = ''hi''\<rparr>],
         StatusReply ENOSUCHTARGETUSER]"
proof -
  have "NewTribserver True ''localhost:9010'' = Some \<lparr>ts_hostport = ''localhost:9010'', ts_id = 0\<rparr>"
    by (simp add: NewTribserver_def)
  from trib_refines_network [OF codec_letters _ _ this,
      of "[CreateUser ''ann'', PostTribble 7 ''ann'' ''hi'', GetTribbles ''ann'', AddSubscription ''ann'' ''bob'']"
         "\<lambda>_. Answered" 0]
  show ?thesis by (simp add: host_ok_def empty_network_def listed_def newest_def)
qed

text \<open>
  C35: The timeline: after any history, \<open>GetTribblesBySubscription\<close> of a user who follows somebody
  answers with at most 100 tribbles, newest first, that are among the 100 newest of the followed
  users; it has as many as there are up to 100, and none that it leaves out is newer than one it shows.
  The store is the storage server without leases.
\<close>

theorem timeline_newest:
  assumes "codec_ok enc dec" and "host_ok h" and "length cs < 2 ^ 31 - 1"
    and "NewTribserver True h = Some ts" and "sn = fst (network_run cs empty_network)"
    and "u \<in> sn_members sn" and "sn_follows sn u = Some us"
  shows "\<exists>st rs l. trib_run (storage_ops answers now) enc dec (cs @ [GetTribblesBySubscription u]) (ts, fresh_store) =
      Some (st, rs @ [TribblesReply OK l]) \<and>
    sorted_wrt (\<lambda>a b. tr_Posted b \<le> tr_Posted a) l \<and>
    length l = min 100 (sum_list (map (length \<circ> newest sn) us)) \<and>
    (\<exists>rest. mset (l @ rest) = mset (concat (map (newest sn) us)) \<and>
      (\<forall>x \<in> set l. \<forall>y \<in> set rest. tr_Posted y \<le> tr_Posted x))"
proof -
  let ?all = "newest_first (concat (map (newest sn) us))"
  let ?l = "take 100 ?all" and ?rest = "drop 100 ?all"
  have fit: "fits (cs @ [GetTribblesBySubscription u]) empty_network"
    using assms(3) by (simp add: fits_def)
  have reply: "snd (network_run (cs @ [GetTribblesBySubscription u]) empty_network) =
      snd (network_run cs empty_network) @ [TribblesReply OK ?l]"
    using assms(5-7) by (auto simp: network_run_snoc timeline_def split: prod.splits)
  from storage.run_refines [where answers = answers and now = now,
      OF assms(1,2) fresh_store(1) fresh_store_holds empty_network_ok(1) fit] assms(4) reply
  obtain st where run: "trib_run (storage_ops answers now) enc dec (cs @ [GetTribblesBySubscription u]) (ts, fresh_store) =
      Some (st, snd (network_run cs empty_network) @ [TribblesReply OK ?l])"
    by (auto simp: fresh_server)
  have sorted: "sorted_wrt (\<lambda>a b. tr_Posted b \<le> tr_Posted a) (?l @ ?rest)"
    using newest_first_sorted by simp
  have "mset (?l @ ?rest) = mset (concat (map (newest sn) us))" by (simp add: newest_first_def)
  moreover have "length ?l = min 100 (sum_list (map (length \<circ> newest sn) us))"
    by (simp add: length_concat comp_def min.commute)
  ultimately show ?thesis
    using run sorted unfolding sorted_wrt_append by blast
qed

definition ann_posts :: "trib_call list" where
  "ann_posts = [CreateUser ''ann'', PostTribble 7 ''ann'' ''a'', PostTribble 9 ''ann'' ''b'', AddSubscription ''ann'' ''ann'']"

theorem timeline_newest_witness:
  "\<exists>st rs l. trib_run (storage_ops (\<lambda>_. Answered) 0) enc_letters dec_letters
     (ann_posts @ [GetTribblesBySubscription ''ann'']) (server_of ''localhost:9010'' empty_network, fresh_store) =
     Some (st, rs @ [TribblesReply OK l]) \<and> length l = 2 \<and>
     sorted_wrt (\<lambda>a b. tr_Posted b \<le> tr_Posted a) l"
proof -
  let ?sn = "fst (network_run ann_posts empty_network)"
  have "host_ok ''localhost:9010''" "length ann_posts < 2 ^ 31 - 1"
    by (simp_all add: host_ok_def ann_posts_def)
  note * = timeline_newest [where answers = "\<lambda>_. Answered" and now = 0, OF codec_letters this fresh_server refl]
  have sn: "''ann'' \<in> sn_members ?sn" "sn_follows ?sn ''ann'' = Some [''ann'']" "length (newest ?sn ''ann'') = 2"
    by (simp_all add: ann_posts_def empty_network_def listed_def newest_def)
  from * [OF sn(1,2)] show ?thesis by (simp only: list.map sum_list.Cons sum_list.Nil comp_def sn(3)) auto
qed

text \<open>
  Posts are readable only where they were posted, and not after a restart: on any store, once
  a user has posted through one server, \<open>GetTribbles\<close> for that user at a server with another
  address fails with a call error, because the reader's own address is part of the message's key,
  and a restarted server, which counts from one again, refuses the user's next post.
\<close>

lemma posts_are_local:
  assumes "NewTribserver True h = Some ts" and "NewTribserver True h' = Some ts'" and "h \<noteq> h'"
    and "host_ok h" and "host_ok h'"
  shows "\<exists>ts1 s st2. trib_run (storage_ops answers now) enc dec [CreateUser u, PostTribble t u m] (ts, fresh_store) =
      Some ((ts1, s), [StatusReply OK, StatusReply OK]) \<and>
    trib_run (storage_ops answers now) enc dec [GetTribbles u] (ts', s) =
      Some ((ts', s), [RpcError ''get tribble message error'']) \<and>
    trib_run (storage_ops answers now) enc dec [PostTribble t u m] (ts, s) = Some (st2, [StatusReply EEXISTS])"
proof -
  have keys: "message_key u i h \<noteq> message_key u i h'" for i using assms(3) by (simp add: message_key_def)
  have ts: "ts = \<lparr>ts_hostport = h, ts_id = 0\<rparr>" "ts' = \<lparr>ts_hostport = h', ts_id = 0\<rparr>"
    using assms(1,2) by (simp_all add: NewTribserver_def)
  note keys = keys keys [symmetric] message_key_other [OF assms(4)] message_key_other [OF assms(5)]
  show ?thesis
    by (simp add: ts trib_step_def ts_CreateUser_def ts_PostTribble_def ts_GetTribbles_def storage_op_defs keys)
qed

lemma posts_are_local_witness:
  "\<exists>s. trib_run (storage_ops (\<lambda>_. Answered) 0) enc_letters dec_letters [GetTribbles ''ann'']
      (server_of ''localhost:9011'' empty_network, s) =
      Some ((server_of ''localhost:9011'' empty_network, s), [RpcError ''get tribble message error''])"
proof -
  have "host_ok ''localhost:9010''" "host_ok ''localhost:9011''" "''localhost:9010'' \<noteq> ''localhost:9011''"
    by (simp_all add: host_ok_def)
  from posts_are_local [OF fresh_server fresh_server this(3,1,2),
      of "\<lambda>_. Answered" 0 enc_letters dec_letters "''ann''" 7 "''hi''"]
  show ?thesis by auto
qed

end
