(* ===== verification/TribClient.thy ===== *)
theory TribClient
  imports TribStore
begin

text \<open>
  The client stubs of \<open>15-440/P2-F11/tribclient\<close>: each makes one remote call and returns the
  status of the reply and the error of the call.  When the call fails the status is 0, which is
  \<open>OK\<close>, next to the error.
\<close>

section \<open>Calls\<close>

text \<open>\<open>tc.client.Call\<close>: the error is that of the connection or the one the handler returned.\<close>

definition tc_Call ::
  "delivery \<Rightarrow> 's store_ops \<Rightarrow> (Tribble \<Rightarrow> string) \<Rightarrow> (string \<Rightarrow> Tribble) \<Rightarrow> trib_call \<Rightarrow>
   Tribserver \<times> 's \<Rightarrow> ((Tribserver \<times> 's) \<times> trib_reply result) go" where
  "tc_Call d ops enc dec c st =
     (if d = RequestLost then Some (st, Inl ''rpc'')
      else do {
        (st1, r) \<leftarrow> trib_step ops enc dec c st;
        Some (st1, if d = ReplyLost then Inl ''rpc'' else case r of RpcError e \<Rightarrow> Inl e | _ \<Rightarrow> Inr r) })"

fun status_of :: "trib_reply result \<Rightarrow> trib_status \<times> string option" where
  "status_of (Inl e) = (OK, Some e)"
| "status_of (Inr (StatusReply s)) = (s, None)"
| "status_of (Inr (UsersReply s us)) = (s, None)"
| "status_of (Inr (TribblesReply s ts)) = (s, None)"
| "status_of (Inr (RpcError e)) = (OK, Some e)"

fun users_of :: "trib_reply result \<Rightarrow> string list" where
  "users_of (Inr (UsersReply s us)) = us"
| "users_of _ = []"

fun tribbles_of :: "trib_reply result \<Rightarrow> Tribble list" where
  "tribbles_of (Inr (TribblesReply s ts)) = ts"
| "tribbles_of _ = []"

section \<open>Stubs\<close>

definition tc_CreateUser ::
  "delivery \<Rightarrow> 's store_ops \<Rightarrow> (Tribble \<Rightarrow> string) \<Rightarrow> (string \<Rightarrow> Tribble) \<Rightarrow> string \<Rightarrow>
   Tribserver \<times> 's \<Rightarrow> ((Tribserver \<times> 's) \<times> trib_status \<times> string option) go" where
  "tc_CreateUser d ops enc dec u st =
     map_option (\<lambda>(st, r). (st, status_of r)) (tc_Call d ops enc dec (CreateUser u) st)"

definition tc_GetSubscriptions ::
  "delivery \<Rightarrow> 's store_ops \<Rightarrow> (Tribble \<Rightarrow> string) \<Rightarrow> (string \<Rightarrow> Tribble) \<Rightarrow> string \<Rightarrow>
   Tribserver \<times> 's \<Rightarrow> ((Tribserver \<times> 's) \<times> string list \<times> trib_status \<times> string option) go" where
  "tc_GetSubscriptions d ops enc dec u st =
     map_option (\<lambda>(st, r). (st, users_of r, status_of r)) (tc_Call d ops enc dec (GetSubscriptions u) st)"

definition tc_dosub ::
  "delivery \<Rightarrow> 's store_ops \<Rightarrow> (Tribble \<Rightarrow> string) \<Rightarrow> (string \<Rightarrow> Tribble) \<Rightarrow> (string \<Rightarrow> string \<Rightarrow> trib_call) \<Rightarrow>
   string \<Rightarrow> string \<Rightarrow> Tribserver \<times> 's \<Rightarrow> ((Tribserver \<times> 's) \<times> trib_status \<times> string option) go" where
  "tc_dosub d ops enc dec func u t st =
     map_option (\<lambda>(st, r). (st, status_of r)) (tc_Call d ops enc dec (func u t) st)"

definition tc_AddSubscription where
  "tc_AddSubscription d ops enc dec = tc_dosub d ops enc dec AddSubscription"

definition tc_RemoveSubscription where
  "tc_RemoveSubscription d ops enc dec = tc_dosub d ops enc dec RemoveSubscription"

definition tc_dotrib ::
  "delivery \<Rightarrow> 's store_ops \<Rightarrow> (Tribble \<Rightarrow> string) \<Rightarrow> (string \<Rightarrow> Tribble) \<Rightarrow> (string \<Rightarrow> trib_call) \<Rightarrow>
   string \<Rightarrow> Tribserver \<times> 's \<Rightarrow>
   ((Tribserver \<times> 's) \<times> Tribble list \<times> trib_status \<times> string option) go" where
  "tc_dotrib d ops enc dec func u st =
     map_option (\<lambda>(st, r). (st, tribbles_of r, status_of r)) (tc_Call d ops enc dec (func u) st)"

definition tc_GetTribbles where
  "tc_GetTribbles d ops enc dec = tc_dotrib d ops enc dec GetTribbles"

definition tc_GetTribblesBySubscription where
  "tc_GetTribblesBySubscription d ops enc dec = tc_dotrib d ops enc dec GetTribblesBySubscription"

definition tc_PostTribble ::
  "delivery \<Rightarrow> 's store_ops \<Rightarrow> (Tribble \<Rightarrow> string) \<Rightarrow> (string \<Rightarrow> Tribble) \<Rightarrow> time \<Rightarrow> string \<Rightarrow> string \<Rightarrow>
   Tribserver \<times> 's \<Rightarrow> ((Tribserver \<times> 's) \<times> trib_status \<times> string option) go" where
  "tc_PostTribble d ops enc dec now u m st =
     map_option (\<lambda>(st, r). (st, status_of r)) (tc_Call d ops enc dec (PostTribble now u m) st)"

section \<open>What a client learns\<close>

text \<open>Over a store that keeps the contract, a call that gets through returns what the network says.\<close>

context kv_store
begin

lemma client_call:
  assumes "codec_ok enc dec" "host_ok h" "ok s" "holds h enc (docs s) sn" "network_ok sn" "fits [c] sn"
    and "\<forall>k \<in> set (changed c). free k s"
  shows "\<exists>s'. tc_Call Delivered ops enc dec c (server_of h sn, s) =
      Some ((server_of h (fst (network_step c sn)), s'), Inr (snd (network_step c sn)))"
proof -
  have "snd (network_step c sn) \<noteq> RpcError e" for e by (cases c) (auto split: option.splits)
  with step_refines [OF assms] show ?thesis
    by (auto simp: tc_Call_def split: trib_reply.splits)
qed

end

text \<open>A lost reply leaves the request executed although the client sees an error.\<close>

lemma lost_reply_executes:
  "trib_step ops enc dec c st = Some (st1, r) \<Longrightarrow> tc_Call ReplyLost ops enc dec c st = Some (st1, Inl ''rpc'')"
  by (simp add: tc_Call_def)

end
