(* ===== verification/Feed.thy ===== *)
theory Feed
  imports Strconv
begin

text \<open>
  The feed reader of \<open>Google-IO/2013/feed-reader/rss.go\<close>: a subscription's loop, the merge of
  several subscriptions and the fetcher of the example.

  \<^item> \<open>sub_turn\<close> is one turn of the \<open>select\<close> in \<open>sub.loop\<close>, by the case that was chosen; a case
    whose channel is nil or not ready is \<open>None\<close>.  The timer case is ready once the next fetch
    is due.
  \<^item> \<open>merge_step\<close> interleaves the subscriptions, the goroutines of \<open>Merge\<close> (one per subscription),
    the reader of the merged updates and \<open>merge.Close\<close>; unbuffered channels are joint steps.
\<close>

section \<open>A subscription\<close>

record Item =
  it_Title :: string
  it_Channel :: string
  it_GUID :: string

text \<open>\<open>fetchDone\<close>: nil, or the channel of a running fetch, or one that holds a result.\<close>

datatype fetching = NoFetch | Fetching | Fetched "Item list" time "string option"

record sub =
  sb_fetchDone :: fetching
  sb_pending :: "Item list"
  sb_next :: time
  sb_err :: "string option"
  sb_seen :: "string set"
  sb_closed :: bool

definition maxPending :: nat where "maxPending = 10"

definition Subscribe :: sub where
  "Subscribe =
     \<lparr>sb_fetchDone = NoFetch, sb_pending = [], sb_next = 0, sb_err = None, sb_seen = {}, sb_closed = False\<rparr>"

text \<open>The loop over the fetched items.\<close>

fun add_unseen :: "Item list \<Rightarrow> Item list \<Rightarrow> string set \<Rightarrow> Item list \<times> string set" where
  "add_unseen [] pending seen = (pending, seen)"
| "add_unseen (x # xs) pending seen =
     (if it_GUID x \<in> seen then add_unseen xs pending seen
      else add_unseen xs (pending @ [x]) (insert (it_GUID x) seen))"

text \<open>
  The cases of a turn, with the return of the fetching goroutine.  What a turn does for others: it
  takes fetched items, sends an item, or answers \<open>Close\<close>.
\<close>

datatype turn =
  StartFetch | FetchReturns "Item list" time "string option" | FetchDone | SendUpdate | CloseReq

datatype event = Silent | Took "Item list" | Sent Item | ClosedWith "string option"

definition sub_turn :: "time \<Rightarrow> turn \<Rightarrow> sub \<Rightarrow> (sub \<times> event) option" where
  "sub_turn now c s =
     (case c of
        StartFetch \<Rightarrow>
          if \<not> sb_closed s \<and> sb_fetchDone s = NoFetch \<and> length (sb_pending s) < maxPending \<and> sb_next s \<le> now
          then Some (s\<lparr>sb_fetchDone := Fetching\<rparr>, Silent) else None
      | FetchReturns fetched nxt err \<Rightarrow>
          if sb_fetchDone s = Fetching then Some (s\<lparr>sb_fetchDone := Fetched fetched nxt err\<rparr>, Silent)
          else None
      | FetchDone \<Rightarrow>
          (case sb_fetchDone s of
             Fetched fetched nxt err \<Rightarrow>
               if sb_closed s then None
               else (let s1 = s\<lparr>sb_fetchDone := NoFetch, sb_next := nxt, sb_err := err\<rparr> in
                 if err \<noteq> None then Some (s1\<lparr>sb_next := now + seconds 10\<rparr>, Took [])
                 else (let (p, seen) = add_unseen fetched (sb_pending s1) (sb_seen s1)
                       in Some (s1\<lparr>sb_pending := p, sb_seen := seen\<rparr>, Took fetched)))
           | _ \<Rightarrow> None)
      | SendUpdate \<Rightarrow>
          (case sb_pending s of
             first # rest \<Rightarrow>
               if sb_closed s then None else Some (s\<lparr>sb_pending := rest\<rparr>, Sent first)
           | [] \<Rightarrow> None)
      | CloseReq \<Rightarrow>
          if sb_closed s then None else Some (s\<lparr>sb_closed := True\<rparr>, ClosedWith (sb_err s)))"

section \<open>The merge\<close>

text \<open>Where the goroutine of a subscription is, and \<open>Close\<close>, which counts the errors it waits for.\<close>

datatype merge_pc =
  Receiving | Holding Item | Closing | SendingErr "string option" | Finished

datatype closer = NotCalled | Collecting nat "string option" | CloseReturned "string option"

record merge =
  mg_n :: nat
  mg_sub :: "nat \<Rightarrow> sub"
  mg_pc :: "nat \<Rightarrow> merge_pc"
  mg_quit :: bool
  mg_updates_closed :: bool
  mg_close :: closer

definition Merge :: "nat \<Rightarrow> merge" where
  "Merge n =
     \<lparr>mg_n = n, mg_sub = (\<lambda>_. Subscribe), mg_pc = (\<lambda>_. Receiving), mg_quit = False,
      mg_updates_closed = False, mg_close = NotCalled\<rparr>"

text \<open>What is seen from outside: items that a subscription takes from its fetcher, and merged updates.\<close>

datatype label = Tau | Takes nat "Item list" | Update nat Item | Returns "string option"

inductive merge_step :: "merge \<Rightarrow> label \<Rightarrow> merge \<Rightarrow> bool" where
  turn_silent: "i < mg_n m \<Longrightarrow> sub_turn now c (mg_sub m i) = Some (s, Silent) \<Longrightarrow>
    merge_step m Tau (m\<lparr>mg_sub := (mg_sub m)(i := s)\<rparr>)"
| turn_takes: "i < mg_n m \<Longrightarrow> sub_turn now FetchDone (mg_sub m i) = Some (s, Took xs) \<Longrightarrow>
    merge_step m (Takes i xs) (m\<lparr>mg_sub := (mg_sub m)(i := s)\<rparr>)"
| receive: "i < mg_n m \<Longrightarrow> mg_pc m i = Receiving \<Longrightarrow>
    sub_turn now SendUpdate (mg_sub m i) = Some (s, Sent x) \<Longrightarrow>
    merge_step m Tau (m\<lparr>mg_sub := (mg_sub m)(i := s), mg_pc := (mg_pc m)(i := Holding x)\<rparr>)"
| forward: "i < mg_n m \<Longrightarrow> mg_pc m i = Holding x \<Longrightarrow>
    merge_step m (Update i x) (m\<lparr>mg_pc := (mg_pc m)(i := Receiving)\<rparr>)"
| quit_receiving: "i < mg_n m \<Longrightarrow> mg_quit m \<Longrightarrow> mg_pc m i = Receiving \<Longrightarrow>
    merge_step m Tau (m\<lparr>mg_pc := (mg_pc m)(i := Closing)\<rparr>)"
| quit_holding: "i < mg_n m \<Longrightarrow> mg_quit m \<Longrightarrow> mg_pc m i = Holding x \<Longrightarrow>
    merge_step m Tau (m\<lparr>mg_pc := (mg_pc m)(i := Closing)\<rparr>)"
| close_sub: "i < mg_n m \<Longrightarrow> mg_pc m i = Closing \<Longrightarrow>
    sub_turn now CloseReq (mg_sub m i) = Some (s, ClosedWith e) \<Longrightarrow>
    merge_step m Tau (m\<lparr>mg_sub := (mg_sub m)(i := s), mg_pc := (mg_pc m)(i := SendingErr e)\<rparr>)"
| call_close: "mg_close m = NotCalled \<Longrightarrow>
    merge_step m Tau (m\<lparr>mg_quit := True, mg_close := Collecting (mg_n m) None\<rparr>)"
| collect: "i < mg_n m \<Longrightarrow> mg_pc m i = SendingErr e \<Longrightarrow> mg_close m = Collecting (Suc k) err \<Longrightarrow>
    merge_step m Tau (m\<lparr>mg_pc := (mg_pc m)(i := Finished),
                        mg_close := Collecting k (if e \<noteq> None then e else err)\<rparr>)"
| return: "mg_close m = Collecting 0 err \<Longrightarrow>
    merge_step m (Returns err) (m\<lparr>mg_updates_closed := True, mg_close := CloseReturned err\<rparr>)"

text \<open>Histories: the labels in their order.\<close>

inductive merge_reach :: "nat \<Rightarrow> label list \<Rightarrow> merge \<Rightarrow> bool" for n where
  start: "merge_reach n [] (Merge n)"
| step: "merge_reach n ls m \<Longrightarrow> merge_step m l m' \<Longrightarrow> merge_reach n (ls @ [l]) m'"

section \<open>The fetcher of the example\<close>

record fetcher =
  ft_channel :: string
  ft_items :: "Item list"

definition Fetch :: "string \<Rightarrow> fetcher" where
  "Fetch domain = \<lparr>ft_channel = domain, ft_items = []\<rparr>"

text \<open>\<open>r\<close> is the random number below 5.\<close>

definition fetcher_Fetch :: "time \<Rightarrow> nat \<Rightarrow> fetcher \<Rightarrow> fetcher \<times> Item list \<times> time \<times> string option" where
  "fetcher_Fetch now r f =
     (let title = ''Item '' @ Itoa (int (length (ft_items f)));
          item = \<lparr>it_Title = title, it_Channel = ft_channel f, it_GUID = ft_channel f @ ''/'' @ title\<rparr>
      in (f\<lparr>ft_items := ft_items f @ [item]\<rparr>, [item], now + int r * milliseconds 500, None))"

section \<open>Items of a history\<close>

text \<open>\<open>uniq seen xs\<close>: the items of \<open>xs\<close> with new GUIDs, each at its first occurrence.\<close>

fun uniq :: "string set \<Rightarrow> Item list \<Rightarrow> Item list" where
  "uniq seen [] = []"
| "uniq seen (x # xs) =
     (if it_GUID x \<in> seen then uniq seen xs else x # uniq (insert (it_GUID x) seen) xs)"

fun taken_at :: "nat \<Rightarrow> label list \<Rightarrow> Item list" where
  "taken_at i [] = []"
| "taken_at i (Takes j xs # ls) = (if i = j then xs @ taken_at i ls else taken_at i ls)"
| "taken_at i (_ # ls) = taken_at i ls"

fun updates_of :: "nat \<Rightarrow> label list \<Rightarrow> Item list" where
  "updates_of i [] = []"
| "updates_of i (Update j x # ls) = (if i = j then x # updates_of i ls else updates_of i ls)"
| "updates_of i (_ # ls) = updates_of i ls"

lemma taken_at_append [simp]: "taken_at i (ls @ ls') = taken_at i ls @ taken_at i ls'"
  by (induction i ls rule: taken_at.induct) auto

lemma updates_of_append [simp]: "updates_of i (ls @ ls') = updates_of i ls @ updates_of i ls'"
  by (induction i ls rule: updates_of.induct) auto

lemma uniq_append: "uniq seen (xs @ ys) = uniq seen xs @ uniq (seen \<union> it_GUID ` set xs) ys"
  by (induction xs arbitrary: seen) (auto simp: insert_absorb)

lemma uniq_spec:
  "distinct (map it_GUID (uniq seen xs))" "it_GUID ` set (uniq seen xs) = it_GUID ` set xs - seen"
proof (induction xs arbitrary: seen)
  case (Cons x xs)
  { case 1 with Cons show ?case by auto }
  { case 2 with Cons show ?case by auto }
qed auto

lemma add_unseen_uniq:
  "add_unseen xs pending seen = (pending @ uniq seen xs, seen \<union> it_GUID ` set xs)"
  by (induction xs arbitrary: pending seen) (auto simp: insert_absorb)

section \<open>Invariants\<close>

text \<open>Of each subscription: nothing is lost or doubled but perhaps the item a goroutine gave up.\<close>

definition in_flight :: "merge_pc \<Rightarrow> Item list \<Rightarrow> bool" where
  "in_flight pc fl \<longleftrightarrow>
     (case pc of Receiving \<Rightarrow> fl = [] | Holding x \<Rightarrow> fl = [x] | _ \<Rightarrow> length fl \<le> 1)"

definition sub_inv :: "label list \<Rightarrow> merge \<Rightarrow> nat \<Rightarrow> bool" where
  "sub_inv ls m i \<longleftrightarrow>
     sb_seen (mg_sub m i) = it_GUID ` set (taken_at i ls) \<and>
     (sb_closed (mg_sub m i) \<longleftrightarrow> mg_pc m i = Finished \<or> (\<exists>e. mg_pc m i = SendingErr e)) \<and>
     (\<exists>fl. in_flight (mg_pc m i) fl \<and>
        updates_of i ls @ fl @ sb_pending (mg_sub m i) = uniq {} (taken_at i ls))"

text \<open>Of the goroutines and \<open>Close\<close>: it waits for those that have not finished.\<close>

definition unfinished :: "merge \<Rightarrow> nat set" where
  "unfinished m = {i. i < mg_n m \<and> mg_pc m i \<noteq> Finished}"

definition close_inv :: "merge \<Rightarrow> bool" where
  "close_inv m \<longleftrightarrow>
     (case mg_close m of
        NotCalled \<Rightarrow> \<not> mg_quit m \<and> unfinished m = {..<mg_n m} \<and> \<not> mg_updates_closed m
      | Collecting k err \<Rightarrow> mg_quit m \<and> card (unfinished m) = k \<and> \<not> mg_updates_closed m
      | CloseReturned err \<Rightarrow> mg_quit m \<and> unfinished m = {})"

lemma finite_unfinished [simp]: "finite (unfinished m)"
  by (simp add: unfinished_def)

text \<open>What a turn does to a subscription.\<close>

lemma sub_turn_silent:
  "sub_turn now c s = Some (s', Silent) \<Longrightarrow>
   sb_pending s' = sb_pending s \<and> sb_seen s' = sb_seen s \<and> sb_closed s' = sb_closed s"
  by (auto simp: sub_turn_def split: turn.splits fetching.splits list.splits if_splits prod.splits)

lemma sub_turn_takes:
  "sub_turn now FetchDone s = Some (s', Took xs) \<Longrightarrow>
   sb_pending s' = sb_pending s @ uniq (sb_seen s) xs \<and> sb_seen s' = sb_seen s \<union> it_GUID ` set xs \<and>
   sb_closed s' = sb_closed s"
  by (auto simp: sub_turn_def add_unseen_uniq split: fetching.splits if_splits)

lemma sub_turn_sends:
  "sub_turn now SendUpdate s = Some (s', Sent x) \<Longrightarrow>
   sb_pending s = x # sb_pending s' \<and> sb_seen s' = sb_seen s \<and> sb_closed s' = sb_closed s \<and> \<not> sb_closed s"
  by (auto simp: sub_turn_def split: list.splits if_splits)

lemma sub_turn_closes:
  "sub_turn now CloseReq s = Some (s', ClosedWith e) \<longleftrightarrow>
   \<not> sb_closed s \<and> s' = s\<lparr>sb_closed := True\<rparr> \<and> e = sb_err s"
  by (auto simp: sub_turn_def)

lemma sub_inv_step:
  assumes "merge_step m l m'" "sub_inv ls m i" "i < mg_n m"
  shows "sub_inv (ls @ [l]) m' i"
  using assms
proof (induction rule: merge_step.induct)
  case (turn_silent j m now c s)
  then show ?case using sub_turn_silent [OF turn_silent(2)] by (cases "i = j") (auto simp: sub_inv_def)
next
  case (turn_takes j m now s xs)
  then show ?case using sub_turn_takes [OF turn_takes(2)]
    by (cases "i = j") (auto simp: sub_inv_def uniq_append)
next
  case (receive j m now s x)
  then show ?case using sub_turn_sends [OF receive(3)]
    by (cases "i = j") (auto simp: sub_inv_def in_flight_def)
next
  case (close_sub j m now s e)
  then show ?case by (cases "i = j") (auto simp: sub_inv_def in_flight_def sub_turn_closes)
next
  case (quit_receiving j m)
  then show ?case by (cases "i = j") (auto simp: sub_inv_def in_flight_def intro: exI [of _ "[]"])
next
  case (quit_holding j m x)
  then show ?case by (cases "i = j") (auto simp: sub_inv_def in_flight_def intro: exI [of _ "[x]"])
qed (auto simp: sub_inv_def in_flight_def)

lemma unfinished_frame [simp]:
  "unfinished (m\<lparr>mg_sub := x\<rparr>) = unfinished m" "unfinished (m\<lparr>mg_quit := q\<rparr>) = unfinished m"
  "unfinished (m\<lparr>mg_close := c\<rparr>) = unfinished m" "unfinished (m\<lparr>mg_updates_closed := u\<rparr>) = unfinished m"
  by (simp_all add: unfinished_def)

lemma unfinished_stays [simp]:
  "i < mg_n m \<Longrightarrow> mg_pc m i \<noteq> Finished \<Longrightarrow> pc \<noteq> Finished \<Longrightarrow>
   unfinished (m\<lparr>mg_pc := (mg_pc m)(i := pc)\<rparr>) = unfinished m"
  by (auto simp: unfinished_def)

lemma unfinished_finish [simp]:
  "unfinished (m\<lparr>mg_pc := (mg_pc m)(i := Finished)\<rparr>) = unfinished m - {i}"
  by (auto simp: unfinished_def)

lemma unfinished_card:
  "i < mg_n m \<Longrightarrow> mg_pc m i \<noteq> Finished \<Longrightarrow> card (unfinished m - {i}) = card (unfinished m) - 1"
  by (simp add: unfinished_def)

lemma close_inv_step:
  assumes "merge_step m l m'" "close_inv m"
  shows "close_inv m'"
  using assms
proof (induction rule: merge_step.induct)
  case (receive i m now s x)
  have "unfinished (m\<lparr>mg_sub := (mg_sub m)(i := s), mg_pc := (mg_pc m)(i := Holding x)\<rparr>) = unfinished m"
    using receive by (auto simp: unfinished_def)
  with receive show ?case by (auto simp: close_inv_def split: closer.splits)
next
  case (close_sub i m now s e)
  have "unfinished (m\<lparr>mg_sub := (mg_sub m)(i := s), mg_pc := (mg_pc m)(i := SendingErr e)\<rparr>) = unfinished m"
    using close_sub by (auto simp: unfinished_def)
  with close_sub show ?case by (auto simp: close_inv_def split: closer.splits)
next
  case (collect i m e k err)
  have "unfinished (m\<lparr>mg_pc := (mg_pc m)(i := Finished), mg_close := c\<rparr>) = unfinished m - {i}" for c
    by (auto simp: unfinished_def)
  with collect unfinished_card [of i m] show ?case by (auto simp: close_inv_def split: closer.splits)
next
  case (return m err)
  then show ?case by (auto simp: close_inv_def)
qed (auto simp: close_inv_def split: closer.splits)

text \<open>What is pending: a fetch starts with fewer than \<open>maxPending\<close> items pending.\<close>

fun batch_at_most :: "nat \<Rightarrow> label \<Rightarrow> bool" where
  "batch_at_most b (Takes i xs) = (length xs \<le> b)"
| "batch_at_most b _ = True"

definition pending_inv :: "nat \<Rightarrow> sub \<Rightarrow> bool" where
  "pending_inv b s \<longleftrightarrow>
     (sb_fetchDone s \<noteq> NoFetch \<longrightarrow> length (sb_pending s) < maxPending) \<and>
     length (sb_pending s) < maxPending + b"

lemma uniq_length: "length (uniq seen xs) \<le> length xs"
  by (induction xs arbitrary: seen) (auto simp: le_SucI)

lemma sub_turn_pending:
  assumes "sub_turn now c s = Some (s', ev)" "pending_inv b s" "\<And>xs. ev = Took xs \<Longrightarrow> length xs \<le> b"
  shows "pending_inv b s'"
proof (cases c)
  case FetchDone
  with assms(1) obtain fetched nxt err where f: "sb_fetchDone s = Fetched fetched nxt err"
    by (auto simp: sub_turn_def split: fetching.splits)
  with assms FetchDone have p: "length (sb_pending s) < maxPending" by (auto simp: pending_inv_def)
  show ?thesis
  proof (cases err)
    case None
    with assms(1) FetchDone f have s': "sb_fetchDone s' = NoFetch"
        "sb_pending s' = sb_pending s @ uniq (sb_seen s) fetched" "ev = Took fetched"
      by (auto simp: sub_turn_def add_unseen_uniq split: if_splits)
    with p assms(3) [OF s'(3)] uniq_length [of "sb_seen s" fetched] show ?thesis by (simp add: pending_inv_def)
  next
    case (Some e)
    with assms(1) FetchDone f p show ?thesis by (auto simp: sub_turn_def pending_inv_def split: if_splits)
  qed
qed (use assms in \<open>auto simp: sub_turn_def pending_inv_def split: if_splits list.splits fetching.splits\<close>)

lemma pending_inv_step:
  assumes "merge_step m l m'" "\<And>i. pending_inv b (mg_sub m i)" "batch_at_most b l"
  shows "pending_inv b (mg_sub m' i)"
  using assms
  by (induction rule: merge_step.induct) (auto elim!: sub_turn_pending)

lemma merge_reach_inv:
  assumes "merge_reach n ls m"
  shows "mg_n m = n" "i < n \<Longrightarrow> sub_inv ls m i" "close_inv m"
    "list_all (batch_at_most b) ls \<Longrightarrow> pending_inv b (mg_sub m i)"
proof -
  have "mg_n m = n \<and> (\<forall>i < n. sub_inv ls m i) \<and> close_inv m \<and>
    (list_all (batch_at_most b) ls \<longrightarrow> (\<forall>i. pending_inv b (mg_sub m i)))"
    using assms
  proof (induction rule: merge_reach.induct)
    case start
    show ?case
      by (auto simp: Merge_def Subscribe_def sub_inv_def in_flight_def close_inv_def unfinished_def
          pending_inv_def maxPending_def)
  next
    case (step ls m l m')
    have "mg_n m' = mg_n m" using step.hyps(2) by (induction rule: merge_step.induct) auto
    with step sub_inv_step [OF step.hyps(2)] close_inv_step [OF step.hyps(2)]
      pending_inv_step [OF step.hyps(2), of b]
    show ?case by auto
  qed
  then show "mg_n m = n" "i < n \<Longrightarrow> sub_inv ls m i" "close_inv m"
    "list_all (batch_at_most b) ls \<Longrightarrow> pending_inv b (mg_sub m i)" by auto
qed

section \<open>Close returns\<close>

fun rank :: "merge_pc \<Rightarrow> nat" where
  "rank Receiving = 3"
| "rank (Holding x) = 3"
| "rank Closing = 2"
| "rank (SendingErr e) = 1"
| "rank Finished = 0"

definition to_close :: "merge \<Rightarrow> nat" where
  "to_close m = (\<Sum>i < mg_n m. rank (mg_pc m i))"

definition merge_next :: "merge \<Rightarrow> merge \<Rightarrow> bool" where
  "merge_next m m' \<longleftrightarrow> (\<exists>l. merge_step m l m')"

lemma to_close_less:
  assumes "i < mg_n m" "rank pc < rank (mg_pc m i)" "mg_n m' = mg_n m" "mg_pc m' = (mg_pc m)(i := pc)"
  shows "to_close m' < to_close m"
proof -
  have "(\<Sum>j < mg_n m. rank (((mg_pc m)(i := pc)) j)) < (\<Sum>j < mg_n m. rank (mg_pc m j))"
    by (rule sum_strict_mono_ex1) (use assms(1,2) in auto)
  with assms(3,4) show ?thesis by (simp add: to_close_def)
qed

text \<open>While \<open>Close\<close> waits, some goroutine can take the next step towards its end.\<close>

lemma closing_step:
  assumes "merge_reach n ls m" "mg_close m = Collecting (Suc k) err"
  shows "\<exists>l m' k' err'. merge_step m l m' \<and> to_close m' < to_close m \<and> mg_close m' = Collecting k' err'"
proof -
  note inv = merge_reach_inv [OF assms(1)]
  from inv(3) assms(2) have quit: "mg_quit m" and "card (unfinished m) = Suc k"
    by (auto simp: close_inv_def)
  then obtain i where i: "i < mg_n m" "mg_pc m i \<noteq> Finished"
    unfolding unfinished_def by (metis (mono_tags, lifting) card.empty empty_Collect_eq nat.distinct(1))
  show ?thesis
  proof (cases "mg_pc m i")
    case Receiving
    from merge_step.quit_receiving [OF i(1) quit Receiving] Receiving i(1) assms(2) show ?thesis
      by (intro exI conjI) (assumption, auto intro!: to_close_less [of i])
  next
    case (Holding x)
    from merge_step.quit_holding [OF i(1) quit Holding] Holding i(1) assms(2) show ?thesis
      by (intro exI conjI) (assumption, auto intro!: to_close_less [of i])
  next
    case Closing
    with inv(1,2) i(1) have "\<not> sb_closed (mg_sub m i)" by (auto simp: sub_inv_def)
    then have "sub_turn 0 CloseReq (mg_sub m i) = Some ((mg_sub m i)\<lparr>sb_closed := True\<rparr>, ClosedWith (sb_err (mg_sub m i)))"
      by (simp add: sub_turn_closes)
    from merge_step.close_sub [OF i(1) Closing this] Closing i(1) assms(2) show ?thesis
      by (intro exI conjI) (assumption, auto intro!: to_close_less [of i])
  next
    case (SendingErr e)
    from merge_step.collect [OF i(1) SendingErr assms(2)] SendingErr i(1) show ?thesis
      by (intro exI conjI) (assumption, auto intro!: to_close_less [of i])
  qed (use i in simp)
qed

lemma close_can_return:
  assumes "merge_reach n ls m" "mg_close m = Collecting k err"
  shows "\<exists>m' e. merge_next\<^sup>*\<^sup>* m m' \<and> mg_close m' = CloseReturned e"
  using assms
proof (induction "to_close m" arbitrary: m ls k err rule: less_induct)
  case less
  show ?case
  proof (cases k)
    case 0
    with merge_step.return less.prems(2) have "merge_next m (m\<lparr>mg_updates_closed := True, mg_close := CloseReturned err\<rparr>)"
      unfolding merge_next_def by blast
    then show ?thesis by (intro exI conjI) (rule r_into_rtranclp, assumption, simp)
  next
    case (Suc k1)
    with less.prems closing_step obtain l m1 k' err' where
      m1: "merge_step m l m1" "to_close m1 < to_close m" "mg_close m1 = Collecting k' err'" by blast
    from less.hyps [OF m1(2) merge_reach.step [OF less.prems(1) m1(1)] m1(3)] obtain m2 e where
      "merge_next\<^sup>*\<^sup>* m1 m2" "mg_close m2 = CloseReturned e" by blast
    moreover have "merge_next m m1" using m1(1) by (auto simp: merge_next_def)
    ultimately show ?thesis by (meson converse_rtranclp_into_rtranclp)
  qed
qed

section \<open>Properties\<close>

text \<open>
  C11: Every item once: after any interleaving of fetches, reads and \<open>Close\<close>, the updates of a
  subscription that the merge has delivered are, in their order, the first ones of the items taken
  from its fetcher without those whose GUID was seen before; what is missing at the end is still
  pending, but for at most one item that a goroutine holds or gave up when it was told to quit.
\<close>

theorem feed_exactly_once:
  assumes "merge_reach n ls m" and "i < n"
  shows "\<exists>fl. updates_of i ls @ fl @ sb_pending (mg_sub m i) = uniq {} (taken_at i ls) \<and> length fl \<le> 1 \<and>
    (mg_pc m i = Receiving \<longrightarrow> fl = []) \<and> distinct (map it_GUID (updates_of i ls))"
proof -
  from merge_reach_inv(2) [OF assms] obtain fl where fl: "in_flight (mg_pc m i) fl"
      "updates_of i ls @ fl @ sb_pending (mg_sub m i) = uniq {} (taken_at i ls)"
    by (auto simp: sub_inv_def)
  have "distinct (map it_GUID (updates_of i ls))"
    using uniq_spec(1) [of "{}" "taken_at i ls"] unfolding fl(2) [symmetric] by simp
  with fl show ?thesis by (intro exI [of _ fl]) (auto simp: in_flight_def split: merge_pc.splits)
qed

text \<open>A fetch with a repeated item, read through a merge of one subscription.\<close>

definition item_a :: Item where "item_a = \<lparr>it_Title = ''a'', it_Channel = ''c'', it_GUID = ''1''\<rparr>"
definition item_b :: Item where "item_b = \<lparr>it_Title = ''b'', it_Channel = ''c'', it_GUID = ''2''\<rparr>"

definition feed_labels :: "label list" where
  "feed_labels = [Tau, Tau, Takes 0 [item_a, item_b, item_a], Tau, Update 0 item_a]"

lemma feed_labels_reached: "\<exists>m. merge_reach 1 feed_labels m \<and> mg_pc m 0 = Receiving \<and> sb_pending (mg_sub m 0) = [item_b]"
proof -
  note defs = Merge_def Subscribe_def sub_turn_def maxPending_def item_a_def item_b_def
  define m0 where "m0 = Merge 1"
  define m1 where "m1 = m0\<lparr>mg_sub := (mg_sub m0)(0 := Subscribe\<lparr>sb_fetchDone := Fetching\<rparr>)\<rparr>"
  define m2 where "m2 = m1\<lparr>mg_sub := (mg_sub m1)(0 := Subscribe\<lparr>sb_fetchDone := Fetched [item_a, item_b, item_a] 7 None\<rparr>)\<rparr>"
  define s3 where "s3 = Subscribe\<lparr>sb_next := 7, sb_pending := [item_a, item_b], sb_seen := {''2'', ''1''}\<rparr>"
  define m3 where "m3 = m2\<lparr>mg_sub := (mg_sub m2)(0 := s3)\<rparr>"
  define m4 where "m4 = m3\<lparr>mg_sub := (mg_sub m3)(0 := s3\<lparr>sb_pending := [item_b]\<rparr>), mg_pc := (mg_pc m3)(0 := Holding item_a)\<rparr>"
  define m5 where "m5 = m4\<lparr>mg_pc := (mg_pc m4)(0 := Receiving)\<rparr>"
  have "merge_step m0 Tau m1" unfolding m1_def
    by (rule merge_step.turn_silent [of _ _ 0 StartFetch]) (simp_all add: m0_def defs)
  moreover have "merge_step m1 Tau m2" unfolding m2_def
    by (rule merge_step.turn_silent [of _ _ 0 "FetchReturns [item_a, item_b, item_a] 7 None"])
       (simp_all add: m1_def m0_def defs)
  moreover have "merge_step m2 (Takes 0 [item_a, item_b, item_a]) m3" unfolding m3_def
    by (rule merge_step.turn_takes [of _ _ 0]) (auto simp: m2_def m1_def m0_def s3_def defs)
  moreover have "merge_step m3 Tau m4" unfolding m4_def
    by (rule merge_step.receive [of _ _ 0]) (simp_all add: m3_def m2_def m1_def m0_def s3_def defs)
  moreover have "merge_step m4 (Update 0 item_a) m5" unfolding m5_def
    by (rule merge_step.forward) (simp_all add: m4_def m3_def m2_def m1_def m0_def defs)
  ultimately have "merge_reach 1 ((((([] @ [Tau]) @ [Tau]) @ [Takes 0 [item_a, item_b, item_a]]) @ [Tau]) @ [Update 0 item_a]) m5"
    unfolding m0_def by (blast intro: merge_reach.intros)
  then have "merge_reach 1 feed_labels m5" by (simp add: feed_labels_def)
  moreover have "mg_pc m5 0 = Receiving \<and> sb_pending (mg_sub m5 0) = [item_b]"
    by (simp add: m5_def m4_def)
  ultimately show ?thesis by blast
qed

theorem feed_exactly_once_witness:
  "\<exists>m. merge_reach 1 feed_labels m \<and> updates_of 0 feed_labels @ sb_pending (mg_sub m 0) = [item_a, item_b]"
proof -
  obtain m where m: "merge_reach 1 feed_labels m" "mg_pc m 0 = Receiving" using feed_labels_reached by blast
  from feed_exactly_once [OF m(1), of 0] m(2)
  have "updates_of 0 feed_labels @ sb_pending (mg_sub m 0) = uniq {} (taken_at 0 feed_labels)" by auto
  with m(1) show ?thesis by (auto simp: feed_labels_def item_a_def item_b_def)
qed

text \<open>
  C36: Memory is bounded and the merge closes: when no fetch brings more than \<open>b\<close> items, at most
  \<open>9 + b\<close> items of a subscription are ever pending; the channel of merged updates is closed only
  after every goroutine of the merge has ended, so that nothing is sent on it afterwards; and from
  any state in which \<open>Close\<close> is waiting it can be brought to return.
\<close>

theorem feed_bounded_and_closes:
  assumes "merge_reach n ls m" and "list_all (batch_at_most b) ls" and "i < n"
  shows "length (sb_pending (mg_sub m i)) \<le> 9 + b \<and>
    (mg_close m = CloseReturned err \<longrightarrow> mg_pc m i = Finished) \<and>
    (mg_close m = Collecting k err \<longrightarrow> (\<exists>m' e. merge_next\<^sup>*\<^sup>* m m' \<and> mg_close m' = CloseReturned e))"
proof (intro conjI impI)
  note inv = merge_reach_inv [OF assms(1)]
  show "length (sb_pending (mg_sub m i)) \<le> 9 + b"
    using inv(4) [OF assms(2), of i] by (simp add: pending_inv_def maxPending_def)
  show "mg_pc m i = Finished" if "mg_close m = CloseReturned err"
    using inv(1,3) that assms(3) by (auto simp: close_inv_def unfinished_def)
  show "\<exists>m' e. merge_next\<^sup>*\<^sup>* m m' \<and> mg_close m' = CloseReturned e" if "mg_close m = Collecting k err"
    using close_can_return [OF assms(1) that] .
qed

theorem feed_bounded_and_closes_witness:
  "\<exists>m. merge_reach 1 feed_labels m \<and> length (sb_pending (mg_sub m 0)) \<le> 9 + 3"
proof -
  obtain m where m: "merge_reach 1 feed_labels m" using feed_labels_reached by blast
  have "list_all (batch_at_most 3) feed_labels" by (simp add: feed_labels_def)
  from feed_bounded_and_closes [OF m this, of 0] m show ?thesis by auto
qed

end
