(* ===== verification/Clerks.thy ===== *)
theory Clerks
  imports Prelude
begin

text \<open>
  The clerks of \<open>6.824-labs\<close> \<open>kvpaxos\<close>, \<open>shardmaster\<close> and \<open>shardkv\<close>, and the servers behind them as
  far as they are written: their handlers return without touching the reply, and so do the
  methods of \<open>paxos\<close>.

  A clerk asks one server after the other, round after round, until an answer satisfies it.  What
  server \<open>srv\<close> answers in round \<open>n\<close> is the argument \<open>answers n srv\<close>, \<open>None\<close> when \<open>call()\<close> fails.
  A loop that does not end has the value \<open>None\<close>.
\<close>

section \<open>Asking servers\<close>

fun try_servers :: "('r \<Rightarrow> bool) \<Rightarrow> (string \<Rightarrow> 'r option) \<Rightarrow> string list \<Rightarrow> 'r option" where
  "try_servers accept answer [] = None"
| "try_servers accept answer (srv # srvs) =
     (case answer srv of
        Some r \<Rightarrow> if accept r then Some r else try_servers accept answer srvs
      | None \<Rightarrow> try_servers accept answer srvs)"

partial_function (option) ask_servers ::
  "('r \<Rightarrow> bool) \<Rightarrow> (nat \<Rightarrow> string \<Rightarrow> 'r option) \<Rightarrow> string list \<Rightarrow> nat \<Rightarrow> 'r option" where
  "ask_servers accept answers servers n =
     (case try_servers accept (answers n) servers of
        Some r \<Rightarrow> Some r
      | None \<Rightarrow> ask_servers accept answers servers (Suc n))"

section \<open>kvpaxos\<close>

record GetReply =
  gr_Err :: string
  gr_Value :: string

definition get_done :: "GetReply \<Rightarrow> bool" where
  "get_done r = (gr_Err r = ''OK'' \<or> gr_Err r = ''ErrNoKey'')"

definition kvp_clerk_Get :: "(nat \<Rightarrow> string \<Rightarrow> GetReply option) \<Rightarrow> string list \<Rightarrow> string option" where
  "kvp_clerk_Get answers servers = map_option gr_Value (ask_servers get_done answers servers 0)"

definition kvp_clerk_Put :: "(nat \<Rightarrow> string \<Rightarrow> string option) \<Rightarrow> string list \<Rightarrow> unit option" where
  "kvp_clerk_Put answers servers = map_option (\<lambda>_. ()) (ask_servers (\<lambda>e. e = ''OK'') answers servers 0)"

text \<open>The handlers, with the reply they leave: the zero one.\<close>

definition kvp_Get :: "string \<Rightarrow> GetReply" where
  "kvp_Get key = \<lparr>gr_Err = '''', gr_Value = ''''\<rparr>"

definition kvp_Put :: "string \<Rightarrow> string \<Rightarrow> string" where
  "kvp_Put key value = ''''"

text \<open>\<open>paxos\<close>: no instance is ever decided.\<close>

definition px_Max :: int where "px_Max = 0"
definition px_Min :: int where "px_Min = 0"

definition px_Status :: "int \<Rightarrow> bool \<times> 'v option" where
  "px_Status seq = (False, None)"

section \<open>shardmaster\<close>

definition NShards :: nat where "NShards = 10"

record Config =
  cf_Num :: int
  cf_Shards :: "int list"
  cf_Groups :: "int \<rightharpoonup> string list"

definition no_config :: Config where
  "no_config = \<lparr>cf_Num = 0, cf_Shards = replicate NShards 0, cf_Groups = Map.empty\<rparr>"

text \<open>The calls of \<open>Query\<close>, \<open>Join\<close>, \<open>Leave\<close> and \<open>Move\<close> end with the first that gets through.\<close>

definition sm_clerk_Query :: "(nat \<Rightarrow> string \<Rightarrow> Config option) \<Rightarrow> string list \<Rightarrow> Config option" where
  "sm_clerk_Query answers servers = ask_servers (\<lambda>_. True) answers servers 0"

definition sm_clerk_Join :: "(nat \<Rightarrow> string \<Rightarrow> unit option) \<Rightarrow> string list \<Rightarrow> unit option" where
  "sm_clerk_Join answers servers = ask_servers (\<lambda>_. True) answers servers 0"

definition sm_clerk_Leave :: "(nat \<Rightarrow> string \<Rightarrow> unit option) \<Rightarrow> string list \<Rightarrow> unit option" where
  "sm_clerk_Leave answers servers = ask_servers (\<lambda>_. True) answers servers 0"

definition sm_clerk_Move :: "(nat \<Rightarrow> string \<Rightarrow> unit option) \<Rightarrow> string list \<Rightarrow> unit option" where
  "sm_clerk_Move answers servers = ask_servers (\<lambda>_. True) answers servers 0"

definition sm_Query :: "int \<Rightarrow> Config" where
  "sm_Query num = no_config"

section \<open>shardkv\<close>

definition key2shard :: "string \<Rightarrow> nat" where
  "key2shard key = (case key of [] \<Rightarrow> 0 | c # cs \<Rightarrow> of_char c) mod NShards"

text \<open>The servers of the group that has the key's shard; \<open>None\<close> when the group is unknown.\<close>

definition group_of :: "Config \<Rightarrow> string \<Rightarrow> string list option" where
  "group_of config key = cf_Groups config (cf_Shards config ! key2shard key)"

text \<open>
  The loop of \<open>Get\<close> and \<open>Put\<close>.  \<open>masters n\<close> is what the shardmasters answer to the \<open>Query\<close> that ends
  round \<open>n\<close>; the result is the last configuration and the accepted reply.
\<close>

partial_function (option) shard_loop ::
  "('r \<Rightarrow> bool) \<Rightarrow> (nat \<Rightarrow> string \<Rightarrow> 'r option) \<Rightarrow> (nat \<Rightarrow> nat \<Rightarrow> string \<Rightarrow> Config option) \<Rightarrow> string list \<Rightarrow>
   string \<Rightarrow> Config \<Rightarrow> nat \<Rightarrow> (Config \<times> 'r) option" where
  "shard_loop accept answers masters shardmasters key config n =
     (case (case group_of config key of
              None \<Rightarrow> None
            | Some servers \<Rightarrow> try_servers accept (answers n) servers) of
        Some r \<Rightarrow> Some (config, r)
      | None \<Rightarrow>
          (case sm_clerk_Query (masters n) shardmasters of
             None \<Rightarrow> None
           | Some config1 \<Rightarrow> shard_loop accept answers masters shardmasters key config1 (Suc n)))"

definition skv_clerk_Get ::
  "(nat \<Rightarrow> string \<Rightarrow> GetReply option) \<Rightarrow> (nat \<Rightarrow> nat \<Rightarrow> string \<Rightarrow> Config option) \<Rightarrow> string list \<Rightarrow>
   string \<Rightarrow> Config \<Rightarrow> (Config \<times> string) option" where
  "skv_clerk_Get answers masters shardmasters key config =
     map_option (\<lambda>(c, r). (c, gr_Value r)) (shard_loop get_done answers masters shardmasters key config 0)"

definition skv_clerk_Put ::
  "(nat \<Rightarrow> string \<Rightarrow> string option) \<Rightarrow> (nat \<Rightarrow> nat \<Rightarrow> string \<Rightarrow> Config option) \<Rightarrow> string list \<Rightarrow>
   string \<Rightarrow> Config \<Rightarrow> Config option" where
  "skv_clerk_Put answers masters shardmasters key config =
     map_option fst (shard_loop (\<lambda>e. e = ''OK'') answers masters shardmasters key config 0)"

definition skv_Get :: "string \<Rightarrow> GetReply" where
  "skv_Get key = \<lparr>gr_Err = '''', gr_Value = ''''\<rparr>"

definition skv_Put :: "string \<Rightarrow> string \<Rightarrow> string" where
  "skv_Put key value = ''''"

section \<open>When a clerk returns\<close>

lemma try_servers_find:
  "try_servers accept answer srvs =
   Option.bind (List.find (\<lambda>x. case x of None \<Rightarrow> False | Some r \<Rightarrow> accept r) (map answer srvs)) id"
  by (induction srvs) (auto split: option.splits)

lemma try_servers_Some:
  "try_servers accept answer srvs = Some r \<Longrightarrow> accept r \<and> (\<exists>srv \<in> set srvs. answer srv = Some r)"
  by (induction srvs) (auto split: option.splits if_splits)

lemma try_servers_never: "(\<And>srv r. answer srv = Some r \<Longrightarrow> \<not> accept r) \<Longrightarrow> try_servers accept answer srvs = None"
  by (induction srvs) (auto split: option.splits)

lemma ask_servers_returns:
  assumes "try_servers accept (answers (n + d)) servers = Some r"
    and "\<And>k. k < d \<Longrightarrow> try_servers accept (answers (n + k)) servers = None"
  shows "ask_servers accept answers servers n = Some r"
  using assms
proof (induction d arbitrary: n)
  case 0
  then show ?case by (subst ask_servers.simps) simp
next
  case (Suc d)
  have "try_servers accept (answers n) servers = None" using Suc.prems(2) [of 0] by simp
  moreover have "ask_servers accept answers servers (Suc n) = Some r"
    by (rule Suc.IH) (use Suc.prems(1) Suc.prems(2) [of "Suc k" for k] in \<open>simp_all\<close>)
  ultimately show ?case by (subst ask_servers.simps) simp
qed

lemma ask_servers_found:
  assumes "ask_servers accept answers servers n = Some r"
  shows "\<exists>k. try_servers accept (answers k) servers = Some r"
  by (rule ask_servers.raw_induct [OF _ assms]) (auto split: option.splits)

lemma ask_servers_eq:
  "ask_servers accept answers servers 0 =
     (if \<exists>n. try_servers accept (answers n) servers \<noteq> None
      then try_servers accept (answers (LEAST n. try_servers accept (answers n) servers \<noteq> None)) servers
      else None)"
proof (cases "\<exists>n. try_servers accept (answers n) servers \<noteq> None")
  case True
  define n where "n = (LEAST n. try_servers accept (answers n) servers \<noteq> None)"
  have "try_servers accept (answers n) servers \<noteq> None" unfolding n_def using True by (rule LeastI_ex)
  moreover have "try_servers accept (answers k) servers = None" if "k < n" for k
    using not_less_Least [of k "\<lambda>n. try_servers accept (answers n) servers \<noteq> None"] that by (simp add: n_def)
  ultimately have "ask_servers accept answers servers 0 = try_servers accept (answers n) servers"
    using ask_servers_returns [of accept answers 0 n servers] by auto
  with True show ?thesis by (simp add: n_def)
next
  case False
  with ask_servers_found [of accept answers servers 0] show ?thesis by (cases "ask_servers accept answers servers 0") auto
qed

lemma shard_loop_found:
  assumes "shard_loop accept answers masters shardmasters key config n = Some (c, r)"
  shows "\<exists>servers k. group_of c key = Some servers \<and> try_servers accept (answers k) servers = Some r"
proof -
  have "\<exists>servers k. group_of (fst p) key = Some servers \<and> try_servers accept (answers k) servers = Some (snd p)"
    if "shard_loop accept answers masters shardmasters key config n = Some p" for p
    by (rule shard_loop.raw_induct [OF _ that]) (fastforce split: option.splits)
  from this [OF assms] show ?thesis by simp
qed

lemma key2shard_less: "key2shard key < NShards"
  by (simp add: key2shard_def NShards_def)

text \<open>
  Against the handlers as they are, which leave the error empty, a clerk of \<open>kvpaxos\<close> asks for ever.
\<close>

lemma stub_servers_hang:
  "kvp_clerk_Get (\<lambda>n srv. if up n srv then Some (kvp_Get key) else None) servers = None"
proof -
  have "try_servers get_done (\<lambda>srv. if up n srv then Some (kvp_Get key) else None) servers = None" for n
    by (rule try_servers_never) (auto simp: get_done_def kvp_Get_def split: if_splits)
  then show ?thesis by (simp add: kvp_clerk_Get_def ask_servers_eq)
qed

lemma kvp_clerk_Get_first:
  assumes "try_servers get_done (answers n) servers = Some r"
    and "\<And>k. k < n \<Longrightarrow> try_servers get_done (answers k) servers = None"
  shows "kvp_clerk_Get answers servers = Some (gr_Value r)"
  using ask_servers_returns [of get_done answers 0 n servers r] assms by (simp add: kvp_clerk_Get_def)

section \<open>Properties\<close>

text \<open>
  C37: Whatever the shardmasters and the servers answer and however the configuration changes while
  the clerk tries: the value a \<open>Get\<close> returns was the answer, accepted as final, of a server that
  belongs to the group which the clerk's last configuration assigns to the shard of the key, and
  that shard is one of the table.
\<close>

theorem shard_get_from_owner:
  assumes "skv_clerk_Get answers masters shardmasters key config = Some (c, v)"
  shows "\<exists>servers srv n r. group_of c key = Some servers \<and> srv \<in> set servers \<and>
    answers n srv = Some r \<and> get_done r \<and> gr_Value r = v \<and> key2shard key < NShards"
proof -
  from assms obtain r where r: "shard_loop get_done answers masters shardmasters key config 0 = Some (c, r)"
    "gr_Value r = v" by (auto simp: skv_clerk_Get_def)
  from shard_loop_found [OF r(1)] obtain servers n where
    "group_of c key = Some servers" "try_servers get_done (answers n) servers = Some r" by blast
  with try_servers_Some [of get_done "answers n" servers r] r(2) key2shard_less [of key] show ?thesis by blast
qed

text \<open>
  The witness: the group is unknown at first, the second shardmaster names it, one of its servers
  is no longer responsible and the other answers.
\<close>

theorem shard_get_from_owner_witness:
  "let config = no_config\<lparr>cf_Num := 1, cf_Shards := replicate NShards 7, cf_Groups := [7 \<mapsto> [''s1'', ''s2'']]\<rparr>;
       answers = (\<lambda>n srv. if srv = ''s2'' then Some \<lparr>gr_Err = ''OK'', gr_Value = ''v''\<rparr> else Some (skv_Get ''a''))
   in skv_clerk_Get answers (\<lambda>n k srv. if srv = ''m2'' then Some config else None) [''m1'', ''m2''] ''a'' no_config
       = Some (config, ''v'') \<and>
     (\<exists>servers srv n r. group_of config ''a'' = Some servers \<and> srv \<in> set servers \<and>
       answers (n::nat) srv = Some r \<and> get_done r \<and> gr_Value r = ''v'' \<and> key2shard ''a'' < NShards)"
proof -
  let ?config = "no_config\<lparr>cf_Num := 1, cf_Shards := replicate NShards 7, cf_Groups := [7 \<mapsto> [''s1'', ''s2'']]\<rparr>"
  let ?answers = "\<lambda>(n::nat) srv. if srv = ''s2'' then Some \<lparr>gr_Err = ''OK'', gr_Value = ''v''\<rparr> else Some (skv_Get ''a'')"
  let ?masters = "\<lambda>(n::nat) (k::nat) srv. if srv = ''m2'' then Some ?config else None"
  have unknown: "group_of no_config ''a'' = None" by (simp add: group_of_def no_config_def)
  have known: "group_of ?config ''a'' = Some [''s1'', ''s2'']"
    by (simp add: group_of_def nth_replicate key2shard_less)
  have query: "sm_clerk_Query (?masters n) [''m1'', ''m2''] = Some ?config" for n
    by (simp add: sm_clerk_Query_def ask_servers.simps)
  have answered: "try_servers get_done (?answers n) [''s1'', ''s2''] = Some \<lparr>gr_Err = ''OK'', gr_Value = ''v''\<rparr>" for n
    by (simp add: get_done_def skv_Get_def)
  have "shard_loop get_done ?answers ?masters [''m1'', ''m2''] ''a'' no_config 0 =
      shard_loop get_done ?answers ?masters [''m1'', ''m2''] ''a'' ?config 1"
    by (subst shard_loop.simps) (simp only: unknown query option.case One_nat_def)
  also have "\<dots> = Some (?config, \<lparr>gr_Err = ''OK'', gr_Value = ''v''\<rparr>)"
    by (subst shard_loop.simps) (simp only: known answered option.case)
  finally have "skv_clerk_Get ?answers ?masters [''m1'', ''m2''] ''a'' no_config = Some (?config, ''v'')"
    by (simp add: skv_clerk_Get_def)
  with shard_get_from_owner [OF this] show ?thesis by (simp add: Let_def)
qed

end
