(* ===== verification/RpcLib.thy ===== *)
theory RpcLib
  imports BufServers
begin

text \<open>
  The remote buffer of \<open>15-440/class07/rpclib\<close>: the methods of \<open>SrvBuf\<close> over the server of
  \<open>dserver\<close>, and the client's stubs \<open>SClient\<close>.

  \<^item> One client makes its calls one after the other; a call is a request that the server's loop
    answers in its next round, or puts off for ever if nobody else inserts (\<open>Blocked\<close>).
  \<^item> After most calls the server logs the text of the buffer, which is a request of its own.
  \<^item> A value on the wire, \<open>Val\<close>, is a \<open>reply\<close> of \<open>BufServers\<close>; \<open>Any None\<close> is the nil that
    \<open>nullVal\<close> holds.  \<open>encoding/gob\<close> sends only exported fields, so of a \<open>bufi.Buf\<close> the elements
    from \<open>Head\<close> on arrive, the unexported \<open>tail\<close> and \<open>cnt\<close> as zero values.
\<close>

section \<open>The server's methods\<close>

text \<open>\<open>dorequest\<close>: put the request on the channel and wait for the reply.\<close>

definition srv_request ::
  "('v option Buf \<Rightarrow> string) \<Rightarrow> bufop \<Rightarrow> 'v option \<Rightarrow> 'v dserver \<Rightarrow>
   ('v dserver \<times> ('v, 'v option Buf) reply) outcome" where
  "srv_request render op v s =
     (case dserver_iter render (s\<lparr>ds_requestc := ds_requestc s @ [dorequest op v 0]\<rparr>) of
        Blocked \<Rightarrow> Blocked
      | Panicked \<Rightarrow> Panicked
      | Step s1 \<Rightarrow>
          if length (ds_replies s1) = length (ds_replies s) then Blocked
          else Step (s1, snd (last (ds_replies s1))))"

definition gob_copy :: "'a Buf \<Rightarrow> 'a Buf" where
  "gob_copy b = b\<lparr>buf_tail := None, buf_cnt := 0\<rparr>"

fun on_wire :: "('v, 'v option Buf) reply \<Rightarrow> ('v, 'v option Buf) reply" where
  "on_wire (Pointer b) = Pointer (gob_copy b)"
| "on_wire p = p"

text \<open>The reply of a method before it is sent; \<open>Insert\<close> and \<open>Flush\<close> reply \<open>nullVal\<close>.\<close>

definition srv_value :: "bufop \<Rightarrow> ('v, 'b) reply \<Rightarrow> ('v, 'b) reply" where
  "srv_value op p = (if op = doinsert \<or> op = doflush then Any None else p)"

definition srv_method ::
  "('v option Buf \<Rightarrow> string) \<Rightarrow> bufop \<Rightarrow> 'v option \<Rightarrow> 'v dserver \<Rightarrow>
   ('v dserver \<times> ('v, 'v option Buf) reply) outcome" where
  "srv_method render op v s =
     (case srv_request render op v s of
        Blocked \<Rightarrow> Blocked
      | Panicked \<Rightarrow> Panicked
      | Step (s1, p) \<Rightarrow>
          if op = docontents \<or> op = dolist then Step (s1, srv_value op p)
          else (case srv_request render dostring None s1 of
              Blocked \<Rightarrow> Blocked
            | Panicked \<Rightarrow> Panicked
            | Step (s2, t) \<Rightarrow> Step (s2, srv_value op p)))"

definition NewSrvBuf :: "'v dserver" where
  "NewSrvBuf = dserver_NewBuf []"

section \<open>The client's stubs\<close>

text \<open>
  What a stub does with the reply, \<open>None\<close> when the call failed.  \<open>Front\<close> and \<open>Remove\<close> then return
  a \<open>Val\<close> that holds nil; \<open>Contents\<close> and \<open>List\<close> assert the type of the reply before they look at
  the error, and \<open>Empty\<close> asserts it after.
\<close>

datatype ('v, 'b) stub_value = Returned "('v, 'b) call_result" | NullVal

definition stub_result :: "bufop \<Rightarrow> ('v, 'b) reply option \<Rightarrow> ('v, 'b) stub_value go" where
  "stub_result op r =
     (case r of
        Some p \<Rightarrow> map_option Returned (call_of op p)
      | None \<Rightarrow>
          (case op of
             doinsert \<Rightarrow> Some (Returned Unit_result)
           | doflush \<Rightarrow> Some (Returned Unit_result)
           | dofront \<Rightarrow> Some NullVal
           | doremove \<Rightarrow> Some NullVal
           | doempty \<Rightarrow> Some (Returned (Bool_result False))
           | _ \<Rightarrow> None))"

definition cli_call ::
  "('v option Buf \<Rightarrow> string) \<Rightarrow> delivery \<Rightarrow> bufop \<Rightarrow> 'v option \<Rightarrow> 'v dserver \<Rightarrow>
   ('v dserver \<times> ('v, 'v option Buf) stub_value) outcome" where
  "cli_call render d op v s =
     (if d = RequestLost then go_step (map_option (\<lambda>r. (s, r)) (stub_result op None))
      else case srv_method render op v s of
          Blocked \<Rightarrow> Blocked
        | Panicked \<Rightarrow> Panicked
        | Step (s1, p) \<Rightarrow>
            go_step (map_option (\<lambda>r. (s1, r)) (stub_result op (if d = Delivered then Some (on_wire p) else None))))"

section \<open>Calls and the queue\<close>

text \<open>An idle server that holds \<open>xs\<close>.\<close>

definition srv_holds :: "'v dserver \<Rightarrow> 'v option list \<Rightarrow> bool" where
  "srv_holds s xs \<longleftrightarrow> buf_rep (ds_sb s) xs \<and> buf_rep (ds_db s) [] \<and> ds_requestc s = []"

text \<open>The queue operation of a call, and what its stub returns for an observation.\<close>

fun op_of :: "'v option fifo_op \<Rightarrow> bufop \<times> 'v option" where
  "op_of (OpInsert v) = (doinsert, v)"
| "op_of OpFront = (dofront, None)"
| "op_of OpRemove = (doremove, None)"
| "op_of OpEmpty = (doempty, None)"
| "op_of OpFlush = (doflush, None)"

fun returned_as :: "'v option fifo_obs \<Rightarrow> ('v, 'b) stub_value" where
  "returned_as Done = Returned Unit_result"
| "returned_as (Value v) = Returned (Val_result v)"
| "returned_as NoValue = Returned (Val_result None)"
| "returned_as (IsEmpty b) = Returned (Bool_result b)"

fun cli_calls ::
  "('v option Buf \<Rightarrow> string) \<Rightarrow> 'v option fifo_op list \<Rightarrow> 'v dserver \<Rightarrow>
   ('v dserver \<times> ('v, 'v option Buf) stub_value list) outcome" where
  "cli_calls render [] s = Step (s, [])"
| "cli_calls render (p # ps) s =
     (case cli_call render Delivered (fst (op_of p)) (snd (op_of p)) s of
        Blocked \<Rightarrow> Blocked
      | Panicked \<Rightarrow> Panicked
      | Step (s1, r) \<Rightarrow>
          (case cli_calls render ps s1 of
             Blocked \<Rightarrow> Blocked
           | Panicked \<Rightarrow> Panicked
           | Step (s2, rs) \<Rightarrow> Step (s2, r # rs)))"

text \<open>No read finds the queue empty.\<close>

fun reads_something :: "'a fifo_op list \<Rightarrow> 'a list \<Rightarrow> bool" where
  "reads_something [] xs = True"
| "reads_something (p # ps) xs =
     ((p \<in> {OpFront, OpRemove} \<longrightarrow> xs \<noteq> []) \<and> reads_something ps (fst (queue_step p xs)))"

lemma srv_holds_empty:
  "srv_holds s xs \<Longrightarrow> buf_Empty (ds_sb s) \<longleftrightarrow> xs = []" "srv_holds s xs \<Longrightarrow> buf_Empty (ds_db s)"
  by (auto simp: srv_holds_def bufi.rep_isempty)

lemma srv_request_now:
  assumes "srv_holds s xs" "deferOnEmpty op \<Longrightarrow> xs \<noteq> []"
    and "dserver_switch render (dorequest op v 0) s = Some s1"
    and "ds_replies s1 = ds_replies s @ [(dorequest op v 0, p)]"
  shows "srv_request render op v s = Step (s1, p)"
proof -
  have "s\<lparr>ds_requestc := []\<rparr> = s" using assms(1) by (simp add: srv_holds_def)
  then have same: "s\<lparr>ds_requestc := []\<rparr> = s" .
  from assms(1) have empty: "ds_requestc s = []" by (simp add: srv_holds_def)
  have op: "rq_op (dorequest op v 0) = op" by (simp add: dorequest_def)
  show ?thesis
    using assms(2) srv_holds_empty [OF assms(1)]
    by (auto simp: srv_request_def dserver_iter_def empty same op assms(3,4))
qed

lemma srv_request_string:
  assumes "srv_holds s xs"
  shows "\<exists>s1 t. srv_request render dostring None s = Step (s1, Text t) \<and> srv_holds s1 xs"
proof -
  let ?r = "dorequest dostring None 0 :: 'a request"
  have "dserver_switch render ?r s = Some (dserver_reply ?r (Text (render (ds_sb s))) s)"
    by (simp add: dserver_switch_def dorequest_def)
  from srv_request_now [OF assms _ this, of "Text (render (ds_sb s))"] assms show ?thesis
    by (auto simp: dserver_reply_def deferOnEmpty_def srv_holds_def)
qed

text \<open>One request of the queue's operations.\<close>

lemma srv_request_queue:
  assumes holds: "srv_holds s xs" and reads: "p \<in> {OpFront, OpRemove} \<longrightarrow> xs \<noteq> []"
  shows "\<exists>s1 q. srv_request render (fst (op_of p)) (snd (op_of p)) s = Step (s1, q) \<and>
    srv_holds s1 (fst (queue_step p xs)) \<and>
    call_of (fst (op_of p)) (on_wire (srv_value (fst (op_of p)) q)) =
      (case returned_as (snd (queue_step p xs)) of Returned c \<Rightarrow> Some c | NullVal \<Rightarrow> None)"
proof -
  from holds have rep: "buf_rep (ds_sb s) xs" by (simp add: srv_holds_def)
  let ?r = "dorequest (fst (op_of p)) (snd (op_of p)) 0"
  have puts_off: "deferOnEmpty (fst (op_of p)) \<Longrightarrow> xs \<noteq> []"
    using reads by (cases p) (auto simp: deferOnEmpty_def)
  have "\<exists>s1 q. dserver_switch render ?r s = Some s1 \<and> ds_replies s1 = ds_replies s @ [(?r, q)] \<and>
    srv_holds s1 (fst (queue_step p xs)) \<and>
    call_of (fst (op_of p)) (on_wire (srv_value (fst (op_of p)) q)) =
      (case returned_as (snd (queue_step p xs)) of Returned c \<Rightarrow> Some c | NullVal \<Rightarrow> None)"
  proof (cases p)
    case (OpInsert v)
    with holds bufi.rep_ins [OF rep, of v] show ?thesis
      by (auto simp: dserver_switch_def dorequest_def dserver_reply_def srv_holds_def call_of_def)
  next
    case OpFront
    with reads obtain x ys where xs: "xs = x # ys" by (cases xs) auto
    with OpFront holds bufi.rep_front [of "ds_sb s" x ys] show ?thesis
      by (auto simp: dserver_switch_def dorequest_def dserver_reply_def srv_holds_def call_of_def srv_value_def)
  next
    case OpRemove
    with reads obtain x ys where xs: "xs = x # ys" by (cases xs) auto
    with OpRemove holds bufi.rep_remove [of "ds_sb s" x ys] show ?thesis
      by (auto simp: dserver_switch_def dorequest_def dserver_reply_def srv_holds_def call_of_def srv_value_def)
  next
    case OpEmpty
    with holds bufi.rep_isempty [OF rep] show ?thesis
      by (auto simp: dserver_switch_def dorequest_def dserver_reply_def srv_holds_def call_of_def srv_value_def)
  next
    case OpFlush
    with holds bufi.rep_flush [OF rep] show ?thesis
      by (auto simp: dserver_switch_def dorequest_def dserver_reply_def srv_holds_def call_of_def)
  qed
  with srv_request_now [OF holds puts_off] show ?thesis by blast
qed

lemma cli_call_queue:
  assumes "srv_holds s xs" "p \<in> {OpFront, OpRemove} \<longrightarrow> xs \<noteq> []"
  shows "\<exists>s1. cli_call render Delivered (fst (op_of p)) (snd (op_of p)) s =
      Step (s1, returned_as (snd (queue_step p xs))) \<and> srv_holds s1 (fst (queue_step p xs))"
proof -
  from srv_request_queue [OF assms, of render] obtain s1 q where
    s1: "srv_request render (fst (op_of p)) (snd (op_of p)) s = Step (s1, q)"
      "srv_holds s1 (fst (queue_step p xs))"
      "call_of (fst (op_of p)) (on_wire (srv_value (fst (op_of p)) q)) =
        (case returned_as (snd (queue_step p xs)) of Returned c \<Rightarrow> Some c | NullVal \<Rightarrow> None)" by blast
  from srv_request_string [OF s1(2), of render] obtain s2 t where
    s2: "srv_request render dostring None s1 = Step (s2, Text t)" "srv_holds s2 (fst (queue_step p xs))" by blast
  obtain c :: "('a, 'a option Buf) call_result" where c: "returned_as (snd (queue_step p xs)) = Returned c"
    by (cases "snd (queue_step p xs)") auto
  have ops: "fst (op_of p) \<noteq> docontents" "fst (op_of p) \<noteq> dolist" by (cases p; simp)+
  have "call_of (fst (op_of p)) (on_wire (srv_value (fst (op_of p)) q)) = Some c"
    using s1(3) by (simp add: c)
  with s1(1) s2 ops show ?thesis
    by (simp add: cli_call_def srv_method_def stub_result_def c)
qed

lemma cli_calls_queue:
  "srv_holds s xs \<Longrightarrow> reads_something ps xs \<Longrightarrow>
   \<exists>s1. cli_calls render ps s = Step (s1, map returned_as (snd (queue_exec ps xs))) \<and>
     srv_holds s1 (fst (queue_exec ps xs))"
proof (induction ps arbitrary: s xs)
  case (Cons p ps)
  from Cons.prems(2) have "p \<in> {OpFront, OpRemove} \<longrightarrow> xs \<noteq> []" by simp
  from cli_call_queue [OF Cons.prems(1) this, of render] obtain s1 where
    s1: "cli_call render Delivered (fst (op_of p)) (snd (op_of p)) s =
      Step (s1, returned_as (snd (queue_step p xs)))" "srv_holds s1 (fst (queue_step p xs))" by blast
  from Cons.IH [OF s1(2)] Cons.prems(2) s1(1) show ?case by (auto split: prod.splits)
qed simp

lemma srv_holds_init: "srv_holds NewSrvBuf []"
  by (simp add: srv_holds_def NewSrvBuf_def dserver_NewBuf_def bufi.rep_new)

section \<open>What arrives of a list\<close>

text \<open>
  The buffer that \<open>List\<close> returns has the elements but neither tail nor count: its \<open>Contents\<close> are
  empty and the first \<open>Insert\<close> dereferences the nil tail.
\<close>

lemma list_copy_broken:
  assumes "buf_rep b (x # xs)"
  shows "buf_Front (gob_copy b) = Some (Inr x)" "buf_Contents (gob_copy b) = Some []"
    "buf_Insert v (gob_copy b) = None"
  using buf_rep_Front [OF assms] assms
  by (auto simp: gob_copy_def buf_Front_def buf_Contents_def buf_Insert_def buf_rep_def dest!: linked_Cons)

section \<open>Properties\<close>

text \<open>
  C33: The remote buffer is a queue: the calls of one client that all get through, none of which
  reads an empty buffer, neither block nor panic, and the stubs return exactly what the same
  operations return on a FIFO queue; the server's buffer holds that queue afterwards.
\<close>

theorem remote_buffer_is_queue:
  assumes "reads_something ops []"
  shows "\<exists>s. cli_calls render ops NewSrvBuf = Step (s, map returned_as (snd (queue_exec ops []))) \<and>
    buf_Contents (ds_sb s) = Some (fst (queue_exec ops []))"
  using cli_calls_queue [OF srv_holds_init assms, of render] buf_rep_Contents
  by (auto simp: srv_holds_def)

theorem remote_buffer_is_queue_witness:
  "\<exists>s. cli_calls (\<lambda>_. '''') [OpInsert (Some (7::nat)), OpInsert None, OpRemove, OpEmpty] NewSrvBuf =
     Step (s, [Returned Unit_result, Returned Unit_result, Returned (Val_result (Some 7)), Returned (Bool_result False)]) \<and>
     buf_Contents (ds_sb s) = Some [None]"
  using remote_buffer_is_queue [of "[OpInsert (Some (7::nat)), OpInsert None, OpRemove, OpEmpty]" "\<lambda>_. ''''"]
  by simp

text \<open>
  C40: The type assertions of the stubs: whatever the server's state, a reply that the server
  gave to the request of an operation has the type the stub asserts, also after its transport;
  a failed call makes exactly \<open>Contents\<close> and \<open>List\<close> (and no other stub) panic, since they assert
  before they check the error.
\<close>

theorem stubs_typed:
  assumes "dserver_switch render (dorequest op v 0) s = Some s1"
  shows "stub_result op (Some (on_wire (srv_value op (snd (last (ds_replies s1)))))) \<noteq> None \<and>
    (op \<noteq> dostring \<longrightarrow> (stub_result op (None :: ('v, 'b) reply option) = None \<longleftrightarrow> op = docontents \<or> op = dolist))"
proof -
  obtain p where p: "ds_replies s1 = ds_replies s @ [(dorequest op v 0, p)]" "call_of op p \<noteq> None"
    using dserver_switch_typed [OF assms] by (auto simp: dorequest_def)
  have "call_of op (on_wire (srv_value op p)) \<noteq> None"
    using p(2) by (cases op; cases p) (auto simp: call_of_def srv_value_def)
  with p(1) show ?thesis by (cases op) (auto simp: stub_result_def)
qed

theorem stubs_typed_witness:
  "stub_result docontents (Some (on_wire (srv_value docontents (Slice [Some (1::nat)])))) \<noteq> None \<and>
   stub_result docontents (None :: (nat, nat) reply option) = None"
proof -
  let ?b = "the (buf_Insert (Some (1::nat)) NewBuf)"
  let ?s = "NewSrvBuf\<lparr>ds_sb := ?b\<rparr>"
  have "buf_Contents ?b = Some [Some 1]"
    using buf_rep_Contents bufi.rep_ins [OF bufi.rep_new, of "Some (1::nat)"] by force
  then have "dserver_switch (\<lambda>_. '''') (dorequest docontents None 0) ?s =
      Some (dserver_reply (dorequest docontents None 0) (Slice [Some 1]) ?s)"
    by (simp add: dserver_switch_def dorequest_def)
  from stubs_typed [OF this] show ?thesis by (simp add: dserver_reply_def)
qed

end
