(* ===== verification/GotoVersions.thy ===== *)
theory GotoVersions
  imports GotoStore "HOL-Library.AList"
begin

text \<open>
  The earlier stages of the URL shortener, \<open>goto/code/0\<close> to \<open>goto/code/3\<close>, where they differ from
  the last one of \<open>GotoStore\<close>.

  \<^item> Stage 0 keeps the map in memory only and its \<open>Set\<close> holds the read lock while it writes, so that
    two of them overlap: \<open>race_step\<close> separates the test from the write.
  \<^item> Stage 1 appends each record to the data file before \<open>Put\<close> returns; the calls of its histories do
    not overlap.  Stage 2 hands the record to a goroutine through a channel; any number of \<open>Put\<close>s
    interleave with each other and with that goroutine.  Histories are lists of events, a restart or a
    crash being followed by \<open>NewURLStore\<close> on the same file.
  \<^item> Stage 3 starts the saving goroutine for every store, also for the cache of a proxy, which has no
    file.
\<close>

section \<open>Stage 0: a map in memory\<close>

definition v0_new :: URLStore where
  "v0_new = \<lparr>us_urls = []\<rparr>"

definition v0_Get :: "string \<Rightarrow> URLStore \<Rightarrow> string" where
  "v0_Get key s = (case map_of (us_urls s) key of None \<Rightarrow> '''' | Some url \<Rightarrow> url)"

definition v0_write :: "string \<Rightarrow> string \<Rightarrow> URLStore \<Rightarrow> URLStore" where
  "v0_write key url s = s\<lparr>us_urls := AList.update key url (us_urls s)\<rparr>"

definition v0_Set :: "string \<Rightarrow> string \<Rightarrow> URLStore \<Rightarrow> URLStore \<times> bool" where
  "v0_Set key url s =
     (if map_of (us_urls s) key \<noteq> None then (s, False) else (v0_write key url s, True))"

definition v0_Count :: "URLStore \<Rightarrow> int" where
  "v0_Count s = int (length (us_urls s))"

partial_function (option) v0_Put :: "string \<Rightarrow> URLStore \<Rightarrow> (URLStore \<times> string) go option" where
  "v0_Put url s =
     (case genKey (v0_Count s) of
        None \<Rightarrow> Some None
      | Some key \<Rightarrow>
          (case v0_Set key url s of
             (s1, ok) \<Rightarrow> if ok then Some (Some (s1, key)) else v0_Put url s1))"

text \<open>The handlers; a missing key and an empty URL are the same to \<open>Redirect\<close>.\<close>

definition v0_Redirect :: "URLStore \<Rightarrow> string \<Rightarrow> response go" where
  "v0_Redirect s path =
     (case path of
        [] \<Rightarrow> None
      | c # key \<Rightarrow> (let url = v0_Get key s in Some (if url = '''' then NotFound else RedirectTo url)))"

definition v0_Add :: "string \<Rightarrow> URLStore \<Rightarrow> (URLStore \<times> response) go option" where
  "v0_Add url s =
     (if url = '''' then Some (Some (s, AddForm))
      else map_option (map_option (\<lambda>(s1, key). (s1, Page (''http://localhost:8080/'' @ key)))) (v0_Put url s))"

subsection \<open>Overlapping calls\<close>

datatype race_pc =
  R_Idle | R_Counting string | R_Testing string string | R_Writing string string | R_Returned string string

record race_state =
  rs_store :: URLStore
  rs_pc :: "nat \<Rightarrow> race_pc"

definition race_init :: race_state where
  "race_init = \<lparr>rs_store = v0_new, rs_pc = (\<lambda>_. R_Idle)\<rparr>"

inductive race_step :: "race_state \<Rightarrow> race_state \<Rightarrow> bool" where
  race_call: "rs_pc s i = R_Idle \<Longrightarrow> race_step s (s\<lparr>rs_pc := (rs_pc s)(i := R_Counting url)\<rparr>)"
| race_count: "rs_pc s i = R_Counting url \<Longrightarrow> genKey (v0_Count (rs_store s)) = Some key \<Longrightarrow>
    race_step s (s\<lparr>rs_pc := (rs_pc s)(i := R_Testing url key)\<rparr>)"
| race_present: "rs_pc s i = R_Testing url key \<Longrightarrow> map_of (us_urls (rs_store s)) key \<noteq> None \<Longrightarrow>
    race_step s (s\<lparr>rs_pc := (rs_pc s)(i := R_Counting url)\<rparr>)"
| race_absent: "rs_pc s i = R_Testing url key \<Longrightarrow> map_of (us_urls (rs_store s)) key = None \<Longrightarrow>
    race_step s (s\<lparr>rs_pc := (rs_pc s)(i := R_Writing url key)\<rparr>)"
| race_write: "rs_pc s i = R_Writing url key \<Longrightarrow>
    race_step s (s\<lparr>rs_store := v0_write key url (rs_store s), rs_pc := (rs_pc s)(i := R_Returned url key)\<rparr>)"

inductive race_reachable :: "race_state \<Rightarrow> bool" where
  race_start: "race_reachable race_init"
| race_next: "race_reachable s \<Longrightarrow> race_step s t \<Longrightarrow> race_reachable t"

section \<open>Stage 1: saved before \<open>Put\<close> returns\<close>

record v1_store =
  v1_urls :: URLStore
  v1_file :: "record_ list"

definition v1_load :: "record_ list \<Rightarrow> URLStore \<Rightarrow> URLStore" where
  "v1_load rs s = fold (\<lambda>(key, url) s. fst (v0_Set key url s)) rs s"

text \<open>\<open>NewURLStore\<close>; \<open>None\<close> when the file cannot be opened and the program ends.\<close>

definition v1_new :: "bool \<Rightarrow> record_ list \<Rightarrow> v1_store option" where
  "v1_new opened file =
     (if opened then Some \<lparr>v1_urls = v1_load file v0_new, v1_file = file\<rparr> else None)"

text \<open>\<open>save\<close>; the argument says whether the record could be encoded and written.\<close>

definition v1_save :: "bool \<Rightarrow> string \<Rightarrow> string \<Rightarrow> v1_store \<Rightarrow> v1_store" where
  "v1_save ok key url s = (if ok then s\<lparr>v1_file := v1_file s @ [(key, url)]\<rparr> else s)"

definition v1_Put :: "bool \<Rightarrow> string \<Rightarrow> v1_store \<Rightarrow> (v1_store \<times> string) go option" where
  "v1_Put ok url s =
     map_option (map_option (\<lambda>(t, key). (v1_save ok key url (s\<lparr>v1_urls := t\<rparr>), key))) (v0_Put url (v1_urls s))"

section \<open>Stage 2: saved by a goroutine\<close>

text \<open>
  The handlers of requests run at the same time, so a \<open>Put\<close> is a thread with the places where it can
  be interrupted: before \<open>Count\<close>, before the test of \<open>Set\<close> and before its write (its read lock does not
  keep others out), and before the record is sent to the channel.  \<open>v2_hand\<close> is the record that
  \<open>saveLoop\<close> has received and not yet encoded.
\<close>

datatype put_pc =
  V2_Counting string | V2_Testing string string | V2_Writing string string | V2_Sending string string |
  V2_Returned string

record v2_store =
  v2_urls :: URLStore
  v2_puts :: "put_pc list"
  v2_queue :: "record_ list"
  v2_hand :: "record_ option"
  v2_file :: "record_ list"

definition v2_saveQueueLength :: nat where "v2_saveQueueLength = 1000"

definition v2_new :: "record_ list \<Rightarrow> v2_store" where
  "v2_new file = \<lparr>v2_urls = v1_load file v0_new, v2_puts = [], v2_queue = [], v2_hand = None, v2_file = file\<rparr>"

text \<open>
  A step of the \<open>i\<close>-th \<open>Put\<close>; \<open>None\<close> when it cannot go on: it has returned, or the channel is full.
\<close>

definition v2_Put :: "nat \<Rightarrow> v2_store \<Rightarrow> v2_store option" where
  "v2_Put i s =
     (if i < length (v2_puts s) then
        case v2_puts s ! i of
          V2_Counting url \<Rightarrow>
            map_option (\<lambda>key. s\<lparr>v2_puts := (v2_puts s)[i := V2_Testing url key]\<rparr>) (genKey (v0_Count (v2_urls s)))
        | V2_Testing url key \<Rightarrow>
            Some (s\<lparr>v2_puts := (v2_puts s)[i := if map_of (us_urls (v2_urls s)) key \<noteq> None then V2_Counting url
                                                 else V2_Writing url key]\<rparr>)
        | V2_Writing url key \<Rightarrow>
            Some (s\<lparr>v2_urls := v0_write key url (v2_urls s), v2_puts := (v2_puts s)[i := V2_Sending url key]\<rparr>)
        | V2_Sending url key \<Rightarrow>
            if length (v2_queue s) < v2_saveQueueLength
            then Some (s\<lparr>v2_queue := v2_queue s @ [(key, url)], v2_puts := (v2_puts s)[i := V2_Returned key]\<rparr>)
            else None
        | V2_Returned key \<Rightarrow> None
      else None)"

definition v2_receive :: "v2_store \<Rightarrow> v2_store option" where
  "v2_receive s =
     (case (v2_hand s, v2_queue s) of
        (None, r # rs) \<Rightarrow> Some (s\<lparr>v2_queue := rs, v2_hand := Some r\<rparr>)
      | _ \<Rightarrow> None)"

definition v2_encode :: "v2_store \<Rightarrow> v2_store option" where
  "v2_encode s =
     (case v2_hand s of
        Some r \<Rightarrow> Some (s\<lparr>v2_file := v2_file s @ [r], v2_hand := None\<rparr>)
      | None \<Rightarrow> None)"

section \<open>Stage 3: a store for the proxy\<close>

text \<open>
  \<open>os.Open\<close> and \<open>os.OpenFile\<close> of a name are the arguments: the records of the file, when it can be
  opened, and whether it can be opened for appending.  \<open>None\<close>: the program ends in \<open>log.Fatal\<close>.
\<close>

definition v3_new :: "(string \<Rightarrow> record_ list option) \<Rightarrow> (string \<Rightarrow> bool) \<Rightarrow> string \<Rightarrow> v2_store option" where
  "v3_new read writable filename =
     (if writable filename
      then Some (v2_new (case read filename of None \<Rightarrow> [] | Some file \<Rightarrow> file)) else None)"

definition v3_new_proxy ::
  "(string \<Rightarrow> record_ list option) \<Rightarrow> (string \<Rightarrow> bool) \<Rightarrow> bool \<Rightarrow> (v2_store \<times> bool) option" where
  "v3_new_proxy read writable dialled = map_option (\<lambda>s. (s, dialled)) (v3_new read writable '''')"

section \<open>Calls that do not overlap\<close>

lemma update_fresh: "map_of xs k = None \<Longrightarrow> AList.update k v xs = xs @ [(k, v)]"
  by (induction xs) (auto split: if_splits)

lemma v0_Set_us_Set:
  "v0_Set key url s = (case us_Set key url s of (s1, r) \<Rightarrow> (s1, r = Inr ()))"
  by (auto simp: v0_Set_def us_Set_def v0_write_def update_fresh)

lemma v1_load_us_load: "v1_load rs s = us_load rs s"
  by (simp add: v1_load_def us_load_def v0_Set_us_Set case_prod_beta)

text \<open>The first \<open>Put\<close> and the last one agree as long as nobody else uses the store.\<close>

lemma v0_Put_alone:
  assumes "keys_ok (us_urls s)" "length (us_urls s) < 2 ^ 63"
  shows "v0_Put url s =
    Some (Some (s\<lparr>us_urls := us_urls s @ [(key_of (length (us_urls s)), url)]\<rparr>, key_of (length (us_urls s))))"
  using keys_ok_lookup [OF assms assms(2)] key_of_genKey [OF assms(2)]
  by (subst v0_Put.simps) (simp add: v0_Count_def v0_Set_def v0_write_def update_fresh)

lemma load_keys_ok:
  assumes "keys_ok file" "length file < 2 ^ 63"
  shows "us_urls (v1_load file v0_new) = file"
  using us_load_fresh [of "file" us_new] keys_ok_distinct [OF assms]
  by (simp add: v1_load_us_load v0_new_def us_new_def)

lemma keys_ok_prefix: "keys_ok (xs @ ys) \<Longrightarrow> keys_ok xs"
  by (auto simp: keys_ok_def upt_add_eq_append [of 0] append_eq_append_conv)

lemma keys_ok_nth: "keys_ok xs \<Longrightarrow> n < length xs \<Longrightarrow> fst (xs ! n) = key_of n"
  by (metis add.left_neutral keys_ok_def length_map nth_map nth_upt)

lemma keys_ok_Nil: "keys_ok []"
  by (simp add: keys_ok_def)

section \<open>Histories of stage 1\<close>

datatype v1_event = V1_Put string | V1_Restart

text \<open>The keys that the \<open>Put\<close>s return; \<open>None\<close> when one of them does not.\<close>

fun v1_run :: "v1_event list \<Rightarrow> v1_store \<Rightarrow> (v1_store \<times> string list) option" where
  "v1_run [] s = Some (s, [])"
| "v1_run (V1_Put url # es) s =
     (case v1_Put True url s of
        Some (Some (s1, key)) \<Rightarrow> map_option (\<lambda>(t, keys). (t, key # keys)) (v1_run es s1)
      | _ \<Rightarrow> None)"
| "v1_run (V1_Restart # es) s = Option.bind (v1_new True (v1_file s)) (v1_run es)"

fun v1_puts :: "v1_event list \<Rightarrow> string list" where
  "v1_puts [] = []"
| "v1_puts (V1_Put url # es) = url # v1_puts es"
| "v1_puts (V1_Restart # es) = v1_puts es"

definition numbered :: "nat \<Rightarrow> string list \<Rightarrow> record_ list" where
  "numbered n urls = zip (map key_of [n..<n + length urls]) urls"

lemma numbered_Cons: "numbered n (u # us) = (key_of n, u) # numbered (Suc n) us"
  by (simp add: numbered_def upt_rec)

lemma v1_run_spec:
  assumes "us_urls (v1_urls s) = v1_file s" "keys_ok (v1_file s)"
    and "length (v1_file s) + length (v1_puts es) < 2 ^ 63"
  shows "\<exists>t. v1_run es s = Some (t, map fst (numbered (length (v1_file s)) (v1_puts es))) \<and>
    us_urls (v1_urls t) = v1_file t \<and> v1_file t = v1_file s @ numbered (length (v1_file s)) (v1_puts es)"
  using assms
proof (induction es arbitrary: s rule: v1_puts.induct)
  case 1
  then show ?case by (simp add: numbered_def)
next
  case (2 url es)
  let ?r = "(key_of (length (v1_file s)), url)"
  let ?s = "v1_save True (fst ?r) url (s\<lparr>v1_urls := v1_urls s\<lparr>us_urls := us_urls (v1_urls s) @ [?r]\<rparr>\<rparr>)"
  have put: "v1_Put True url s = Some (Some (?s, fst ?r))"
    using v0_Put_alone [of "v1_urls s" url] 2 by (simp add: v1_Put_def)
  have s: "us_urls (v1_urls ?s) = v1_file ?s" "v1_file ?s = v1_file s @ [?r]"
    using 2 by (simp_all add: v1_save_def)
  have "keys_ok (v1_file ?s)" using keys_ok_snoc [of "v1_file s" url] 2 s(2) by simp
  moreover have "length (v1_file ?s) + length (v1_puts es) < 2 ^ 63" using 2 s(2) by simp
  ultimately show ?case using 2(1) [of ?s] put s by (auto simp: numbered_Cons)
next
  case (3 es)
  have "us_urls (v1_load (v1_file s) v0_new) = v1_file s" by (rule load_keys_ok) (use 3 in simp_all)
  then have "\<exists>t. v1_run es \<lparr>v1_urls = v1_load (v1_file s) v0_new, v1_file = v1_file s\<rparr> =
      Some (t, map fst (numbered (length (v1_file s)) (v1_puts es))) \<and> us_urls (v1_urls t) = v1_file t \<and>
      v1_file t = v1_file s @ numbered (length (v1_file s)) (v1_puts es)"
    using 3(1) [of "\<lparr>v1_urls = v1_load (v1_file s) v0_new, v1_file = v1_file s\<rparr>"] 3(3,4) by simp
  then show ?case by (simp add: v1_new_def)
qed

section \<open>Histories of stage 2\<close>

datatype v2_event = V2_Call string | V2_Put nat | V2_Receive | V2_Encode | V2_Crash

definition v2_step :: "v2_event \<Rightarrow> v2_store \<Rightarrow> v2_store option" where
  "v2_step e s =
     (case e of
        V2_Call url \<Rightarrow> Some (s\<lparr>v2_puts := v2_puts s @ [V2_Counting url]\<rparr>)
      | V2_Put i \<Rightarrow> v2_Put i s
      | V2_Receive \<Rightarrow> v2_receive s
      | V2_Encode \<Rightarrow> v2_encode s
      | V2_Crash \<Rightarrow> Some (v2_new (v2_file s)))"

fun v2_run :: "v2_event list \<Rightarrow> v2_store \<Rightarrow> v2_store option" where
  "v2_run [] s = Some s"
| "v2_run (e # es) s = Option.bind (v2_step e s) (v2_run es)"

fun in_hand :: "record_ option \<Rightarrow> record_ list" where
  "in_hand None = []"
| "in_hand (Some r) = [r]"

fun sending :: "put_pc \<Rightarrow> record_ list" where
  "sending (V2_Sending url key) = [(key, url)]"
| "sending _ = []"

fun returned :: "put_pc \<Rightarrow> bool" where
  "returned (V2_Returned key) = True"
| "returned _ = False"

text \<open>What is set and not yet in the file: a crash would lose it.\<close>

definition v2_sending :: "v2_store \<Rightarrow> record_ list" where
  "v2_sending s = concat (map sending (v2_puts s))"

definition v2_unsaved :: "v2_store \<Rightarrow> record_ list" where
  "v2_unsaved s = in_hand (v2_hand s) @ v2_queue s @ v2_sending s"

subsection \<open>Any interleaving\<close>

definition v2_kept :: "v2_store \<Rightarrow> bool" where
  "v2_kept s \<longleftrightarrow> set (us_urls (v2_urls s)) \<subseteq> set (v2_file s) \<union> set (v2_unsaved s) \<and>
     length (v2_queue s) \<le> v2_saveQueueLength"

lemma set_AList_update: "set (AList.update k v xs) \<subseteq> insert (k, v) (set xs)"
  by (induction xs) auto

lemma set_v1_load: "set (us_urls (v1_load rs s)) \<subseteq> set rs \<union> set (us_urls s)"
proof (induction rs arbitrary: s)
  case (Cons r rs)
  obtain key url where r: "r = (key, url)" by (cases r)
  have "set (us_urls (fst (v0_Set key url s))) \<subseteq> insert r (set (us_urls s))"
    using set_AList_update [of key url "us_urls s"] by (auto simp: v0_Set_def v0_write_def r)
  with Cons.IH [of "fst (v0_Set key url s)"] show ?case by (auto simp: v1_load_def r)
qed (simp add: v1_load_def)

lemma v2_kept_new: "v2_kept (v2_new file)"
  using set_v1_load [of _ v0_new] by (auto simp: v2_kept_def v2_new_def v0_new_def)

lemma in_sending_update:
  assumes "i < length ps"
  shows "set (concat (map sending (ps[i := p]))) \<subseteq> set (sending p) \<union> set (concat (map sending ps))"
    and "set (concat (map sending ps)) \<subseteq> set (sending (ps ! i)) \<union> set (concat (map sending (ps[i := p])))"
proof -
  show "set (concat (map sending (ps[i := p]))) \<subseteq> set (sending p) \<union> set (concat (map sending ps))"
    using set_update_subset_insert [of ps i p] by auto
  show "set (concat (map sending ps)) \<subseteq> set (sending (ps ! i)) \<union> set (concat (map sending (ps[i := p])))"
  proof
    fix r assume "r \<in> set (concat (map sending ps))"
    then obtain q where q: "q \<in> set ps" "r \<in> set (sending q)" by auto
    then obtain j where j: "j < length ps" "ps ! j = q" by (auto simp: in_set_conv_nth)
    have "q \<in> set (ps[i := p])" if "j \<noteq> i"
      using that j nth_mem [of j "ps[i := p]"] by simp
    with q(2) j show "r \<in> set (sending (ps ! i)) \<union> set (concat (map sending (ps[i := p])))"
      by (cases "j = i") auto
  qed
qed

lemma v2_kept_step: "v2_kept s \<Longrightarrow> v2_step e s = Some t \<Longrightarrow> v2_kept t"
proof (cases e)
  case (V2_Put i)
  assume kept: "v2_kept s" and "v2_step e s = Some t"
  with V2_Put have t: "v2_Put i s = Some t" by (simp add: v2_step_def)
  then have i: "i < length (v2_puts s)" by (simp add: v2_Put_def split: if_splits)
  have room: "length (v2_queue s) \<le> v2_saveQueueLength"
    and old: "set (us_urls (v2_urls s)) \<subseteq> set (v2_file s) \<union> set (v2_unsaved s)" using kept by (simp_all add: v2_kept_def)
  have moved: "set (v2_sending s) \<subseteq> set (sending (v2_puts s ! i)) \<union> set (concat (map sending ((v2_puts s)[i := p])))"
    and there: "set (sending p) \<subseteq> set (concat (map sending ((v2_puts s)[i := p])))" for p
    using in_sending_update(2) [OF i] set_update_memI [OF i, of p] by (auto simp: v2_sending_def)
  have quiet: ?thesis if "t = s\<lparr>v2_puts := (v2_puts s)[i := p]\<rparr>" "sending (v2_puts s ! i) = []" for p
    using that old room moved [of p] by (auto simp: v2_kept_def v2_unsaved_def v2_sending_def)
  show ?thesis
  proof (cases "v2_puts s ! i")
    case (V2_Counting url)
    with t i obtain key where "t = s\<lparr>v2_puts := (v2_puts s)[i := V2_Testing url key]\<rparr>" by (auto simp: v2_Put_def)
    with V2_Counting show ?thesis by (intro quiet) auto
  next
    case (V2_Testing url key)
    with t i have "t = s\<lparr>v2_puts := (v2_puts s)[i := if map_of (us_urls (v2_urls s)) key \<noteq> None then V2_Counting url
        else V2_Writing url key]\<rparr>" by (simp add: v2_Put_def)
    with V2_Testing show ?thesis by (intro quiet) auto
  next
    case (V2_Writing url key)
    with t i have "t = s\<lparr>v2_urls := v0_write key url (v2_urls s), v2_puts := (v2_puts s)[i := V2_Sending url key]\<rparr>"
      by (simp add: v2_Put_def)
    moreover have "set (us_urls (v0_write key url (v2_urls s))) \<subseteq> insert (key, url) (set (us_urls (v2_urls s)))"
      using set_AList_update by (simp add: v0_write_def)
    ultimately show ?thesis
      using V2_Writing old room moved [of "V2_Sending url key"] there [of "V2_Sending url key"]
      by (auto simp: v2_kept_def v2_unsaved_def v2_sending_def)
  next
    case (V2_Sending url key)
    with t i have "t = s\<lparr>v2_queue := v2_queue s @ [(key, url)], v2_puts := (v2_puts s)[i := V2_Returned key]\<rparr>"
      "length (v2_queue s) < v2_saveQueueLength" by (simp_all add: v2_Put_def split: if_splits)
    with V2_Sending old moved [of "V2_Returned key"] show ?thesis
      by (auto simp: v2_kept_def v2_unsaved_def v2_sending_def)
  next
    case (V2_Returned key)
    with t i show ?thesis by (simp add: v2_Put_def)
  qed
next
  case V2_Crash
  assume "v2_step e s = Some t"
  with V2_Crash v2_kept_new show ?thesis by (auto simp: v2_step_def)
qed (auto simp: v2_step_def v2_receive_def v2_encode_def v2_kept_def v2_unsaved_def v2_sending_def
      split: option.splits list.splits)

lemma v2_kept_run: "v2_kept s \<Longrightarrow> v2_run es s = Some t \<Longrightarrow> v2_kept t"
  by (induction es arbitrary: s) (auto simp: bind_eq_Some_conv dest: v2_kept_step)

subsection \<open>Calls that do not overlap\<close>

text \<open>\<open>apart es s\<close>: in the history \<open>es\<close> from \<open>s\<close> each \<open>Put\<close> starts when the ones before have returned.\<close>

fun apart :: "v2_event list \<Rightarrow> v2_store \<Rightarrow> bool" where
  "apart [] s = True"
| "apart (e # es) s =
     ((case e of V2_Call url \<Rightarrow> list_all returned (v2_puts s) | _ \<Rightarrow> True) \<and>
      (case v2_step e s of None \<Rightarrow> True | Some t \<Rightarrow> apart es t))"

definition v2_inv :: "v2_store \<Rightarrow> bool" where
  "v2_inv s \<longleftrightarrow> keys_ok (us_urls (v2_urls s)) \<and> us_urls (v2_urls s) = v2_file s @ v2_unsaved s \<and>
     length (v2_queue s) \<le> v2_saveQueueLength \<and>
     (\<exists>ps. list_all returned ps \<and>
        (v2_puts s = ps \<or>
         (\<exists>p. v2_puts s = ps @ [p] \<and>
            (\<forall>url key. p = V2_Testing url key \<or> p = V2_Writing url key \<longrightarrow>
               key = key_of (length (us_urls (v2_urls s)))))))"

lemma v2_inv_file: "v2_inv s \<Longrightarrow> keys_ok (v2_file s @ v2_unsaved s)" "v2_inv s \<Longrightarrow> keys_ok (v2_file s)"
proof -
  assume "v2_inv s"
  then have k: "keys_ok (us_urls (v2_urls s))" and e: "us_urls (v2_urls s) = v2_file s @ v2_unsaved s"
    unfolding v2_inv_def by blast+
  show "keys_ok (v2_file s @ v2_unsaved s)" using k unfolding e .
  then show "keys_ok (v2_file s)" by (rule keys_ok_prefix)
qed

lemma v2_inv_new: "keys_ok file \<Longrightarrow> length file < 2 ^ 63 \<Longrightarrow> v2_inv (v2_new file)"
  by (simp add: v2_inv_def v2_new_def v2_unsaved_def v2_sending_def load_keys_ok)

lemma no_sending: "list_all returned ps \<Longrightarrow> concat (map sending ps) = []"
proof (induction ps)
  case (Cons p ps)
  then show ?case by (cases p) auto
qed simp

lemma v2_invI:
  assumes "list_all returned ps" and "v2_puts s = ps @ [p]" and "keys_ok (us_urls (v2_urls s))"
    and "us_urls (v2_urls s) = v2_file s @ in_hand (v2_hand s) @ v2_queue s @ sending p"
    and "length (v2_queue s) \<le> v2_saveQueueLength"
    and "\<And>url key. p = V2_Testing url key \<or> p = V2_Writing url key \<Longrightarrow> key = key_of (length (us_urls (v2_urls s)))"
  shows "v2_inv s"
proof -
  have "v2_sending s = sending p"
    using no_sending [OF assms(1)] assms(2) by (simp add: v2_sending_def del: concat_eq_Nil_conv)
  with assms(4) have "us_urls (v2_urls s) = v2_file s @ v2_unsaved s" by (simp only: v2_unsaved_def)
  with assms(1,2,3,5,6) show ?thesis unfolding v2_inv_def by blast
qed

lemma v2_Put_alone:
  assumes inv: "v2_inv s" and step: "v2_Put i s = Some t" and bound: "length (us_urls (v2_urls s)) < 2 ^ 63"
  shows "v2_inv t \<and> length (us_urls (v2_urls t)) \<le> Suc (length (us_urls (v2_urls s)))"
proof -
  from inv have keys: "keys_ok (us_urls (v2_urls s))" and all: "us_urls (v2_urls s) = v2_file s @ v2_unsaved s"
    and room: "length (v2_queue s) \<le> v2_saveQueueLength" unfolding v2_inv_def by blast+
  from step have i: "i < length (v2_puts s)" "\<not> returned (v2_puts s ! i)"
    by (auto simp: v2_Put_def split: if_splits put_pc.splits)
  from inv obtain ps where ps: "list_all returned ps" "v2_puts s = ps \<or>
         (\<exists>p. v2_puts s = ps @ [p] \<and>
            (\<forall>url key. p = V2_Testing url key \<or> p = V2_Writing url key \<longrightarrow>
               key = key_of (length (us_urls (v2_urls s)))))" unfolding v2_inv_def by blast
  have "\<not> returned (v2_puts s ! i) \<Longrightarrow> v2_puts s = ps \<Longrightarrow> False"
    using ps(1) i(1) by (auto simp: list_all_length)
  with ps(2) i(2) obtain p where p: "v2_puts s = ps @ [p]"
    "\<And>url key. p = V2_Testing url key \<or> p = V2_Writing url key \<Longrightarrow> key = key_of (length (us_urls (v2_urls s)))"
    by blast
  have "\<not> i < length ps" using ps(1) i(2) p(1) by (auto simp: list_all_length nth_append)
  then have at: "i = length ps" using i(1) p(1) by simp
  have free: "map_of (us_urls (v2_urls s)) (key_of (length (us_urls (v2_urls s)))) = None"
    using keys_ok_lookup [OF keys bound bound] by simp
  have "v2_sending s = sending p"
    using no_sending [OF ps(1)] p(1) by (simp add: v2_sending_def del: concat_eq_Nil_conv)
  with all have urls: "us_urls (v2_urls s) = v2_file s @ in_hand (v2_hand s) @ v2_queue s @ sending p"
    by (simp only: v2_unsaved_def)
  show ?thesis
  proof (cases p)
    case (V2_Counting url)
    let ?p = "V2_Testing url (key_of (length (us_urls (v2_urls s))))"
    have "genKey (v0_Count (v2_urls s)) = Some (key_of (length (us_urls (v2_urls s))))"
      using key_of_genKey [OF bound] by (simp add: v0_Count_def)
    with V2_Counting step p(1) at have t: "t = s\<lparr>v2_puts := ps @ [?p]\<rparr>" by (simp add: v2_Put_def)
    have "v2_inv t" by (rule v2_invI [OF ps(1), of _ ?p]) (use t keys room urls V2_Counting in simp_all)
    with t show ?thesis by simp
  next
    case (V2_Testing url key)
    with p(2) free step p(1) at have t: "t = s\<lparr>v2_puts := ps @ [V2_Writing url key]\<rparr>" by (simp add: v2_Put_def)
    have "v2_inv t"
      by (rule v2_invI [OF ps(1), of _ "V2_Writing url key"]) (use t keys room urls V2_Testing p(2) in simp_all)
    with t show ?thesis by simp
  next
    case (V2_Writing url key)
    with p(2) have key: "key = key_of (length (us_urls (v2_urls s)))" by blast
    from V2_Writing step p(1) at free have t: "t = s\<lparr>v2_urls := (v2_urls s)\<lparr>us_urls := us_urls (v2_urls s) @ [(key, url)]\<rparr>,
        v2_puts := ps @ [V2_Sending url key]\<rparr>"
      by (simp add: v2_Put_def v0_write_def update_fresh key)
    have "v2_inv t"
    proof (rule v2_invI [OF ps(1), of _ "V2_Sending url key"])
      show "keys_ok (us_urls (v2_urls t))" using keys_ok_snoc [OF keys, of url] by (simp add: t key)
      show "us_urls (v2_urls t) = v2_file t @ in_hand (v2_hand t) @ v2_queue t @ sending (V2_Sending url key)"
        using urls V2_Writing by (simp add: t)
    qed (use t room in simp_all)
    with t show ?thesis by simp
  next
    case (V2_Sending url key)
    with step p(1) at have t: "t = s\<lparr>v2_queue := v2_queue s @ [(key, url)], v2_puts := ps @ [V2_Returned key]\<rparr>"
      "length (v2_queue s) < v2_saveQueueLength" by (simp_all add: v2_Put_def split: if_splits)
    have "v2_inv t"
      by (rule v2_invI [OF ps(1), of _ "V2_Returned key"]) (use t keys urls V2_Sending in simp_all)
    with t(1) show ?thesis by simp
  next
    case (V2_Returned key)
    with i(2) p(1) at show ?thesis by simp
  qed
qed

lemma v2_inv_step:
  assumes inv: "v2_inv s" and step: "v2_step e s = Some t" and bound: "length (us_urls (v2_urls s)) < 2 ^ 63"
    and apart: "case e of V2_Call url \<Rightarrow> list_all returned (v2_puts s) | _ \<Rightarrow> True"
  shows "v2_inv t \<and> length (us_urls (v2_urls t)) \<le> Suc (length (us_urls (v2_urls s)))"
proof (cases e)
  case (V2_Call url)
  with step apart have t: "t = s\<lparr>v2_puts := v2_puts s @ [V2_Counting url]\<rparr>" "list_all returned (v2_puts s)"
    by (simp_all add: v2_step_def)
  with inv show ?thesis
    by (auto simp: v2_inv_def v2_unsaved_def v2_sending_def)
next
  case (V2_Put i)
  with step v2_Put_alone [OF inv _ bound] show ?thesis by (simp add: v2_step_def)
next
  case V2_Crash
  with step have t: "t = v2_new (v2_file s)" by (simp add: v2_step_def)
  have "length (v2_file s) < 2 ^ 63" "length (v2_file s) \<le> length (us_urls (v2_urls s))"
    using inv bound by (simp_all add: v2_inv_def)
  with v2_inv_new [OF v2_inv_file(2) [OF inv]] load_keys_ok [OF v2_inv_file(2) [OF inv]] t show ?thesis
    by (simp add: v2_new_def)
qed (use step inv in \<open>auto simp: v2_step_def v2_receive_def v2_encode_def v2_inv_def v2_unsaved_def v2_sending_def
      split: option.splits if_splits list.splits\<close>)

lemma v2_run_inv:
  assumes "v2_inv s" "v2_run es s = Some t" "apart es s" "length (us_urls (v2_urls s)) + length es < 2 ^ 63"
  shows "v2_inv t \<and> length (us_urls (v2_urls t)) < 2 ^ 63"
  using assms
proof (induction es arbitrary: s)
  case (Cons e es)
  then obtain s1 where s1: "v2_step e s = Some s1" "v2_run es s1 = Some t" by (auto simp: bind_eq_Some_conv)
  have bound: "length (us_urls (v2_urls s)) < 2 ^ 63" using Cons.prems(4) by simp
  have "case e of V2_Call url \<Rightarrow> list_all returned (v2_puts s) | _ \<Rightarrow> True" "apart es s1"
    using Cons.prems(3) s1(1) by simp_all
  with v2_inv_step [OF Cons.prems(1) s1(1) bound] Cons.IH [OF _ s1(2)] Cons.prems(4) show ?case by simp
qed simp

section \<open>Properties\<close>

lemma race_reachable_upd: "race_reachable s \<Longrightarrow> race_step s t' \<Longrightarrow> t' = t \<Longrightarrow> race_reachable t"
  using race_next by blast

text \<open>
  C24: Under the read lock \<open>Put\<close> is not safe: two \<open>Put\<close>s of the first version that overlap, of
  whatever URLs, can both return the key \<open>0\<close>, and \<open>Get\<close> then knows only one of the URLs.
\<close>

theorem racing_puts_share_key:
  "\<exists>s. race_reachable s \<and> rs_pc s 0 = R_Returned u ''0'' \<and> rs_pc s 1 = R_Returned v ''0'' \<and>
     v0_Get ''0'' (rs_store s) = v \<and> v0_Count (rs_store s) = 1"
proof -
  let ?pc = "\<lambda>p q. (\<lambda>_. R_Idle)(0 := p, 1 := q)"
  let ?at = "\<lambda>p q. race_init\<lparr>rs_pc := ?pc p q\<rparr>"
  let ?u = "\<lparr>us_urls = [(''0'', u)]\<rparr>" and ?v = "\<lparr>us_urls = [(''0'', v)]\<rparr>"
  note defs = race_init_def v0_new_def v0_Count_def v0_write_def first_keys fun_upd_twist
  have "race_reachable (?at (R_Counting u) R_Idle)"
    by (rule race_reachable_upd [OF race_start race_call [of _ 0 u]]) (auto simp: defs)
  then have "race_reachable (?at (R_Counting u) (R_Counting v))"
    by (rule race_reachable_upd [OF _ race_call [of _ 1 v]]) (auto simp: defs)
  then have "race_reachable (?at (R_Testing u ''0'') (R_Counting v))"
    by (rule race_reachable_upd [OF _ race_count [of _ 0 u "''0''"]]) (auto simp: defs)
  then have "race_reachable (?at (R_Testing u ''0'') (R_Testing v ''0''))"
    by (rule race_reachable_upd [OF _ race_count [of _ 1 v "''0''"]]) (auto simp: defs)
  then have "race_reachable (?at (R_Writing u ''0'') (R_Testing v ''0''))"
    by (rule race_reachable_upd [OF _ race_absent [of _ 0 u "''0''"]]) (auto simp: defs)
  then have "race_reachable (?at (R_Writing u ''0'') (R_Writing v ''0''))"
    by (rule race_reachable_upd [OF _ race_absent [of _ 1 v "''0''"]]) (auto simp: defs)
  then have "race_reachable ((?at (R_Returned u ''0'') (R_Writing v ''0''))\<lparr>rs_store := ?u\<rparr>)"
    by (rule race_reachable_upd [OF _ race_write [of _ 0 u "''0''"]]) (auto simp: defs)
  then have "race_reachable ((?at (R_Returned u ''0'') (R_Returned v ''0''))\<lparr>rs_store := ?v\<rparr>)"
    by (rule race_reachable_upd [OF _ race_write [of _ 1 v "''0''"]]) (auto simp: defs)
  then show ?thesis
    by (intro exI [of _ "(?at (R_Returned u ''0'') (R_Returned v ''0''))\<lparr>rs_store := ?v\<rparr>"] conjI)
       (simp_all add: v0_Get_def v0_Count_def)
qed

text \<open>
  Saving before returning is durable: as long as the records can be written, in any history of calls of the second version that do not
  overlap, with any number of restarts in between, every \<open>Put\<close> returns, the \<open>n\<close>-th one returns the
  \<open>n\<close>-th key whatever restarts came before, and the file and the store both hold exactly the
  records of all \<open>Put\<close>s.
\<close>

lemma stage1_durable:
  assumes "v1_new True [] = Some s" and "length (v1_puts es) < 2 ^ 63"
  shows "\<exists>t. v1_run es s = Some (t, map key_of [0..<length (v1_puts es)]) \<and>
    us_urls (v1_urls t) = v1_file t \<and> v1_file t = zip (map key_of [0..<length (v1_puts es)]) (v1_puts es)"
  using v1_run_spec [of s es] assms by (auto simp: v1_new_def v1_load_def v0_new_def keys_ok_Nil numbered_def)

lemma stage1_durable_witness:
  "\<exists>s t. v1_new True [] = Some s \<and> v1_run [V1_Put ''u'', V1_Restart, V1_Put ''v''] s = Some (t, [''0'', ''1'']) \<and>
     v1_file t = [(''0'', ''u''), (''1'', ''v'')]"
proof -
  obtain s where s: "v1_new True [] = Some s" by (simp add: v1_new_def)
  from stage1_durable [OF this, of "[V1_Put ''u'', V1_Restart, V1_Put ''v'']"] s first_keys show ?thesis
    by (auto simp: upt_rec)
qed


lemmas v2_eval = v2_step_def v2_new_def v1_load_def v0_new_def v2_Put_def v2_receive_def v2_encode_def
  v2_saveQueueLength_def v0_Count_def v0_write_def first_keys first_keys [simplified]


text \<open>
  But \<open>Put\<close>s do overlap, and then one crash is enough: the second of two \<open>Put\<close>s sends its record first,
  the program crashes with the first record unsaved, and every \<open>Put\<close> after the restart tries the key
  that is taken, for ever.
\<close>

lemma v0_Put_diverges:
  assumes "genKey (v0_Count s) = Some key" "map_of (us_urls s) key \<noteq> None"
  shows "v0_Put url s = None"
proof (rule ccontr)
  assume "v0_Put url s \<noteq> None"
  then obtain r where "v0_Put url s = Some r" by auto
  then have "\<not> (\<exists>key. genKey (v0_Count s) = Some key \<and> map_of (us_urls s) key \<noteq> None)"
  proof (rule v0_Put.raw_induct [rotated])
    fix put url s r
    assume IH: "\<And>url s r. put url s = Some r \<Longrightarrow>
        \<not> (\<exists>key. genKey (v0_Count s) = Some key \<and> map_of (us_urls s) key \<noteq> None)"
      and body: "(case genKey (v0_Count s) of
          None \<Rightarrow> Some None
        | Some key \<Rightarrow> (case v0_Set key url s of
             (s1, ok) \<Rightarrow> if ok then Some (Some (s1, key)) else put url s1)) = Some r"
    show "\<not> (\<exists>key. genKey (v0_Count s) = Some key \<and> map_of (us_urls s) key \<noteq> None)"
    proof
      assume used: "\<exists>key. genKey (v0_Count s) = Some key \<and> map_of (us_urls s) key \<noteq> None"
      with body have "put url s = Some r" by (auto simp: v0_Set_def)
      from IH [OF this] used show False by blast
    qed
  qed
  with assms show False by blast
qed

lemma overlapping_puts_hang:
  "\<exists>es s. v2_run (es @ [V2_Crash]) (v2_new []) = Some s \<and> (\<forall>url. v0_Put url (v2_urls s) = None)"
proof (intro exI conjI allI)
  let ?s = "v2_new [(''1'', v)]"
  show "v2_run ([V2_Call u, V2_Put 0, V2_Put 0, V2_Put 0, V2_Call v, V2_Put 1, V2_Put 1, V2_Put 1, V2_Put 1,
      V2_Receive, V2_Encode] @ [V2_Crash]) (v2_new []) = Some ?s"
    by (simp add: v2_eval)
  show "v0_Put url (v2_urls ?s) = None" for url
    by (rule v0_Put_diverges [of _ "''1''"]) (simp_all add: v2_eval v0_Set_def)
qed

end
