(* ===== verification/Sharemem.thy ===== *)
theory Sharemem
  imports Prelude "HOL-Library.Multiset"
begin

text \<open>
  The URL poller of \<open>codewalk/sharemem\<close>: pollers take resources from one channel, poll them, report
  the result to the state monitor and pass the resources on; each then sleeps in a goroutine of its
  own and is sent back to the pollers.

  \<^item> A \<open>*Resource\<close> is its index in \<open>sh_resources\<close>; nothing in the program locks a resource.
  \<^item> All channels are unbuffered: a send and its receipt are one step.  The state monitor and the
    loop of \<open>main\<close> are always ready to receive, so they have no control state of their own.
  \<^item> The answer of \<open>http.Head\<close> is the argument \<open>response\<close>; how long \<open>Sleep\<close> sleeps is \<open>sleep_time\<close>,
    the steps only say that it ends.  \<open>logState\<close> prints and changes nothing.
  \<^item> \<open>errCount\<close> is taken as an unbounded integer.
\<close>

section \<open>Resources\<close>

definition pollInterval :: int where "pollInterval = 60 * 10 ^ 9"
definition errTimeout :: int where "errTimeout = 10 * 10 ^ 9"
definition numPollers :: nat where "numPollers = 2"

record Resource =
  rc_url :: string
  rc_errCount :: int

definition Poll :: "string result \<Rightarrow> Resource \<Rightarrow> Resource \<times> string" where
  "Poll response r =
     (case response of
        Inl err \<Rightarrow> (r\<lparr>rc_errCount := rc_errCount r + 1\<rparr>, err)
      | Inr status \<Rightarrow> (r\<lparr>rc_errCount := 0\<rparr>, status))"

definition sleep_time :: "Resource \<Rightarrow> int" where
  "sleep_time r = pollInterval + errTimeout * rc_errCount r"

section \<open>The goroutines\<close>

text \<open>Where a \<open>Poller\<close> is in its loop.\<close>

datatype Poller = P_Receive | P_Poll nat | P_Status nat string | P_Out nat

record share =
  sh_resources :: "Resource list"
  sh_feed :: "nat list"
  sh_pollers :: "Poller list"
  sh_sleeping :: "nat list"
  sh_awake :: "nat list"
  sh_urlStatus :: "string \<rightharpoonup> string"

text \<open>\<open>main\<close> up to its loop.\<close>

definition share_main :: "string list \<Rightarrow> share" where
  "share_main urls =
     \<lparr>sh_resources = map (\<lambda>url. \<lparr>rc_url = url, rc_errCount = 0\<rparr>) urls, sh_feed = [0..<length urls],
      sh_pollers = replicate numPollers P_Receive, sh_sleeping = [], sh_awake = [], sh_urlStatus = Map.empty\<rparr>"

definition StateMonitor :: "string \<Rightarrow> string \<Rightarrow> share \<Rightarrow> share" where
  "StateMonitor url status s = s\<lparr>sh_urlStatus := (sh_urlStatus s)(url \<mapsto> status)\<rparr>"

datatype share_label = Quiet | Polled nat "string result" | Reported string string

inductive share_step :: "share \<Rightarrow> share_label \<Rightarrow> share \<Rightarrow> bool" where
  sh_fed: "sh_feed s = r # rs \<Longrightarrow> p < length (sh_pollers s) \<Longrightarrow> sh_pollers s ! p = P_Receive \<Longrightarrow>
    share_step s Quiet (s\<lparr>sh_feed := rs, sh_pollers := (sh_pollers s)[p := P_Poll r]\<rparr>)"
| sh_again: "sh_awake s = xs @ r # ys \<Longrightarrow> p < length (sh_pollers s) \<Longrightarrow> sh_pollers s ! p = P_Receive \<Longrightarrow>
    share_step s Quiet (s\<lparr>sh_awake := xs @ ys, sh_pollers := (sh_pollers s)[p := P_Poll r]\<rparr>)"
| sh_polls: "p < length (sh_pollers s) \<Longrightarrow> sh_pollers s ! p = P_Poll r \<Longrightarrow>
    Poll response (sh_resources s ! r) = (res, status) \<Longrightarrow>
    share_step s (Polled r response)
      (s\<lparr>sh_resources := (sh_resources s)[r := res], sh_pollers := (sh_pollers s)[p := P_Status r status]\<rparr>)"
| sh_reports: "p < length (sh_pollers s) \<Longrightarrow> sh_pollers s ! p = P_Status r status \<Longrightarrow>
    url = rc_url (sh_resources s ! r) \<Longrightarrow>
    share_step s (Reported url status)
      (StateMonitor url status (s\<lparr>sh_pollers := (sh_pollers s)[p := P_Out r]\<rparr>))"
| sh_completes: "p < length (sh_pollers s) \<Longrightarrow> sh_pollers s ! p = P_Out r \<Longrightarrow>
    share_step s Quiet (s\<lparr>sh_sleeping := sh_sleeping s @ [r], sh_pollers := (sh_pollers s)[p := P_Receive]\<rparr>)"
| sh_wakes: "sh_sleeping s = xs @ r # ys \<Longrightarrow>
    share_step s Quiet (s\<lparr>sh_sleeping := xs @ ys, sh_awake := sh_awake s @ [r]\<rparr>)"

inductive share_reach :: "string list \<Rightarrow> share_label list \<Rightarrow> share \<Rightarrow> bool" for urls where
  share_start: "share_reach urls [] (share_main urls)"
| share_next: "share_reach urls ls s \<Longrightarrow> share_step s l t \<Longrightarrow> share_reach urls (ls @ [l]) t"

section \<open>Who has a resource\<close>

fun held :: "Poller \<Rightarrow> nat list" where
  "held P_Receive = []"
| "held (P_Poll r) = [r]"
| "held (P_Status r status) = [r]"
| "held (P_Out r) = [r]"

definition held_by_all :: "Poller list \<Rightarrow> nat multiset" where
  "held_by_all ps = mset (concat (map held ps))"

text \<open>The resources that some goroutine has, as often as goroutines have them.\<close>

definition owned :: "share \<Rightarrow> nat multiset" where
  "owned s = mset (sh_feed s) + held_by_all (sh_pollers s) + mset (sh_sleeping s) + mset (sh_awake s)"

lemma held_by_all_update:
  "p < length ps \<Longrightarrow> held_by_all (ps[p := q]) + mset (held (ps ! p)) = held_by_all ps + mset (held q)"
  by (induction ps arbitrary: p) (auto simp: held_by_all_def nth_Cons union_ac split: nat.splits)

lemma held_by_all_moves:
  assumes "p < length ps"
  shows "held (ps ! p) = [] \<Longrightarrow> held q = [r] \<Longrightarrow> held_by_all (ps[p := q]) = add_mset r (held_by_all ps)"
    "held (ps ! p) = [r] \<Longrightarrow> held q = [] \<Longrightarrow> add_mset r (held_by_all (ps[p := q])) = held_by_all ps"
    "held (ps ! p) = held q \<Longrightarrow> held_by_all (ps[p := q]) = held_by_all ps"
  using held_by_all_update [OF assms, of q] by auto

lemma owned_kept: "share_step s l t \<Longrightarrow> owned t = owned s"
proof (induction rule: share_step.induct)
  case (sh_fed s r rs p)
  then show ?case by (simp add: owned_def held_by_all_moves(1) [where r = r])
next
  case (sh_again s xs r ys p)
  then show ?case by (simp add: owned_def held_by_all_moves(1) [where r = r])
next
  case (sh_polls p s r response res status)
  then show ?case by (simp add: owned_def held_by_all_moves(3))
next
  case (sh_reports p s r status url)
  then show ?case by (simp add: owned_def held_by_all_moves(3) StateMonitor_def)
next
  case (sh_completes p s r)
  then show ?case using held_by_all_moves(2) [of p "sh_pollers s" r P_Receive]
    by (simp add: owned_def)
next
  case (sh_wakes s xs r ys)
  then show ?case by (simp add: owned_def)
qed

lemma share_step_lengths:
  "share_step s l t \<Longrightarrow> length (sh_pollers t) = length (sh_pollers s) \<and>
    length (sh_resources t) = length (sh_resources s)"
  by (induction rule: share_step.induct) (simp_all add: StateMonitor_def)

lemma share_reach_owned:
  "share_reach urls ls s \<Longrightarrow> owned s = mset [0..<length urls] \<and> length (sh_pollers s) = numPollers \<and>
     length (sh_resources s) = length urls"
proof (induction rule: share_reach.induct)
  case share_start
  show ?case by (simp add: owned_def share_main_def held_by_all_def numPollers_def eval_nat_numeral)
next
  case (share_next ls s l t)
  then show ?case using owned_kept share_step_lengths by metis
qed

lemma held_in_range:
  assumes "share_reach urls ls s" "p < length (sh_pollers s)" "r \<in> set (held (sh_pollers s ! p))"
  shows "r < length urls"
proof -
  have "r \<in># held_by_all (sh_pollers s)" using assms(2,3) by (auto simp: held_by_all_def)
  then have "r \<in># owned s" by (simp add: owned_def)
  with share_reach_owned [OF assms(1)] show ?thesis by simp
qed

section \<open>What the error counts say\<close>

fun results_of :: "nat \<Rightarrow> share_label list \<Rightarrow> string result list" where
  "results_of r [] = []"
| "results_of r (Polled q x # ls) = (if q = r then x # results_of r ls else results_of r ls)"
| "results_of r (l # ls) = results_of r ls"

lemma results_of_snoc:
  "results_of r (ls @ [l]) = results_of r ls @ (case l of Polled q x \<Rightarrow> if q = r then [x] else [] | _ \<Rightarrow> [])"
  by (induction r ls rule: results_of.induct) (auto split: share_label.splits)

fun is_error :: "'a result \<Rightarrow> bool" where
  "is_error (Inl e) = True"
| "is_error (Inr x) = False"

definition errors_in_a_row :: "string result list \<Rightarrow> int" where
  "errors_in_a_row xs = int (length (takeWhile is_error (rev xs)))"

lemma errors_snoc:
  "errors_in_a_row (xs @ [x]) = (case x of Inl e \<Rightarrow> errors_in_a_row xs + 1 | Inr y \<Rightarrow> 0)"
  by (cases x) (simp_all add: errors_in_a_row_def)

lemma share_reach_counts:
  assumes "share_reach urls ls s" "r < length urls"
  shows "sh_resources s ! r = \<lparr>rc_url = urls ! r, rc_errCount = errors_in_a_row (results_of r ls)\<rparr>"
  using assms
proof (induction rule: share_reach.induct)
  case share_start
  then show ?case by (simp add: share_main_def errors_in_a_row_def)
next
  case (share_next ls s l t)
  from share_next.hyps(2) share_reach_owned [OF share_next.hyps(1)] share_next.IH [OF share_next.prems] share_next.prems
  show ?case
    by cases (auto simp: results_of_snoc errors_snoc Poll_def StateMonitor_def nth_list_update split: sum.splits)
qed

section \<open>No deadlock\<close>

lemma share_step_possible:
  assumes "share_reach urls ls s" "urls \<noteq> []"
  shows "\<exists>l t. share_step s l t"
proof -
  note inv = share_reach_owned [OF assms(1)]
  have p: "0 < length (sh_pollers s)" using inv by (simp add: numPollers_def)
  show ?thesis
  proof (cases "sh_pollers s ! 0")
    case P_Receive
    show ?thesis
    proof (cases "\<exists>q < length (sh_pollers s). sh_pollers s ! q \<noteq> P_Receive")
      case True
      then obtain q where "q < length (sh_pollers s)" "sh_pollers s ! q \<noteq> P_Receive" by blast
      then show ?thesis
        using sh_polls sh_reports sh_completes by (cases "sh_pollers s ! q") (metis surj_pair)+
    next
      case False
      then have "held_by_all (sh_pollers s) = {#}" by (auto simp: held_by_all_def in_set_conv_nth)
      moreover have "owned s \<noteq> {#}" using inv assms(2) by (simp add: mset_set_empty_iff)
      ultimately consider "sh_feed s \<noteq> []" | "sh_sleeping s \<noteq> []" | "sh_awake s \<noteq> []"
        by (auto simp: owned_def)
      then show ?thesis
      proof cases
        case 1
        with P_Receive p sh_fed [of s] show ?thesis by (cases "sh_feed s") blast+
      next
        case 2
        with sh_wakes [of s "[]"] show ?thesis by (cases "sh_sleeping s") auto
      next
        case 3
        with P_Receive p sh_again [of s "[]"] show ?thesis by (cases "sh_awake s") fastforce+
      qed
    qed
  qed (use p sh_polls sh_reports sh_completes in \<open>metis surj_pair\<close>)+
qed

section \<open>Properties\<close>

lemma held_apart:
  assumes "p < length ps" "q < length ps" "p \<noteq> q"
  shows "mset (held (ps ! p)) + mset (held (ps ! q)) \<subseteq># held_by_all ps"
proof -
  have "held_by_all (ps[p := P_Receive]) + mset (held (ps ! p)) = held_by_all ps"
    using held_by_all_update [OF assms(1), of P_Receive] by simp
  moreover have "held_by_all (ps[p := P_Receive, q := P_Receive]) + mset (held (ps ! q)) =
      held_by_all (ps[p := P_Receive])"
    using held_by_all_update [of q "ps[p := P_Receive]" P_Receive] assms by simp
  ultimately show ?thesis by (metis add.assoc add.commute mset_subset_eq_add_right)
qed

text \<open>
  C10: Memory is shared by communicating: at every moment each resource is with exactly one goroutine
  (in the feeding one, with a poller, asleep or on its way back), so that no two pollers ever have the
  same one although nothing is locked; the error count of a resource is the number of failures since
  its last success, which makes its next sleep 60 seconds and 10 more for each; and as long as there is
  a URL the goroutines never deadlock.
\<close>

theorem resources_owned_once:
  assumes "share_reach urls ls s"
  shows "owned s = mset [0..<length urls] \<and>
    (\<forall>p < numPollers. \<forall>q < numPollers. p \<noteq> q \<longrightarrow> set (held (sh_pollers s ! p)) \<inter> set (held (sh_pollers s ! q)) = {}) \<and>
    (\<forall>r < length urls. rc_url (sh_resources s ! r) = urls ! r \<and>
       sleep_time (sh_resources s ! r) = 60 * 10 ^ 9 + 10 * 10 ^ 9 * errors_in_a_row (results_of r ls)) \<and>
    (urls \<noteq> [] \<longrightarrow> (\<exists>l t. share_step s l t))"
proof (intro conjI allI impI)
  note inv = share_reach_owned [OF assms]
  show "owned s = mset [0..<length urls]" using inv by blast
  show "\<exists>l t. share_step s l t" if "urls \<noteq> []" using share_step_possible [OF assms that] .
  fix r assume r: "r < length urls"
  show "rc_url (sh_resources s ! r) = urls ! r" using share_reach_counts [OF assms r] by simp
  show "sleep_time (sh_resources s ! r) = 60 * 10 ^ 9 + 10 * 10 ^ 9 * errors_in_a_row (results_of r ls)"
    using share_reach_counts [OF assms r] by (simp add: sleep_time_def pollInterval_def errTimeout_def)
next
  fix p q assume pq: "p < numPollers" "q < numPollers" "p \<noteq> q"
  note inv = share_reach_owned [OF assms]
  show "set (held (sh_pollers s ! p)) \<inter> set (held (sh_pollers s ! q)) = {}"
  proof (rule ccontr)
    assume "set (held (sh_pollers s ! p)) \<inter> set (held (sh_pollers s ! q)) \<noteq> {}"
    then obtain r where "r \<in># mset (held (sh_pollers s ! p))" "r \<in># mset (held (sh_pollers s ! q))" by auto
    then have "2 \<le> count (mset (held (sh_pollers s ! p)) + mset (held (sh_pollers s ! q))) r"
      by (metis add_mono count_greater_eq_one_iff count_union one_add_one)
    also have "\<dots> \<le> count (held_by_all (sh_pollers s)) r"
      using held_apart [of p "sh_pollers s" q] pq inv by (intro mset_subset_eq_count) simp
    also have "\<dots> \<le> count (owned s) r" by (simp add: owned_def)
    also have "\<dots> \<le> 1" using inv by (cases "r < length urls") (simp_all add: count_mset_set)
    finally show False by simp
  qed
qed

text \<open>The witness: one URL whose first poll fails; it is then asleep, with a longer sleep ahead.\<close>

theorem resources_owned_once_witness:
  "\<exists>s. share_reach [''u''] [Quiet, Polled 0 (Inl ''timeout''), Reported ''u'' ''timeout'', Quiet] s \<and>
     owned s = {#0#} \<and> sleep_time (sh_resources s ! 0) = 70 * 10 ^ 9 \<and> (\<exists>l t. share_step s l t)"
proof -
  let ?m = "share_main [''u'']"
  let ?a = "?m\<lparr>sh_feed := [], sh_pollers := [P_Poll 0, P_Receive]\<rparr>"
  let ?b = "?a\<lparr>sh_resources := [\<lparr>rc_url = ''u'', rc_errCount = 1\<rparr>], sh_pollers := [P_Status 0 ''timeout'', P_Receive]\<rparr>"
  let ?c = "?b\<lparr>sh_pollers := [P_Out 0, P_Receive], sh_urlStatus := [''u'' \<mapsto> ''timeout'']\<rparr>"
  let ?d = "?c\<lparr>sh_pollers := [P_Receive, P_Receive], sh_sleeping := [0]\<rparr>"
  note defs = share_main_def numPollers_def Poll_def StateMonitor_def eval_nat_numeral
  have a: "share_step ?m Quiet ?a" using sh_fed [of ?m 0 "[]" 0] by (simp add: defs)
  have b: "share_step ?a (Polled 0 (Inl ''timeout'')) ?b"
    using sh_polls [of 0 ?a 0 "Inl ''timeout''"] by (simp add: defs)
  have c: "share_step ?b (Reported ''u'' ''timeout'') ?c"
    using sh_reports [of 0 ?b 0 "''timeout''" "''u''"] by (simp add: defs)
  have d: "share_step ?c Quiet ?d" using sh_completes [of 0 ?c 0] by (simp add: defs)
  have reach: "share_reach [''u''] [Quiet, Polled 0 (Inl ''timeout''), Reported ''u'' ''timeout'', Quiet] ?d"
    using share_next [OF share_next [OF share_next [OF share_next [OF share_start a] b] c] d] by simp
  from resources_owned_once [OF this] reach show ?thesis
    by (intro exI [of _ ?d]) (simp add: errors_in_a_row_def)
qed

end
