(* ===== verification/LspNet.thy ===== *)
theory LspNet
  imports LspConn
begin

text \<open>
  The packets of LSP below the connections: \<open>lspnet.go\<close>, the wrapper around UDP that drops packets
  on purpose, and the reading goroutines \<open>loopRead\<close> of server and client.

  \<^item> A datagram comes with the number that \<open>rand.Intn(100)\<close> yields when it is read, with its sender
    and its bytes, and with the error of the read (then it has no bytes).
  \<^item> Both goroutines keep one buffer of 2000 bytes for all their reads.
  \<^item> \<open>json.Unmarshal\<close> is the argument \<open>dec\<close>, \<open>None\<close> when it fails.
\<close>

section \<open>lspnet\<close>

definition SetDropPercent :: "int \<Rightarrow> int" where
  "SetDropPercent p = (if p < 0 \<or> p > 100 then 0 else p)"

definition dropit :: "int \<Rightarrow> int \<Rightarrow> bool" where
  "dropit dropPercent r = (r < dropPercent)"

record datagram =
  dg_rand :: int
  dg_addr :: string
  dg_data :: string
  dg_err :: bool

definition bufsize :: nat where "bufsize = 2000"

text \<open>
  \<open>ReadFromUDP\<close>: the number of bytes of the datagram and the caller's buffer afterwards.  The whole
  of the function's own zeroed buffer is copied, unless the packet is dropped.
\<close>

definition ReadFromUDP :: "int \<Rightarrow> datagram \<Rightarrow> string \<Rightarrow> nat \<times> string" where
  "ReadFromUDP readDropPercent d b =
     (let buffer = take bufsize (dg_data d); n = length buffer
      in (n, if dropit readDropPercent (dg_rand d) then b
             else buffer @ replicate (bufsize - n) (CHR 0x00)))"

text \<open>\<open>WriteToUDP\<close>: the packet that leaves, if any, and the count that is returned when it does not.\<close>

definition WriteToUDP :: "int \<Rightarrow> int \<Rightarrow> string \<Rightarrow> string option \<times> nat option" where
  "WriteToUDP writeDropPercent r b =
     (if dropit writeDropPercent r then (None, Some (length b)) else (Some b, None))"

section \<open>loopRead\<close>

fun srv_loopRead ::
  "(string \<Rightarrow> LspMsg option) \<Rightarrow> int \<Rightarrow> datagram list \<Rightarrow> string \<Rightarrow> (string \<times> LspMsg) list" where
  "srv_loopRead dec percent [] buf = []"
| "srv_loopRead dec percent (d # ds) buf =
     (let (n, buf1) = ReadFromUDP percent d buf
      in if dg_err d then srv_loopRead dec percent ds buf1
         else (case dec (take n buf1) of
             None \<Rightarrow> srv_loopRead dec percent ds buf1
           | Some msg \<Rightarrow> (dg_addr d, msg) # srv_loopRead dec percent ds buf1))"

fun cli_loopRead :: "(string \<Rightarrow> LspMsg option) \<Rightarrow> int \<Rightarrow> datagram list \<Rightarrow> string \<Rightarrow> LspMsg list" where
  "cli_loopRead dec percent [] buf = []"
| "cli_loopRead dec percent (d # ds) buf =
     (let (n, buf1) = ReadFromUDP percent d buf
      in if dg_err d then cli_loopRead dec percent ds buf1
         else (case dec (take n buf1) of
             None \<Rightarrow> cli_loopRead dec percent ds buf1
           | Some msg \<Rightarrow> msg # cli_loopRead dec percent ds buf1))"

section \<open>Packets that are kept and packets that are dropped\<close>

lemma cli_loopRead_srv: "cli_loopRead dec percent ds buf = map snd (srv_loopRead dec percent ds buf)"
  by (induction ds arbitrary: buf) (auto simp: Let_def split: prod.splits option.splits)

lemma take_min_length [simp]: "take (min (length xs) n) xs = take n xs"
  by (metis min.commute take_all take_take order_refl)

lemma ReadFromUDP_kept:
  "\<not> dropit percent (dg_rand d) \<Longrightarrow> ReadFromUDP percent d b = (n, b1) \<Longrightarrow> take n b1 = take bufsize (dg_data d)"
  by (auto simp: ReadFromUDP_def Let_def)

lemma ReadFromUDP_dropped:
  "dropit percent (dg_rand d) \<Longrightarrow> ReadFromUDP percent d b = (min bufsize (length (dg_data d)), b)"
  by (simp add: ReadFromUDP_def Let_def min.commute)

text \<open>What arrives when nothing is dropped: the messages of the datagrams, each from its sender.\<close>

fun received :: "(string \<Rightarrow> LspMsg option) \<Rightarrow> datagram list \<Rightarrow> (string \<times> LspMsg) list" where
  "received dec [] = []"
| "received dec (d # ds) =
     (case (if dg_err d then None else dec (take bufsize (dg_data d))) of
        None \<Rightarrow> received dec ds
      | Some msg \<Rightarrow> (dg_addr d, msg) # received dec ds)"

lemma srv_loopRead_kept:
  "list_all (\<lambda>d. \<not> dropit percent (dg_rand d)) ds \<Longrightarrow> srv_loopRead dec percent ds buf = received dec ds"
  by (induction ds arbitrary: buf)
    (auto simp: Let_def ReadFromUDP_kept split: prod.splits option.splits)

text \<open>The bytes of a packet of length \<open>n\<close> that is dropped after the bytes \<open>x\<close> were kept.\<close>

definition left_over :: "string \<Rightarrow> nat \<Rightarrow> string" where
  "left_over x n = take (min bufsize n) (take bufsize x @ replicate (bufsize - length x) (CHR 0x00))"

lemma left_over_short: "n \<le> length x \<Longrightarrow> left_over x n = take (min bufsize n) x"
  by (simp add: left_over_def min_def)

lemma left_over_same: "length y = length x \<Longrightarrow> left_over x (length y) = take bufsize x"
  by (simp add: left_over_def min_def)

lemma left_over_long:
  "length x \<le> n \<Longrightarrow> n \<le> bufsize \<Longrightarrow> left_over x n = x @ replicate (n - length x) (CHR 0x00)"
  by (simp add: left_over_def min_def)

lemma srv_loopRead_after:
  "list_all (\<lambda>e. dropit percent (dg_rand e)) es \<Longrightarrow>
   srv_loopRead dec percent (es @ ds) pad =
     received dec (map (\<lambda>e. e\<lparr>dg_data := take (min bufsize (length (dg_data e))) pad\<rparr>) es) @ srv_loopRead dec percent ds pad"
  by (induction es) (auto simp: Let_def ReadFromUDP_dropped split: option.splits)

section \<open>Properties\<close>

text \<open>
  C19: A packet that is dropped on reading is not dropped, anywhere in a stream of datagrams: after a
  packet that was kept, each of the dropped ones that follow, of whatever lengths and senders, is taken
  for the kept packet's bytes, cut to the length of the dropped one or filled up with zeros; when that is
  a message, the server's goroutine hands it on as coming from the dropped packet's sender, and when it is
  none, nothing is handed on.  So a packet as long as the kept one repeats its message under another
  name.  When nothing is dropped, exactly the messages of the datagrams are handed on.
\<close>

theorem dropped_read_misattributes:
  assumes "\<not> dropit percent (dg_rand d)" and "list_all (\<lambda>e. dropit percent (dg_rand e)) es"
    and "list_all (\<lambda>e. \<not> dropit percent (dg_rand e)) ds"
  shows "srv_loopRead dec percent (d # es @ ds) buf =
      received dec [d] @
      concat (map (\<lambda>e. if dg_err e then []
        else case dec (left_over (dg_data d) (length (dg_data e))) of None \<Rightarrow> [] | Some msg \<Rightarrow> [(dg_addr e, msg)]) es) @
      received dec ds"
proof -
  define pad where "pad = take bufsize (dg_data d) @ replicate (bufsize - length (dg_data d)) (CHR 0x00)"
  have "ReadFromUDP percent d buf = (length (take bufsize (dg_data d)), pad)"
    using assms(1) by (simp add: ReadFromUDP_def Let_def pad_def min_def)
  then have "srv_loopRead dec percent (d # es @ ds) buf = received dec [d] @ srv_loopRead dec percent (es @ ds) pad"
    by (simp add: pad_def split: option.splits)
  moreover have "received dec (map (\<lambda>e. e\<lparr>dg_data := take (min bufsize (length (dg_data e))) pad\<rparr>) es) =
      concat (map (\<lambda>e. if dg_err e then []
        else case dec (left_over (dg_data d) (length (dg_data e))) of None \<Rightarrow> [] | Some msg \<Rightarrow> [(dg_addr e, msg)]) es)"
    by (induction es) (auto simp: left_over_def pad_def min.commute split: option.splits)
  ultimately show "srv_loopRead dec percent (d # es @ ds) buf =
      received dec [d] @
      concat (map (\<lambda>e. if dg_err e then []
        else case dec (left_over (dg_data d) (length (dg_data e))) of None \<Rightarrow> [] | Some msg \<Rightarrow> [(dg_addr e, msg)]) es) @
      received dec ds"
    using srv_loopRead_after [OF assms(2)] srv_loopRead_kept [OF assms(3)] by simp
qed

theorem dropped_read_misattributes_witness:
  "srv_loopRead (\<lambda>s. if s = ''{1}'' then Some (genDataMsg 1 1 ''hello'') else if s = ''{2}'' then Some (genDataMsg 2 1 ''bye'') else None)
     (SetDropPercent 50)
     [\<lparr>dg_rand = 70, dg_addr = ''a:1'', dg_data = ''{1}'', dg_err = False\<rparr>,
      \<lparr>dg_rand = 20, dg_addr = ''b:2'', dg_data = ''{2}'', dg_err = False\<rparr>,
      \<lparr>dg_rand = 49, dg_addr = ''c:3'', dg_data = ''{2} '', dg_err = False\<rparr>,
      \<lparr>dg_rand = 50, dg_addr = ''b:2'', dg_data = ''{2}'', dg_err = False\<rparr>] (replicate 2000 (CHR 0x00)) =
   [(''a:1'', genDataMsg 1 1 ''hello''), (''b:2'', genDataMsg 1 1 ''hello''), (''b:2'', genDataMsg 2 1 ''bye'')]"
  using dropped_read_misattributes [of "SetDropPercent 50" "\<lparr>dg_rand = 70, dg_addr = ''a:1'', dg_data = ''{1}'', dg_err = False\<rparr>"
      "[\<lparr>dg_rand = 20, dg_addr = ''b:2'', dg_data = ''{2}'', dg_err = False\<rparr>,
        \<lparr>dg_rand = 49, dg_addr = ''c:3'', dg_data = ''{2} '', dg_err = False\<rparr>]"
      "[\<lparr>dg_rand = 50, dg_addr = ''b:2'', dg_data = ''{2}'', dg_err = False\<rparr>]"
      "\<lambda>s. if s = ''{1}'' then Some (genDataMsg 1 1 ''hello'') else if s = ''{2}'' then Some (genDataMsg 2 1 ''bye'') else None"
      "replicate 2000 (CHR 0x00)"]
  by (simp add: bufsize_def dropit_def SetDropPercent_def left_over_def)

end
