(* ===== verification/StorageJoin.thy ===== *)
theory StorageJoin
  imports Storage
begin

text \<open>
  How a storage cluster comes up: the branch of \<open>NewStorageserver\<close> for a server that is not the
  master, which registers at the master up to ten times, and what the master then knows.

  The argument \<open>tries\<close> gives for each attempt the other servers that register before it and what
  the network does to the call; the attempts are a second apart.
\<close>

section \<open>Registration\<close>

definition register :: "Node \<Rightarrow> StorageServer \<Rightarrow> StorageServer" where
  "register node ss = fst (ss_RegisterServer node ss)"

definition says_ready :: "(bool \<times> Node list) result \<Rightarrow> bool" where
  "says_ready r = (case r of Inl e \<Rightarrow> False | Inr (ready, nodes) \<Rightarrow> ready)"

text \<open>The loop of the attempts, with the seconds it slept.\<close>

fun join_loop :: "(Node list \<times> delivery) list \<Rightarrow> Node \<Rightarrow> StorageServer \<Rightarrow> StorageServer \<times> nat" where
  "join_loop [] node master = (master, 0)"
| "join_loop ((others, d) # tries) node master =
     (let master1 = fold register others master;
          (master2, r) = (if d = RequestLost then (master1, Inr (False, [])) else ss_RegisterServer node master1)
      in if d = Delivered \<and> says_ready r then (master2, 0)
         else (let (master3, s) = join_loop tries node master2 in (master3, Suc s)))"

definition NewSlave ::
  "bool \<Rightarrow> (Node list \<times> delivery) list \<Rightarrow> Node \<Rightarrow> StorageServer \<Rightarrow> StorageServer \<times> StorageServer option" where
  "NewSlave dialled tries node master =
     (if dialled then (fst (join_loop (take 10 tries) node master), Some (NewStorageserver False 0 node))
      else (master, None))"

section \<open>What the master knows\<close>

lemma register_fields [simp]:
  "ss_ismaster (register node ss) = ss_ismaster ss" "ss_numnodes (register node ss) = ss_numnodes ss"
  "ss_hashmap (register node ss) = ss_hashmap ss" "ss_leasePool (register node ss) = ss_leasePool ss"
  by (simp_all add: register_def ss_RegisterServer_def Let_def)

lemma register_nodes:
  "ss_ismaster ss \<Longrightarrow> distinct (ss_nodes ss) \<Longrightarrow>
   distinct (ss_nodes (register node ss)) \<and> set (ss_nodes (register node ss)) = insert node (set (ss_nodes ss))"
  by (auto simp: register_def ss_RegisterServer_def Let_def)

lemma registers_nodes:
  "ss_ismaster ss \<Longrightarrow> distinct (ss_nodes ss) \<Longrightarrow>
   distinct (ss_nodes (fold register ns ss)) \<and> set (ss_nodes (fold register ns ss)) = set ns \<union> set (ss_nodes ss) \<and>
   ss_ismaster (fold register ns ss) \<and> ss_numnodes (fold register ns ss) = ss_numnodes ss"
proof (induction ns arbitrary: ss)
  case (Cons n ns)
  from Cons.IH [of "register n ss"] Cons.prems register_nodes [OF Cons.prems, of n] show ?case by auto
qed simp

text \<open>
  The cluster is ready exactly when as many different servers as expected have registered, however
  often and in which order, and the list then names each of them once.  A server too many, and it
  is never ready again.
\<close>

lemma cluster_ready:
  assumes "m = fold register ns (NewStorageserver True n self)"
  shows "(\<exists>nodes. ss_GetServers m = Inr (True, nodes)) \<longleftrightarrow> n = int (card (insert self (set ns)))"
    and "ss_GetServers m = Inr (True, nodes) \<Longrightarrow> distinct nodes \<and> set nodes = insert self (set ns)"
    and "\<exists>r. ss_GetServers m = Inr r"
proof -
  have new: "ss_ismaster (NewStorageserver True n self)" "distinct (ss_nodes (NewStorageserver True n self))"
    "set (ss_nodes (NewStorageserver True n self)) = {self}" "ss_numnodes (NewStorageserver True n self) = n"
    by (simp_all add: NewStorageserver_def)
  note m = registers_nodes [OF new(1,2), of ns, folded assms, unfolded new]
  have len: "length (ss_nodes m) = card (insert self (set ns))"
    using m distinct_card [of "ss_nodes m"] by simp
  show "(\<exists>nodes. ss_GetServers m = Inr (True, nodes)) \<longleftrightarrow> n = int (card (insert self (set ns)))"
    "\<exists>r. ss_GetServers m = Inr r" using m len by (auto simp: ss_GetServers_def)
  show "ss_GetServers m = Inr (True, nodes) \<Longrightarrow> distinct nodes \<and> set nodes = insert self (set ns)"
    using m by (auto simp: ss_GetServers_def split: if_splits)
qed

lemma never_ready_again:
  assumes "m = fold register ns (NewStorageserver True n self)" and "n < int (card (insert self (set ns)))"
  shows "\<not> (\<exists>nodes. ss_GetServers (fold register ms m) = Inr (True, nodes))"
proof -
  have "card (insert self (set ns)) \<le> card (insert self (set (ns @ ms)))" by (rule card_mono) auto
  with assms(2) cluster_ready(1) [of "fold register ms m" "ns @ ms" n self] assms(1) show ?thesis by simp
qed

section \<open>What a slave achieves\<close>

lemma join_loop_registers:
  "fst (join_loop tries node m) = fold register
     (concat (map (\<lambda>(others, d). others @ (if d = RequestLost then [] else [node]))
       (take (Suc (snd (join_loop tries node m))) tries))) m"
proof (induction tries arbitrary: m)
  case (Cons t tries)
  obtain others d where t: "t = (others, d)" by (cases t)
  obtain m2 r where mr: "(if d = RequestLost then (fold register others m, Inr (False, []))
      else ss_RegisterServer node (fold register others m)) = (m2, r)" by fastforce
  have m2: "m2 = fold register (others @ (if d = RequestLost then [] else [node])) m"
    using mr by (auto simp: register_def split: if_splits)
  obtain m3 k where j: "join_loop tries node m2 = (m3, k)" by fastforce
  show ?case using Cons.IH [of m2] mr m2 j by (auto simp: t Let_def split: prod.splits)
qed simp

text \<open>A slave whose calls are all lost gives up after ten seconds and serves all the same.\<close>

lemma slave_serves_unregistered:
  assumes "length tries = 10" "\<forall>t \<in> set tries. t = ([], RequestLost)"
  shows "NewSlave True tries node m = (m, Some (NewStorageserver False 0 node)) \<and>
    snd (join_loop tries node m) = 10"
proof -
  have "join_loop ts node m = (m, length ts)" if "\<forall>t \<in> set ts. t = ([], RequestLost)" for ts
    using that by (induction ts) auto
  with assms show ?thesis by (simp add: NewSlave_def)
qed

end
