(* ===== verification/TribCache.thy ===== *)
theory TribCache
  imports TribStore Libstore
begin

text \<open>
  A tribble server on top of its libstore, the caches and the storage servers: the five methods of
  \<open>libstore.go\<close> as the store operations of \<open>Trib\<close>, and the contract \<open>kv_store\<close> for them.

  \<^item> \<open>NewTribserver\<close> makes its libstore without the flag \<open>ALWAYS_LEASE\<close> and with its own address as
    the address for revocations, but registers only the tribble server there: no program of the
    repository registers a libstore as \<open>CacheRPC\<close>, so a revocation is \<open>Refused\<close>.
  \<^item> All the calls of a request are made at one time.
  \<^item> A key is free for a write when the cache holds no lease on it.
\<close>

section \<open>The store of a tribble server\<close>

definition libstore_ops ::
  "(string \<Rightarrow> revoke_answer) \<Rightarrow> call_env \<Rightarrow> string \<Rightarrow> lib_system store_ops" where
  "libstore_ops answers env myhostport =
     \<lparr>st_Get = iGet False env myhostport,
      st_GetList = iGetList False env myhostport,
      st_Put = (\<lambda>key value sys. map_option (\<lambda>(sys, t, r). (sys, r)) (iPut answers env key value sys)),
      st_AppendToList = (\<lambda>key newitem sys.
        map_option (\<lambda>(sys, t, r). (sys, r)) (iAppendToList answers env key newitem sys)),
      st_RemoveFromList = (\<lambda>key removeitem sys.
        map_option (\<lambda>(sys, t, r). (sys, r)) (iRemoveFromList answers env key removeitem sys))\<rparr>"

section \<open>What the operations of a libstore leave alone\<close>

context lease_reader begin

lemma fetch_docs:
  assumes "lib_fetch handler as_doc of_doc always env c key sys = Some (sys', r)"
  shows "doc_at sys' k = doc_at sys k"
  using assms
proof (cases rule: fetchE)
  case (called x want h ss args ss1 st v l)
  have same: "only_at key ss ss" by (simp add: only_at_def)
  have s: "sys_servers (put_cache c x sys) h = Some ss" "server_for (put_cache c x sys) key = Some (h, ss)"
    using called(2,3) by simp_all
  have key: "ga_Key args = key" using called(4) by simp
  have docs: "ss_hashmap ss key = doc_at sys key" using called(2) by (simp add: doc_at_def)
  have at: "doc_at (put_server h ss' (put_cache c x sys)) k = doc_at sys k"
    if "ss_hashmap ss' = ss_hashmap ss" "only_at key ss ss'" for ss'
    using put_server_at(1) [OF s(1) that(2), of k] put_server_at(3) [OF s(1) that(2) s(2)] that(1) docs
    by (cases "k = key") simp_all
  from called(6) at [OF refl same] at [OF effect(1,2) [OF called(5), unfolded key]] show ?thesis by auto
qed simp_all

end

lemma iGet_docs: "iGet always env c key sys = Some (sys', r) \<Longrightarrow> doc_at sys' k = doc_at sys k"
  unfolding iGet_def by (rule get_reader.fetch_docs)

lemma iGetList_docs: "iGetList always env c key sys = Some (sys', rl) \<Longrightarrow> doc_at sys' k = doc_at sys k"
  unfolding iGetList_def by (rule list_reader.fetch_docs)

lemma iAppendToList_docs:
  assumes "iAppendToList answers env key v sys = Some (sys', t, Inr u)"
  shows "v \<notin> set (doc_list (doc_at sys key)) \<and> doc_at sys' key = Some (JArr (doc_list (doc_at sys key) @ [v]))"
proof -
  from assms obtain node ss where n: "pickServer (sys_nodes sys) key = Some node" "sys_servers sys (HostPort node) = Some ss"
    by (auto simp: iAppendToList_def lib_mutate_def mutate_via_def split: Option.bind_splits option.splits)
  with assms obtain ss1 rs where w: "ss_AppendToList answers (cl_now env) key v ss = Some (ss1, t, rs, status_code.OK)"
    "sys' = put_server (HostPort node) ss1 (revoke_all key rs sys)"
    by (auto simp: iAppendToList_def lib_mutate_def mutate_via_def split: Option.bind_splits if_splits)
  note s = server_for_pick [OF n]
  have doc: "doc_at sys key = ss_hashmap ss key" using s by (simp add: doc_at_def)
  have "sys_servers (revoke_all key rs sys) (HostPort node) = Some ss"
    "server_for (revoke_all key rs sys) key = Some (HostPort node, ss)" using n(2) s by simp_all
  note at = put_server_at(3) [OF this(1) append_writer.local_ [OF w(1)] this(2)]
  show ?thesis using w revokeLease_spec(1) at doc
    by (auto simp: ss_AppendToList_def Let_def split: Option.bind_splits if_splits)
qed

section \<open>A libstore as a store\<close>

text \<open>
  Calls are made and answered at once.  \<open>callbacks R\<close>: every client can be dialled, and those of \<open>R\<close>
  have registered their libstore for revocations; no program of the repository does.
\<close>

definition callbacks :: "string set \<Rightarrow> string \<Rightarrow> revoke_answer" where
  "callbacks R a = (if a \<in> R then Answered else Refused)"

definition served :: "lib_system \<Rightarrow> bool" where
  "served sys \<longleftrightarrow> sys_nodes sys \<noteq> [] \<and> (\<forall>n \<in> set (sys_nodes sys). sys_servers sys (HostPort n) \<noteq> None)"

text \<open>What the cache of \<open>c\<close> would answer with is what the store has.\<close>

definition up_to_date :: "time \<Rightarrow> string \<Rightarrow> lib_system \<Rightarrow> bool" where
  "up_to_date now c sys \<longleftrightarrow>
     served sys \<and> (\<forall>k v. fresh now (cache_of sys c) k = Some v \<longrightarrow> doc_at sys k = Some v)"

lemma served_put [simp]:
  "served (put_cache c x sys) = served sys" "served sys \<Longrightarrow> served (put_server h ss sys)"
  "served (revoke_all key rs sys) = served sys"
  by (auto simp: served_def) (simp_all add: put_server_def)

lemma cache_of_put [simp]:
  "cache_of (put_cache c x sys) c = x" "cache_of (put_server h ss sys) c = cache_of sys c"
  by (simp_all add: cache_of_def)

lemma served_pick:
  assumes "served sys"
  obtains node ss where "pickServer (sys_nodes sys) key = Some node" "sys_servers sys (HostPort node) = Some ss"
    "server_for sys key = Some (HostPort node, ss)"
proof -
  let ?i = "first_at_least (StoreHash (key_prefix key)) 0 (sys_nodes sys)"
  have "?i < length (sys_nodes sys)"
  proof (cases "\<exists>n \<in> set (sys_nodes sys). NodeID n \<ge> StoreHash (key_prefix key)")
    case True
    from first_at_least_spec [OF this, of 0] show ?thesis by auto
  next
    case False
    then have "\<forall>n \<in> set (sys_nodes sys). NodeID n < StoreHash (key_prefix key)" by auto
    from first_at_least_none [OF this, of 0] assms show ?thesis by (simp add: served_def)
  qed
  then have pick: "pickServer (sys_nodes sys) key = Some (sys_nodes sys ! ?i)" "sys_nodes sys ! ?i \<in> set (sys_nodes sys)"
    by (simp_all add: pickServer_def)
  with assms obtain ss where "sys_servers sys (HostPort (sys_nodes sys ! ?i)) = Some ss" by (auto simp: served_def)
  from that [OF pick(1) this server_for_pick [OF pick(1) this]] show thesis .
qed

subsection \<open>What a cache answers\<close>

lemma evict_cong: "f k = g k \<Longrightarrow> evict now f k = evict now g k"
  by (simp add: evict_def)

lemma fresh_later:
  assumes "fresh now' c k = Some v" "now \<le> now'"
  shows "fresh now c k = Some v"
proof -
  from assms(1) obtain e where e: "evict now' c k = Some e" "en_granted e" "en_val e = v"
    by (auto simp: fresh_def split: option.splits if_splits)
  from evict_Some [OF e(1)] obtain e0 where e0: "c k = Some e0" "e = clean now' (expire now' e0)" "en_ll e \<noteq> []" by blast
  with e(2) have g: "en_granted e0" "now' - en_leaseTime e0 \<le> en_leaseDur e0" "expire now' e0 = e0"
    by (auto simp: expire_def split: if_splits)
  with e0(2,3) obtain q where q: "q \<in> set (en_ll e0)" "now' - q \<le> seconds QUERY_CACHE_SECONDS"
    by (auto simp: clean_def dropWhile_eq_Nil_conv not_less)
  from evict_leased [of c k e0 now' q now] e0(1) g(2) q assms(2) have "evict now c k = Some (clean now e0)" by simp
  with e0(2) e(2,3) g(1,3) show ?thesis by (simp add: fresh_def)
qed

lemma fresh_Get:
  assumes "cache_Get now key want c = (x, r)"
  shows "fresh now x k = fresh now c k"
proof (cases "k = key")
  case False
  with assms have "x k = evict now c k" by (auto simp: cache_Get_def Let_def split: if_splits)
  from evict_cong [of x k "evict now c" now, OF this] show ?thesis by (simp add: fresh_def evict_evict)
next
  case True
  show ?thesis
  proof (cases r)
    case (Inr v)
    with assms have "x key = evict now c key"
      by (auto simp: cache_Get_def Let_def new_entry_def split: if_splits option.splits)
    from evict_cong [of x key "evict now c" now, OF this] True show ?thesis by (simp add: fresh_def evict_evict)
  next
    case (Inl w)
    have "fresh now x key \<noteq> Some v" for v
    proof
      assume "fresh now x key = Some v"
      then obtain e where "x key = Some e" "en_granted e" by (rule fresh_Some)
      with assms Inl show False by (auto simp: cache_Get_def Let_def new_entry_def split: if_splits)
    qed
    moreover have "fresh now c key \<noteq> Some v" for v
    proof
      assume "fresh now c key = Some v"
      from cache_Get_hit [OF this, of want] assms Inl show False by simp
    qed
    ultimately show ?thesis using True by (metis option.exhaust)
  qed
qed

lemma fresh_cong: "f k = g k \<Longrightarrow> fresh now f k = fresh now g k"
  by (simp add: fresh_def evict_def)

lemma fresh_Grant:
  assumes "cache_Grant now' key v l x = Some y"
  shows "k \<noteq> key \<Longrightarrow> fresh now y k = fresh now x k"
    and "fresh now y key = Some w \<Longrightarrow> w = v"
proof -
  from assms obtain e where y: "y = x(key \<mapsto> e\<lparr>en_granted := True, en_val := v, en_leaseTime := now',
      en_leaseDur := seconds (ValidSeconds l)\<rparr>)" by (auto simp: cache_Grant_def split: Option.bind_splits)
  then show "k \<noteq> key \<Longrightarrow> fresh now y k = fresh now x k" by (intro fresh_cong) simp
  assume "fresh now y key = Some w"
  then show "w = v" by (rule fresh_Some) (use y in auto)
qed

lemma fresh_revoke_at:
  assumes "fresh now (cache_of (revoke_at key d sys) c) k = Some v"
  shows "fresh now (cache_of sys c) k = Some v"
proof -
  from assms obtain e where e: "cache_of (revoke_at key d sys) c k = Some e" "en_granted e" by (rule fresh_Some)
  then have "cache_of sys c k = cache_of (revoke_at key d sys) c k"
    by (cases "d = c"; cases "k = key")
      (auto simp: revoke_at_def cache_of_def RevokeLease_def cache_Revoke_def split: option.splits prod.splits)
  from fresh_cong [of "cache_of sys c" k "cache_of (revoke_at key d sys) c", OF this] assms show ?thesis by simp
qed

lemma fresh_revoke_all:
  "fresh now (cache_of (revoke_all key rs sys) c) k = Some v \<Longrightarrow> fresh now (cache_of sys c) k = Some v"
proof (induction rs arbitrary: sys)
  case (Cons d rs)
  then have "fresh now (cache_of (revoke_all key rs (revoke_at key d sys)) c) k = Some v" by (simp add: revoke_all_def)
  from fresh_revoke_at [OF Cons.IH [OF this]] show ?case .
qed (simp add: revoke_all_def)

subsection \<open>Reads\<close>

locale exact_reader = lease_reader +
  assumes exact: "val_ok (as_doc u) (Some (as_doc v)) \<Longrightarrow> u = v"
    and of_as: "of_doc (as_doc v) = Some v"
    and found: "ss_hashmap ss (ga_Key args) \<noteq> None \<Longrightarrow> \<exists>ss' v l. handler now args ss = (ss', status_code.OK, v, l)"
begin

lemma read_at_once:
  assumes ok: "up_to_date now c sys" and doc: "doc_at sys key = None \<or> doc_at sys key = Some (as_doc v)"
  shows "\<exists>s' r. lib_fetch handler as_doc of_doc always (at_once now) c key sys = Some (s', r) \<and>
    up_to_date now c s' \<and> doc_at s' = doc_at sys \<and>
    (\<forall>k. k \<noteq> key \<longrightarrow> fresh now (cache_of s' c) k = fresh now (cache_of sys c) k) \<and>
    (if doc_at sys key = None then \<exists>e. r = Inl e else r = Inr v)"
proof -
  have env: "cl_now (at_once now) = now" "cl_back (at_once now) = now" "cl_delivery (at_once now) = Delivered"
    by (simp_all add: at_once_def)
  obtain x a where g: "cache_Get now key False (cache_of sys c) = (x, a)"
    by (cases "cache_Get now key False (cache_of sys c)")
  note fx = fresh_Get [OF g]
  have goal: ?thesis if "lib_fetch handler as_doc of_doc always (at_once now) c key sys = Some (s', r)" "served s'"
    "\<And>k. k \<noteq> key \<Longrightarrow> fresh now (cache_of s' c) k = fresh now (cache_of sys c) k"
    "\<And>w. fresh now (cache_of s' c) key = Some w \<Longrightarrow> doc_at sys key = Some w"
    "if doc_at sys key = None then \<exists>e. r = Inl e else r = Inr v" for s' r
  proof -
    have docs: "doc_at s' = doc_at sys" using fetch_docs [OF that(1)] by (rule ext)
    have "up_to_date now c s'" using ok that(2-4) docs unfolding up_to_date_def by metis
    with that docs show ?thesis by blast
  qed
  show ?thesis
  proof (cases a)
    case (Inr d)
    with g cache_Get_Inr [of now key False "cache_of sys c" d] have f: "fresh now (cache_of sys c) key = Some d" by simp
    with ok doc have d: "doc_at sys key = Some d" "d = as_doc v" by (auto simp: up_to_date_def)
    have "lib_fetch handler as_doc of_doc always (at_once now) c key sys = Some (put_cache c x sys, Inr v)"
      using g Inr d(2) of_as by (simp add: lib_fetch_def fetch_via_def env)
    then show ?thesis by (rule goal) (use ok d f fx in \<open>auto simp: up_to_date_def\<close>)
  next
    case (Inl want)
    let ?args = "\<lparr>ga_Key = key, ga_WantLease = want \<or> always, ga_LeaseClient = c\<rparr>"
    obtain node ss where n: "pickServer (sys_nodes sys) key = Some node" "sys_servers sys (HostPort node) = Some ss"
      "server_for sys key = Some (HostPort node, ss)" using ok served_pick by (metis up_to_date_def)
    obtain ss1 st u l where h: "handler now ?args ss = (ss1, st, u, l)" by (cases "handler now ?args ss")
    have d: "doc_at sys key = ss_hashmap ss key" using n(3) by (simp add: doc_at_def)
    have st: "st = status_code.OK \<longleftrightarrow> doc_at sys key \<noteq> None" "st = status_code.OK \<Longrightarrow> u = v"
      using found [of ss ?args now] current [of now ?args ss ss1 u l] h d doc exact by (auto simp: val_ok_def)
    let ?s1 = "put_server (HostPort node) ss1 (put_cache c x sys)"
    have s1: "served ?s1" "fresh now (cache_of ?s1 c) k = fresh now (cache_of sys c) k" for k
      using ok fx by (auto simp: up_to_date_def)
    obtain e where "x key = Some e" using cache_Get_entry [of now key False "cache_of sys c"] g by auto
    then obtain y where y: "cache_Grant now key (as_doc u) l x = Some y" by (auto simp: cache_Grant_def)
    let ?s2 = "if st = status_code.OK \<and> Granted l then put_cache c y ?s1 else ?s1"
    have "lib_fetch handler as_doc of_doc always (at_once now) c key sys =
        Some (?s2, if st = status_code.OK then Inr u else Inl ''Get error'')"
      using g Inl n h y by (simp add: lib_fetch_def fetch_via_def env)
    then show ?thesis
    proof (rule goal)
      show "served ?s2" using s1(1) by simp
      show "k \<noteq> key \<Longrightarrow> fresh now (cache_of ?s2 c) k = fresh now (cache_of sys c) k" for k
        using s1(2) fx fresh_Grant(1) [OF y] by simp
      show "doc_at sys key = Some w" if "fresh now (cache_of ?s2 c) key = Some w" for w
      proof (cases "st = status_code.OK \<and> Granted l")
        case True
        with that fresh_Grant(2) [OF y] st doc show ?thesis by auto
      next
        case False
        with that s1(2) ok show ?thesis by (auto simp: up_to_date_def)
      qed
      show "if doc_at sys key = None then \<exists>e. (if st = status_code.OK then Inr u else Inl ''Get error'') = Inl e
          else (if st = status_code.OK then Inr u else Inl ''Get error'') = Inr v"
        using st by simp
    qed
  qed
qed

end

interpretation exact_get: exact_reader ss_Get JStr "\<lambda>v. case v of JStr s \<Rightarrow> Some s | JArr l \<Rightarrow> None"
  by unfold_locales (auto simp: val_ok_def ss_Get_def split: prod.splits)

interpretation exact_list: exact_reader ss_GetList JArr "\<lambda>v. case v of JStr s \<Rightarrow> None | JArr l \<Rightarrow> Some l"
  by unfold_locales (auto simp: val_ok_def ss_GetList_def split: prod.splits)

subsection \<open>Writes\<close>

context lease_writer begin

lemma write_at_once:
  assumes ok: "up_to_date now c sys" and free: "fresh now (cache_of sys c) key = None"
    and h: "\<And>ss. ss_hashmap ss key = doc_at sys key \<Longrightarrow>
      \<exists>ss1 t rs. handler now ss = Some (ss1, t, rs, st) \<and> ss_hashmap ss1 key = d"
  shows "\<exists>s' t. lib_mutate handler (at_once now) key sys =
      Some (s', t, if st = status_code.OK then Inr () else Inl ''error status'') \<and>
    up_to_date now c s' \<and> doc_at s' = (doc_at sys)(key := d)"
proof -
  obtain node ss where n: "pickServer (sys_nodes sys) key = Some node" "sys_servers sys (HostPort node) = Some ss"
    "server_for sys key = Some (HostPort node, ss)" using ok served_pick by (metis up_to_date_def)
  then have "ss_hashmap ss key = doc_at sys key" by (simp add: doc_at_def)
  from h [OF this] obtain ss1 t rs where w: "handler now ss = Some (ss1, t, rs, st)" "ss_hashmap ss1 key = d" by blast
  let ?s = "revoke_all key rs sys" and ?s' = "put_server (HostPort node) ss1 (revoke_all key rs sys)"
  have s: "sys_servers ?s (HostPort node) = Some ss" "server_for ?s key = Some (HostPort node, ss)" using n by simp_all
  have base: "doc_at ?s k = doc_at sys k" for k by (simp add: doc_at_def)
  note at = put_server_at(1,3) [OF s(1) local_ [OF w(1)]]
  have docs: "doc_at ?s' = (doc_at sys)(key := d)"
  proof
    fix k show "doc_at ?s' k = ((doc_at sys)(key := d)) k"
      using at(1) [of k] at(2) [OF s(2)] w(2) base by (cases "k = key") simp_all
  qed
  have "up_to_date now c ?s'"
    unfolding up_to_date_def
  proof (intro conjI allI impI)
    show "served ?s'" using ok by (simp add: up_to_date_def)
    fix k v assume "fresh now (cache_of ?s' c) k = Some v"
    then have f: "fresh now (cache_of sys c) k = Some v" by (auto dest: fresh_revoke_all)
    with free have "k \<noteq> key" by auto
    with f ok docs show "doc_at ?s' k = Some v" by (simp add: up_to_date_def)
  qed
  moreover have "lib_mutate handler (at_once now) key sys =
      Some (?s', t, if st = status_code.OK then Inr () else Inl ''error status'')"
    using n w(1) by (simp add: lib_mutate_def mutate_via_def at_once_def)
  ultimately show ?thesis using docs by blast
qed

end

lemma revoke_callbacks: "\<exists>rs. revoke_holders (callbacks R) now hs = Some (now, rs)"
  by (induction hs) (auto simp: callbacks_def)

lemma revokeLease_callbacks:
  "\<exists>ss1 rs. revokeLease (callbacks R) now key ss = Some (ss1, now, rs) \<and> ss_hashmap ss1 = ss_hashmap ss"
proof (cases "ss_leasePool ss key")
  case (Some e)
  from revoke_callbacks [of R now "le_holders e"] Some show ?thesis by (auto simp: revokeLease_def)
qed (simp add: revokeLease_def)

lemma iPut_at_once:
  assumes "up_to_date now c sys" "fresh now (cache_of sys c) key = None"
  shows "\<exists>s' t. iPut (callbacks R) (at_once now) key v sys = Some (s', t, Inr ()) \<and> up_to_date now c s' \<and>
    doc_at s' = (doc_at sys)(key \<mapsto> JStr v)"
proof -
  have "\<exists>ss1 t rs. ss_Put (callbacks R) now key v ss = Some (ss1, t, rs, status_code.OK) \<and>
      ss_hashmap ss1 key = Some (JStr v)" for ss
    using revokeLease_callbacks [of R now key ss] by (auto simp: ss_Put_def)
  from put_writer.write_at_once [OF assms(1,2) this] show ?thesis by (auto simp: iPut_def)
qed

lemma iAppendToList_at_once:
  assumes "up_to_date now c sys" "fresh now (cache_of sys c) key = None"
  defines "l \<equiv> doc_list (doc_at sys key)"
  shows "\<exists>s' t. iAppendToList (callbacks R) (at_once now) key v sys =
      Some (s', t, if v \<in> set l then Inl ''error status'' else Inr ()) \<and> up_to_date now c s' \<and>
    doc_at s' = (if v \<in> set l then doc_at sys else (doc_at sys)(key \<mapsto> JArr (l @ [v])))"
proof -
  have "\<exists>ss1 t rs. ss_AppendToList (callbacks R) now key v ss =
        Some (ss1, t, rs, if v \<in> set l then EITEMEXISTS else status_code.OK) \<and>
      ss_hashmap ss1 key = (if v \<in> set l then doc_at sys key else Some (JArr (l @ [v])))"
    if "ss_hashmap ss key = doc_at sys key" for ss
    using revokeLease_callbacks [of R now key ss] that by (auto simp: ss_AppendToList_def l_def)
  from append_writer.write_at_once [OF assms(1,2) this] show ?thesis
    by (auto simp: iAppendToList_def fun_upd_idem)
qed

lemma iRemoveFromList_at_once:
  assumes "up_to_date now c sys" "fresh now (cache_of sys c) key = None"
  defines "l \<equiv> doc_list (doc_at sys key)"
  shows "\<exists>s' t. iRemoveFromList (callbacks R) (at_once now) key v sys =
      Some (s', t, if v \<in> set l then Inr () else Inl ''error status'') \<and> up_to_date now c s' \<and>
    doc_at s' = (if v \<in> set l then (doc_at sys)(key \<mapsto> JArr (remove1 v l)) else doc_at sys)"
proof -
  have "\<exists>ss1 t rs. ss_RemoveFromList (callbacks R) now key v ss =
        Some (ss1, t, rs, if v \<in> set l then status_code.OK else if doc_at sys key = None then EKEYNOTFOUND else EITEMNOTFOUND) \<and>
      ss_hashmap ss1 key = (if v \<in> set l then Some (JArr (remove1 v l)) else doc_at sys key)"
    if "ss_hashmap ss key = doc_at sys key" for ss
    using revokeLease_callbacks [of R now key ss] that
    by (cases "doc_at sys key") (auto simp: ss_RemoveFromList_def l_def)
  from remove_writer.write_at_once [OF assms(1,2) this] show ?thesis
    by (auto simp: iRemoveFromList_def fun_upd_idem)
qed

interpretation libstore: kv_store "libstore_ops (callbacks R) (at_once now) c" "up_to_date now c" doc_at
  "\<lambda>k s. fresh now (cache_of s c) k = None" for R now c
proof unfold_locales
  fix s :: lib_system and k v l
  assume ok: "up_to_date now c s"
  note get = exact_get.read_at_once [OF ok, of k, folded iGet_def]
    and list = exact_list.read_at_once [OF ok, of k, folded iGetList_def]
  let ?other = "\<lambda>s'. \<forall>k'. k' \<noteq> k \<longrightarrow> fresh now (cache_of s c) k' = None \<longrightarrow> fresh now (cache_of s' c) k' = None"
  show "\<exists>s' e. st_Get (libstore_ops (callbacks R) (at_once now) c) k s = Some (s', Inl e) \<and> up_to_date now c s' \<and>
      doc_at s' = doc_at s \<and> ?other s'"
    if "doc_at s k = None"
  proof -
    from get [of v False] that obtain s' r e where "iGet False (at_once now) c k s = Some (s', r)" "up_to_date now c s'"
      "doc_at s' = doc_at s" "?other s'" "r = Inl e" by auto
    then show ?thesis by (auto simp: libstore_ops_def)
  qed
  show "\<exists>s'. st_Get (libstore_ops (callbacks R) (at_once now) c) k s = Some (s', Inr v) \<and> up_to_date now c s' \<and>
      doc_at s' = doc_at s \<and> ?other s'"
    if "doc_at s k = Some (JStr v)"
  proof -
    from get [of v False] that obtain s' where "iGet False (at_once now) c k s = Some (s', Inr v)" "up_to_date now c s'"
      "doc_at s' = doc_at s" "?other s'" by auto
    then show ?thesis by (auto simp: libstore_ops_def)
  qed
  show "\<exists>s' e. st_GetList (libstore_ops (callbacks R) (at_once now) c) k s = Some (s', Inl e) \<and> up_to_date now c s' \<and>
      doc_at s' = doc_at s"
    if "doc_at s k = None" using list [of l False] that by (auto simp: libstore_ops_def)
  show "\<exists>s'. st_GetList (libstore_ops (callbacks R) (at_once now) c) k s = Some (s', Inr l) \<and> up_to_date now c s' \<and>
      doc_at s' = doc_at s"
    if "doc_at s k = Some (JArr l)" using list [of l False] that by (auto simp: libstore_ops_def)
  show "fresh now (cache_of s c) k = None" if "doc_at s k = None"
    using ok that by (cases "fresh now (cache_of s c) k") (auto simp: up_to_date_def)
  assume free: "fresh now (cache_of s c) k = None"
  note put = iPut_at_once [OF ok free, of R] and append = iAppendToList_at_once [OF ok free, of R v]
    and remove = iRemoveFromList_at_once [OF ok free, of R v]
  show "\<exists>s'. st_Put (libstore_ops (callbacks R) (at_once now) c) k v s = Some (s', Inr ()) \<and> up_to_date now c s' \<and>
      doc_at s' = (doc_at s)(k \<mapsto> JStr v)" using put [of v] by (auto simp: libstore_ops_def)
  show "\<exists>s'. st_AppendToList (libstore_ops (callbacks R) (at_once now) c) k v s = Some (s', Inr ()) \<and> up_to_date now c s' \<and>
      doc_at s' = (doc_at s)(k \<mapsto> JArr (doc_list (doc_at s k) @ [v]))"
    if "v \<notin> set (doc_list (doc_at s k))" using append that by (auto simp: libstore_ops_def)
  show "\<exists>s' e. st_AppendToList (libstore_ops (callbacks R) (at_once now) c) k v s = Some (s', Inl e) \<and> up_to_date now c s' \<and>
      doc_at s' = doc_at s"
    if "v \<in> set (doc_list (doc_at s k))" using append that by (auto simp: libstore_ops_def)
  show "\<exists>s'. st_RemoveFromList (libstore_ops (callbacks R) (at_once now) c) k v s = Some (s', Inr ()) \<and> up_to_date now c s' \<and>
      doc_at s' = (doc_at s)(k \<mapsto> JArr (remove1 v (doc_list (doc_at s k))))"
    if "v \<in> set (doc_list (doc_at s k))" using remove that by (auto simp: libstore_ops_def)
  show "\<exists>s' e. st_RemoveFromList (libstore_ops (callbacks R) (at_once now) c) k v s = Some (s', Inl e) \<and> up_to_date now c s' \<and>
      doc_at s' = doc_at s"
    if "v \<notin> set (doc_list (doc_at s k))" using remove that by (auto simp: libstore_ops_def)
qed

lemma up_to_date_later: "up_to_date now c sys \<Longrightarrow> now \<le> now' \<Longrightarrow> up_to_date now' c sys"
  unfolding up_to_date_def by (blast dest: fresh_later)

text \<open>Storage servers without documents, and no client yet.\<close>

definition empty_system :: "lib_system \<Rightarrow> bool" where
  "empty_system sys \<longleftrightarrow> served sys \<and> sys_caches sys = Map.empty \<and>
     (\<forall>ss \<in> ran (sys_servers sys). ss_hashmap ss = Map.empty)"

lemma empty_system_start:
  assumes "empty_system sys"
  shows "up_to_date now c sys" "doc_at sys = Map.empty"
  using assms
  by (auto simp: empty_system_def up_to_date_def cache_of_def NewCache_def fresh_def evict_def doc_at_def server_for_def
      ran_def fun_eq_iff split: option.splits)

text \<open>One storage server without documents, and no client yet.\<close>

definition fresh_system :: lib_system where
  "fresh_system =
     \<lparr>sys_nodes = [\<lparr>HostPort = ''localhost:9009'', NodeID = 1\<rparr>],
      sys_servers = [''localhost:9009'' \<mapsto> fresh_store],
      sys_caches = Map.empty\<rparr>"

lemma fresh_system_empty: "empty_system fresh_system"
  by (simp add: empty_system_def served_def fresh_system_def)

end
