(* ===== verification/TribLib.thy ===== *)
theory TribLib
  imports TribCache
begin

text \<open>
  What a tribble server shows while its libstore holds a lease: its own writes are not read.
\<close>

section \<open>A run\<close>

text \<open>Ann follows Bob and looks four times at whom she follows.\<close>

definition ann_looks :: "trib_call list" where
  "ann_looks =
     [CreateUser ''ann'', CreateUser ''bob'', CreateUser ''cat'', AddSubscription ''ann'' ''bob'',
      GetSubscriptions ''ann'', GetSubscriptions ''ann'', GetSubscriptions ''ann'', GetSubscriptions ''ann'']"

lemmas trib_lib_eval = trib_step_def ts_CreateUser_def ts_AddSubscription_def ts_GetSubscriptions_def
  libstore_ops_def iGetList_def iAppendToList_def ss_GetList_def ss_AppendToList_def
  lib_eval fresh_system_def fresh_store_def ann_looks_def user_key_def foll_key_def

section \<open>Properties\<close>

text \<open>A lease that the server has survives what it does itself.\<close>

lemma not_failed: "\<not> failed r \<longleftrightarrow> (\<exists>x. r = Inr x)"
  by (cases r) auto

lemma add_keeps_lease:
  assumes "leased until c k v sys" "not_executed (answers c)" "cl_now env \<le> until"
    and "ts_AddSubscription (libstore_ops answers env c) u t sys = Some (sys1, OK)"
  shows "leased until c k v sys1 \<and> t \<notin> set (doc_list (doc_at sys (foll_key u))) \<and>
    doc_at sys1 (foll_key u) = Some (JArr (doc_list (doc_at sys (foll_key u)) @ [t]))"
proof -
  from assms(4) obtain s1 r1 s2 r2 e z where s: "iGet False env c (user_key u) sys = Some (s1, r1)"
      "iGet False env c (user_key t) s1 = Some (s2, r2)" "iAppendToList answers env (foll_key u) t s2 = Some (sys1, e, Inr z)"
    by (auto simp: ts_AddSubscription_def libstore_ops_def not_failed split: Option.bind_splits if_splits)
  have "lib_history answers until sys sys1"
    by (rule history_append [OF history_get [OF history_get [OF history_start assms(3) s(1)] assms(3) s(2)] s(3)])
  from leased_history [where answers = answers and c = c, OF assms(1,2) this] iAppendToList_docs [OF s(3)] iGet_docs [OF s(1)] iGet_docs [OF s(2)]
  show ?thesis by simp
qed

text \<open>
  C7: A tribble server does not read its own writes while it holds a lease.  Nothing is registered at
  its address for revocations, so the storage server's call for the lease fails, which the storage
  server takes for done.  Say the server's cache has the list of whom a user follows, as it is in the store, under a
  lease that lasts until some time.  Then a subscription that is reported as made is in the store, but
  whatever the clients of the store do after it, a request for that user's list up to that time is
  answered with the old list, without the new subscription (or, when the user cannot be looked up,
  with that error).
\<close>

theorem own_write_not_read:
  assumes "leased until c (foll_key u) (JArr (doc_list (doc_at sys (foll_key u)))) sys" and "answers c = Refused"
    and "ts_AddSubscription (libstore_ops answers env c) u t sys = Some (sys1, OK)" and "cl_now env \<le> until"
    and "lib_history answers until sys1 sys2"
    and "ts_GetSubscriptions (libstore_ops answers env' c) u sys2 = Some (sys3, status, us)" and "cl_now env' \<le> until"
  shows "t \<in> set (doc_list (doc_at sys1 (foll_key u))) \<and> t \<notin> set us \<and>
    (status = OK \<and> us = doc_list (doc_at sys (foll_key u)) \<or> status = ENOSUCHUSER \<and> us = [])"
proof -
  let ?l = "doc_list (doc_at sys (foll_key u))"
  have refused: "not_executed (answers c)" using assms(2) by (simp add: not_executed_def)
  note add = add_keeps_lease [OF assms(1) refused assms(4,3)]
  from leased_history [where answers = answers and c = c, OF conjunct1 [OF add] refused assms(5)] have l2: "leased until c (foll_key u) (JArr ?l) sys2" .
  from assms(6) obtain s r where s: "iGet False env' c (user_key u) sys2 = Some (s, r)"
    "if failed r then sys3 = s \<and> status = ENOSUCHUSER \<and> us = [] else
       \<exists>r2. iGetList False env' c (foll_key u) s = Some (sys3, r2) \<and>
         (status, us) = (case r2 of Inl e \<Rightarrow> (ENOSUCHUSER, []) | Inr ids \<Rightarrow> (OK, ids))"
    by (auto simp: ts_GetSubscriptions_def libstore_ops_def split: Option.bind_splits if_splits sum.splits)
  have "leased until c (foll_key u) (JArr ?l) s"
    using leased_history [where answers = answers and c = c, OF l2 refused history_get [OF history_start assms(7) s(1)]] .
  from leased_hit [OF this assms(7)] obtain x where
    "cache_Get (cl_now env') (foll_key u) False (cache_of s c) = (x, Inr (JArr ?l))" by blast
  then have "iGetList False env' c (foll_key u) s = Some (put_cache c x s, Inr ?l)"
    by (simp add: iGetList_def lib_fetch_def fetch_via_def)
  with s(2) add show ?thesis by (auto split: if_splits)
qed

theorem own_write_not_read_witness:
  "\<exists>sys sys1 sys2. map_option (\<lambda>(st, rs). snd st) (trib_run (libstore_ops (\<lambda>_. Refused) (at_once 0) ''localhost:9010'')
       enc_letters dec_letters ann_looks (server_of ''localhost:9010'' empty_network, fresh_system)) = Some sys \<and>
     ts_AddSubscription (libstore_ops (\<lambda>_. Refused) (at_once 0) ''localhost:9010'') ''ann'' ''cat'' sys = Some (sys1, OK) \<and>
     doc_at sys1 (foll_key ''ann'') = Some (JArr [''bob'', ''cat'']) \<and>
     ts_GetSubscriptions (libstore_ops (\<lambda>_. Refused) (at_once (seconds 10)) ''localhost:9010'') ''ann'' sys1 =
       Some (sys2, OK, [''bob''])"
proof -
  let ?ops = "\<lambda>t. libstore_ops (\<lambda>_. Refused) (at_once t) ''localhost:9010''"
  obtain sys where sys: "map_option (\<lambda>(st, rs). snd st)
      (trib_run (?ops 0) enc_letters dec_letters ann_looks (server_of ''localhost:9010'' empty_network, fresh_system)) = Some sys"
    "doc_at sys (foll_key ''ann'') = Some (JArr [''bob''])"
    "leased (seconds 10) ''localhost:9010'' (foll_key ''ann'') (JArr [''bob'']) sys"
    "\<exists>sys1. ts_AddSubscription (?ops 0) ''ann'' ''cat'' sys = Some (sys1, OK) \<and>
       doc_at sys1 (foll_key ''ann'') = Some (JArr [''bob'', ''cat'']) \<and>
       (\<exists>sys2 status us. ts_GetSubscriptions (?ops (seconds 10)) ''ann'' sys1 = Some (sys2, status, us) \<and> status = OK)"
    by (simp add: trib_lib_eval server_of_def doc_at_def server_for_def leased_def evict_upd del: evict_def)
  then obtain sys1 sys2 status us where s: "ts_AddSubscription (?ops 0) ''ann'' ''cat'' sys = Some (sys1, OK)"
    "doc_at sys1 (foll_key ''ann'') = Some (JArr [''bob'', ''cat''])"
    "ts_GetSubscriptions (?ops (seconds 10)) ''ann'' sys1 = Some (sys2, status, us)" "status = OK" by blast
  from own_write_not_read [where until = "seconds 10" and sys = sys, OF _ _ s(1) _ history_start s(3)] sys(2,3) s(4)
  have "us = [''bob'']" by (simp add: at_once_def)
  with sys(1) s show ?thesis by blast
qed

end
