(* ===== verification/StorageThreads.thy ===== *)
theory StorageThreads
  imports Storage
begin

text \<open>
  The handlers of \<open>storageimpl.go\<close> as goroutines: every access to shared state is a step of its
  own, and the steps of concurrent requests interleave freely.

  \<^item> The lease pool maps a key to a pointer; the entries are cells of a heap, because a \<open>Get\<close> can
    replace the entry of a key while another handler still uses the old one.
  \<^item> \<open>handler_step\<close> is what one goroutine does next.  A critical section that does not wait inside
    is one step; a call to a lease holder begins with a \<open>Dial\<close> and ends with \<open>Returns\<close> or, twelve
    seconds later, with \<open>Timeout\<close>.
  \<^item> The loop over the holders ranges over the slice it finds when it begins.
\<close>

section \<open>State\<close>

record heap_server =
  hs_hashmap :: "string \<rightharpoonup> doc"
  hs_leasePool :: "string \<rightharpoonup> nat"
  hs_entries :: "leaseEntry list"

definition new_leaseEntry :: leaseEntry where
  "new_leaseEntry = \<lparr>le_pending = False, le_holders = []\<rparr>"

definition put_entry :: "nat \<Rightarrow> leaseEntry \<Rightarrow> heap_server \<Rightarrow> heap_server" where
  "put_entry p e hs = hs\<lparr>hs_entries := (hs_entries hs)[p := e]\<rparr>"

datatype storage_request =
  RGet GetArgs | RGetList GetArgs | RPut string string | RAppend string string | RRemove string string

datatype storage_response =
  GotValue status_code string LeaseStruct | GotList status_code "string list" LeaseStruct | GotStatus status_code

fun req_key :: "storage_request \<Rightarrow> string" where
  "req_key (RGet args) = ga_Key args"
| "req_key (RGetList args) = ga_Key args"
| "req_key (RPut key value) = key"
| "req_key (RAppend key value) = key"
| "req_key (RRemove key value) = key"

fun req_client :: "storage_request \<Rightarrow> string" where
  "req_client (RGet args) = ga_LeaseClient args"
| "req_client (RGetList args) = ga_LeaseClient args"
| "req_client _ = ''''"

text \<open>The reply of a read that found the document.\<close>

fun read_reply :: "storage_request \<Rightarrow> doc \<Rightarrow> LeaseStruct \<Rightarrow> storage_response" where
  "read_reply (RGetList args) value lease = GotList OK (doc_list (Some value)) lease"
| "read_reply r value lease = GotValue OK (doc_string value) lease"

section \<open>Where a handler is\<close>

text \<open>
  The first group is \<open>Get\<close> and \<open>GetList\<close> with \<open>addLeasePool\<close>, where the document has been read.
  The second is \<open>revokeLease\<close> within a mutation; the first argument is the document that
  \<open>RemoveFromList\<close> has read before.
\<close>

datatype handler_pc =
  Begin
| Found doc
| Entered doc nat
| Missing doc
| Created doc nat
| RevokeStart "doc option"
| Marking "doc option" nat
| Ranging "doc option" nat
| NextHolder "doc option" nat "holder list"
| Calling "doc option" nat time "holder list"
| Unmarking "doc option" nat
| Revoked "doc option"
| Writing doc
| Replied storage_response
| Panicked

datatype handler_event = Go | Dial bool | Returns | Timeout

fun begin_step :: "storage_request \<Rightarrow> heap_server \<Rightarrow> handler_pc" where
  "begin_step (RGet args) hs =
     (case hs_hashmap hs (ga_Key args) of
        None \<Rightarrow> Replied (GotValue EWRONGSERVER '''' no_lease)
      | Some value \<Rightarrow> if ga_WantLease args then Found value
                      else Replied (read_reply (RGet args) value no_lease))"
| "begin_step (RGetList args) hs =
     (case hs_hashmap hs (ga_Key args) of
        None \<Rightarrow> Replied (GotList EKEYNOTFOUND [] no_lease)
      | Some value \<Rightarrow> if ga_WantLease args then Found value
                      else Replied (read_reply (RGetList args) value no_lease))"
| "begin_step (RRemove key value) hs =
     (case hs_hashmap hs key of
        None \<Rightarrow> Replied (GotStatus EKEYNOTFOUND)
      | Some bytes \<Rightarrow> RevokeStart (Some bytes))"
| "begin_step r hs = RevokeStart None"

text \<open>After the revocation; \<open>AppendToList\<close> reads the list only now.\<close>

fun revoked_step :: "storage_request \<Rightarrow> doc option \<Rightarrow> heap_server \<Rightarrow> handler_pc" where
  "revoked_step (RPut key value) bytes hs = Writing (JStr value)"
| "revoked_step (RAppend key value) bytes hs =
     (let l = doc_list (hs_hashmap hs key)
      in if value \<in> set l then Replied (GotStatus EITEMEXISTS) else Writing (JArr (l @ [value])))"
| "revoked_step (RRemove key value) bytes hs =
     (let l = doc_list bytes
      in if value \<in> set l then Writing (JArr (remove1 value l)) else Replied (GotStatus EITEMNOTFOUND))"
| "revoked_step _ bytes hs = Panicked"

definition granted :: LeaseStruct where
  "granted = \<lparr>Granted = True, ValidSeconds = LEASE_SECONDS\<rparr>"

definition add_holder :: "time \<Rightarrow> string \<Rightarrow> leaseEntry \<Rightarrow> leaseEntry" where
  "add_holder now client e =
     e\<lparr>le_holders := le_holders e @ [\<lparr>h_address = client, h_issueTime = now\<rparr>]\<rparr>"

text \<open>\<open>None\<close>: what happens (\<open>handler_event\<close>) cannot happen there.\<close>

fun handler_step ::
  "storage_request \<Rightarrow> time \<Rightarrow> handler_event \<Rightarrow> handler_pc \<Rightarrow> heap_server \<Rightarrow> (handler_pc \<times> heap_server) option" where
  "handler_step r now Go Begin hs = Some (begin_step r hs, hs)"
| "handler_step r now Go (Found value) hs =
     Some (case hs_leasePool hs (req_key r) of
        Some p \<Rightarrow> (Entered value p, hs)
      | None \<Rightarrow> (Missing value, hs))"
| "handler_step r now Go (Entered value p) hs =
     (let e = hs_entries hs ! p in
      Some (if le_pending e then (Replied (read_reply r value no_lease), hs)
            else if \<exists>h \<in> set (le_holders e). h_address h = req_client r
            then (Replied (read_reply r value granted), hs)
            else (Replied (read_reply r value granted), put_entry p (add_holder now (req_client r) e) hs)))"
| "handler_step r now Go (Missing value) hs =
     (let p = length (hs_entries hs) in
      Some (Created value p, hs\<lparr>hs_leasePool := (hs_leasePool hs)(req_key r \<mapsto> p),
                              hs_entries := hs_entries hs @ [new_leaseEntry]\<rparr>))"
| "handler_step r now Go (Created value p) hs =
     Some (Replied (read_reply r value granted),
           put_entry p (add_holder now (req_client r) (hs_entries hs ! p)) hs)"
| "handler_step r now Go (RevokeStart bytes) hs =
     Some (case hs_leasePool hs (req_key r) of
        None \<Rightarrow> (Revoked bytes, hs)
      | Some p \<Rightarrow> (Marking bytes p, hs))"
| "handler_step r now Go (Marking bytes p) hs =
     Some (Ranging bytes p, put_entry p ((hs_entries hs ! p)\<lparr>le_pending := True\<rparr>) hs)"
| "handler_step r now Go (Ranging bytes p) hs =
     Some (NextHolder bytes p (le_holders (hs_entries hs ! p)), hs)"
| "handler_step r now Go (NextHolder bytes p []) hs = Some (Unmarking bytes p, hs)"
| "handler_step r now Go (NextHolder bytes p (h # rest)) hs =
     (if lease_over now h then Some (NextHolder bytes p rest, hs) else None)"
| "handler_step r now (Dial ok) (NextHolder bytes p (h # rest)) hs =
     (if lease_over now h then None
      else Some (if ok then Calling bytes p now rest else Panicked, hs))"
| "handler_step r now Returns (Calling bytes p t rest) hs = Some (NextHolder bytes p rest, hs)"
| "handler_step r now Timeout (Calling bytes p t rest) hs =
     (if now \<ge> t + seconds (LEASE_SECONDS + LEASE_GUARD_SECONDS)
      then Some (NextHolder bytes p rest, hs) else None)"
| "handler_step r now Go (Unmarking bytes p) hs =
     Some (Revoked bytes, put_entry p ((hs_entries hs ! p)\<lparr>le_pending := False\<rparr>) hs)"
| "handler_step r now Go (Revoked bytes) hs = Some (revoked_step r bytes hs, hs)"
| "handler_step r now Go (Writing d) hs =
     Some (Replied (GotStatus OK), hs\<lparr>hs_hashmap := (hs_hashmap hs)(req_key r \<mapsto> d)\<rparr>)"
| "handler_step r now ev pc hs = None"

section \<open>Schedules\<close>

text \<open>
  The server with its goroutines, the replies in their order, and the calls to lease holders
  (address and key) in theirs.  A panic ends the process.
\<close>

record config =
  cf_server :: heap_server
  cf_threads :: "(storage_request \<times> handler_pc) list"
  cf_replies :: "(time \<times> storage_request \<times> storage_response) list"
  cf_calls :: "(string \<times> string) list"

datatype action = Arrive storage_request | Move nat time handler_event

fun called_holder :: "handler_event \<Rightarrow> handler_pc \<Rightarrow> string list" where
  "called_holder (Dial True) (NextHolder bytes p (h # rest)) = [h_address h]"
| "called_holder _ _ = []"

fun reply_of :: "handler_pc \<Rightarrow> storage_response list" where
  "reply_of (Replied x) = [x]"
| "reply_of _ = []"

definition move :: "nat \<Rightarrow> time \<Rightarrow> handler_event \<Rightarrow> config \<Rightarrow> config option" where
  "move i now ev cf =
     (if i < length (cf_threads cf) \<and> (\<forall>th \<in> set (cf_threads cf). snd th \<noteq> Panicked)
      then (let (r, pc) = cf_threads cf ! i in
            map_option (\<lambda>(pc', hs').
                \<lparr>cf_server = hs', cf_threads = (cf_threads cf)[i := (r, pc')],
                 cf_replies = cf_replies cf @ map (\<lambda>x. (now, r, x)) (reply_of pc'),
                 cf_calls = cf_calls cf @ map (\<lambda>a. (a, req_key r)) (called_holder ev pc)\<rparr>)
              (handler_step r now ev pc (cf_server cf)))
      else None)"

fun act :: "action \<Rightarrow> config \<Rightarrow> config option" where
  "act (Arrive r) cf = Some (cf\<lparr>cf_threads := cf_threads cf @ [(r, Begin)]\<rparr>)"
| "act (Move i now ev) cf = move i now ev cf"

fun run_actions :: "action list \<Rightarrow> config \<Rightarrow> config option" where
  "run_actions [] cf = Some cf"
| "run_actions (a # as) cf = do { cf1 \<leftarrow> act a cf; run_actions as cf1 }"

section \<open>What one step changes\<close>

text \<open>The document and the lease entry of a key.\<close>

definition entry_of :: "heap_server \<Rightarrow> string \<Rightarrow> leaseEntry option" where
  "entry_of hs k = map_option (\<lambda>p. hs_entries hs ! p) (hs_leasePool hs k)"

text \<open>Pointers lead into the heap, and different keys have different cells.\<close>

definition heap_ok :: "heap_server \<Rightarrow> bool" where
  "heap_ok hs \<longleftrightarrow>
     (\<forall>k p. hs_leasePool hs k = Some p \<longrightarrow> p < length (hs_entries hs)) \<and>
     (\<forall>k k' p. hs_leasePool hs k = Some p \<longrightarrow> hs_leasePool hs k' = Some p \<longrightarrow> k = k')"

lemma heap_okD:
  assumes "heap_ok hs" "hs_leasePool hs k = Some p"
  shows "p < length (hs_entries hs)" "k' \<noteq> k \<Longrightarrow> hs_leasePool hs k' \<noteq> Some p"
  using assms unfolding heap_ok_def by blast+

lemma put_entry_simps [simp]:
  "hs_hashmap (put_entry p e hs) = hs_hashmap hs" "hs_leasePool (put_entry p e hs) = hs_leasePool hs"
  "heap_ok (put_entry p e hs) = heap_ok hs"
  by (simp_all add: put_entry_def heap_ok_def)

lemma hashmap_frame [simp]:
  "heap_ok (hs\<lparr>hs_hashmap := m\<rparr>) = heap_ok hs" "entry_of (hs\<lparr>hs_hashmap := m\<rparr>) = entry_of hs"
  by (simp_all add: heap_ok_def entry_of_def fun_eq_iff)

lemma entry_of_put:
  assumes "heap_ok hs" "hs_leasePool hs k = Some p"
  shows "entry_of (put_entry p e hs) k' = (if k' = k then Some e else entry_of hs k')"
  using assms heap_okD [OF assms]
  by (cases "hs_leasePool hs k'") (auto simp: entry_of_def put_entry_def nth_list_update)

text \<open>The cell that a handler in the middle of its work has found for its key.\<close>

fun pc_cell :: "handler_pc \<Rightarrow> nat option" where
  "pc_cell (Entered value p) = Some p"
| "pc_cell (Created value p) = Some p"
| "pc_cell (Marking bytes p) = Some p"
| "pc_cell (Ranging bytes p) = Some p"
| "pc_cell (NextHolder bytes p rest) = Some p"
| "pc_cell (Calling bytes p t rest) = Some p"
| "pc_cell (Unmarking bytes p) = Some p"
| "pc_cell _ = None"

definition cell_ok :: "string \<Rightarrow> handler_pc \<Rightarrow> heap_server \<Rightarrow> bool" where
  "cell_ok k pc hs \<longleftrightarrow> (\<forall>p. pc_cell pc = Some p \<longrightarrow> hs_leasePool hs k = Some p) \<and>
     (\<forall>value. pc = Missing value \<longrightarrow> hs_leasePool hs k = None)"

lemma handler_step_frame:
  assumes "handler_step r now ev pc hs = Some (pc', hs')" "heap_ok hs" "cell_ok (req_key r) pc hs"
  shows "heap_ok hs' \<and> cell_ok (req_key r) pc' hs' \<and>
    (\<forall>k. k \<noteq> req_key r \<longrightarrow> hs_hashmap hs' k = hs_hashmap hs k \<and> hs_leasePool hs' k = hs_leasePool hs k \<and>
           entry_of hs' k = entry_of hs k)"
proof (cases "\<exists>value. pc = Missing value")
  case True
  with assms obtain p where p: "p = length (hs_entries hs)" "ev = Go"
      "hs' = hs\<lparr>hs_leasePool := (hs_leasePool hs)(req_key r \<mapsto> p), hs_entries := hs_entries hs @ [new_leaseEntry]\<rparr>"
    by (cases ev) auto
  from assms(2) p have "heap_ok hs'" by (fastforce simp: heap_ok_def split: if_splits)
  moreover have "entry_of hs' k = entry_of hs k" if "k \<noteq> req_key r" for k
    using that p heap_okD(1) [OF assms(2), of k]
    by (cases "hs_leasePool hs k") (auto simp: entry_of_def nth_append)
  ultimately show ?thesis using p True assms(1) by (auto simp: cell_ok_def)
next
  case False
  then show ?thesis using assms
  proof (induction r now ev pc hs rule: handler_step.induct)
    case (1 r now hs)
    then show ?case by (cases r) (auto simp: cell_ok_def split: option.splits if_splits)
  next
    case (15 r now bytes hs)
    then show ?case by (cases r) (auto simp: cell_ok_def split: if_splits)
  qed (auto simp: cell_ok_def entry_of_put split: option.splits if_splits)
qed

section \<open>The atomic handlers\<close>

text \<open>A request as one step of the model of \<open>Storage\<close>.\<close>

fun atomic ::
  "(string \<Rightarrow> revoke_answer) \<Rightarrow> time \<Rightarrow> storage_request \<Rightarrow> StorageServer \<Rightarrow> (StorageServer \<times> storage_response) go" where
  "atomic answers now (RGet args) ss =
     (let (ss1, status, value, lease) = ss_Get now args ss in Some (ss1, GotValue status value lease))"
| "atomic answers now (RGetList args) ss =
     (let (ss1, status, value, lease) = ss_GetList now args ss in Some (ss1, GotList status value lease))"
| "atomic answers now (RPut key value) ss =
     map_option (\<lambda>(ss1, t, rs, status). (ss1, GotStatus status)) (ss_Put answers now key value ss)"
| "atomic answers now (RAppend key value) ss =
     map_option (\<lambda>(ss1, t, rs, status). (ss1, GotStatus status)) (ss_AppendToList answers now key value ss)"
| "atomic answers now (RRemove key value) ss =
     map_option (\<lambda>(ss1, t, rs, status). (ss1, GotStatus status)) (ss_RemoveFromList answers now key value ss)"

fun atomic_replies ::
  "(string \<Rightarrow> revoke_answer) \<Rightarrow> (time \<times> storage_request \<times> storage_response) list \<Rightarrow> StorageServer \<Rightarrow> StorageServer go" where
  "atomic_replies answers [] ss = Some ss"
| "atomic_replies answers ((now, r, x) # rs) ss = do {
     (ss1, y) \<leftarrow> atomic answers now r ss;
     if y = x then atomic_replies answers rs ss1 else None }"

lemma atomic_replies_snoc:
  "atomic_replies answers (rs @ [(now, r, x)]) ss =
     (do { ss1 \<leftarrow> atomic_replies answers rs ss;
           (ss2, y) \<leftarrow> atomic answers now r ss1;
           if y = x then Some ss2 else None })"
  by (induction answers rs ss rule: atomic_replies.induct) (auto split: Option.bind_splits if_splits)

text \<open>When every holder can be dialled a revocation only clears the \<open>pending\<close> mark.\<close>

definition dialable :: "(string \<Rightarrow> revoke_answer) \<Rightarrow> bool" where
  "dialable answers \<longleftrightarrow> (\<forall>h. answers h \<noteq> DialFails)"

definition unmarked :: "leaseEntry option \<Rightarrow> leaseEntry option" where
  "unmarked = map_option (\<lambda>e. e\<lparr>le_pending := False\<rparr>)"

definition marked :: "leaseEntry option \<Rightarrow> leaseEntry option" where
  "marked = map_option (\<lambda>e. e\<lparr>le_pending := True\<rparr>)"

lemma revoke_holders_some: "dialable answers \<Longrightarrow> \<exists>t rs. revoke_holders answers now hs = Some (t, rs)"
proof (induction answers now hs rule: revoke_holders.induct)
  case (2 answers now h hs)
  then show ?case
    by (cases "lease_over now h"; cases "answers (h_address h)") (auto simp: dialable_def)
qed simp

lemma revokeLease_some:
  assumes "dialable answers"
  shows "\<exists>t rs. revokeLease answers now key ss =
    Some (ss\<lparr>ss_leasePool := (ss_leasePool ss)(key := unmarked (ss_leasePool ss key))\<rparr>, t, rs)"
proof (cases "ss_leasePool ss key")
  case None
  then have "(ss_leasePool ss)(key := None) = ss_leasePool ss" by auto
  with None show ?thesis by (simp add: revokeLease_def unmarked_def)
next
  case (Some e)
  with revoke_holders_some [OF assms, of now "le_holders e"] show ?thesis
    by (auto simp: revokeLease_def unmarked_def)
qed

text \<open>What a mutation writes over a document, if it writes.\<close>

fun written :: "storage_request \<Rightarrow> doc option \<Rightarrow> doc option" where
  "written (RPut key value) d = Some (JStr value)"
| "written (RAppend key value) d =
     (let l = doc_list d in if value \<in> set l then None else Some (JArr (l @ [value])))"
| "written (RRemove key value) d =
     (let l = doc_list d in if value \<in> set l then Some (JArr (remove1 value l)) else None)"
| "written _ d = None"

fun mutates :: "storage_request \<Rightarrow> doc option \<Rightarrow> bool" where
  "mutates (RPut key value) d = True"
| "mutates (RAppend key value) d = True"
| "mutates (RRemove key value) d = (d \<noteq> None)"
| "mutates _ d = False"

fun no_write_status :: "storage_request \<Rightarrow> status_code" where
  "no_write_status (RAppend key value) = EITEMEXISTS"
| "no_write_status _ = EITEMNOTFOUND"

definition rewrite :: "string \<Rightarrow> doc option \<Rightarrow> StorageServer \<Rightarrow> StorageServer" where
  "rewrite key d ss =
     (let ss1 = ss\<lparr>ss_leasePool := (ss_leasePool ss)(key := unmarked (ss_leasePool ss key))\<rparr>
      in case d of None \<Rightarrow> ss1 | Some d \<Rightarrow> ss1\<lparr>ss_hashmap := (ss_hashmap ss)(key \<mapsto> d)\<rparr>)"

lemma atomic_mutation:
  assumes "dialable answers" "mutates r (ss_hashmap ss (req_key r))"
  shows "atomic answers now r ss =
    (let d = written r (ss_hashmap ss (req_key r))
     in Some (rewrite (req_key r) d ss, GotStatus (if d = None then no_write_status r else OK)))"
  using assms(2) revokeLease_some [OF assms(1), of now "req_key r" ss]
  by (cases r) (auto simp: ss_Put_def ss_AppendToList_def ss_RemoveFromList_def rewrite_def)

section \<open>A handler without rival\<close>

text \<open>Requests that touch the lease entry of their key: all but reads that want no lease.\<close>

fun leasing :: "storage_request \<Rightarrow> bool" where
  "leasing (RGet args) = ga_WantLease args"
| "leasing (RGetList args) = ga_WantLease args"
| "leasing _ = True"

fun is_read :: "storage_request \<Rightarrow> bool" where
  "is_read (RGet args) = True"
| "is_read (RGetList args) = True"
| "is_read _ = False"

text \<open>
  How far the heap is ahead of the atomic server, while a handler is at \<open>pc\<close>: not at all before
  the entry is marked or created.
\<close>

definition mutating :: "storage_request \<Rightarrow> doc option \<Rightarrow> StorageServer \<Rightarrow> bool" where
  "mutating r bytes ss \<longleftrightarrow>
     mutates r (ss_hashmap ss (req_key r)) \<and> (\<forall>k v. r = RRemove k v \<longrightarrow> bytes = ss_hashmap ss k)"

definition reading :: "storage_request \<Rightarrow> doc \<Rightarrow> StorageServer \<Rightarrow> bool" where
  "reading r value ss \<longleftrightarrow> is_read r \<and> leasing r \<and> ss_hashmap ss (req_key r) = Some value"

fun tracks :: "storage_request \<Rightarrow> handler_pc \<Rightarrow> leaseEntry option \<Rightarrow> StorageServer \<Rightarrow> bool" where
  "tracks r Begin e ss = (leasing r \<longrightarrow> e = ss_leasePool ss (req_key r))"
| "tracks r (Found value) e ss = (reading r value ss \<and> e = ss_leasePool ss (req_key r))"
| "tracks r (Entered value p) e ss = (reading r value ss \<and> e = ss_leasePool ss (req_key r))"
| "tracks r (Missing value) e ss = (reading r value ss \<and> e = ss_leasePool ss (req_key r))"
| "tracks r (Created value p) e ss =
     (reading r value ss \<and> ss_leasePool ss (req_key r) = None \<and> e = Some new_leaseEntry)"
| "tracks r (RevokeStart bytes) e ss = (mutating r bytes ss \<and> e = ss_leasePool ss (req_key r))"
| "tracks r (Marking bytes p) e ss = (mutating r bytes ss \<and> e = ss_leasePool ss (req_key r))"
| "tracks r (Ranging bytes p) e ss = (mutating r bytes ss \<and> e = marked (ss_leasePool ss (req_key r)))"
| "tracks r (NextHolder bytes p hs) e ss = (mutating r bytes ss \<and> e = marked (ss_leasePool ss (req_key r)))"
| "tracks r (Calling bytes p t hs) e ss = (mutating r bytes ss \<and> e = marked (ss_leasePool ss (req_key r)))"
| "tracks r (Unmarking bytes p) e ss = (mutating r bytes ss \<and> e = marked (ss_leasePool ss (req_key r)))"
| "tracks r (Revoked bytes) e ss = (mutating r bytes ss \<and> e = unmarked (ss_leasePool ss (req_key r)))"
| "tracks r (Writing d) e ss =
     (mutates r (ss_hashmap ss (req_key r)) \<and> written r (ss_hashmap ss (req_key r)) = Some d \<and>
      e = unmarked (ss_leasePool ss (req_key r)))"
| "tracks r (Replied x) e ss = True"
| "tracks r Panicked e ss = True"

text \<open>A step either keeps that, or it replies, and then the atomic handler catches up.\<close>

definition catches_up ::
  "(string \<Rightarrow> revoke_answer) \<Rightarrow> time \<Rightarrow> storage_request \<Rightarrow> storage_response \<Rightarrow> heap_server \<Rightarrow> heap_server \<Rightarrow> StorageServer \<Rightarrow> bool" where
  "catches_up answers now r x hs hs' ss \<longleftrightarrow>
     (\<exists>ss'. atomic answers now r ss = Some (ss', x) \<and>
        (\<forall>k. hs_hashmap hs' k = ss_hashmap ss' k) \<and>
        (if leasing r then entry_of hs' (req_key r) = ss_leasePool ss' (req_key r) else hs' = hs) \<and>
        (\<forall>k. k \<noteq> req_key r \<or> \<not> leasing r \<longrightarrow> ss_leasePool ss' k = ss_leasePool ss k))"

lemma unmarked_marked [simp]: "unmarked (marked x) = unmarked x" "unmarked (Some e) = Some (e\<lparr>le_pending := False\<rparr>)"
  "marked (Some e) = Some (e\<lparr>le_pending := True\<rparr>)" "unmarked None = None" "marked None = None"
  by (cases x) (simp_all add: unmarked_def marked_def)

lemma rewrite_simps [simp]:
  "ss_hashmap (rewrite k d ss) = (case d of None \<Rightarrow> ss_hashmap ss | Some d \<Rightarrow> (ss_hashmap ss)(k \<mapsto> d))"
  "ss_leasePool (rewrite k d ss) = (ss_leasePool ss)(k := unmarked (ss_leasePool ss k))"
  by (simp_all add: rewrite_def split: option.splits)

lemma begin_tracks:
  assumes "dialable answers" "hs_hashmap hs = ss_hashmap ss" "tracks r Begin (entry_of hs (req_key r)) ss"
  shows "case begin_step r hs of
      Replied x \<Rightarrow> catches_up answers now r x hs hs ss
    | pc' \<Rightarrow> leasing r \<and> tracks r pc' (entry_of hs (req_key r)) ss"
  using assms
  by (cases r) (auto simp: catches_up_def ss_Get_def ss_GetList_def ss_RemoveFromList_def reading_def
      mutating_def split: option.splits if_splits prod.splits)

lemma cell_entry:
  assumes "cell_ok k pc hs" "pc_cell pc = Some p"
  shows "hs_leasePool hs k = Some p" "entry_of hs k = Some (hs_entries hs ! p)"
  using assms by (auto simp: cell_ok_def entry_of_def)

lemma entered_catches_up:
  assumes "heap_ok hs" "hs_hashmap hs = ss_hashmap ss" "hs_leasePool hs (req_key r) = Some p"
    and "entry_of hs (req_key r) = Some e" "e = hs_entries hs ! p" "reading r value ss"
    and "ss_leasePool ss (req_key r) = Some e"
  shows "le_pending e \<Longrightarrow> catches_up answers now r (read_reply r value no_lease) hs hs ss"
    and "\<not> le_pending e \<Longrightarrow> \<exists>h \<in> set (le_holders e). h_address h = req_client r \<Longrightarrow>
      catches_up answers now r (read_reply r value granted) hs hs ss"
    and "\<not> le_pending e \<Longrightarrow> \<not> (\<exists>h \<in> set (le_holders e). h_address h = req_client r) \<Longrightarrow>
      catches_up answers now r (read_reply r value granted) hs (put_entry p (add_holder now (req_client r) e) hs) ss"
  using assms(6) assms(1-5,7)
  by (cases r; auto simp: catches_up_def ss_Get_def ss_GetList_def addLeasePool_def reading_def granted_def
      add_holder_def entry_of_put)+

lemma created_catches_up:
  assumes "heap_ok hs" "hs_hashmap hs = ss_hashmap ss" "hs_leasePool hs (req_key r) = Some p"
    and "hs_entries hs ! p = new_leaseEntry" "reading r value ss" "ss_leasePool ss (req_key r) = None"
  shows "catches_up answers now r (read_reply r value granted) hs
    (put_entry p (add_holder now (req_client r) new_leaseEntry) hs) ss"
  using assms(5) assms(1-4,6)
  by (cases r) (auto simp: catches_up_def ss_Get_def ss_GetList_def addLeasePool_def reading_def granted_def
      add_holder_def new_leaseEntry_def entry_of_put)

lemma mutates_leasing: "mutates r d \<Longrightarrow> leasing r"
  by (cases r) auto

lemma revoked_tracks:
  assumes "dialable answers" "hs_hashmap hs = ss_hashmap ss" "mutating r bytes ss"
    and "entry_of hs (req_key r) = unmarked (ss_leasePool ss (req_key r))"
  shows "case revoked_step r bytes hs of
      Replied x \<Rightarrow> catches_up answers now r x hs hs ss
    | pc' \<Rightarrow> tracks r pc' (entry_of hs (req_key r)) ss"
proof -
  have m: "mutates r (ss_hashmap ss (req_key r))" using assms(3) by (simp add: mutating_def)
  have "revoked_step r bytes hs =
      (case written r (ss_hashmap ss (req_key r)) of
         None \<Rightarrow> Replied (GotStatus (no_write_status r)) | Some d \<Rightarrow> Writing d)"
    using assms(2,3) by (cases r) (auto simp: mutating_def)
  with m mutates_leasing [OF m] atomic_mutation [OF assms(1) m] assms(2,4) show ?thesis
    by (auto simp: catches_up_def split: option.splits)
qed

lemma writing_catches_up:
  assumes "dialable answers" "hs_hashmap hs = ss_hashmap ss" "tracks r (Writing d) (entry_of hs (req_key r)) ss"
  shows "catches_up answers now r (GotStatus OK) hs (hs\<lparr>hs_hashmap := (hs_hashmap hs)(req_key r \<mapsto> d)\<rparr>) ss"
proof -
  have m: "mutates r (ss_hashmap ss (req_key r))" using assms(3) by simp
  from atomic_mutation [OF assms(1) m] mutates_leasing [OF m] assms(2,3) show ?thesis
    by (auto simp: catches_up_def)
qed

text \<open>One step of a handler that has its key to itself.\<close>

lemma step_tracks:
  assumes d: "dialable answers" and hm: "hs_hashmap hs = ss_hashmap ss" and ok: "heap_ok hs"
    and cell: "cell_ok (req_key r) pc hs" and tr: "tracks r pc (entry_of hs (req_key r)) ss"
    and step: "handler_step r now ev pc hs = Some (pc', hs')"
  shows "case pc' of
      Replied x \<Rightarrow> catches_up answers now r x hs hs' ss
    | _ \<Rightarrow> leasing r \<and> hs_hashmap hs' = hs_hashmap hs \<and> tracks r pc' (entry_of hs' (req_key r)) ss"
proof (cases pc)
  case Begin
  with step have "pc' = begin_step r hs" "hs' = hs" by (cases ev; simp)+
  with begin_tracks [OF d hm, of r now] tr Begin show ?thesis by (auto split: handler_pc.splits)
next
  case (Entered v p)
  note c = cell_entry [OF cell, unfolded Entered, of p, simplified]
  from tr Entered c have "reading r v ss" "ss_leasePool ss (req_key r) = Some (hs_entries hs ! p)" by auto
  note e = entered_catches_up [OF ok hm c(1,2) refl this]
  let ?e = "hs_entries hs ! p"
  have s: "(pc', hs') =
      (if le_pending ?e then (Replied (read_reply r v no_lease), hs)
       else if \<exists>h \<in> set (le_holders ?e). h_address h = req_client r then (Replied (read_reply r v granted), hs)
       else (Replied (read_reply r v granted), put_entry p (add_holder now (req_client r) ?e) hs))"
    using step Entered by (cases ev) simp_all
  show ?thesis
  proof (cases "le_pending ?e")
    case True
    with e(1) [OF True, of answers now] s show ?thesis by simp
  next
    case False
    show ?thesis
    proof (cases "\<exists>h \<in> set (le_holders ?e). h_address h = req_client r")
      case True
      with e(2) [OF False True, of answers now] s False show ?thesis by (simp only: if_True if_False) simp
    next
      case no: False
      with e(3) [OF False no, of answers now] s False show ?thesis by (simp only: if_True if_False) simp
    qed
  qed
next
  case (Created v p)
  note c = cell_entry [OF cell, unfolded Created, of p, simplified]
  with step Created tr created_catches_up [OF ok hm c(1), of v] show ?thesis by (cases ev) auto
next
  case (Revoked bytes)
  with step have p: "pc' = revoked_step r bytes hs" "hs' = hs" by (cases ev; simp)+
  from tr Revoked have m: "mutating r bytes ss" "entry_of hs (req_key r) = unmarked (ss_leasePool ss (req_key r))"
    by auto
  from revoked_tracks [OF d hm m, of now] p mutates_leasing m(1) show ?thesis
    by (auto simp: mutating_def split: handler_pc.splits)
next
  case (Writing e)
  with step writing_catches_up [OF d hm, of r e now] tr show ?thesis by (cases ev) auto
next
  case (NextHolder bytes p rest)
  with step tr mutates_leasing show ?thesis
    by (cases ev; cases rest) (auto simp: mutating_def split: if_splits)
next
  case (Found v)
  with step tr show ?thesis by (cases ev) (auto simp: reading_def split: option.splits)
next
  case (Missing v)
  with step tr cell show ?thesis
    by (cases ev) (auto simp: reading_def cell_ok_def entry_of_def nth_append)
next
  case (RevokeStart bytes)
  with step tr mutates_leasing show ?thesis
    by (cases ev) (auto simp: mutating_def entry_of_def split: option.splits)
next
  case (Marking bytes p)
  note c = cell_entry [OF cell, unfolded Marking, of p, simplified]
  have "entry_of hs' (req_key r) = marked (entry_of hs (req_key r))"
    using step Marking c ok by (cases ev) (auto simp: entry_of_put)
  with step tr Marking mutates_leasing show ?thesis by (cases ev) (auto simp: mutating_def)
next
  case (Ranging bytes p)
  with step tr mutates_leasing show ?thesis by (cases ev) (auto simp: mutating_def)
next
  case (Calling bytes p t rest)
  with step tr mutates_leasing show ?thesis by (cases ev) (auto simp: mutating_def split: if_splits)
next
  case (Unmarking bytes p)
  note c = cell_entry [OF cell, unfolded Unmarking, of p, simplified]
  have "entry_of hs' (req_key r) = unmarked (entry_of hs (req_key r))"
    using step Unmarking c ok by (cases ev) (auto simp: entry_of_put)
  with step tr Unmarking mutates_leasing show ?thesis by (cases ev) (auto simp: mutating_def)
next
  case (Replied x)
  with step show ?thesis by (cases ev) auto
next
  case Panicked
  with step show ?thesis by (cases ev) auto
qed

section \<open>Handlers on different keys\<close>

definition waiting :: "handler_pc \<Rightarrow> bool" where
  "waiting pc \<longleftrightarrow> reply_of pc = []"

text \<open>A key is busy while a handler of it that uses its lease entry has not replied.\<close>

definition busy :: "string \<Rightarrow> (storage_request \<times> handler_pc) list \<Rightarrow> bool" where
  "busy k ths \<longleftrightarrow> (\<exists>(r, pc) \<in> set ths. waiting pc \<and> leasing r \<and> req_key r = k)"

text \<open>Requests that use the lease entry of a key arrive only while the key is not busy.\<close>

fun one_per_key :: "action list \<Rightarrow> config \<Rightarrow> bool" where
  "one_per_key [] cf = True"
| "one_per_key (a # as) cf =
     ((\<forall>r. a = Arrive r \<longrightarrow> leasing r \<longrightarrow> \<not> busy (req_key r) (cf_threads cf)) \<and>
      (\<forall>cf1. act a cf = Some cf1 \<longrightarrow> one_per_key as cf1))"

definition alone :: "(storage_request \<times> handler_pc) list \<Rightarrow> bool" where
  "alone ths \<longleftrightarrow> (\<forall>i j. i < length ths \<longrightarrow> j < length ths \<longrightarrow> i \<noteq> j \<longrightarrow>
     waiting (snd (ths ! i)) \<longrightarrow> waiting (snd (ths ! j)) \<longrightarrow> leasing (fst (ths ! i)) \<longrightarrow> leasing (fst (ths ! j)) \<longrightarrow>
     req_key (fst (ths ! i)) \<noteq> req_key (fst (ths ! j)))"

definition thread_ok :: "heap_server \<Rightarrow> StorageServer \<Rightarrow> storage_request \<times> handler_pc \<Rightarrow> bool" where
  "thread_ok hs ss th \<longleftrightarrow>
     (let (r, pc) = th in waiting pc \<longrightarrow>
        cell_ok (req_key r) pc hs \<and> tracks r pc (entry_of hs (req_key r)) ss \<and> (leasing r \<or> pc = Begin))"

definition simulates :: "config \<Rightarrow> StorageServer \<Rightarrow> bool" where
  "simulates cf ss \<longleftrightarrow>
     heap_ok (cf_server cf) \<and> hs_hashmap (cf_server cf) = ss_hashmap ss \<and>
     alone (cf_threads cf) \<and> (\<forall>th \<in> set (cf_threads cf). thread_ok (cf_server cf) ss th) \<and>
     (\<forall>k. \<not> busy k (cf_threads cf) \<longrightarrow> entry_of (cf_server cf) k = ss_leasePool ss k)"

lemma arrive_simulates:
  assumes "simulates cf ss" "leasing r \<Longrightarrow> \<not> busy (req_key r) (cf_threads cf)" "act (Arrive r) cf = Some cf'"
  shows "simulates cf' ss"
proof -
  let ?ths = "cf_threads cf"
  have cf': "cf' = cf\<lparr>cf_threads := ?ths @ [(r, Begin)]\<rparr>" using assms(3) by simp
  have other: "req_key (fst (?ths ! j)) \<noteq> req_key r"
    if "j < length ?ths" "waiting (snd (?ths ! j))" "leasing (fst (?ths ! j))" "leasing r" for j
    using assms(2) [OF that(4)] that(1-3) nth_mem [OF that(1)] by (fastforce simp: busy_def)
  have "alone (?ths @ [(r, Begin)])"
    unfolding alone_def
  proof (intro allI impI)
    fix i j
    assume a: "i < length (?ths @ [(r, Begin)])" "j < length (?ths @ [(r, Begin)])" "i \<noteq> j"
      "waiting (snd ((?ths @ [(r, Begin)]) ! i))" "waiting (snd ((?ths @ [(r, Begin)]) ! j))"
      "leasing (fst ((?ths @ [(r, Begin)]) ! i))" "leasing (fst ((?ths @ [(r, Begin)]) ! j))"
    then consider "i < length ?ths" "j < length ?ths" | "i < length ?ths" "j = length ?ths"
      | "i = length ?ths" "j < length ?ths" by (auto simp: less_Suc_eq)
    then show "req_key (fst ((?ths @ [(r, Begin)]) ! i)) \<noteq> req_key (fst ((?ths @ [(r, Begin)]) ! j))"
    proof cases
      case 1
      with a assms(1) show ?thesis by (simp add: simulates_def alone_def nth_append)
    next
      case 2
      with a other [of i] show ?thesis by (simp add: nth_append)
    next
      case 3
      with a other [of j] show ?thesis by (simp add: nth_append)
    qed
  qed
  moreover have "thread_ok (cf_server cf) ss (r, Begin)"
    using assms(1,2) by (auto simp: thread_ok_def cell_ok_def simulates_def)
  ultimately show ?thesis using assms(1) by (auto simp: cf' simulates_def busy_def)
qed

lemma tracks_cong:
  "ss_hashmap ss' (req_key r) = ss_hashmap ss (req_key r) \<Longrightarrow>
   ss_leasePool ss' (req_key r) = ss_leasePool ss (req_key r) \<Longrightarrow> tracks r pc e ss' = tracks r pc e ss"
  by (cases pc; cases r) (auto simp: mutating_def reading_def)

lemma thread_ok_frame:
  assumes "thread_ok hs ss (r, pc)"
    and "leasing r \<Longrightarrow> waiting pc \<Longrightarrow> hs_leasePool hs' (req_key r) = hs_leasePool hs (req_key r) \<and>
      entry_of hs' (req_key r) = entry_of hs (req_key r) \<and>
      ss_hashmap ss' (req_key r) = ss_hashmap ss (req_key r) \<and> ss_leasePool ss' (req_key r) = ss_leasePool ss (req_key r)"
  shows "thread_ok hs' ss' (r, pc)"
  using assms tracks_cong [of ss' r ss pc "entry_of hs (req_key r)"]
  by (cases "leasing r") (auto simp: thread_ok_def cell_ok_def)

lemma alone_update:
  assumes "alone ths" "ths ! i = (r, pc)" "waiting pc" "i < length ths"
  shows "alone (ths[i := (r, pc')])"
proof -
  have "fst (ths[i := (r, pc')] ! j) = fst (ths ! j)"
    "waiting (snd (ths[i := (r, pc')] ! j)) \<Longrightarrow> waiting (snd (ths ! j))" for j
    using assms(2-4) by (cases "j = i"; simp)+
  with assms(1) show ?thesis unfolding alone_def by simp
qed

lemma busy_update:
  assumes "i < length ths" "ths ! i = (r, pc)" "waiting pc"
  shows "\<not> busy k (ths[i := (r, pc')]) \<Longrightarrow> k \<noteq> req_key r \<or> \<not> leasing r \<Longrightarrow> \<not> busy k ths"
    and "leasing r \<Longrightarrow> waiting pc' \<Longrightarrow> busy (req_key r) (ths[i := (r, pc')])"
proof -
  show "busy (req_key r) (ths[i := (r, pc')])" if "leasing r" "waiting pc'"
    using that set_update_memI [OF assms(1), of "(r, pc')"] unfolding busy_def by blast
  assume n: "\<not> busy k (ths[i := (r, pc')])" "k \<noteq> req_key r \<or> \<not> leasing r"
  show "\<not> busy k ths"
  proof
    assume "busy k ths"
    then obtain j where j: "j < length ths" "waiting (snd (ths ! j))" "leasing (fst (ths ! j))" "req_key (fst (ths ! j)) = k"
      by (fastforce simp: busy_def in_set_conv_nth)
    with n(2) assms(2) have "j \<noteq> i" by auto
    with j have "ths[i := (r, pc')] ! j = ths ! j" by simp
    with j have "ths ! j \<in> set (ths[i := (r, pc')])" by (metis length_list_update nth_mem)
    with j n(1) show False by (auto simp: busy_def split: prod.splits)
  qed
qed

text \<open>A move of a handler, which changes the heap and catches up in the atomic server when it replies.\<close>

lemma move_update:
  assumes sim: "simulates cf ss" and i: "i < length (cf_threads cf)" "cf_threads cf ! i = (r, pc)" "waiting pc"
    and ok: "heap_ok hs'" "hs_hashmap hs' = ss_hashmap ss'"
    and th: "waiting pc' \<Longrightarrow> cell_ok (req_key r) pc' hs' \<and> tracks r pc' (entry_of hs' (req_key r)) ss' \<and> leasing r"
    and frame: "\<And>k. k \<noteq> req_key r \<or> \<not> leasing r \<Longrightarrow> ss_hashmap ss' k = ss_hashmap ss k \<and>
      ss_leasePool ss' k = ss_leasePool ss k \<and> hs_leasePool hs' k = hs_leasePool (cf_server cf) k \<and>
      entry_of hs' k = entry_of (cf_server cf) k"
    and same: "leasing r \<Longrightarrow> \<not> waiting pc' \<Longrightarrow> entry_of hs' (req_key r) = ss_leasePool ss' (req_key r)"
    and cf': "cf_server cf' = hs'" "cf_threads cf' = (cf_threads cf)[i := (r, pc')]"
  shows "simulates cf' ss'"
proof -
  let ?ths = "cf_threads cf"
  have s: "alone ?ths" "\<And>th. th \<in> set ?ths \<Longrightarrow> thread_ok (cf_server cf) ss th"
      "\<And>k. \<not> busy k ?ths \<Longrightarrow> entry_of (cf_server cf) k = ss_leasePool ss k"
    using sim by (auto simp: simulates_def)
  have "thread_ok hs' ss' th" if "th \<in> set (?ths[i := (r, pc')])" for th
  proof -
    from that obtain j where j: "j < length ?ths" "th = ?ths[i := (r, pc')] ! j"
      by (auto simp: in_set_conv_nth)
    show ?thesis
    proof (cases "j = i")
      case True
      with j i th show ?thesis by (auto simp: thread_ok_def)
    next
      case False
      with j have n: "th = ?ths ! j" by simp
      obtain r2 pc2 where th2: "th = (r2, pc2)" by (cases th)
      have "req_key r2 \<noteq> req_key r \<or> \<not> leasing r" if "leasing r2" "waiting pc2"
        using s(1) False j(1) i n th2 that unfolding alone_def by (metis fst_conv snd_conv)
      with frame [of "req_key r2"] thread_ok_frame [of "cf_server cf" ss r2 pc2 hs' ss'] s(2) [of th] j n th2
      show ?thesis by (metis nth_mem)
    qed
  qed
  moreover have "entry_of hs' k = ss_leasePool ss' k" if k: "\<not> busy k (?ths[i := (r, pc')])" for k
  proof (cases "k = req_key r \<and> leasing r")
    case True
    with busy_update(2) [OF i, of pc'] k have "\<not> waiting pc'" by blast
    with same True show ?thesis by blast
  next
    case False
    with busy_update(1) [OF i k] s(3) frame show ?thesis by simp
  qed
  ultimately show ?thesis
    using alone_update [OF s(1) i(2,3,1)] ok by (simp add: simulates_def cf')
qed

lemma waiting_reply: "\<not> waiting pc \<Longrightarrow> \<exists>x. pc = Replied x"
  by (cases pc) (auto simp: waiting_def)

lemma step_waiting: "handler_step r now ev pc hs = Some y \<Longrightarrow> waiting pc"
  by (cases pc; cases ev) (auto simp: waiting_def)

lemma moveE:
  assumes "move i now ev cf = Some cf'"
  obtains r pc pc' hs' where "i < length (cf_threads cf)" "cf_threads cf ! i = (r, pc)"
    "handler_step r now ev pc (cf_server cf) = Some (pc', hs')" "cf_server cf' = hs'"
    "cf_threads cf' = (cf_threads cf)[i := (r, pc')]"
    "cf_replies cf' = cf_replies cf @ map (\<lambda>x. (now, r, x)) (reply_of pc')"
  using assms by (auto simp: move_def split: if_splits prod.splits)

lemma move_simulates:
  assumes d: "dialable answers" and sim: "simulates cf ss" and m: "move i now ev cf = Some cf'"
  shows "\<exists>ss' new. cf_replies cf' = cf_replies cf @ new \<and> atomic_replies answers new ss = Some ss' \<and>
    simulates cf' ss'"
proof -
  from m obtain r pc pc' hs' where i: "i < length (cf_threads cf)" "cf_threads cf ! i = (r, pc)"
    and step: "handler_step r now ev pc (cf_server cf) = Some (pc', hs')"
    and cf': "cf_server cf' = hs'" "cf_threads cf' = (cf_threads cf)[i := (r, pc')]"
      "cf_replies cf' = cf_replies cf @ map (\<lambda>x. (now, r, x)) (reply_of pc')" by (rule moveE)
  let ?hs = "cf_server cf" and ?k = "req_key r"
  note w = step_waiting [OF step]
  have s: "heap_ok ?hs" "hs_hashmap ?hs = ss_hashmap ss" "thread_ok ?hs ss (r, pc)"
    using sim i nth_mem [OF i(1)] by (auto simp: simulates_def)
  then have t: "cell_ok ?k pc ?hs" "tracks r pc (entry_of ?hs ?k) ss" "leasing r \<or> pc = Begin"
    using w by (auto simp: thread_ok_def)
  note fr = handler_step_frame [OF step s(1) t(1)]
  note tr = step_tracks [OF d s(2,1) t(1,2) step]
  have stays: "hs' = ?hs" if "\<not> leasing r" using that t(3) step by (cases ev) auto
  show ?thesis
  proof (cases "waiting pc'")
    case True
    with tr have l: "leasing r" "hs_hashmap hs' = hs_hashmap ?hs" "tracks r pc' (entry_of hs' ?k) ss"
      by (auto simp: waiting_def split: handler_pc.splits)
    have "simulates cf' ss"
      by (rule move_update [OF sim i w _ _ _ _ _ cf'(1,2)]) (use fr l s True in auto)
    with True cf'(3) show ?thesis by (intro exI [of _ ss] exI [of _ "[]"]) (simp add: waiting_def)
  next
    case False
    then obtain x where x: "pc' = Replied x" using waiting_reply by blast
    with tr obtain ss' where ss': "atomic answers now r ss = Some (ss', x)" "hs_hashmap hs' = ss_hashmap ss'"
        "leasing r \<Longrightarrow> entry_of hs' ?k = ss_leasePool ss' ?k"
        "\<And>k. k \<noteq> ?k \<or> \<not> leasing r \<Longrightarrow> ss_leasePool ss' k = ss_leasePool ss k"
      by (auto simp: catches_up_def split: if_splits)
    have frame: "ss_hashmap ss' k = ss_hashmap ss k \<and> ss_leasePool ss' k = ss_leasePool ss k \<and>
        hs_leasePool hs' k = hs_leasePool ?hs k \<and> entry_of hs' k = entry_of ?hs k"
      if k: "k \<noteq> ?k \<or> \<not> leasing r" for k
      using fr k ss'(2) s(2) stays ss'(4) [OF k] by (cases "leasing r") (auto simp: fun_eq_iff)
    have "simulates cf' ss'"
      by (rule move_update [OF sim i w _ ss'(2) _ frame ss'(3) cf'(1,2)]) (use fr False in auto)
    with x cf'(3) ss'(1) show ?thesis
      by (intro exI [of _ ss'] exI [of _ "[(now, r, x)]"]) simp
  qed
qed

lemma atomic_replies_append:
  "atomic_replies answers (rs @ rs') ss = Option.bind (atomic_replies answers rs ss) (atomic_replies answers rs')"
  by (induction answers rs ss rule: atomic_replies.induct) (auto split: Option.bind_splits if_splits)

lemma run_simulates:
  assumes "dialable answers" "simulates cf ss" "run_actions as cf = Some cf'" "one_per_key as cf"
  shows "\<exists>ss' new. cf_replies cf' = cf_replies cf @ new \<and> atomic_replies answers new ss = Some ss' \<and>
    simulates cf' ss'"
  using assms(2-4)
proof (induction as arbitrary: cf ss)
  case Nil
  then show ?case by auto
next
  case (Cons a as)
  from Cons.prems(2) obtain cf1 where cf1: "act a cf = Some cf1" "run_actions as cf1 = Some cf'"
    by (auto split: Option.bind_splits)
  have "\<exists>ss1 new. cf_replies cf1 = cf_replies cf @ new \<and> atomic_replies answers new ss = Some ss1 \<and> simulates cf1 ss1"
  proof (cases a)
    case (Arrive r)
    with arrive_simulates [OF Cons.prems(1), of r cf1] Cons.prems(3) cf1(1) show ?thesis by auto
  next
    case (Move i now ev)
    with move_simulates [OF assms(1) Cons.prems(1)] cf1(1) show ?thesis by simp
  qed
  then obtain ss1 new where 1: "cf_replies cf1 = cf_replies cf @ new" "atomic_replies answers new ss = Some ss1"
      "simulates cf1 ss1" by blast
  from Cons.IH [OF 1(3) cf1(2)] Cons.prems(3) cf1(1) obtain ss2 new2 where
    "cf_replies cf' = cf_replies cf1 @ new2" "atomic_replies answers new2 ss1 = Some ss2" "simulates cf' ss2" by auto
  with 1 show ?case by (intro exI [of _ ss2] exI [of _ "new @ new2"]) (simp add: atomic_replies_append)
qed

section \<open>Properties\<close>

definition boot :: "heap_server \<Rightarrow> config" where
  "boot hs = \<lparr>cf_server = hs, cf_threads = [], cf_replies = [], cf_calls = []\<rparr>"

text \<open>The heap holds what an atomic server holds.\<close>

definition abstracts :: "heap_server \<Rightarrow> StorageServer \<Rightarrow> bool" where
  "abstracts hs ss \<longleftrightarrow> heap_ok hs \<and> hs_hashmap hs = ss_hashmap ss \<and> entry_of hs = ss_leasePool ss"

text \<open>
  C3: Handlers on different keys do not disturb each other, and one alone on its key is as good as
  atomic: in any interleaving in which at most one request at a time uses the lease entry of a key
  (reads that want no lease may come at any time), whatever the lease holders do, each request gets
  the reply of the one-step handler, the requests taken in the order of their replies; the documents
  are always those of the one-step server, and so is the lease entry of every key that is not in use.
\<close>

theorem handlers_serialize:
  assumes "abstracts hs ss" and "run_actions as (boot hs) = Some cf" and "one_per_key as (boot hs)"
    and "dialable answers"
  shows "\<exists>ss'. atomic_replies answers (cf_replies cf) ss = Some ss' \<and>
    hs_hashmap (cf_server cf) = ss_hashmap ss' \<and>
    (\<forall>k. \<not> busy k (cf_threads cf) \<longrightarrow> entry_of (cf_server cf) k = ss_leasePool ss' k)"
proof -
  from assms(1) have "simulates (boot hs) ss"
    by (simp add: simulates_def boot_def abstracts_def alone_def)
  from run_simulates [OF assms(4) this assms(2,3)] show ?thesis
    by (auto simp: boot_def simulates_def)
qed

text \<open>A server with one text and no leases, and the schedules that follow.\<close>

definition one_text :: "string \<Rightarrow> string \<Rightarrow> heap_server" where
  "one_text k v = \<lparr>hs_hashmap = [k \<mapsto> JStr v], hs_leasePool = Map.empty, hs_entries = []\<rparr>"

definition go :: "time \<Rightarrow> nat list \<Rightarrow> action list" where
  "go now is = map (\<lambda>i. Move i now Go) is"

abbreviation lease_get :: "string \<Rightarrow> string \<Rightarrow> storage_request" where
  "lease_get k c \<equiv> RGet \<lparr>ga_Key = k, ga_WantLease = True, ga_LeaseClient = c\<rparr>"

lemmas run_eval = boot_def go_def move_def put_entry_def new_leaseEntry_def add_holder_def lease_over_def
  granted_def lease_defs nth_append

theorem handlers_serialize_witness:
  "\<exists>cf ss'. run_actions ([Arrive (lease_get ''k'' ''c''), Arrive (RAppend ''l'' ''x''), Arrive (RGet
       \<lparr>ga_Key = ''l'', ga_WantLease = False, ga_LeaseClient = ''c''\<rparr>)] @ go 0 [0, 1, 0, 1, 0, 1, 2, 1, 0])
      (boot (one_text ''k'' ''v'')) = Some cf \<and>
    atomic_replies (\<lambda>_. Answered) (cf_replies cf)
      ((NewStorageserver True 1 \<lparr>HostPort = ''localhost:9009'', NodeID = 1\<rparr>)\<lparr>ss_hashmap := [''k'' \<mapsto> JStr ''v'']\<rparr>) = Some ss' \<and>
    ss_hashmap ss' ''l'' = Some (JArr [''x'']) \<and> hs_hashmap (cf_server cf) = ss_hashmap ss'"
proof -
  let ?as = "[Arrive (lease_get ''k'' ''c''), Arrive (RAppend ''l'' ''x''), Arrive (RGet
       \<lparr>ga_Key = ''l'', ga_WantLease = False, ga_LeaseClient = ''c''\<rparr>)] @ go 0 [0, 1, 0, 1, 0, 1, 2, 1, 0]"
  let ?hs = "one_text ''k'' ''v''" and ?ss = "(NewStorageserver True 1 \<lparr>HostPort = ''localhost:9009'', NodeID = 1\<rparr>)\<lparr>ss_hashmap := [''k'' \<mapsto> JStr ''v'']\<rparr>"
  obtain cf where cf: "run_actions ?as (boot ?hs) = Some cf" "hs_hashmap (cf_server cf) ''l'' = Some (JArr [''x''])"
    by (simp add: run_eval one_text_def)
  have "abstracts ?hs ?ss"
    by (simp add: abstracts_def one_text_def NewStorageserver_def heap_ok_def entry_of_def fun_eq_iff)
  moreover have "one_per_key ?as (boot ?hs)"
    by (simp add: run_eval one_text_def busy_def waiting_def)
  ultimately show ?thesis
    using handlers_serialize [OF _ cf(1), of ?ss "\<lambda>_. Answered"] cf by (auto simp: dialable_def)
qed

text \<open>
  C27: Overlapping requests on one key are not atomic.  Two overlapping \<open>AppendToList\<close> of different
  items to one list both answer \<open>OK\<close>, yet only the item of the one that writes last is there.
\<close>

theorem overlapping_appends_lose_item:
  fixes hs :: heap_server and k :: string
  defines "l \<equiv> doc_list (hs_hashmap hs k)"
  assumes "hs_leasePool hs k = None" and "x \<notin> set l" and "y \<notin> set l"
  shows "\<exists>as cf. run_actions as (boot hs) = Some cf \<and>
    map snd (cf_replies cf) = [(RAppend k x, GotStatus OK), (RAppend k y, GotStatus OK)] \<and>
    hs_hashmap (cf_server cf) k = Some (JArr (l @ [y]))"
proof -
  let ?as = "[Arrive (RAppend k x), Arrive (RAppend k y)] @ go 0 [0, 0, 0, 1, 1, 1, 0, 1]"
  show ?thesis by (rule exI [of _ ?as]) (use assms(2-4) in \<open>simp add: run_eval l_def\<close>)
qed

theorem overlapping_appends_lose_item_witness:
  "\<exists>as cf. run_actions as (boot (one_text ''k'' ''v'')) = Some cf \<and>
    map snd (cf_replies cf) = [(RAppend ''l'' ''x'', GotStatus OK), (RAppend ''l'' ''y'', GotStatus OK)] \<and>
    hs_hashmap (cf_server cf) ''l'' = Some (JArr [''y''])"
  using overlapping_appends_lose_item [of "one_text ''k'' ''v''" "''l''" "''x''" "''y''"]
  by (simp add: one_text_def)

text \<open>
  A client has been granted a lease on a value that is no longer the server's, nobody has called
  for it, every request has been answered and the lease is not over.
\<close>

definition stale_lease :: "config \<Rightarrow> string \<Rightarrow> string \<Rightarrow> bool" where
  "stale_lease cf c k \<longleftrightarrow>
     (\<exists>(t, r, x) \<in> set (cf_replies cf). \<exists>v.
        r = lease_get k c \<and> x = GotValue OK v granted \<and> hs_hashmap (cf_server cf) k \<noteq> Some (JStr v) \<and>
        (\<forall>(t', r', x') \<in> set (cf_replies cf). t' < t + seconds LEASE_SECONDS)) \<and>
     (c, k) \<notin> set (cf_calls cf) \<and> (\<forall>(r, pc) \<in> set (cf_threads cf). \<not> waiting pc)"

text \<open>
  C28: Leases escape revocation.  Three ways in which a client of a server with one text is left
  with a lease on an old value: its \<open>Get\<close> reads the value before a \<open>Put\<close> and gets the lease after
  it; its first lease on a key is granted at the same time as another's, which replaces the entry
  it is recorded in; or of two overlapping \<open>Put\<close>s, both waiting for a slow holder, the first ends
  and lets leases be granted again while the second has still to write.
\<close>

theorem leases_escape:
  assumes "c \<noteq> d" and "old \<noteq> new" and "new \<noteq> newer"
  shows "(\<exists>cf. run_actions ([Arrive (lease_get k c), Arrive (RPut k new)] @ go 0 [0, 1, 1, 1, 1, 0, 0, 0])
      (boot (one_text k old)) = Some cf \<and> stale_lease cf c k) \<and>
    (\<exists>cf. run_actions ([Arrive (lease_get k c), Arrive (lease_get k d), Arrive (RPut k new)] @
      go 0 [0, 1, 0, 1, 0, 1, 0, 1, 2, 2, 2, 2] @ [Move 2 0 (Dial True), Move 2 0 Returns] @ go 0 [2, 2, 2, 2])
      (boot (one_text k old)) = Some cf \<and> stale_lease cf c k) \<and>
    (\<exists>cf. run_actions ([Arrive (lease_get k d)] @ go 0 [0, 0, 0, 0] @
      [Arrive (RPut k new), Arrive (RPut k newer), Arrive (lease_get k c)] @ go 0 [1, 1, 1, 1, 2, 2, 2, 2] @
      [Move 1 0 (Dial True), Move 2 0 (Dial True), Move 1 (seconds 5) Returns] @
      go (seconds 5) [1, 1, 1, 1, 3, 3, 3] @ [Move 2 (seconds 6) Returns] @ go (seconds 6) [2, 2, 2, 2])
      (boot (one_text k old)) = Some cf \<and> stale_lease cf c k)"
  using assms by (simp add: run_eval one_text_def stale_lease_def waiting_def)

theorem leases_escape_witness:
  "\<exists>cf. run_actions ([Arrive (lease_get ''k'' ''c''), Arrive (RPut ''k'' ''new'')] @ go 0 [0, 1, 1, 1, 1, 0, 0, 0])
      (boot (one_text ''k'' ''old'')) = Some cf \<and> stale_lease cf ''c'' ''k''"
  using leases_escape [of "''c''" "''d''" "''old''" "''new''" "''newer''" "''k''"] by simp

end
