(* ===== verification/StorageTester.thy ===== *)
theory StorageTester
  imports StorageThreads
begin

text \<open>
  The tester of \<open>15-440/P2-F11/storagetest\<close> with the storage server it tests, in a world with a
  clock.

  \<^item> The server's handlers are the goroutines of \<open>StorageThreads\<close>.  Computing takes no time: a
    handler runs until it waits for a lease holder, and the clock moves only when somebody sleeps
    or waits.  Of the lease holders only the tester itself can be dialled.
  \<^item> The tester's own \<open>RevokeLease\<close> notes that it was called, sleeps for the delay that the test has
    set, and notes that it is done.  The world keeps for each key when the calls began and when
    their sleep is over; \<open>recv_revoke\<close> and \<open>comp_revoke\<close> follow from that and the clock.
  \<^item> \<open>delay\<close> is kept in milliseconds.  What the tests print is not modelled, the two counters are.
\<close>

section \<open>The world\<close>

text \<open>A handler in progress: its number, and when the call it waits for will be answered.\<close>

record handler =
  hd_id :: int
  hd_request :: storage_request
  hd_pc :: handler_pc
  hd_answer :: time

record tester =
  st_clock :: time
  st_server :: heap_server
  st_master :: StorageServer
  st_handlers :: "handler list"
  st_next :: int
  st_myhostport :: string
  st_revokes :: "string \<Rightarrow> (time \<times> time) list"
  st_delay :: int
  st_passCount :: nat
  st_failCount :: nat

definition initStorageTester :: "StorageServer \<Rightarrow> string \<Rightarrow> tester" where
  "initStorageTester master myhostport =
     \<lparr>st_clock = 0, st_server = \<lparr>hs_hashmap = Map.empty, hs_leasePool = Map.empty, hs_entries = []\<rparr>,
      st_master = master, st_handlers = [], st_next = 0, st_myhostport = myhostport,
      st_revokes = (\<lambda>_. []), st_delay = 0, st_passCount = 0, st_failCount = 0\<rparr>"

definition ResetDelay :: "tester \<Rightarrow> tester" where
  "ResetDelay st = st\<lparr>st_delay := 0\<rparr>"

text \<open>The factor is given in thousandths.\<close>

definition SetDelay :: "int \<Rightarrow> tester \<Rightarrow> tester" where
  "SetDelay f st = st\<lparr>st_delay := f * (LEASE_SECONDS + LEASE_GUARD_SECONDS)\<rparr>"

text \<open>The call that \<open>RevokeLease\<close> gets now, and the time when its sleep is over.\<close>

definition tester_RevokeLease :: "string \<Rightarrow> tester \<Rightarrow> tester \<times> time" where
  "tester_RevokeLease key st =
     (let wake = st_clock st + milliseconds (st_delay st)
      in (st\<lparr>st_revokes := (st_revokes st)(key := st_revokes st key @ [(st_clock st, wake)])\<rparr>, wake))"

definition recv_revoke :: "tester \<Rightarrow> string \<Rightarrow> bool" where
  "recv_revoke st key \<longleftrightarrow> st_revokes st key \<noteq> []"

text \<open>Some call has ended, and none has begun since.\<close>

definition comp_revoke :: "tester \<Rightarrow> string \<Rightarrow> bool" where
  "comp_revoke st key \<longleftrightarrow>
     (\<exists>(begin, wake) \<in> set (st_revokes st key).
        wake \<le> st_clock st \<and> (\<forall>(begin', wake') \<in> set (st_revokes st key). begin' \<le> wake))"

section \<open>Running\<close>

text \<open>What a handler can do now.\<close>

fun ready_event :: "tester \<Rightarrow> time \<Rightarrow> handler_pc \<Rightarrow> handler_event option" where
  "ready_event st answer (NextHolder bytes p (h # rest)) =
     Some (if lease_over (st_clock st) h then Go else Dial (h_address h = st_myhostport st))"
| "ready_event st answer (Calling bytes p t rest) =
     (if answer \<le> st_clock st then Some Returns
      else if t + seconds (LEASE_SECONDS + LEASE_GUARD_SECONDS) \<le> st_clock st then Some Timeout
      else None)"
| "ready_event st answer (Replied x) = None"
| "ready_event st answer Panicked = None"
| "ready_event st answer pc = Some Go"

text \<open>A handler runs until it waits; \<open>n\<close> bounds its steps.\<close>

fun run_handler :: "nat \<Rightarrow> handler \<Rightarrow> tester \<Rightarrow> handler \<times> tester" where
  "run_handler 0 h st = (h, st)"
| "run_handler (Suc n) h st =
     (case ready_event st (hd_answer h) (hd_pc h) of
        None \<Rightarrow> (h, st)
      | Some ev \<Rightarrow>
          (case handler_step (hd_request h) (st_clock st) ev (hd_pc h) (st_server st) of
             None \<Rightarrow> (h, st)
           | Some (pc, hs) \<Rightarrow>
               (if ev = Dial True
                then (let (st1, wake) = tester_RevokeLease (req_key (hd_request h)) (st\<lparr>st_server := hs\<rparr>)
                      in run_handler n (h\<lparr>hd_pc := pc, hd_answer := wake\<rparr>) st1)
                else run_handler n (h\<lparr>hd_pc := pc\<rparr>) (st\<lparr>st_server := hs\<rparr>))))"

definition STEPS :: nat where "STEPS = 40"

fun run_all :: "handler list \<Rightarrow> tester \<Rightarrow> handler list \<times> tester" where
  "run_all [] st = ([], st)"
| "run_all (h # hs) st =
     (let (h1, st1) = run_handler STEPS h st; (hs1, st2) = run_all hs st1 in (h1 # hs1, st2))"

definition settle :: "tester \<Rightarrow> tester" where
  "settle st = (let (hs, st1) = run_all (st_handlers st) st in st1\<lparr>st_handlers := hs\<rparr>)"

text \<open>The moment at which a waiting handler goes on by itself.\<close>

fun wake_up :: "time \<Rightarrow> handler_pc \<Rightarrow> time list" where
  "wake_up answer (Calling bytes p t rest) = [min answer (t + seconds (LEASE_SECONDS + LEASE_GUARD_SECONDS))]"
| "wake_up answer _ = []"

definition moments :: "tester \<Rightarrow> time list" where
  "moments st = concat (map (\<lambda>h. wake_up (hd_answer h) (hd_pc h)) (st_handlers st))"

fun earliest :: "time list \<Rightarrow> time option" where
  "earliest [] = None"
| "earliest (t # ts) = Some (case earliest ts of None \<Rightarrow> t | Some t' \<Rightarrow> min t t')"

definition move_clock :: "time \<Rightarrow> tester \<Rightarrow> tester" where
  "move_clock now st = settle (st\<lparr>st_clock := now\<rparr>)"

text \<open>Time passes up to \<open>now\<close>, moment by moment; \<open>n\<close> bounds their number.\<close>

fun pass_until :: "nat \<Rightarrow> time \<Rightarrow> tester \<Rightarrow> tester" where
  "pass_until n now st =
     (case earliest (moments st) of
        None \<Rightarrow> move_clock now st
      | Some t \<Rightarrow>
          (if t < now then (case n of 0 \<Rightarrow> move_clock now st | Suc m \<Rightarrow> pass_until m now (move_clock t st))
           else move_clock now st))"

declare pass_until.simps [simp del]

definition MOMENTS :: nat where "MOMENTS = 20"

definition sleep :: "time \<Rightarrow> tester \<Rightarrow> tester" where
  "sleep d st = pass_until MOMENTS (st_clock st + d) st"

text \<open>
  A request is sent, and its reply is waited for.  \<open>None\<close>: the server has panicked, or nothing will
  ever happen again.
\<close>

definition send :: "storage_request \<Rightarrow> tester \<Rightarrow> int \<times> tester" where
  "send r st =
     (let h = \<lparr>hd_id = st_next st, hd_request = r, hd_pc = Begin, hd_answer = 0\<rparr>
      in (st_next st, settle (st\<lparr>st_handlers := st_handlers st @ [h], st_next := st_next st + 1\<rparr>)))"

fun reply_to :: "int \<Rightarrow> handler list \<Rightarrow> storage_response option" where
  "reply_to i [] = None"
| "reply_to i (h # hs) =
     (if hd_id h = i then (case reply_of (hd_pc h) of [] \<Rightarrow> None | x # xs \<Rightarrow> Some x) else reply_to i hs)"

fun await :: "nat \<Rightarrow> int \<Rightarrow> tester \<Rightarrow> tester \<times> storage_response option" where
  "await n i st =
     (case reply_to i (st_handlers st) of
        Some x \<Rightarrow> (st\<lparr>st_handlers := filter (\<lambda>h. hd_id h \<noteq> i) (st_handlers st)\<rparr>, Some x)
      | None \<Rightarrow>
          (if \<exists>h \<in> set (st_handlers st). hd_pc h = Panicked then (st, None)
           else
             (case earliest (moments st) of
                None \<Rightarrow> (st, None)
              | Some t \<Rightarrow> (case n of 0 \<Rightarrow> (st, None) | Suc m \<Rightarrow> await m i (move_clock t st)))))"

declare await.simps [simp del]

definition call :: "storage_request \<Rightarrow> tester \<Rightarrow> tester \<times> storage_response option" where
  "call r st = (let (i, st) = send r st in await MOMENTS i st)"

section \<open>Helper functions\<close>

text \<open>A reply with its error; the reply of a failed call has its zero value.\<close>

fun value_reply :: "tester \<times> storage_response option \<Rightarrow> tester \<times> (status_code \<times> string \<times> LeaseStruct) \<times> string option" where
  "value_reply (st, Some (GotValue status v lease)) = (st, (status, v, lease), None)"
| "value_reply (st, _) = (st, (OK, '''', no_lease), Some ''EOF'')"

fun list_reply :: "tester \<times> storage_response option \<Rightarrow> tester \<times> (status_code \<times> string list \<times> LeaseStruct) \<times> string option" where
  "list_reply (st, Some (GotList status v lease)) = (st, (status, v, lease), None)"
| "list_reply (st, _) = (st, (OK, [], no_lease), Some ''EOF'')"

fun put_reply :: "tester \<times> storage_response option \<Rightarrow> tester \<times> status_code \<times> string option" where
  "put_reply (st, Some (GotStatus status)) = (st, status, None)"
| "put_reply (st, _) = (st, OK, Some ''EOF'')"

definition tester_GetServers :: "tester \<Rightarrow> tester \<times> (bool \<times> Node list) \<times> string option" where
  "tester_GetServers st =
     (case ss_GetServers (st_master st) of
        Inl e \<Rightarrow> (st, (False, []), Some e)
      | Inr reply \<Rightarrow> (st, reply, None))"

definition tester_RegisterServer :: "u32 \<Rightarrow> tester \<Rightarrow> tester \<times> (bool \<times> Node list) \<times> string option" where
  "tester_RegisterServer myID st =
     (let (master, r) = ss_RegisterServer \<lparr>HostPort = st_myhostport st, NodeID = myID\<rparr> (st_master st);
          st = st\<lparr>st_master := master\<rparr>
      in case r of
           Inl e \<Rightarrow> (st, (False, []), Some e)
         | Inr reply \<Rightarrow> (st, reply, None))"

definition tester_Put :: "string \<Rightarrow> string \<Rightarrow> tester \<Rightarrow> tester \<times> status_code \<times> string option" where
  "tester_Put key v st = put_reply (call (RPut key v) st)"

definition tester_Get ::
  "string \<Rightarrow> bool \<Rightarrow> tester \<Rightarrow> tester \<times> (status_code \<times> string \<times> LeaseStruct) \<times> string option" where
  "tester_Get key wantlease st =
     value_reply (call (RGet \<lparr>ga_Key = key, ga_WantLease = wantlease, ga_LeaseClient = st_myhostport st\<rparr>) st)"

definition tester_GetList ::
  "string \<Rightarrow> bool \<Rightarrow> tester \<Rightarrow> tester \<times> (status_code \<times> string list \<times> LeaseStruct) \<times> string option" where
  "tester_GetList key wantlease st =
     list_reply (call (RGetList \<lparr>ga_Key = key, ga_WantLease = wantlease, ga_LeaseClient = st_myhostport st\<rparr>) st)"

definition tester_RemoveFromList :: "string \<Rightarrow> string \<Rightarrow> tester \<Rightarrow> tester \<times> status_code \<times> string option" where
  "tester_RemoveFromList key removeitem st = put_reply (call (RRemove key removeitem) st)"

definition tester_AppendToList :: "string \<Rightarrow> string \<Rightarrow> tester \<Rightarrow> tester \<times> status_code \<times> string option" where
  "tester_AppendToList key newitem st = put_reply (call (RAppend key newitem) st)"

definition fail :: "tester \<Rightarrow> tester" where
  "fail st = st\<lparr>st_failCount := st_failCount st + 1\<rparr>"

definition pass :: "tester \<Rightarrow> tester" where
  "pass st = st\<lparr>st_passCount := st_passCount st + 1\<rparr>"

definition checkErrorStatus :: "string option \<Rightarrow> status_code \<Rightarrow> status_code \<Rightarrow> tester \<Rightarrow> bool \<times> tester" where
  "checkErrorStatus err status expectedStatus st =
     (if err \<noteq> None then (True, fail st)
      else if status \<noteq> expectedStatus then (True, fail st)
      else (False, st))"

definition checkError :: "string option \<Rightarrow> bool \<Rightarrow> tester \<Rightarrow> bool \<times> tester" where
  "checkError err expectError st =
     (if expectError then (if err = None then (True, fail st) else (False, st))
      else (if err \<noteq> None then (True, fail st) else (False, st)))"

definition checkList :: "string list \<Rightarrow> string list \<Rightarrow> tester \<Rightarrow> bool \<times> tester" where
  "checkList list expectedList st =
     (if length list \<noteq> length expectedList then (True, fail st)
      else if \<exists>s \<in> set expectedList. s \<notin> set list then (True, fail st)
      else (False, st))"

definition isTimeOK :: "time \<Rightarrow> bool" where
  "isTimeOK d = (d < milliseconds 500)"

definition cacheKey :: "string \<Rightarrow> tester \<Rightarrow> bool \<times> tester" where
  "cacheKey key st =
     (let (st, replyP, err) = tester_Put key ''old-value'' st;
          (bad, st) = checkErrorStatus err replyP OK st
      in if bad then (True, st) else
      let (st, (status, v, lease), err) = tester_Get key True st;
          (bad, st) = checkErrorStatus err status OK st
      in if bad then (True, st) else
      if \<not> Granted lease then (True, fail st) else (False, st))"

definition cacheKeyList :: "string \<Rightarrow> tester \<Rightarrow> bool \<times> tester" where
  "cacheKeyList key st =
     (let (st, replyP, err) = tester_AppendToList key ''old-value'' st;
          (bad, st) = checkErrorStatus err replyP OK st
      in if bad then (True, st) else
      let (st, (status, v, lease), err) = tester_GetList key True st;
          (bad, st) = checkErrorStatus err status OK st
      in if bad then (True, st) else
      if \<not> Granted lease then (True, fail st) else (False, st))"

text \<open>
  The helpers of the delayed-revoke tests: the mutation is sent in the background, \<open>f\<close> runs, then
  the mutation is waited for.  \<open>None\<close>: the thirteen seconds for that are over first, and the test
  goes on in the background of the next.
\<close>

definition delayed ::
  "storage_request \<Rightarrow> (tester \<Rightarrow> bool \<times> tester) \<Rightarrow> tester \<Rightarrow> (bool \<times> tester) option" where
  "delayed r f st =
     (let (i, st) = send r st;
          st = sleep (milliseconds 100) st;
          start = st_clock st;
          (ret, st) = f st;
          (st, status, err) = put_reply (await MOMENTS i st)
      in if st_clock st \<ge> start + seconds (LEASE_SECONDS + LEASE_GUARD_SECONDS + 1) then None else
      if ret then Some (True, st) else
      let (bad, st) = checkErrorStatus err status OK st
      in Some (bad, st))"

definition delayedRevoke ::
  "string \<Rightarrow> (tester \<Rightarrow> bool \<times> tester) \<Rightarrow> tester \<Rightarrow> (bool \<times> tester) option" where
  "delayedRevoke key f st =
     (let (bad, st) = cacheKey key st
      in if bad then Some (True, st) else delayed (RPut key ''new-value'') f st)"

definition delayedRevokeList ::
  "string \<Rightarrow> (tester \<Rightarrow> bool \<times> tester) \<Rightarrow> tester \<Rightarrow> (bool \<times> tester) option" where
  "delayedRevokeList key f st =
     (let (bad, st) = cacheKeyList key st
      in if bad then Some (True, st) else delayed (RAppend key ''new-value'') f st)"

end
