(* ===== verification/TestSuite.thy ===== *)
theory TestSuite
  imports Prelude
begin

text \<open>
  Test programs: named tests of which those are run whose names match a regular expression.  A test
  is a function of the state of everything it touches; \<open>None\<close> is the end of the process.
\<close>

type_synonym 's TestFunc = "string \<times> ('s \<Rightarrow> 's go)"

fun run_tests :: "'s TestFunc list \<Rightarrow> 's \<Rightarrow> 's go" where
  "run_tests [] st = Some st"
| "run_tests ((name, f) # ts) st = do { st \<leftarrow> f st; run_tests ts st }"

section \<open>Verdicts\<close>

text \<open>A test with the keys it uses and what it adds to the two counters.\<close>

type_synonym 's judged = "'s TestFunc \<times> string list \<times> nat \<times> nat"

fun keys_of :: "'s judged list \<Rightarrow> string list" where
  "keys_of [] = []"
| "keys_of ((t, ks, d) # js) = ks @ keys_of js"

fun score :: "(string \<Rightarrow> bool) \<Rightarrow> 's judged list \<Rightarrow> nat \<times> nat" where
  "score matches [] = (0, 0)"
| "score matches (((name, f), ks, p, q) # js) =
     (let (ps, qs) = score matches js in if matches name then (p + ps, q + qs) else (ps, qs))"

text \<open>
  When a test finds the system at rest and its keys new, it runs to its end, leaves the system at
  rest, and no other key is less new than before.
\<close>

definition verdict ::
  "('s \<Rightarrow> bool) \<Rightarrow> ('s \<Rightarrow> string \<Rightarrow> bool) \<Rightarrow> ('s \<Rightarrow> nat \<times> nat) \<Rightarrow>
   string list \<Rightarrow> nat \<times> nat \<Rightarrow> ('s \<Rightarrow> 's go) \<Rightarrow> bool" where
  "verdict resting new_key counts ks d t \<longleftrightarrow>
     (\<forall>st. resting st \<longrightarrow> (\<forall>k \<in> set ks. new_key st k) \<longrightarrow>
        (case t st of
           None \<Rightarrow> False
         | Some st' \<Rightarrow>
             resting st' \<and> fst (counts st') = fst (counts st) + fst d \<and> snd (counts st') = snd (counts st) + snd d \<and>
             (\<forall>k. k \<notin> set ks \<longrightarrow> new_key st k \<longrightarrow> new_key st' k)))"

text \<open>Tests that use different keys do not disturb each other, so their verdicts add up.\<close>

locale test_suite =
  fixes resting :: "'s \<Rightarrow> bool" and new_key :: "'s \<Rightarrow> string \<Rightarrow> bool" and counts :: "'s \<Rightarrow> nat \<times> nat"
    and judged :: "'s judged list"
  assumes verdicts: "((name, f), ks, d) \<in> set judged \<Longrightarrow> verdict resting new_key counts ks d f"
    and distinct_keys: "distinct (keys_of judged)"
begin

lemma run_part:
  assumes "set js \<subseteq> set judged" and "distinct (keys_of js)" and "resting st"
    and "\<forall>k \<in> set (keys_of js). new_key st k"
  shows "map_option counts (run_tests (filter (\<lambda>(name, f). matches name) (map fst js)) st) =
         Some (fst (counts st) + fst (score matches js), snd (counts st) + snd (score matches js))"
  using assms
proof (induction js arbitrary: st)
  case (Cons j js)
  obtain name f ks p q where j: "j = ((name, f), ks, p, q)" by (metis surj_pair)
  have rest: "set js \<subseteq> set judged" "distinct (keys_of js)" "\<forall>k \<in> set (keys_of js). new_key st k"
      "set ks \<inter> set (keys_of js) = {}"
    using Cons.prems by (auto simp: j)
  show ?case
  proof (cases "matches name")
    case False
    then show ?thesis using Cons.IH [OF rest(1,2) Cons.prems(3) rest(3)] by (simp add: j split: prod.splits)
  next
    case True
    have "verdict resting new_key counts ks (p, q) f"
      using Cons.prems(1) by (intro verdicts) (auto simp: j)
    moreover have "\<forall>k \<in> set ks. new_key st k" using Cons.prems(4) by (simp add: j)
    ultimately obtain st' where st': "f st = Some st'" "resting st'"
        "fst (counts st') = fst (counts st) + p" "snd (counts st') = snd (counts st) + q"
        "\<forall>k. k \<notin> set ks \<longrightarrow> new_key st k \<longrightarrow> new_key st' k"
      using Cons.prems(3) unfolding verdict_def by (cases "f st") fastforce+
    have "\<forall>k \<in> set (keys_of js). new_key st' k" using rest(3,4) st'(5) by blast
    from Cons.IH [OF rest(1,2) st'(2) this] True st'(1,3,4) show ?thesis
      by (auto simp: j add.assoc split: prod.splits)
  qed
qed simp

lemma run_selected:
  assumes "resting st" and "\<forall>k \<in> set (keys_of judged). new_key st k"
  shows "map_option counts (run_tests (filter (\<lambda>(name, f). matches name) (map fst judged)) st) =
         Some (fst (counts st) + fst (score matches judged), snd (counts st) + snd (score matches judged))"
  using run_part [OF subset_refl distinct_keys assms] .

end

text \<open>When only the tests of some names fail.\<close>

lemma score_counts:
  "\<forall>((name, f), ks, d) \<in> set js. d = (if bad name then (0, 1) else (1, 0)) \<Longrightarrow>
   score matches js =
     (length (filter (\<lambda>(name, f). matches name \<and> \<not> bad name) (map fst js)),
      length (filter (\<lambda>(name, f). matches name \<and> bad name) (map fst js)))"
  by (induction matches js rule: score.induct) (auto split: prod.splits)

end
