(* ===== verification/StorageTest.thy ===== *)
theory StorageTest
  imports StorageTester TestSuite
begin

text \<open>
  The tests of \<open>15-440/P2-F11/storagetest\<close>, statement by statement, over the world of
  \<open>StorageTester\<close>, and what becomes of them.  A test that gives up counts a failure and returns, one
  that reaches its end counts a success.
\<close>

section \<open>Initialization and basic operations\<close>

definition testInitStorageServers :: "int \<Rightarrow> u32 \<Rightarrow> tester \<Rightarrow> tester" where
  "testInitStorageServers numServer myID st =
     (let (st, (ready, servers), err) = tester_GetServers st;
          (bad, st) = checkError err False st
      in if bad then st else
      if ready then fail st else
      let (st, (ready, servers), err) = tester_RegisterServer myID st;
          (bad, st) = checkError err False st
      in if bad then st else
      if \<not> ready \<or> servers = [] then fail st else
      if int (length servers) \<noteq> numServer then fail st else
      let (st, (status, v, lease), err) = tester_Get ''wrongkey:1'' False st;
          (bad, st) = checkErrorStatus err status EWRONGSERVER st
      in if bad then st else pass st)"

definition testPutGet :: "tester \<Rightarrow> tester" where
  "testPutGet st =
     (let (st, (status, v, lease), err) = tester_Get ''nullkey:1'' False st;
          (bad, st) = checkErrorStatus err status EKEYNOTFOUND st
      in if bad then st else
      let (st, replyP, err) = tester_Put ''keyputget:1'' ''value'' st;
          (bad, st) = checkErrorStatus err replyP OK st
      in if bad then st else
      let (st, (status, v, lease), err) = tester_Get ''keyputget:1'' False st;
          (bad, st) = checkErrorStatus err status OK st
      in if bad then st else
      if v \<noteq> ''value'' then fail st else
      if Granted lease then fail st else
      let (st, (status, v, lease), err) = tester_Get ''keyputget:1'' True st;
          (bad, st) = checkErrorStatus err status OK st
      in if bad then st else
      if v \<noteq> ''value'' then fail st else
      if \<not> Granted lease then fail st else pass st)"

definition testAppendGetRemoveList :: "tester \<Rightarrow> tester" where
  "testAppendGetRemoveList st =
     (let (st, replyP, err) = tester_AppendToList ''keylist:1'' ''value1'' st;
          (bad, st) = checkErrorStatus err replyP OK st
      in if bad then st else
      let (st, (status, v, lease), err) = tester_GetList ''keylist:1'' False st;
          (bad, st) = checkErrorStatus err status OK st
      in if bad then st else
      if length v \<noteq> 1 \<or> v ! 0 \<noteq> ''value1'' then fail st else
      let (st, replyP, err) = tester_AppendToList ''keylist:1'' ''value1'' st;
          (bad, st) = checkErrorStatus err replyP EITEMEXISTS st
      in if bad then st else
      let (st, replyP, err) = tester_AppendToList ''keylist:1'' ''value2'' st;
          (bad, st) = checkErrorStatus err replyP OK st
      in if bad then st else
      let (st, replyP, err) = tester_RemoveFromList ''keylist:1'' ''value1'' st;
          (bad, st) = checkErrorStatus err replyP OK st
      in if bad then st else
      let (st, replyP, err) = tester_RemoveFromList ''keylist:1'' ''value1'' st;
          (bad, st) = checkErrorStatus err replyP EITEMNOTFOUND st
      in if bad then st else
      let (st, (status, v, lease), err) = tester_GetList ''keylist:1'' False st;
          (bad, st) = checkErrorStatus err status OK st
      in if bad then st else
      if length v \<noteq> 1 \<or> v ! 0 \<noteq> ''value2'' then fail st else pass st)"

section \<open>Updates of a key\<close>

definition testUpdateWithoutLease :: "tester \<Rightarrow> tester" where
  "testUpdateWithoutLease st =
     (let key = ''revokekey:0'';
          (st, replyP, err) = tester_Put key ''value'' st;
          (bad, st) = checkErrorStatus err replyP OK st
      in if bad then st else
      let (st, (status, v, lease), err) = tester_Get key False st;
          (bad, st) = checkErrorStatus err status OK st
      in if bad then st else
      let (st, replyP, err) = tester_Put key ''value1'' st;
          (bad, st) = checkErrorStatus err replyP OK st
      in if bad then st else
      let (st, (status, v, lease), err) = tester_Get key False st;
          (bad, st) = checkErrorStatus err status OK st
      in if bad then st else
      if recv_revoke st key then fail st else pass st)"

definition testUpdateBeforeLeaseExpire :: "tester \<Rightarrow> tester" where
  "testUpdateBeforeLeaseExpire st =
     (let key = ''revokekey:1'';
          (bad, st) = cacheKey key st
      in if bad then st else
      let (st, replyP, err) = tester_Put key ''value1'' st;
          (bad, st) = checkErrorStatus err replyP OK st
      in if bad then st else
      let (st, (status, v, lease), err) = tester_Get key False st;
          (bad, st) = checkErrorStatus err status OK st
      in if bad then st else
      if v \<noteq> ''value1'' then fail st else
      if \<not> recv_revoke st key then fail st else pass st)"

definition testUpdateAfterLeaseExpire :: "tester \<Rightarrow> tester" where
  "testUpdateAfterLeaseExpire st =
     (let key = ''revokekey:2'';
          (bad, st) = cacheKey key st
      in if bad then st else
      let st = sleep (seconds (LEASE_SECONDS + LEASE_GUARD_SECONDS + 1)) st;
          (st, replyP, err) = tester_Put key ''value1'' st;
          (bad, st) = checkErrorStatus err replyP OK st
      in if bad then st else
      let (st, (status, v, lease), err) = tester_Get key False st;
          (bad, st) = checkErrorStatus err status OK st
      in if bad then st else
      if v \<noteq> ''value1'' then fail st else
      if recv_revoke st key then fail st else pass st)"

section \<open>Updates of a key while its leases are being revoked\<close>

text \<open>The delay in thousandths, the key, and the function that is run during the revocation.\<close>

definition delayed_test ::
  "(string \<Rightarrow> (tester \<Rightarrow> bool \<times> tester) \<Rightarrow> tester \<Rightarrow> (bool \<times> tester) option) \<Rightarrow>
   int \<Rightarrow> string \<Rightarrow> (tester \<Rightarrow> bool \<times> tester) \<Rightarrow> tester \<Rightarrow> tester option" where
  "delayed_test helper delay key1 f st = do {
     (bad, st) \<leftarrow> helper key1 f (SetDelay delay st);
     Some (ResetDelay (if bad then st else pass st)) }"

definition duringWithoutBlocking :: "string \<Rightarrow> tester \<Rightarrow> bool \<times> tester" where
  "duringWithoutBlocking key2 st =
     (let ts = st_clock st;
          (st, replyP, err) = tester_Put key2 ''value'' st;
          (bad, st) = checkErrorStatus err replyP OK st
      in if bad then (True, st) else
      if \<not> isTimeOK (st_clock st - ts) then (True, fail st) else
      let ts = st_clock st;
          (st, (status, v, lease), err) = tester_Get key2 False st;
          (bad, st) = checkErrorStatus err status OK st
      in if bad then (True, st) else
      if v \<noteq> ''value'' then (True, fail st) else
      if \<not> isTimeOK (st_clock st - ts) then (True, fail st) else (False, st))"

definition testDelayedRevokeWithoutBlocking :: "tester \<Rightarrow> tester option" where
  "testDelayedRevokeWithoutBlocking st =
     (let key1 = ''revokekey:3''; key2 = ''revokekey:4''
      in delayed_test delayedRevoke 500 key1 (duringWithoutBlocking key2) st)"

definition duringLeaseRequest1 :: "string \<Rightarrow> tester \<Rightarrow> bool \<times> tester" where
  "duringLeaseRequest1 key1 st =
     (let ts = st_clock st;
          (st, (status, v, lease), err) = tester_Get key1 True st;
          (bad, st) = checkErrorStatus err status OK st
      in if bad then (True, st) else
      if isTimeOK (st_clock st - ts)
      then (if Granted lease \<or> v \<noteq> ''old-value'' then (True, fail st) else (False, st))
      else (if \<not> comp_revoke st key1 \<or> (\<not> Granted lease \<or> v \<noteq> ''new-value'')
            then (True, fail st) else (False, st)))"

definition testDelayedRevokeWithLeaseRequest1 :: "tester \<Rightarrow> tester option" where
  "testDelayedRevokeWithLeaseRequest1 st =
     (let key1 = ''revokekey:5''
      in delayed_test delayedRevoke 500 key1 (duringLeaseRequest1 key1) st)"

definition duringLeaseRequest2 :: "string \<Rightarrow> tester \<Rightarrow> bool \<times> tester" where
  "duringLeaseRequest2 key1 st =
     (let ts = st_clock st;
          (st, (status, v, lease), err) = tester_Get key1 True st;
          (bad, st) = checkErrorStatus err status OK st
      in if bad then (True, st) else
      if isTimeOK (st_clock st - ts)
      then (if Granted lease \<or> v \<noteq> ''old-value'' then (True, fail st) else (False, st))
      else (if comp_revoke st key1 \<or> (\<not> Granted lease \<or> v \<noteq> ''new-value'')
            then (True, fail st) else (False, st)))"

definition testDelayedRevokeWithLeaseRequest2 :: "tester \<Rightarrow> tester option" where
  "testDelayedRevokeWithLeaseRequest2 st =
     (let key1 = ''revokekey:15''
      in delayed_test delayedRevoke 2000 key1 (duringLeaseRequest2 key1) st)"

definition duringUpdate1 :: "string \<Rightarrow> tester \<Rightarrow> bool \<times> tester" where
  "duringUpdate1 key1 st =
     (let (st, replyP, err) = tester_Put key1 ''newnew-value'' st;
          (bad, st) = checkErrorStatus err replyP OK st
      in if bad then (True, st) else
      if \<not> comp_revoke st key1 then (True, fail st) else
      let (st, (status, v, lease), err) = tester_Get key1 False st;
          (bad, st) = checkErrorStatus err status OK st
      in if bad then (True, st) else
      if v \<noteq> ''newnew-value'' then (True, fail st) else (False, st))"

definition testDelayedRevokeWithUpdate1 :: "tester \<Rightarrow> tester option" where
  "testDelayedRevokeWithUpdate1 st =
     (let key1 = ''revokekey:6''
      in delayed_test delayedRevoke 500 key1 (duringUpdate1 key1) st)"

definition duringUpdate2 :: "string \<Rightarrow> tester \<Rightarrow> bool \<times> tester" where
  "duringUpdate2 key1 st =
     (let ts = st_clock st;
          (st, replyP, err) = tester_Put key1 ''newnew-value'' st;
          (bad, st) = checkErrorStatus err replyP OK st
      in if bad then (True, st) else
      let d = st_clock st - ts
      in if d < seconds (LEASE_SECONDS + LEASE_GUARD_SECONDS - 1) then (True, fail st) else
      if comp_revoke st key1 then (True, fail st) else
      let (st, (status, v, lease), err) = tester_Get key1 False st;
          (bad, st) = checkErrorStatus err status OK st
      in if bad then (True, st) else
      if v \<noteq> ''newnew-value'' then (True, fail st) else (False, st))"

definition testDelayedRevokeWithUpdate2 :: "tester \<Rightarrow> tester option" where
  "testDelayedRevokeWithUpdate2 st =
     (let key1 = ''revokekey:7''
      in delayed_test delayedRevoke 2000 key1 (duringUpdate2 key1) st)"

definition duringUpdate3 :: "string \<Rightarrow> tester \<Rightarrow> bool \<times> tester" where
  "duringUpdate3 key1 st =
     (let st = sleep (seconds (LEASE_SECONDS + LEASE_GUARD_SECONDS)) st;
          ts = st_clock st;
          (st, replyP, err) = tester_Put key1 ''newnew-value'' st;
          (bad, st) = checkErrorStatus err replyP OK st
      in if bad then (True, st) else
      if \<not> isTimeOK (st_clock st - ts) then (True, fail st) else
      let ts = st_clock st;
          (st, (status, v, lease), err) = tester_Get key1 True st;
          (bad, st) = checkErrorStatus err status OK st
      in if bad then (True, st) else
      if v \<noteq> ''newnew-value'' then (True, fail st) else
      if \<not> isTimeOK (st_clock st - ts) then (True, fail st) else (False, st))"

definition testDelayedRevokeWithUpdate3 :: "tester \<Rightarrow> tester option" where
  "testDelayedRevokeWithUpdate3 st =
     (let key1 = ''revokekey:8''
      in delayed_test delayedRevoke 2000 key1 (duringUpdate3 key1) st)"

section \<open>Updates of a list\<close>

definition testUpdateListWithoutLease :: "tester \<Rightarrow> tester" where
  "testUpdateListWithoutLease st =
     (let key = ''revokelistkey:0'';
          (st, replyP, err) = tester_AppendToList key ''value'' st;
          (bad, st) = checkErrorStatus err replyP OK st
      in if bad then st else
      let (st, (status, v, lease), err) = tester_GetList key False st;
          (bad, st) = checkErrorStatus err status OK st
      in if bad then st else
      let (st, replyP, err) = tester_AppendToList key ''value1'' st;
          (bad, st) = checkErrorStatus err replyP OK st
      in if bad then st else
      let (st, replyP, err) = tester_RemoveFromList key ''value1'' st;
          (bad, st) = checkErrorStatus err replyP OK st
      in if bad then st else
      let (st, (status, v, lease), err) = tester_GetList key False st;
          (bad, st) = checkErrorStatus err status OK st
      in if bad then st else
      if recv_revoke st key then fail st else pass st)"

definition testUpdateListBeforeLeaseExpire :: "tester \<Rightarrow> tester" where
  "testUpdateListBeforeLeaseExpire st =
     (let key = ''revokelistkey:1'';
          (bad, st) = cacheKeyList key st
      in if bad then st else
      let (st, replyP, err) = tester_AppendToList key ''value1'' st;
          (bad, st) = checkErrorStatus err replyP OK st
      in if bad then st else
      let (st, replyP, err) = tester_RemoveFromList key ''value1'' st;
          (bad, st) = checkErrorStatus err replyP OK st
      in if bad then st else
      let (st, (status, v, lease), err) = tester_GetList key False st;
          (bad, st) = checkErrorStatus err status OK st
      in if bad then st else
      if length v \<noteq> 1 \<or> v ! 0 \<noteq> ''old-value'' then fail st else
      if \<not> recv_revoke st key then fail st else pass st)"

definition testUpdateListAfterLeaseExpire :: "tester \<Rightarrow> tester" where
  "testUpdateListAfterLeaseExpire st =
     (let key = ''revokelistkey:2'';
          (bad, st) = cacheKeyList key st
      in if bad then st else
      let st = sleep (seconds (LEASE_SECONDS + LEASE_GUARD_SECONDS + 1)) st;
          (st, replyP, err) = tester_AppendToList key ''value1'' st;
          (bad, st) = checkErrorStatus err replyP OK st
      in if bad then st else
      let (st, replyP, err) = tester_RemoveFromList key ''value1'' st;
          (bad, st) = checkErrorStatus err replyP OK st
      in if bad then st else
      let (st, (status, v, lease), err) = tester_GetList key False st;
          (bad, st) = checkErrorStatus err status OK st
      in if bad then st else
      if length v \<noteq> 1 \<or> v ! 0 \<noteq> ''old-value'' then fail st else
      if recv_revoke st key then fail st else pass st)"

section \<open>Updates of a list while its leases are being revoked\<close>

definition duringListWithoutBlocking :: "string \<Rightarrow> tester \<Rightarrow> bool \<times> tester" where
  "duringListWithoutBlocking key2 st =
     (let ts = st_clock st;
          (st, replyP, err) = tester_AppendToList key2 ''value'' st;
          (bad, st) = checkErrorStatus err replyP OK st
      in if bad then (True, st) else
      if \<not> isTimeOK (st_clock st - ts) then (True, fail st) else
      let ts = st_clock st;
          (st, (status, v, lease), err) = tester_GetList key2 False st;
          (bad, st) = checkErrorStatus err status OK st
      in if bad then (True, st) else
      if length v \<noteq> 1 \<or> v ! 0 \<noteq> ''value'' then (True, fail st) else
      if \<not> isTimeOK (st_clock st - ts) then (True, fail st) else (False, st))"

definition testDelayedRevokeListWithoutBlocking :: "tester \<Rightarrow> tester option" where
  "testDelayedRevokeListWithoutBlocking st =
     (let key1 = ''revokelistkey:3''; key2 = ''revokelistkey:4''
      in delayed_test delayedRevokeList 500 key1 (duringListWithoutBlocking key2) st)"

definition duringListLeaseRequest1 :: "string \<Rightarrow> tester \<Rightarrow> bool \<times> tester" where
  "duringListLeaseRequest1 key1 st =
     (let ts = st_clock st;
          (st, (status, v, lease), err) = tester_GetList key1 True st;
          (bad, st) = checkErrorStatus err status OK st
      in if bad then (True, st) else
      if isTimeOK (st_clock st - ts)
      then (if Granted lease \<or> length v \<noteq> 1 \<or> v ! 0 \<noteq> ''old-value'' then (True, fail st) else (False, st))
      else (let (bad, st) = checkList v [''old-value'', ''new-value''] st
            in if bad then (True, st) else
            if \<not> comp_revoke st key1 \<or> \<not> Granted lease then (True, fail st) else (False, st)))"

definition testDelayedRevokeListWithLeaseRequest1 :: "tester \<Rightarrow> tester option" where
  "testDelayedRevokeListWithLeaseRequest1 st =
     (let key1 = ''revokelistkey:5''
      in delayed_test delayedRevokeList 500 key1 (duringListLeaseRequest1 key1) st)"

definition duringListLeaseRequest2 :: "string \<Rightarrow> tester \<Rightarrow> bool \<times> tester" where
  "duringListLeaseRequest2 key1 st =
     (let ts = st_clock st;
          (st, (status, v, lease), err) = tester_GetList key1 True st;
          (bad, st) = checkErrorStatus err status OK st
      in if bad then (True, st) else
      if isTimeOK (st_clock st - ts)
      then (if Granted lease \<or> length v \<noteq> 1 \<or> v ! 0 \<noteq> ''old-value'' then (True, fail st) else (False, st))
      else (let (bad, st) = checkList v [''old-value'', ''new-value''] st
            in if bad then (True, st) else
            if comp_revoke st key1 \<or> \<not> Granted lease then (True, fail st) else (False, st)))"

definition testDelayedRevokeListWithLeaseRequest2 :: "tester \<Rightarrow> tester option" where
  "testDelayedRevokeListWithLeaseRequest2 st =
     (let key1 = ''revokelistkey:15''
      in delayed_test delayedRevokeList 2000 key1 (duringListLeaseRequest2 key1) st)"

definition duringListUpdate1 :: "string \<Rightarrow> tester \<Rightarrow> bool \<times> tester" where
  "duringListUpdate1 key1 st =
     (let (st, replyP, err) = tester_AppendToList key1 ''newnew-value'' st;
          (bad, st) = checkErrorStatus err replyP OK st
      in if bad then (True, st) else
      if \<not> comp_revoke st key1 then (True, fail st) else
      let (st, (status, v, lease), err) = tester_GetList key1 False st;
          (bad, st) = checkErrorStatus err status OK st
      in if bad then (True, st) else
      let (bad, st) = checkList v [''old-value'', ''new-value'', ''newnew-value''] st
      in if bad then (True, st) else (False, st))"

definition testDelayedRevokeListWithUpdate1 :: "tester \<Rightarrow> tester option" where
  "testDelayedRevokeListWithUpdate1 st =
     (let key1 = ''revokelistkey:6''
      in delayed_test delayedRevokeList 500 key1 (duringListUpdate1 key1) st)"

definition duringListUpdate2 :: "string \<Rightarrow> tester \<Rightarrow> bool \<times> tester" where
  "duringListUpdate2 key1 st =
     (let ts = st_clock st;
          (st, replyP, err) = tester_AppendToList key1 ''newnew-value'' st;
          (bad, st) = checkErrorStatus err replyP OK st
      in if bad then (True, st) else
      let d = st_clock st - ts
      in if d < seconds (LEASE_SECONDS + LEASE_GUARD_SECONDS - 1) then (True, fail st) else
      if comp_revoke st key1 then (True, fail st) else
      let (st, (status, v, lease), err) = tester_GetList key1 False st;
          (bad, st) = checkErrorStatus err status OK st
      in if bad then (True, st) else
      let (bad, st) = checkList v [''old-value'', ''new-value'', ''newnew-value''] st
      in if bad then (True, st) else (False, st))"

definition testDelayedRevokeListWithUpdate2 :: "tester \<Rightarrow> tester option" where
  "testDelayedRevokeListWithUpdate2 st =
     (let key1 = ''revokelistkey:7''
      in delayed_test delayedRevokeList 2000 key1 (duringListUpdate2 key1) st)"

definition duringListUpdate3 :: "string \<Rightarrow> tester \<Rightarrow> bool \<times> tester" where
  "duringListUpdate3 key1 st =
     (let st = sleep (seconds (LEASE_SECONDS + LEASE_GUARD_SECONDS)) st;
          ts = st_clock st;
          (st, replyP, err) = tester_AppendToList key1 ''newnew-value'' st;
          (bad, st) = checkErrorStatus err replyP OK st
      in if bad then (True, st) else
      if \<not> isTimeOK (st_clock st - ts) then (True, fail st) else
      let ts = st_clock st;
          (st, (status, v, lease), err) = tester_GetList key1 True st;
          (bad, st) = checkErrorStatus err status OK st
      in if bad then (True, st) else
      let (bad, st) = checkList v [''old-value'', ''new-value'', ''newnew-value''] st
      in if bad then (True, st) else
      if \<not> isTimeOK (st_clock st - ts) then (True, fail st) else (False, st))"

definition testDelayedRevokeListWithUpdate3 :: "tester \<Rightarrow> tester option" where
  "testDelayedRevokeListWithUpdate3 st =
     (let key1 = ''revokelistkey:8''
      in delayed_test delayedRevokeList 2000 key1 (duringListUpdate3 key1) st)"

section \<open>The test run\<close>

definition jtests :: "int \<Rightarrow> u32 \<Rightarrow> tester TestFunc list" where
  "jtests numServer myID =
     [(''testInitStorageServers'', \<lambda>st. Some (testInitStorageServers numServer myID st))]"

definition btests :: "tester TestFunc list" where
  "btests =
     [(''testPutGet'', \<lambda>st. Some (testPutGet st)),
      (''testAppendGetRemoveList'', \<lambda>st. Some (testAppendGetRemoveList st)),
      (''testUpdateWithoutLease'', \<lambda>st. Some (testUpdateWithoutLease st)),
      (''testUpdateBeforeLeaseExpire'', \<lambda>st. Some (testUpdateBeforeLeaseExpire st)),
      (''testUpdateAfterLeaseExpire'', \<lambda>st. Some (testUpdateAfterLeaseExpire st)),
      (''testDelayedRevokeWithoutBlocking'', testDelayedRevokeWithoutBlocking),
      (''testDelayedRevokeWithLeaseRequest1'', testDelayedRevokeWithLeaseRequest1),
      (''testDelayedRevokeWithLeaseRequest2'', testDelayedRevokeWithLeaseRequest2),
      (''testDelayedRevokeWithUpdate1'', testDelayedRevokeWithUpdate1),
      (''testDelayedRevokeWithUpdate2'', testDelayedRevokeWithUpdate2),
      (''testDelayedRevokeWithUpdate3'', testDelayedRevokeWithUpdate3),
      (''testUpdateListWithoutLease'', \<lambda>st. Some (testUpdateListWithoutLease st)),
      (''testUpdateListBeforeLeaseExpire'', \<lambda>st. Some (testUpdateListBeforeLeaseExpire st)),
      (''testUpdateListAfterLeaseExpire'', \<lambda>st. Some (testUpdateListAfterLeaseExpire st)),
      (''testDelayedRevokeListWithoutBlocking'', testDelayedRevokeListWithoutBlocking),
      (''testDelayedRevokeListWithLeaseRequest1'', testDelayedRevokeListWithLeaseRequest1),
      (''testDelayedRevokeListWithLeaseRequest2'', testDelayedRevokeListWithLeaseRequest2),
      (''testDelayedRevokeListWithUpdate1'', testDelayedRevokeListWithUpdate1),
      (''testDelayedRevokeListWithUpdate2'', testDelayedRevokeListWithUpdate2),
      (''testDelayedRevokeListWithUpdate3'', testDelayedRevokeListWithUpdate3)]"

text \<open>
  The flags: the type of test, the number of servers, the tester's id, and the tests whose names
  match the regular expression.
\<close>

definition storagetest_main ::
  "int \<Rightarrow> int \<Rightarrow> u32 \<Rightarrow> (string \<Rightarrow> bool) \<Rightarrow> StorageServer \<Rightarrow> string \<Rightarrow> (nat \<times> nat) option" where
  "storagetest_main testType numServer myID matches master myhostport =
     map_option (\<lambda>st. (st_passCount st, st_failCount st))
       (run_tests
         (filter (\<lambda>(name, f). matches name)
           (if testType = 1 then jtests numServer myID else if testType = 2 then btests else []))
         (initStorageTester master myhostport))"

end
