(* ===== verification/StorageVerdict.thy ===== *)
theory StorageVerdict
  imports StorageTest
begin

text \<open>
  What the tests of \<open>15-440/P2-F11/storagetest\<close> say about the server.  The tests of the second kind
  use different keys, so each can be judged by itself, on a server that is at rest and has never
  seen its keys; the verdict on any selection of them is the sum.
\<close>

section \<open>Running a handler that does not wait\<close>

fun solo :: "nat \<Rightarrow> storage_request \<Rightarrow> time \<Rightarrow> handler_pc \<Rightarrow> heap_server \<Rightarrow> (storage_response \<times> heap_server) option" where
  "solo n r now (Replied x) hs = Some (x, hs)"
| "solo 0 r now pc hs = None"
| "solo (Suc n) r now pc hs =
     (case handler_step r now Go pc hs of None \<Rightarrow> None | Some (pc1, hs1) \<Rightarrow> solo n r now pc1 hs1)"

lemma ready_go: "handler_step r (st_clock st) Go pc hs = Some y \<Longrightarrow> ready_event st a pc = Some Go"
  by (cases "(st, a, pc)" rule: ready_event.cases) (auto split: if_splits)

lemma run_handler_solo:
  "solo n (hd_request h) (st_clock st) (hd_pc h) (st_server st) = Some (x, hs) \<Longrightarrow>
   run_handler n h st = (h\<lparr>hd_pc := Replied x\<rparr>, st\<lparr>st_server := hs\<rparr>)"
proof (induction n arbitrary: h st)
  case 0
  then show ?case by (cases "hd_pc h") auto
next
  case (Suc n)
  show ?case
  proof (cases "\<exists>y. hd_pc h = Replied y")
    case True
    with Suc.prems show ?thesis by auto
  next
    case False
    then have "solo (Suc n) (hd_request h) (st_clock st) (hd_pc h) (st_server st) =
      (case handler_step (hd_request h) (st_clock st) Go (hd_pc h) (st_server st) of None \<Rightarrow> None
       | Some (pc1, hs1) \<Rightarrow> solo n (hd_request h) (st_clock st) pc1 hs1)"
      by (cases "hd_pc h") auto
    with Suc.prems obtain pc1 hs1 where
      step: "handler_step (hd_request h) (st_clock st) Go (hd_pc h) (st_server st) = Some (pc1, hs1)"
      and rest: "solo n (hd_request h) (st_clock st) pc1 hs1 = Some (x, hs)"
      by (auto split: option.splits)
    from Suc.IH [of "h\<lparr>hd_pc := pc1\<rparr>" "st\<lparr>st_server := hs1\<rparr>"] rest step ready_go [OF step]
    show ?thesis by simp
  qed
qed

lemma solo_numeral:
  "solo (numeral n) r now pc hs =
     (case reply_of pc of
        x # xs \<Rightarrow> Some (x, hs)
      | [] \<Rightarrow> (case handler_step r now Go pc hs of
                 None \<Rightarrow> None
               | Some (pc1, hs1) \<Rightarrow> solo (pred_numeral n) r now pc1 hs1))"
  by (cases pc) (auto simp: numeral_eq_Suc)

text \<open>A handler is first tried without waiting, which is cheap to evaluate.\<close>

lemma run_handler_eval:
  "run_handler STEPS h st =
     (case solo 40 (hd_request h) (st_clock st) (hd_pc h) (st_server st) of
        Some (x, hs) \<Rightarrow> (h\<lparr>hd_pc := Replied x\<rparr>, st\<lparr>st_server := hs\<rparr>)
      | None \<Rightarrow> run_handler 40 h st)"
  by (auto simp: run_handler_solo STEPS_def split: option.splits)

lemma run_handler_numeral:
  "run_handler (numeral n) h st =
     (case ready_event st (hd_answer h) (hd_pc h) of
        None \<Rightarrow> (h, st)
      | Some ev \<Rightarrow>
          (case handler_step (hd_request h) (st_clock st) ev (hd_pc h) (st_server st) of
             None \<Rightarrow> (h, st)
           | Some (pc, hs) \<Rightarrow>
               (if ev = Dial True
                then (let (st1, wake) = tester_RevokeLease (req_key (hd_request h)) (st\<lparr>st_server := hs\<rparr>)
                      in run_handler (pred_numeral n) (h\<lparr>hd_pc := pc, hd_answer := wake\<rparr>) st1)
                else run_handler (pred_numeral n) (h\<lparr>hd_pc := pc\<rparr>) (st\<lparr>st_server := hs\<rparr>))))"
  by (simp add: numeral_eq_Suc)

section \<open>The verdict of a test\<close>

text \<open>No handler is running and no delay is set; server and tester have not seen the key.\<close>

definition at_rest :: "tester \<Rightarrow> bool" where
  "at_rest st \<longleftrightarrow> st_handlers st = [] \<and> st_delay st = 0"

definition unseen :: "tester \<Rightarrow> string \<Rightarrow> bool" where
  "unseen st k \<longleftrightarrow>
     hs_hashmap (st_server st) k = None \<and> hs_leasePool (st_server st) k = None \<and> st_revokes st k = []"

definition tester_counts :: "tester \<Rightarrow> nat \<times> nat" where
  "tester_counts st = (st_passCount st, st_failCount st)"

definition world where
  "world c m lp es ms nx h rv p f =
     \<lparr>st_clock = c, st_server = \<lparr>hs_hashmap = m, hs_leasePool = lp, hs_entries = es\<rparr>,
      st_master = ms, st_handlers = [], st_next = nx, st_myhostport = h,
      st_revokes = rv, st_delay = 0, st_passCount = p, st_failCount = f\<rparr>"

lemma at_rest_world:
  assumes "at_rest st"
  obtains c m lp es ms nx h rv p f where "st = world c m lp es ms nx h rv p f"
proof (rule that)
  show "st = world (st_clock st) (hs_hashmap (st_server st)) (hs_leasePool (st_server st))
    (hs_entries (st_server st)) (st_master st) (st_next st) (st_myhostport st) (st_revokes st)
    (st_passCount st) (st_failCount st)"
    using assms by (simp add: at_rest_def world_def)
qed

lemma verdictI:
  assumes "\<And>c m lp es ms nx h rv p f. \<forall>k \<in> set ks. m k = None \<and> lp k = None \<and> rv k = [] \<Longrightarrow>
    (case t (world c m lp es ms nx h rv p f) of
       None \<Rightarrow> False
     | Some st' \<Rightarrow> at_rest st' \<and> tester_counts st' = (p + fst d, f + snd d) \<and>
         (\<forall>k. k \<notin> set ks \<longrightarrow> m k = None \<and> lp k = None \<and> rv k = [] \<longrightarrow> unseen st' k))"
  shows "verdict at_rest unseen tester_counts ks d t"
  unfolding verdict_def
proof (intro allI impI)
  fix st assume st: "at_rest st" "\<forall>k \<in> set ks. unseen st k"
  from st(1) obtain c m lp es ms nx h rv p f where w: "st = world c m lp es ms nx h rv p f"
    by (rule at_rest_world)
  have unseen: "unseen st k \<longleftrightarrow> m k = None \<and> lp k = None \<and> rv k = []" for k
    by (simp add: unseen_def w world_def)
  have "tester_counts st = (p, f)" by (simp add: tester_counts_def w world_def)
  moreover have "case t st of None \<Rightarrow> False
     | Some st' \<Rightarrow> at_rest st' \<and> tester_counts st' = (p + fst d, f + snd d) \<and>
         (\<forall>k. k \<notin> set ks \<longrightarrow> m k = None \<and> lp k = None \<and> rv k = [] \<longrightarrow> unseen st' k)"
    unfolding w by (rule assms) (use st(2) unseen in blast)
  ultimately show "case t st of None \<Rightarrow> False
     | Some st' \<Rightarrow> at_rest st' \<and> fst (tester_counts st') = fst (tester_counts st) + fst d \<and>
         snd (tester_counts st') = snd (tester_counts st) + snd d \<and>
         (\<forall>k. k \<notin> set ks \<longrightarrow> unseen st k \<longrightarrow> unseen st' k)"
    unfolding unseen by (simp split: option.splits)
qed

text \<open>The definitions that evaluating a test unfolds.\<close>

lemmas tester_code =
  run_handler_eval run_handler_numeral solo_numeral await.simps pass_until.simps MOMENTS_def
  world_def at_rest_def tester_counts_def unseen_def
  tester_Get_def tester_Put_def tester_GetList_def tester_AppendToList_def tester_RemoveFromList_def
  call_def send_def settle_def sleep_def move_clock_def moments_def
  tester_RevokeLease_def recv_revoke_def comp_revoke_def SetDelay_def ResetDelay_def
  checkErrorStatus_def checkList_def isTimeOK_def pass_def fail_def
  cacheKey_def cacheKeyList_def delayed_def delayedRevoke_def delayedRevokeList_def delayed_test_def
  no_lease_def granted_def put_entry_def new_leaseEntry_def add_holder_def lease_over_def lease_defs

lemmas tester_congs = eval_congs handler_pc.case_cong_weak

section \<open>Each test\<close>

lemma verdict_testPutGet: "verdict at_rest unseen tester_counts [''nullkey:1''] (0, 1) (\<lambda>st. Some (testPutGet st))"
  by (rule verdictI) (simp add: testPutGet_def tester_code cong: tester_congs)

lemma verdict_testAppendGetRemoveList: "verdict at_rest unseen tester_counts [''keylist:1''] (1, 0) (\<lambda>st. Some (testAppendGetRemoveList st))"
  by (rule verdictI) (simp add: testAppendGetRemoveList_def tester_code cong: tester_congs)

lemma verdict_testUpdateWithoutLease: "verdict at_rest unseen tester_counts [''revokekey:0''] (1, 0) (\<lambda>st. Some (testUpdateWithoutLease st))"
  by (rule verdictI) (simp add: testUpdateWithoutLease_def tester_code cong: tester_congs)

lemma verdict_testUpdateBeforeLeaseExpire: "verdict at_rest unseen tester_counts [''revokekey:1''] (1, 0) (\<lambda>st. Some (testUpdateBeforeLeaseExpire st))"
  by (rule verdictI) (simp add: testUpdateBeforeLeaseExpire_def tester_code cong: tester_congs)

lemma verdict_testUpdateAfterLeaseExpire: "verdict at_rest unseen tester_counts [''revokekey:2''] (1, 0) (\<lambda>st. Some (testUpdateAfterLeaseExpire st))"
  by (rule verdictI) (simp add: testUpdateAfterLeaseExpire_def tester_code cong: tester_congs)

lemma verdict_testDelayedRevokeWithoutBlocking: "verdict at_rest unseen tester_counts [''revokekey:3'', ''revokekey:4''] (1, 0) (testDelayedRevokeWithoutBlocking)"
  by (rule verdictI) (simp add: testDelayedRevokeWithoutBlocking_def duringWithoutBlocking_def tester_code cong: tester_congs)

lemma verdict_testDelayedRevokeWithLeaseRequest1: "verdict at_rest unseen tester_counts [''revokekey:5''] (1, 0) (testDelayedRevokeWithLeaseRequest1)"
  by (rule verdictI) (simp add: testDelayedRevokeWithLeaseRequest1_def duringLeaseRequest1_def tester_code cong: tester_congs)

lemma verdict_testDelayedRevokeWithLeaseRequest2: "verdict at_rest unseen tester_counts [''revokekey:15''] (1, 0) (testDelayedRevokeWithLeaseRequest2)"
  by (rule verdictI) (simp add: testDelayedRevokeWithLeaseRequest2_def duringLeaseRequest2_def tester_code cong: tester_congs)

lemma verdict_testDelayedRevokeWithUpdate1: "verdict at_rest unseen tester_counts [''revokekey:6''] (1, 0) (testDelayedRevokeWithUpdate1)"
  by (rule verdictI) (simp add: testDelayedRevokeWithUpdate1_def duringUpdate1_def tester_code cong: tester_congs)

lemma verdict_testDelayedRevokeWithUpdate2: "verdict at_rest unseen tester_counts [''revokekey:7''] (1, 0) (testDelayedRevokeWithUpdate2)"
  by (rule verdictI) (simp add: testDelayedRevokeWithUpdate2_def duringUpdate2_def tester_code cong: tester_congs)

lemma verdict_testDelayedRevokeWithUpdate3: "verdict at_rest unseen tester_counts [''revokekey:8''] (1, 0) (testDelayedRevokeWithUpdate3)"
  by (rule verdictI) (simp add: testDelayedRevokeWithUpdate3_def duringUpdate3_def tester_code cong: tester_congs)

lemma verdict_testUpdateListWithoutLease: "verdict at_rest unseen tester_counts [''revokelistkey:0''] (1, 0) (\<lambda>st. Some (testUpdateListWithoutLease st))"
  by (rule verdictI) (simp add: testUpdateListWithoutLease_def tester_code cong: tester_congs)

lemma verdict_testUpdateListBeforeLeaseExpire: "verdict at_rest unseen tester_counts [''revokelistkey:1''] (1, 0) (\<lambda>st. Some (testUpdateListBeforeLeaseExpire st))"
  by (rule verdictI) (simp add: testUpdateListBeforeLeaseExpire_def tester_code cong: tester_congs)

lemma verdict_testUpdateListAfterLeaseExpire: "verdict at_rest unseen tester_counts [''revokelistkey:2''] (1, 0) (\<lambda>st. Some (testUpdateListAfterLeaseExpire st))"
  by (rule verdictI) (simp add: testUpdateListAfterLeaseExpire_def tester_code cong: tester_congs)

lemma verdict_testDelayedRevokeListWithoutBlocking: "verdict at_rest unseen tester_counts [''revokelistkey:3'', ''revokelistkey:4''] (1, 0) (testDelayedRevokeListWithoutBlocking)"
  by (rule verdictI) (simp add: testDelayedRevokeListWithoutBlocking_def duringListWithoutBlocking_def tester_code cong: tester_congs)

lemma verdict_testDelayedRevokeListWithLeaseRequest1: "verdict at_rest unseen tester_counts [''revokelistkey:5''] (1, 0) (testDelayedRevokeListWithLeaseRequest1)"
  by (rule verdictI) (simp add: testDelayedRevokeListWithLeaseRequest1_def duringListLeaseRequest1_def tester_code cong: tester_congs)

lemma verdict_testDelayedRevokeListWithLeaseRequest2: "verdict at_rest unseen tester_counts [''revokelistkey:15''] (1, 0) (testDelayedRevokeListWithLeaseRequest2)"
  by (rule verdictI) (simp add: testDelayedRevokeListWithLeaseRequest2_def duringListLeaseRequest2_def tester_code cong: tester_congs)

lemma verdict_testDelayedRevokeListWithUpdate1: "verdict at_rest unseen tester_counts [''revokelistkey:6''] (1, 0) (testDelayedRevokeListWithUpdate1)"
  by (rule verdictI) (simp add: testDelayedRevokeListWithUpdate1_def duringListUpdate1_def tester_code cong: tester_congs)

lemma verdict_testDelayedRevokeListWithUpdate2: "verdict at_rest unseen tester_counts [''revokelistkey:7''] (1, 0) (testDelayedRevokeListWithUpdate2)"
  by (rule verdictI) (simp add: testDelayedRevokeListWithUpdate2_def duringListUpdate2_def tester_code cong: tester_congs)

lemma verdict_testDelayedRevokeListWithUpdate3: "verdict at_rest unseen tester_counts [''revokelistkey:8''] (1, 0) (testDelayedRevokeListWithUpdate3)"
  by (rule verdictI) (simp add: testDelayedRevokeListWithUpdate3_def duringListUpdate3_def tester_code cong: tester_congs)

text \<open>The keys and the verdict of each test of the second kind.\<close>

definition judged_btests :: "tester judged list" where
  "judged_btests =
     [((''testPutGet'', \<lambda>st. Some (testPutGet st)), [''nullkey:1''], 0, 1),
      ((''testAppendGetRemoveList'', \<lambda>st. Some (testAppendGetRemoveList st)), [''keylist:1''], 1, 0),
      ((''testUpdateWithoutLease'', \<lambda>st. Some (testUpdateWithoutLease st)), [''revokekey:0''], 1, 0),
      ((''testUpdateBeforeLeaseExpire'', \<lambda>st. Some (testUpdateBeforeLeaseExpire st)), [''revokekey:1''], 1, 0),
      ((''testUpdateAfterLeaseExpire'', \<lambda>st. Some (testUpdateAfterLeaseExpire st)), [''revokekey:2''], 1, 0),
      ((''testDelayedRevokeWithoutBlocking'', testDelayedRevokeWithoutBlocking), [''revokekey:3'', ''revokekey:4''], 1, 0),
      ((''testDelayedRevokeWithLeaseRequest1'', testDelayedRevokeWithLeaseRequest1), [''revokekey:5''], 1, 0),
      ((''testDelayedRevokeWithLeaseRequest2'', testDelayedRevokeWithLeaseRequest2), [''revokekey:15''], 1, 0),
      ((''testDelayedRevokeWithUpdate1'', testDelayedRevokeWithUpdate1), [''revokekey:6''], 1, 0),
      ((''testDelayedRevokeWithUpdate2'', testDelayedRevokeWithUpdate2), [''revokekey:7''], 1, 0),
      ((''testDelayedRevokeWithUpdate3'', testDelayedRevokeWithUpdate3), [''revokekey:8''], 1, 0),
      ((''testUpdateListWithoutLease'', \<lambda>st. Some (testUpdateListWithoutLease st)), [''revokelistkey:0''], 1, 0),
      ((''testUpdateListBeforeLeaseExpire'', \<lambda>st. Some (testUpdateListBeforeLeaseExpire st)), [''revokelistkey:1''], 1, 0),
      ((''testUpdateListAfterLeaseExpire'', \<lambda>st. Some (testUpdateListAfterLeaseExpire st)), [''revokelistkey:2''], 1, 0),
      ((''testDelayedRevokeListWithoutBlocking'', testDelayedRevokeListWithoutBlocking), [''revokelistkey:3'', ''revokelistkey:4''], 1, 0),
      ((''testDelayedRevokeListWithLeaseRequest1'', testDelayedRevokeListWithLeaseRequest1), [''revokelistkey:5''], 1, 0),
      ((''testDelayedRevokeListWithLeaseRequest2'', testDelayedRevokeListWithLeaseRequest2), [''revokelistkey:15''], 1, 0),
      ((''testDelayedRevokeListWithUpdate1'', testDelayedRevokeListWithUpdate1), [''revokelistkey:6''], 1, 0),
      ((''testDelayedRevokeListWithUpdate2'', testDelayedRevokeListWithUpdate2), [''revokelistkey:7''], 1, 0),
      ((''testDelayedRevokeListWithUpdate3'', testDelayedRevokeListWithUpdate3), [''revokelistkey:8''], 1, 0)]"

lemmas verdicts =
  verdict_testPutGet
  verdict_testAppendGetRemoveList
  verdict_testUpdateWithoutLease
  verdict_testUpdateBeforeLeaseExpire
  verdict_testUpdateAfterLeaseExpire
  verdict_testDelayedRevokeWithoutBlocking
  verdict_testDelayedRevokeWithLeaseRequest1
  verdict_testDelayedRevokeWithLeaseRequest2
  verdict_testDelayedRevokeWithUpdate1
  verdict_testDelayedRevokeWithUpdate2
  verdict_testDelayedRevokeWithUpdate3
  verdict_testUpdateListWithoutLease
  verdict_testUpdateListBeforeLeaseExpire
  verdict_testUpdateListAfterLeaseExpire
  verdict_testDelayedRevokeListWithoutBlocking
  verdict_testDelayedRevokeListWithLeaseRequest1
  verdict_testDelayedRevokeListWithLeaseRequest2
  verdict_testDelayedRevokeListWithUpdate1
  verdict_testDelayedRevokeListWithUpdate2
  verdict_testDelayedRevokeListWithUpdate3

interpretation btests: test_suite at_rest unseen tester_counts judged_btests
proof
  have "\<forall>((name, f), ks, d) \<in> set judged_btests. verdict at_rest unseen tester_counts ks d f"
    by (simp only: judged_btests_def list.set ball_simps prod.case verdicts)
  then show "verdict at_rest unseen tester_counts ks d f" if "((name, f), ks, d) \<in> set judged_btests" for name f ks d
    using that by fast
qed (simp add: judged_btests_def)

lemma btests_judged: "btests = map fst judged_btests"
  by (simp add: judged_btests_def btests_def)

lemma score_btests:
  "score matches judged_btests =
     (length (filter (\<lambda>(name, f). matches name \<and> name \<noteq> ''testPutGet'') btests),
      if matches ''testPutGet'' then 1 else 0)"
proof -
  have "length (filter (\<lambda>(name, f). matches name \<and> name = ''testPutGet'') (map fst judged_btests)) =
      (if matches ''testPutGet'' then 1 else 0)"
    by (simp add: judged_btests_def)
  moreover have "\<forall>((name, f), ks, d) \<in> set judged_btests. d = (if name = ''testPutGet'' then (0, 1) else (1, 0))"
    by (simp add: judged_btests_def)
  ultimately show ?thesis
    unfolding btests_judged by (simp add: score_counts [of _ "\<lambda>name. name = ''testPutGet''"])
qed

text \<open>Whether the cluster lacks just this node and has the size that the tester was told.\<close>

definition lacks_only :: "int \<Rightarrow> Node \<Rightarrow> StorageServer \<Rightarrow> bool" where
  "lacks_only numServer node master \<longleftrightarrow>
     ss_ismaster master \<and> ss_numnodes master = numServer \<and>
     node \<notin> set (ss_nodes master) \<and> int (length (ss_nodes master)) + 1 = numServer"

lemma run_testInitStorageServers:
  "map_option (\<lambda>st. (st_passCount st, st_failCount st))
     (run_tests (jtests numServer myID) (initStorageTester master h)) =
   Some (if lacks_only numServer \<lparr>HostPort = h, NodeID = myID\<rparr> master then (1, 0) else (0, 1))"
proof -
  let ?st = "testInitStorageServers numServer myID (initStorageTester master h)"
  have "(st_passCount ?st, st_failCount ?st) =
    (if lacks_only numServer \<lparr>HostPort = h, NodeID = myID\<rparr> master then (1, 0) else (0, 1))"
    by (auto simp: testInitStorageServers_def initStorageTester_def lacks_only_def checkError_def
        tester_GetServers_def tester_RegisterServer_def ss_GetServers_def ss_RegisterServer_def
        tester_code cong: tester_congs)
  then show ?thesis by (simp add: jtests_def)
qed

text \<open>
  C12: The storage tester always runs to the end.  Its test of the first kind passes exactly when
  the master of a cluster of the given size lacks this one node.  Of its tests of the second kind,
  on a server that serves alone, whichever it is asked for, every test passes, except that
  \<open>testPutGet\<close>, when it is among them, fails: it expects \<open>EKEYNOTFOUND\<close> for a key that is not there,
  and the server answers \<open>EWRONGSERVER\<close>.
\<close>

theorem storagetest_verdict:
  "storagetest_main 1 numServer myID matches master myhostport =
     Some (if \<not> matches ''testInitStorageServers'' then (0, 0)
           else if lacks_only numServer \<lparr>HostPort = myhostport, NodeID = myID\<rparr> master then (1, 0)
           else (0, 1)) \<and>
   storagetest_main 2 numServer myID matches master myhostport =
     Some (length (filter (\<lambda>(name, f). matches name \<and> name \<noteq> ''testPutGet'') btests),
           if matches ''testPutGet'' then 1 else 0)"
proof
  let ?st = "initStorageTester master myhostport"
  have start: "st_passCount ?st = 0" "st_failCount ?st = 0" by (simp_all add: initStorageTester_def)
  have "filter (\<lambda>(name, f). matches name) (jtests numServer myID) =
      (if matches ''testInitStorageServers'' then jtests numServer myID else [])"
    by (simp add: jtests_def)
  then show "storagetest_main 1 numServer myID matches master myhostport =
     Some (if \<not> matches ''testInitStorageServers'' then (0, 0)
           else if lacks_only numServer \<lparr>HostPort = myhostport, NodeID = myID\<rparr> master then (1, 0)
           else (0, 1))"
    using run_testInitStorageServers [of numServer myID master myhostport]
    by (auto simp: storagetest_main_def start)
  have "at_rest ?st" "\<forall>k \<in> set (keys_of judged_btests). unseen ?st k"
    by (simp_all add: initStorageTester_def at_rest_def unseen_def)
  from btests.run_selected [OF this, of matches]
  have "map_option tester_counts (run_tests (filter (\<lambda>(name, f). matches name) btests) ?st) =
      Some (score matches judged_btests)"
    by (simp add: btests_judged tester_counts_def start)
  then show "storagetest_main 2 numServer myID matches master myhostport =
     Some (length (filter (\<lambda>(name, f). matches name \<and> name \<noteq> ''testPutGet'') btests),
           if matches ''testPutGet'' then 1 else 0)"
    by (simp add: storagetest_main_def score_btests tester_counts_def [abs_def])
qed

end
