(* ===== verification/TestStack.thy ===== *)
theory TestStack
  imports Libstore ProxyCounter
begin

text \<open>
  What the tests \<open>libtest\<close> and \<open>tribtest\<close> of \<open>15-440/P2-F11\<close> set up in one process: a libstore that
  takes the counting proxy for the storage system, the proxy, and behind it the one storage server.

  \<^item> Proxy and libstore have the same address.  There the process listens for calls of the proxy;
    nothing is registered as \<open>CacheRPC\<close>, so the storage server's revocations are \<open>Refused\<close>.
  \<^item> Calls take no time; the clock moves when a test sleeps.
  \<^item> No call between the three is lost.
\<close>

section \<open>The stack\<close>

record stack =
  sk_clock :: time
  sk_dialable :: bool
  sk_store :: StorageServer
  sk_listening :: bool
  sk_pc :: ProxyCounter
  sk_hostport :: string
  sk_always :: bool
  sk_nodes :: "Node list"
  sk_cache :: cache

type_synonym proxied = "ProxyCounter \<times> StorageServer"

definition stack_world :: "'a stack_scheme \<Rightarrow> proxied lib_world" where
  "stack_world sk =
     \<lparr>sys_nodes = sk_nodes sk, sys_servers = [sk_hostport sk \<mapsto> (sk_pc sk, sk_store sk)],
      sys_caches = [sk_hostport sk \<mapsto> sk_cache sk]\<rparr>"

definition from_world :: "proxied lib_world \<Rightarrow> 'a stack_scheme \<Rightarrow> 'a stack_scheme" where
  "from_world w sk =
     (case sys_servers w (sk_hostport sk) of
        None \<Rightarrow> sk
      | Some (pc, ss) \<Rightarrow> sk\<lparr>sk_pc := pc, sk_store := ss, sk_cache := cache_of w (sk_hostport sk)\<rparr>)"

text \<open>The proxy's method as a call that may come back with an error.\<close>

definition proxy_read ::
  "(GetArgs \<Rightarrow> proxied \<Rightarrow> proxied \<times> 'v read_reply) \<Rightarrow>
   GetArgs \<Rightarrow> proxied \<Rightarrow> proxied \<times> (status_code \<times> 'v \<times> LeaseStruct) option" where
  "proxy_read method args s =
     (let (s, reply, err) = method args s in (s, if err = None then Some reply else None))"

definition proxy_write ::
  "(proxied \<Rightarrow> (proxied \<times> write_reply) go) \<Rightarrow> time \<Rightarrow>
   proxied \<Rightarrow> (proxied \<times> time \<times> string list \<times> status_code option) go" where
  "proxy_write method now s = do {
     (s, status, err) \<leftarrow> method s;
     Some (s, now, [], if err = None then Some status else None) }"

abbreviation refused :: "string \<Rightarrow> revoke_answer" where
  "refused \<equiv> \<lambda>_. Refused"

section \<open>The methods of the libstore\<close>

definition stack_Get :: "string \<Rightarrow> 'a stack_scheme \<Rightarrow> ('a stack_scheme \<times> string result) go" where
  "stack_Get key sk = do {
     (w, r) \<leftarrow> fetch_via (proxy_read (pc_Get Delivered (sk_clock sk))) JStr
       (\<lambda>v. case v of JStr s \<Rightarrow> Some s | JArr l \<Rightarrow> None)
       (sk_always sk) (sk_clock sk) (sk_clock sk) (sk_hostport sk) key (stack_world sk);
     Some (from_world w sk, r) }"

definition stack_GetList :: "string \<Rightarrow> 'a stack_scheme \<Rightarrow> ('a stack_scheme \<times> string list result) go" where
  "stack_GetList key sk = do {
     (w, r) \<leftarrow> fetch_via (proxy_read (pc_GetList Delivered (sk_clock sk))) JArr
       (\<lambda>v. case v of JStr s \<Rightarrow> None | JArr l \<Rightarrow> Some l)
       (sk_always sk) (sk_clock sk) (sk_clock sk) (sk_hostport sk) key (stack_world sk);
     Some (from_world w sk, r) }"

definition stack_mutate ::
  "(proxied \<Rightarrow> (proxied \<times> write_reply) go) \<Rightarrow> string \<Rightarrow> 'a stack_scheme \<Rightarrow>
   ('a stack_scheme \<times> unit result) go" where
  "stack_mutate method key sk = do {
     (w, t, r) \<leftarrow> mutate_via (proxy_write method (sk_clock sk)) (sk_clock sk) key (stack_world sk);
     Some (from_world w sk, r) }"

definition stack_Put ::
  "string \<Rightarrow> string \<Rightarrow> 'a stack_scheme \<Rightarrow> ('a stack_scheme \<times> unit result) go" where
  "stack_Put key v sk = stack_mutate (pc_Put refused (sk_clock sk) Delivered key v) key sk"

definition stack_AppendToList ::
  "string \<Rightarrow> string \<Rightarrow> 'a stack_scheme \<Rightarrow> ('a stack_scheme \<times> unit result) go" where
  "stack_AppendToList key newitem sk =
     stack_mutate (pc_AppendToList refused (sk_clock sk) Delivered key newitem) key sk"

definition stack_RemoveFromList ::
  "string \<Rightarrow> string \<Rightarrow> 'a stack_scheme \<Rightarrow> ('a stack_scheme \<times> unit result) go" where
  "stack_RemoveFromList key removeitem sk =
     stack_mutate (pc_RemoveFromList refused (sk_clock sk) Delivered key removeitem) key sk"

section \<open>Setting up\<close>

text \<open>
  The proxy is started on the port, then a libstore is made that takes it for the master.  To listen
  on a port twice ends the process.  The bool says whether there is a libstore.
\<close>

definition start_stack :: "string \<Rightarrow> bool \<Rightarrow> 'a stack_scheme \<Rightarrow> ('a stack_scheme \<times> bool) go" where
  "start_stack myhostport always sk =
     (if sk_listening sk then None
      else
        (let sk = sk\<lparr>sk_listening := True\<rparr>
         in case NewProxyCounter (sk_dialable sk) (sk_hostport sk) of
              None \<Rightarrow> Some (sk, False)
            | Some pc \<Rightarrow> do {
                (reply, err) \<leftarrow> pc_GetServers Delivered pc (sk_store sk);
                made \<leftarrow> iNewLibstore True
                  (replicate 5 (if err = None then Some reply else None)) myhostport;
                Some (case made of
                    Inl e \<Rightarrow> (sk\<lparr>sk_pc := pc\<rparr>, False)
                  | Inr nodes \<Rightarrow>
                      (sk\<lparr>sk_pc := pc, sk_always := always, sk_nodes := nodes, sk_cache := NewCache\<rparr>, True)) }))"

definition stop_stack :: "'a stack_scheme \<Rightarrow> 'a stack_scheme" where
  "stop_stack sk = sk\<lparr>sk_listening := False\<rparr>"

definition on_pc :: "(ProxyCounter \<Rightarrow> ProxyCounter) \<Rightarrow> 'a stack_scheme \<Rightarrow> 'a stack_scheme" where
  "on_pc f sk = sk\<lparr>sk_pc := f (sk_pc sk)\<rparr>"

section \<open>The state of a test program\<close>

record driver = stack +
  passCount :: nat
  failCount :: nat

text \<open>The process starts: nothing of the stack is there but the storage server.\<close>

definition no_proxy :: ProxyCounter where
  "no_proxy = \<lparr>pc_myhostport = '''', pc_rpcCount = 0, pc_byteCount = 0, pc_leaseRequestCount = 0,
     pc_leaseGrantedCount = 0, pc_override = False, pc_overrideErr = None, pc_overrideStatus = OK,
     pc_disableLease = False, pc_overrideLeaseSeconds = 0\<rparr>"

definition start_driver :: "bool \<Rightarrow> StorageServer \<Rightarrow> string \<Rightarrow> driver" where
  "start_driver dialable store hostport =
     \<lparr>sk_clock = 0, sk_dialable = dialable, sk_store = store, sk_listening = False, sk_pc = no_proxy,
      sk_hostport = hostport, sk_always = False, sk_nodes = [], sk_cache = NewCache,
      passCount = 0, failCount = 0\<rparr>"

definition failing :: "'a driver_scheme \<Rightarrow> 'a driver_scheme" where
  "failing st = st\<lparr>failCount := failCount st + 1\<rparr>"

definition passing :: "'a driver_scheme \<Rightarrow> 'a driver_scheme" where
  "passing st = st\<lparr>passCount := passCount st + 1\<rparr>"

definition checkLimits :: "u32 \<Rightarrow> u32 \<Rightarrow> 'a driver_scheme \<Rightarrow> bool \<times> 'a driver_scheme" where
  "checkLimits rpcCountLimit byteCountLimit st =
     (if pc_rpcCount (sk_pc st) > rpcCountLimit then (True, failing st)
      else if pc_byteCount (sk_pc st) > byteCountLimit then (True, failing st)
      else (False, st))"

section \<open>The stack with one node\<close>

text \<open>What the methods of the libstore come to when its one node is the proxy.\<close>

lemma pickServer_one [simp]: "pickServer [node] key = Some node"
  by (simp add: pickServer_def)

lemmas stack_unfold = fetch_via_def mutate_via_def stack_world_def from_world_def cache_of_def
  put_cache_def put_server_def proxy_read_def proxy_write_def revoke_all_def

lemma stack_Get_one:
  "sk_nodes sk = [node] \<Longrightarrow> HostPort node = sk_hostport sk \<Longrightarrow>
   stack_Get key sk =
     (case cache_Get (sk_clock sk) key False (sk_cache sk) of
        (x1, Inr v) \<Rightarrow> (case v of JStr s \<Rightarrow> Some (sk\<lparr>sk_cache := x1\<rparr>, Inr s) | JArr l \<Rightarrow> None)
      | (x1, Inl want) \<Rightarrow>
          (let ((pc, ss), (status, v, lease), err) = pc_Get Delivered (sk_clock sk)
                 \<lparr>ga_Key = key, ga_WantLease = want \<or> sk_always sk, ga_LeaseClient = sk_hostport sk\<rparr>
                 (sk_pc sk, sk_store sk);
               sk = sk\<lparr>sk_pc := pc, sk_store := ss, sk_cache := x1\<rparr>
           in if err \<noteq> None then Some (sk, Inl ''rpc call error'')
              else if status \<noteq> OK then Some (sk, Inl ''Get error'')
              else if Granted lease
              then map_option (\<lambda>x2. (sk\<lparr>sk_cache := x2\<rparr>, Inr v)) (cache_Grant (sk_clock sk) key (JStr v) lease x1)
              else Some (sk, Inr v)))"
  by (auto simp: stack_Get_def stack_unfold map_option_case Option.bind_eq_Some_conv
      split: prod.splits sum.splits doc.splits option.splits)

lemma stack_GetList_one:
  "sk_nodes sk = [node] \<Longrightarrow> HostPort node = sk_hostport sk \<Longrightarrow>
   stack_GetList key sk =
     (case cache_Get (sk_clock sk) key False (sk_cache sk) of
        (x1, Inr v) \<Rightarrow> (case v of JStr s \<Rightarrow> None | JArr l \<Rightarrow> Some (sk\<lparr>sk_cache := x1\<rparr>, Inr l))
      | (x1, Inl want) \<Rightarrow>
          (let ((pc, ss), (status, v, lease), err) = pc_GetList Delivered (sk_clock sk)
                 \<lparr>ga_Key = key, ga_WantLease = want \<or> sk_always sk, ga_LeaseClient = sk_hostport sk\<rparr>
                 (sk_pc sk, sk_store sk);
               sk = sk\<lparr>sk_pc := pc, sk_store := ss, sk_cache := x1\<rparr>
           in if err \<noteq> None then Some (sk, Inl ''rpc call error'')
              else if status \<noteq> OK then Some (sk, Inl ''Get error'')
              else if Granted lease
              then map_option (\<lambda>x2. (sk\<lparr>sk_cache := x2\<rparr>, Inr v)) (cache_Grant (sk_clock sk) key (JArr v) lease x1)
              else Some (sk, Inr v)))"
  by (auto simp: stack_GetList_def stack_unfold map_option_case Option.bind_eq_Some_conv
      split: prod.splits sum.splits doc.splits option.splits)

lemma stack_mutate_one:
  "sk_nodes sk = [node] \<Longrightarrow> HostPort node = sk_hostport sk \<Longrightarrow>
   stack_mutate method key sk = do {
     ((pc, ss), status, err) \<leftarrow> method (sk_pc sk, sk_store sk);
     let sk = sk\<lparr>sk_pc := pc, sk_store := ss\<rparr>;
     Some (sk, if err \<noteq> None then Inl ''rpc call error''
               else if status \<noteq> OK then Inl ''error status'' else Inr ()) }"
  by (cases "method (sk_pc sk, sk_store sk)") (auto simp: stack_mutate_def stack_unfold split: prod.splits)

end
