(* ===== verification/LibTest.thy ===== *)
theory LibTest
  imports TestStack Strconv TestSuite
begin

text \<open>
  \<open>15-440/P2-F11/libtest\<close>, the tests of the libstore, over the stack of \<open>TestStack\<close>.  A test that
  gives up counts a failure and returns; \<open>None\<close>: the process dies.  What a function has deferred is
  applied to what its body returns.  The counters are the only output that is modelled.
\<close>

section \<open>Helper functions\<close>

text \<open>Go's pair of value and error; with an error the value is the zero value.\<close>

fun value_err :: "'v \<Rightarrow> 's \<times> 'v result \<Rightarrow> 's \<times> 'v \<times> string option" where
  "value_err zero (st, Inl e) = (st, zero, Some e)"
| "value_err zero (st, Inr v) = (st, v, None)"

fun only_err :: "'s \<times> unit result \<Rightarrow> 's \<times> string option" where
  "only_err (st, Inl e) = (st, Some e)"
| "only_err (st, Inr v) = (st, None)"

definition lib_Get :: "string \<Rightarrow> driver \<Rightarrow> (driver \<times> string \<times> string option) go" where
  "lib_Get key st = map_option (value_err '''') (stack_Get key st)"

definition lib_GetList :: "string \<Rightarrow> driver \<Rightarrow> (driver \<times> string list \<times> string option) go" where
  "lib_GetList key st = map_option (value_err []) (stack_GetList key st)"

definition lib_Put :: "string \<Rightarrow> string \<Rightarrow> driver \<Rightarrow> (driver \<times> string option) go" where
  "lib_Put key v st = map_option only_err (stack_Put key v st)"

definition lib_AppendToList :: "string \<Rightarrow> string \<Rightarrow> driver \<Rightarrow> (driver \<times> string option) go" where
  "lib_AppendToList key newitem st = map_option only_err (stack_AppendToList key newitem st)"

definition lib_RemoveFromList :: "string \<Rightarrow> string \<Rightarrow> driver \<Rightarrow> (driver \<times> string option) go" where
  "lib_RemoveFromList key removeitem st = map_option only_err (stack_RemoveFromList key removeitem st)"

definition initLibstore :: "string \<Rightarrow> bool \<Rightarrow> driver \<Rightarrow> (driver \<times> bool) go" where
  "initLibstore myhostport always st = start_stack myhostport always st"

definition cleanupLibstore :: "bool \<Rightarrow> driver \<Rightarrow> driver" where
  "cleanupLibstore l st = (if l then stop_stack st else st)"

text \<open>The results of these queries are not looked at.\<close>

fun get_times :: "nat \<Rightarrow> string \<Rightarrow> driver \<Rightarrow> driver go" where
  "get_times 0 key st = Some st"
| "get_times (Suc n) key st = do { (st, v, err) \<leftarrow> lib_Get key st; get_times n key st }"

fun getlist_times :: "nat \<Rightarrow> string \<Rightarrow> driver \<Rightarrow> driver go" where
  "getlist_times 0 key st = Some st"
| "getlist_times (Suc n) key st = do { (st, v, err) \<leftarrow> lib_GetList key st; getlist_times n key st }"

definition forceCacheGet :: "string \<Rightarrow> string \<Rightarrow> driver \<Rightarrow> driver go" where
  "forceCacheGet key v st = do {
     (st, err) \<leftarrow> lib_Put key v st;
     get_times (2 * QUERY_CACHE_THRESH) key st }"

definition forceCacheGetList :: "string \<Rightarrow> string \<Rightarrow> driver \<Rightarrow> driver go" where
  "forceCacheGetList key v st = do {
     (st, err) \<leftarrow> lib_AppendToList key v st;
     getlist_times (2 * QUERY_CACHE_THRESH) key st }"

text \<open>The call of \<open>CacheRPC.RevokeLease\<close>: nothing is registered as \<open>CacheRPC\<close>.\<close>

definition lib_revokeLease :: "string \<Rightarrow> string option \<times> status_code" where
  "lib_revokeLease key = (Some ''rpc: can't find service CacheRPC.RevokeLease'', OK)"

definition lib_checkError :: "string option \<Rightarrow> bool \<Rightarrow> driver \<Rightarrow> bool \<times> driver" where
  "lib_checkError err expectError st =
     (if expectError then (if err = None then (True, failing st) else (False, st))
      else (if err \<noteq> None then (True, failing st) else (False, st)))"

definition lib_sleep :: "time \<Rightarrow> driver \<Rightarrow> driver" where
  "lib_sleep d st = st\<lparr>sk_clock := sk_clock st + d\<rparr>"

section \<open>Starting a libstore\<close>

definition testNonexistentServer :: "driver \<Rightarrow> driver go" where
  "testNonexistentServer st = do {
     l \<leftarrow> iNewLibstore (sk_listening st) [] (sk_hostport st);
     Some (cleanupLibstore False (case l of Inl err \<Rightarrow> passing st | Inr nodes \<Rightarrow> failing st)) }"

definition testNoLeases :: "driver \<Rightarrow> driver go" where
  "testNoLeases st = do {
     (st, l) \<leftarrow> initLibstore '''' False st;
     if \<not> l then Some (failing st) else map_option (cleanupLibstore l) (do {
     let st = on_pc pc_Reset st;
     st \<leftarrow> forceCacheGet ''key:'' ''value'' st;
     if pc_leaseRequestCount (sk_pc st) > 0 then Some (failing st) else Some (passing st) }) }"

definition testAlwaysLeases :: "driver \<Rightarrow> driver go" where
  "testAlwaysLeases st = do {
     (st, l) \<leftarrow> initLibstore (sk_hostport st) True st;
     if \<not> l then Some (failing st) else map_option (cleanupLibstore l) (do {
     let st = on_pc pc_Reset st;
     (st, err) \<leftarrow> lib_Put ''key:'' ''value'' st;
     (st, v, err) \<leftarrow> lib_Get ''key:'' st;
     if pc_leaseRequestCount (sk_pc st) = 0 then Some (failing st) else Some (passing st) }) }"

section \<open>Errors and single calls\<close>

definition testGetError :: "driver \<Rightarrow> driver go" where
  "testGetError st = map_option (on_pc pc_OverrideOff) (do {
     let st = on_pc pc_Reset st;
     let st = on_pc pc_OverrideErr st;
     (st, v, err) \<leftarrow> lib_Get ''key:1'' st;
     let (bad, st) = lib_checkError err True st;
     if bad then Some st else do {
     let (bad, st) = checkLimits 5 50 st;
     if bad then Some st else Some (passing st) } })"

definition testGetErrorStatus :: "driver \<Rightarrow> driver go" where
  "testGetErrorStatus st = map_option (on_pc pc_OverrideOff) (do {
     let st = on_pc pc_Reset st;
     let st = on_pc (pc_OverrideStatus EKEYNOTFOUND) st;
     (st, v, err) \<leftarrow> lib_Get ''key:2'' st;
     let (bad, st) = lib_checkError err True st;
     if bad then Some st else do {
     let (bad, st) = checkLimits 5 50 st;
     if bad then Some st else Some (passing st) } })"

definition testGetValid :: "driver \<Rightarrow> driver go" where
  "testGetValid st = do {
     (st, err) \<leftarrow> lib_Put ''key:3'' ''value'' st;
     let st = on_pc pc_Reset st;
     (st, v, err) \<leftarrow> lib_Get ''key:3'' st;
     let (bad, st) = lib_checkError err False st;
     if bad then Some st else do {
     if v \<noteq> ''value'' then Some (failing st) else do {
     let (bad, st) = checkLimits 5 50 st;
     if bad then Some st else Some (passing st) } } }"

definition testPutError :: "driver \<Rightarrow> driver go" where
  "testPutError st = map_option (on_pc pc_OverrideOff) (do {
     let st = on_pc pc_Reset st;
     let st = on_pc pc_OverrideErr st;
     (st, err) \<leftarrow> lib_Put ''key:4'' ''value'' st;
     let (bad, st) = lib_checkError err True st;
     if bad then Some st else do {
     let (bad, st) = checkLimits 5 50 st;
     if bad then Some st else Some (passing st) } })"

definition testPutErrorStatus :: "driver \<Rightarrow> driver go" where
  "testPutErrorStatus st = map_option (on_pc pc_OverrideOff) (do {
     let st = on_pc pc_Reset st;
     let st = on_pc (pc_OverrideStatus EPUTFAILED) st;
     (st, err) \<leftarrow> lib_Put ''key:5'' ''value'' st;
     let (bad, st) = lib_checkError err True st;
     if bad then Some st else do {
     let (bad, st) = checkLimits 5 50 st;
     if bad then Some st else Some (passing st) } })"

definition testPutValid :: "driver \<Rightarrow> driver go" where
  "testPutValid st = do {
     let st = on_pc pc_Reset st;
     (st, err) \<leftarrow> lib_Put ''key:6'' ''value'' st;
     let (bad, st) = lib_checkError err False st;
     if bad then Some st else do {
     let (bad, st) = checkLimits 5 50 st;
     if bad then Some st else do {
     (st, v, err) \<leftarrow> lib_Get ''key:6'' st;
     let (bad, st) = lib_checkError err False st;
     if bad then Some st else do {
     if v \<noteq> ''value'' then Some (failing st) else Some (passing st) } } } }"

definition testGetListError :: "driver \<Rightarrow> driver go" where
  "testGetListError st = map_option (on_pc pc_OverrideOff) (do {
     let st = on_pc pc_Reset st;
     let st = on_pc pc_OverrideErr st;
     (st, v, err) \<leftarrow> lib_GetList ''keylist:1'' st;
     let (bad, st) = lib_checkError err True st;
     if bad then Some st else do {
     let (bad, st) = checkLimits 5 50 st;
     if bad then Some st else Some (passing st) } })"

definition testGetListErrorStatus :: "driver \<Rightarrow> driver go" where
  "testGetListErrorStatus st = map_option (on_pc pc_OverrideOff) (do {
     let st = on_pc pc_Reset st;
     let st = on_pc (pc_OverrideStatus EITEMNOTFOUND) st;
     (st, v, err) \<leftarrow> lib_GetList ''keylist:2'' st;
     let (bad, st) = lib_checkError err True st;
     if bad then Some st else do {
     let (bad, st) = checkLimits 5 50 st;
     if bad then Some st else Some (passing st) } })"

definition testGetListValid :: "driver \<Rightarrow> driver go" where
  "testGetListValid st = do {
     (st, err) \<leftarrow> lib_AppendToList ''keylist:3'' ''value'' st;
     let st = on_pc pc_Reset st;
     (st, v, err) \<leftarrow> lib_GetList ''keylist:3'' st;
     let (bad, st) = lib_checkError err False st;
     if bad then Some st else do {
     if length v \<noteq> 1 \<or> v ! 0 \<noteq> ''value'' then Some (failing st) else do {
     let (bad, st) = checkLimits 5 50 st;
     if bad then Some st else Some (passing st) } } }"

definition testAppendToListError :: "driver \<Rightarrow> driver go" where
  "testAppendToListError st = map_option (on_pc pc_OverrideOff) (do {
     let st = on_pc pc_Reset st;
     let st = on_pc pc_OverrideErr st;
     (st, err) \<leftarrow> lib_AppendToList ''keylist:4'' ''value'' st;
     let (bad, st) = lib_checkError err True st;
     if bad then Some st else do {
     let (bad, st) = checkLimits 5 50 st;
     if bad then Some st else Some (passing st) } })"

definition testAppendToListErrorStatus :: "driver \<Rightarrow> driver go" where
  "testAppendToListErrorStatus st = map_option (on_pc pc_OverrideOff) (do {
     let st = on_pc pc_Reset st;
     let st = on_pc (pc_OverrideStatus EITEMEXISTS) st;
     (st, err) \<leftarrow> lib_AppendToList ''keylist:5'' ''value'' st;
     let (bad, st) = lib_checkError err True st;
     if bad then Some st else do {
     let (bad, st) = checkLimits 5 50 st;
     if bad then Some st else Some (passing st) } })"

definition testAppendToListValid :: "driver \<Rightarrow> driver go" where
  "testAppendToListValid st = do {
     let st = on_pc pc_Reset st;
     (st, err) \<leftarrow> lib_AppendToList ''keylist:6'' ''value'' st;
     let (bad, st) = lib_checkError err False st;
     if bad then Some st else do {
     let (bad, st) = checkLimits 5 50 st;
     if bad then Some st else do {
     (st, v, err) \<leftarrow> lib_GetList ''keylist:6'' st;
     let (bad, st) = lib_checkError err False st;
     if bad then Some st else do {
     if length v \<noteq> 1 \<or> v ! 0 \<noteq> ''value'' then Some (failing st) else Some (passing st) } } } }"

definition testRemoveFromListError :: "driver \<Rightarrow> driver go" where
  "testRemoveFromListError st = map_option (on_pc pc_OverrideOff) (do {
     let st = on_pc pc_Reset st;
     let st = on_pc pc_OverrideErr st;
     (st, err) \<leftarrow> lib_RemoveFromList ''keylist:7'' ''value'' st;
     let (bad, st) = lib_checkError err True st;
     if bad then Some st else do {
     let (bad, st) = checkLimits 5 50 st;
     if bad then Some st else Some (passing st) } })"

definition testRemoveFromListErrorStatus :: "driver \<Rightarrow> driver go" where
  "testRemoveFromListErrorStatus st = map_option (on_pc pc_OverrideOff) (do {
     let st = on_pc pc_Reset st;
     let st = on_pc (pc_OverrideStatus EITEMNOTFOUND) st;
     (st, err) \<leftarrow> lib_RemoveFromList ''keylist:8'' ''value'' st;
     let (bad, st) = lib_checkError err True st;
     if bad then Some st else do {
     let (bad, st) = checkLimits 5 50 st;
     if bad then Some st else Some (passing st) } })"

definition testRemoveFromListValid :: "driver \<Rightarrow> driver go" where
  "testRemoveFromListValid st = do {
     (st, err) \<leftarrow> lib_AppendToList ''keylist:9'' ''value1'' st;
     let (bad, st) = lib_checkError err False st;
     if bad then Some st else do {
     (st, err) \<leftarrow> lib_AppendToList ''keylist:9'' ''value2'' st;
     let (bad, st) = lib_checkError err False st;
     if bad then Some st else do {
     let st = on_pc pc_Reset st;
     (st, err) \<leftarrow> lib_RemoveFromList ''keylist:9'' ''value1'' st;
     let (bad, st) = lib_checkError err False st;
     if bad then Some st else do {
     let (bad, st) = checkLimits 5 50 st;
     if bad then Some st else do {
     (st, v, err) \<leftarrow> lib_GetList ''keylist:9'' st;
     let (bad, st) = lib_checkError err False st;
     if bad then Some st else do {
     if length v \<noteq> 1 \<or> v ! 0 \<noteq> ''value2'' then Some (failing st) else Some (passing st) } } } } } }"

section \<open>The cache of texts\<close>

definition testCacheGetLimit :: "driver \<Rightarrow> driver go" where
  "testCacheGetLimit st = do {
     let st = on_pc pc_Reset st;
     (st, err) \<leftarrow> lib_Put ''keycacheget:1'' ''value'' st;
     st \<leftarrow> get_times (QUERY_CACHE_THRESH - 1) ''keycacheget:1'' st;
     if pc_leaseRequestCount (sk_pc st) > 0 then Some (failing st) else Some (passing st) }"

definition testCacheGetLimit2 :: "driver \<Rightarrow> driver go" where
  "testCacheGetLimit2 st = do {
     let st = on_pc pc_Reset st;
     st \<leftarrow> forceCacheGet ''keycacheget:2'' ''value'' st;
     if pc_leaseRequestCount (sk_pc st) = 0 then Some (failing st) else Some (passing st) }"

text \<open>The loop of the next test; the bool says that it has given up.\<close>

fun get_cached :: "nat \<Rightarrow> string \<Rightarrow> driver \<Rightarrow> (bool \<times> driver) go" where
  "get_cached 0 key st = Some (False, st)"
| "get_cached (Suc n) key st = do {
     (st, v, err) \<leftarrow> lib_Get key st;
     let (bad, st) = lib_checkError err False st;
     if bad then Some (True, st) else
     if v \<noteq> ''value'' then Some (True, failing st) else get_cached n key st }"

definition testCacheGetCorrect :: "driver \<Rightarrow> driver go" where
  "testCacheGetCorrect st = do {
     st \<leftarrow> forceCacheGet ''keycacheget:3'' ''value'' st;
     let st = on_pc pc_Reset st;
     (bad, st) \<leftarrow> get_cached (100 * QUERY_CACHE_THRESH) ''keycacheget:3'' st;
     if bad then Some st else
     if pc_rpcCount (sk_pc st) > 0 then Some (failing st) else Some (passing st) }"

definition testCacheGetLeaseNotGranted :: "driver \<Rightarrow> driver go" where
  "testCacheGetLeaseNotGranted st = map_option (on_pc pc_EnableLease) (do {
     let st = on_pc pc_DisableLease st;
     st \<leftarrow> forceCacheGet ''keycacheget:4'' ''value'' st;
     let st = on_pc pc_Reset st;
     (st, v, err) \<leftarrow> lib_Get ''keycacheget:4'' st;
     let (bad, st) = lib_checkError err False st;
     if bad then Some st else do {
     if v \<noteq> ''value'' then Some (failing st) else do {
     if pc_rpcCount (sk_pc st) = 0 then Some (failing st) else Some (passing st) } } })"

definition testCacheGetLeaseNotGranted2 :: "driver \<Rightarrow> driver go" where
  "testCacheGetLeaseNotGranted2 st = map_option (on_pc pc_EnableLease) (do {
     let st = on_pc pc_DisableLease st;
     st \<leftarrow> forceCacheGet ''keycacheget:5'' ''value'' st;
     let st = on_pc pc_Reset st;
     st \<leftarrow> forceCacheGet ''keycacheget:5'' ''value'' st;
     if pc_leaseRequestCount (sk_pc st) = 0 then Some (failing st) else Some (passing st) })"

definition testCacheGetLeaseTimeout :: "driver \<Rightarrow> driver go" where
  "testCacheGetLeaseTimeout st = map_option (on_pc (pc_OverrideLeaseSeconds 0)) (do {
     let st = on_pc (pc_OverrideLeaseSeconds 1) st;
     st \<leftarrow> forceCacheGet ''keycacheget:6'' ''value'' st;
     let st = lib_sleep (seconds 2) st;
     let st = on_pc pc_Reset st;
     (st, v, err) \<leftarrow> lib_Get ''keycacheget:6'' st;
     let (bad, st) = lib_checkError err False st;
     if bad then Some st else do {
     if v \<noteq> ''value'' then Some (failing st) else do {
     if pc_rpcCount (sk_pc st) = 0 then Some (failing st) else Some (passing st) } } })"

definition longValue :: string where
  "longValue = concat (replicate 30 (''this sentence is 30 char long'' @ [CHR 0x0A]))"

text \<open>\<open>fmt.Sprintf\<close> of the prefix and the number of the round.\<close>

definition leak_keys :: "string \<Rightarrow> string list" where
  "leak_keys prefix = map (\<lambda>i. prefix @ Itoa (int i)) [0..<10000]"

definition leak_free :: "u64 \<times> u64 \<Rightarrow> bool" where
  "leak_free alloc =
     (let (initAlloc, finalAlloc) = alloc in finalAlloc < initAlloc \<or> finalAlloc - initAlloc < 5000000)"

text \<open>
  The rounds of the memory test, one for each key; \<open>alloc\<close> is what the runtime reports as allocated
  before them and after the twenty seconds that follow.
\<close>

fun get_rounds :: "string list \<Rightarrow> string \<Rightarrow> driver \<Rightarrow> (bool \<times> driver) go" where
  "get_rounds [] long st = Some (False, st)"
| "get_rounds (key # keys) long st = do {
     let st = on_pc pc_Reset st;
     st \<leftarrow> forceCacheGet key long st;
     if pc_leaseRequestCount (sk_pc st) = 0 then Some (True, failing st) else do {
     let st = on_pc pc_Reset st;
     (st, v, err) \<leftarrow> lib_Get key st;
     let (bad, st) = lib_checkError err False st;
     if bad then Some (True, st) else
     if v \<noteq> long then Some (True, failing st) else
     if pc_rpcCount (sk_pc st) > 0 then Some (True, failing st) else get_rounds keys long st } }"

definition testCacheGetMemoryLeak :: "u64 \<times> u64 \<Rightarrow> driver \<Rightarrow> driver go" where
  "testCacheGetMemoryLeak alloc st = map_option (on_pc (pc_OverrideLeaseSeconds 0)) (do {
     let st = on_pc (pc_OverrideLeaseSeconds 1) st;
     (bad, st) \<leftarrow> get_rounds (leak_keys ''keymemleakget:'') longValue st;
     if bad then Some st else do {
     let st = lib_sleep (seconds 20) st;
     if leak_free alloc then Some (passing st) else Some (failing st) } })"

definition testRevokeGetValid :: "driver \<Rightarrow> driver go" where
  "testRevokeGetValid st = do {
     st \<leftarrow> forceCacheGet ''keyrevokeget:1'' ''value'' st;
     let (err, status) = lib_revokeLease ''keyrevokeget:1'';
     let (bad, st) = lib_checkError err False st;
     if bad then Some st else do {
     if status \<noteq> OK then Some (failing st) else do {
     let st = on_pc pc_Reset st;
     (st, v, err) \<leftarrow> lib_Get ''keyrevokeget:1'' st;
     let (bad, st) = lib_checkError err False st;
     if bad then Some st else do {
     if v \<noteq> ''value'' then Some (failing st) else do {
     if pc_rpcCount (sk_pc st) = 0 then Some (failing st) else Some (passing st) } } } } }"

definition testRevokeGetNonexistent :: "driver \<Rightarrow> driver go" where
  "testRevokeGetNonexistent st = do {
     (st, err) \<leftarrow> lib_Put ''keyrevokeget:2'' ''value'' st;
     let (err, status) = lib_revokeLease ''keyrevokeget:2'';
     let st = on_pc pc_Reset st;
     (st, v, err) \<leftarrow> lib_Get ''keyrevokeget:2'' st;
     let (bad, st) = lib_checkError err False st;
     if bad then Some st else do {
     if v \<noteq> ''value'' then Some (failing st) else do {
     if pc_rpcCount (sk_pc st) = 0 then Some (failing st) else Some (passing st) } } }"

definition testRevokeGetUpdate :: "driver \<Rightarrow> driver go" where
  "testRevokeGetUpdate st = do {
     st \<leftarrow> forceCacheGet ''keyrevokeget:3'' ''value'' st;
     let st = on_pc pc_Reset st;
     st \<leftarrow> forceCacheGet ''keyrevokeget:3'' ''value2'' st;
     if pc_rpcCount (sk_pc st) \<le> 1 \<or> pc_leaseRequestCount (sk_pc st) = 0 then Some (failing st) else do {
     let st = on_pc pc_Reset st;
     (st, v, err) \<leftarrow> lib_Get ''keyrevokeget:3'' st;
     let (bad, st) = lib_checkError err False st;
     if bad then Some st else do {
     if v \<noteq> ''value2'' then Some (failing st) else do {
     if pc_rpcCount (sk_pc st) > 0 then Some (failing st) else Some (passing st) } } } }"

section \<open>The cache of lists\<close>

definition testCacheGetListLimit :: "driver \<Rightarrow> driver go" where
  "testCacheGetListLimit st = do {
     let st = on_pc pc_Reset st;
     (st, err) \<leftarrow> lib_AppendToList ''keycachegetlist:1'' ''value'' st;
     st \<leftarrow> getlist_times (QUERY_CACHE_THRESH - 1) ''keycachegetlist:1'' st;
     if pc_leaseRequestCount (sk_pc st) > 0 then Some (failing st) else Some (passing st) }"

definition testCacheGetListLimit2 :: "driver \<Rightarrow> driver go" where
  "testCacheGetListLimit2 st = do {
     let st = on_pc pc_Reset st;
     st \<leftarrow> forceCacheGetList ''keycachegetlist:2'' ''value'' st;
     if pc_leaseRequestCount (sk_pc st) = 0 then Some (failing st) else Some (passing st) }"

text \<open>The loop of the next test; the bool says that it has given up.\<close>

fun getlist_cached :: "nat \<Rightarrow> string \<Rightarrow> driver \<Rightarrow> (bool \<times> driver) go" where
  "getlist_cached 0 key st = Some (False, st)"
| "getlist_cached (Suc n) key st = do {
     (st, v, err) \<leftarrow> lib_GetList key st;
     let (bad, st) = lib_checkError err False st;
     if bad then Some (True, st) else
     if length v \<noteq> 1 \<or> v ! 0 \<noteq> ''value'' then Some (True, failing st) else getlist_cached n key st }"

definition testCacheGetListCorrect :: "driver \<Rightarrow> driver go" where
  "testCacheGetListCorrect st = do {
     st \<leftarrow> forceCacheGetList ''keycachegetlist:3'' ''value'' st;
     let st = on_pc pc_Reset st;
     (bad, st) \<leftarrow> getlist_cached (100 * QUERY_CACHE_THRESH) ''keycachegetlist:3'' st;
     if bad then Some st else
     if pc_rpcCount (sk_pc st) > 0 then Some (failing st) else Some (passing st) }"

definition testCacheGetListLeaseNotGranted :: "driver \<Rightarrow> driver go" where
  "testCacheGetListLeaseNotGranted st = map_option (on_pc pc_EnableLease) (do {
     let st = on_pc pc_DisableLease st;
     st \<leftarrow> forceCacheGetList ''keycachegetlist:4'' ''value'' st;
     let st = on_pc pc_Reset st;
     (st, v, err) \<leftarrow> lib_GetList ''keycachegetlist:4'' st;
     let (bad, st) = lib_checkError err False st;
     if bad then Some st else do {
     if length v \<noteq> 1 \<or> v ! 0 \<noteq> ''value'' then Some (failing st) else do {
     if pc_rpcCount (sk_pc st) = 0 then Some (failing st) else Some (passing st) } } })"

definition testCacheGetListLeaseNotGranted2 :: "driver \<Rightarrow> driver go" where
  "testCacheGetListLeaseNotGranted2 st = map_option (on_pc pc_EnableLease) (do {
     let st = on_pc pc_DisableLease st;
     st \<leftarrow> forceCacheGetList ''keycachegetlist:5'' ''value'' st;
     let st = on_pc pc_Reset st;
     st \<leftarrow> forceCacheGetList ''keycachegetlist:5'' ''value'' st;
     if pc_leaseRequestCount (sk_pc st) = 0 then Some (failing st) else Some (passing st) })"

definition testCacheGetListLeaseTimeout :: "driver \<Rightarrow> driver go" where
  "testCacheGetListLeaseTimeout st = map_option (on_pc (pc_OverrideLeaseSeconds 0)) (do {
     let st = on_pc (pc_OverrideLeaseSeconds 1) st;
     st \<leftarrow> forceCacheGetList ''keycachegetlist:6'' ''value'' st;
     let st = lib_sleep (seconds 2) st;
     let st = on_pc pc_Reset st;
     (st, v, err) \<leftarrow> lib_GetList ''keycachegetlist:6'' st;
     let (bad, st) = lib_checkError err False st;
     if bad then Some st else do {
     if length v \<noteq> 1 \<or> v ! 0 \<noteq> ''value'' then Some (failing st) else do {
     if pc_rpcCount (sk_pc st) = 0 then Some (failing st) else Some (passing st) } } })"

text \<open>
  The rounds of the memory test, one for each key; \<open>alloc\<close> is what the runtime reports as allocated
  before them and after the twenty seconds that follow.
\<close>

fun getlist_rounds :: "string list \<Rightarrow> string \<Rightarrow> driver \<Rightarrow> (bool \<times> driver) go" where
  "getlist_rounds [] long st = Some (False, st)"
| "getlist_rounds (key # keys) long st = do {
     let st = on_pc pc_Reset st;
     st \<leftarrow> forceCacheGetList key long st;
     if pc_leaseRequestCount (sk_pc st) = 0 then Some (True, failing st) else do {
     let st = on_pc pc_Reset st;
     (st, v, err) \<leftarrow> lib_GetList key st;
     let (bad, st) = lib_checkError err False st;
     if bad then Some (True, st) else
     if length v \<noteq> 1 \<or> v ! 0 \<noteq> long then Some (True, failing st) else
     if pc_rpcCount (sk_pc st) > 0 then Some (True, failing st) else getlist_rounds keys long st } }"

definition testCacheGetListMemoryLeak :: "u64 \<times> u64 \<Rightarrow> driver \<Rightarrow> driver go" where
  "testCacheGetListMemoryLeak alloc st = map_option (on_pc (pc_OverrideLeaseSeconds 0)) (do {
     let st = on_pc (pc_OverrideLeaseSeconds 1) st;
     (bad, st) \<leftarrow> getlist_rounds (leak_keys ''keymemleakgetlist:'') longValue st;
     if bad then Some st else do {
     let st = lib_sleep (seconds 20) st;
     if leak_free alloc then Some (passing st) else Some (failing st) } })"

definition testRevokeGetListValid :: "driver \<Rightarrow> driver go" where
  "testRevokeGetListValid st = do {
     st \<leftarrow> forceCacheGetList ''keyrevokegetlist:1'' ''value'' st;
     let (err, status) = lib_revokeLease ''keyrevokegetlist:1'';
     let (bad, st) = lib_checkError err False st;
     if bad then Some st else do {
     if status \<noteq> OK then Some (failing st) else do {
     let st = on_pc pc_Reset st;
     (st, v, err) \<leftarrow> lib_GetList ''keyrevokegetlist:1'' st;
     let (bad, st) = lib_checkError err False st;
     if bad then Some st else do {
     if length v \<noteq> 1 \<or> v ! 0 \<noteq> ''value'' then Some (failing st) else do {
     if pc_rpcCount (sk_pc st) = 0 then Some (failing st) else Some (passing st) } } } } }"

definition testRevokeGetListNonexistent :: "driver \<Rightarrow> driver go" where
  "testRevokeGetListNonexistent st = do {
     (st, err) \<leftarrow> lib_AppendToList ''keyrevokegetlist:2'' ''value'' st;
     let (err, status) = lib_revokeLease ''keyrevokegetlist:2'';
     let st = on_pc pc_Reset st;
     (st, v, err) \<leftarrow> lib_GetList ''keyrevokegetlist:2'' st;
     let (bad, st) = lib_checkError err False st;
     if bad then Some st else do {
     if length v \<noteq> 1 \<or> v ! 0 \<noteq> ''value'' then Some (failing st) else do {
     if pc_rpcCount (sk_pc st) = 0 then Some (failing st) else Some (passing st) } } }"

definition testRevokeGetListUpdate :: "driver \<Rightarrow> driver go" where
  "testRevokeGetListUpdate st = do {
     st \<leftarrow> forceCacheGetList ''keyrevokegetlist:3'' ''value'' st;
     (st, err) \<leftarrow> lib_RemoveFromList ''keyrevokegetlist:3'' ''value'' st;
     let st = on_pc pc_Reset st;
     st \<leftarrow> forceCacheGetList ''keyrevokegetlist:3'' ''value2'' st;
     if pc_rpcCount (sk_pc st) \<le> 1 \<or> pc_leaseRequestCount (sk_pc st) = 0 then Some (failing st) else do {
     let st = on_pc pc_Reset st;
     (st, v, err) \<leftarrow> lib_GetList ''keyrevokegetlist:3'' st;
     let (bad, st) = lib_checkError err False st;
     if bad then Some st else do {
     if length v \<noteq> 1 \<or> v ! 0 \<noteq> ''value2'' then Some (failing st) else do {
     if pc_rpcCount (sk_pc st) > 0 then Some (failing st) else Some (passing st) } } } }"

section \<open>The test run\<close>

definition lib_initTests :: "driver TestFunc list" where
  "lib_initTests =
     [(''testNonexistentServer'', testNonexistentServer),
      (''testNoLeases'', testNoLeases),
      (''testAlwaysLeases'', testAlwaysLeases)]"

definition lib_tests :: "u64 \<times> u64 \<Rightarrow> u64 \<times> u64 \<Rightarrow> driver TestFunc list" where
  "lib_tests alloc1 alloc2 =
     [(''testGetError'', testGetError),
      (''testGetErrorStatus'', testGetErrorStatus),
      (''testGetValid'', testGetValid),
      (''testPutError'', testPutError),
      (''testPutErrorStatus'', testPutErrorStatus),
      (''testPutValid'', testPutValid),
      (''testGetListError'', testGetListError),
      (''testGetListErrorStatus'', testGetListErrorStatus),
      (''testGetListValid'', testGetListValid),
      (''testAppendToListError'', testAppendToListError),
      (''testAppendToListErrorStatus'', testAppendToListErrorStatus),
      (''testAppendToListValid'', testAppendToListValid),
      (''testRemoveFromListError'', testRemoveFromListError),
      (''testRemoveFromListErrorStatus'', testRemoveFromListErrorStatus),
      (''testRemoveFromListValid'', testRemoveFromListValid),
      (''testCacheGetLimit'', testCacheGetLimit),
      (''testCacheGetLimit2'', testCacheGetLimit2),
      (''testCacheGetCorrect'', testCacheGetCorrect),
      (''testCacheGetLeaseNotGranted'', testCacheGetLeaseNotGranted),
      (''testCacheGetLeaseNotGranted2'', testCacheGetLeaseNotGranted2),
      (''testCacheGetLeaseTimeout'', testCacheGetLeaseTimeout),
      (''testCacheGetMemoryLeak'', testCacheGetMemoryLeak alloc1),
      (''testRevokeGetValid'', testRevokeGetValid),
      (''testRevokeGetNonexistent'', testRevokeGetNonexistent),
      (''testRevokeGetUpdate'', testRevokeGetUpdate),
      (''testCacheGetListLimit'', testCacheGetListLimit),
      (''testCacheGetListLimit2'', testCacheGetListLimit2),
      (''testCacheGetListCorrect'', testCacheGetListCorrect),
      (''testCacheGetListLeaseNotGranted'', testCacheGetListLeaseNotGranted),
      (''testCacheGetListLeaseNotGranted2'', testCacheGetListLeaseNotGranted2),
      (''testCacheGetListLeaseTimeout'', testCacheGetListLeaseTimeout),
      (''testCacheGetListMemoryLeak'', testCacheGetListMemoryLeak alloc2),
      (''testRevokeGetListValid'', testRevokeGetListValid),
      (''testRevokeGetListNonexistent'', testRevokeGetListNonexistent),
      (''testRevokeGetListUpdate'', testRevokeGetListUpdate)]"

text \<open>
  The tests whose names match the regular expression, against a storage server; the counters that
  the program prints at its end, if it comes to that.
\<close>

definition libtest_main ::
  "(string \<Rightarrow> bool) \<Rightarrow> u64 \<times> u64 \<Rightarrow> u64 \<times> u64 \<Rightarrow> bool \<Rightarrow> StorageServer \<Rightarrow> string \<Rightarrow>
   (nat \<times> nat) option go" where
  "libtest_main matches alloc1 alloc2 dialable store hostport = do {
     st \<leftarrow> run_tests (filter (\<lambda>(name, f). matches name) lib_initTests) (start_driver dialable store hostport);
     (st, l) \<leftarrow> initLibstore hostport False st;
     if \<not> l then Some None else do {
     st \<leftarrow> run_tests (filter (\<lambda>(name, f). matches name) (lib_tests alloc1 alloc2)) st;
     Some (Some (passCount st, failCount st)) } }"

end
