(* ===== verification/TribTest.thy ===== *)
theory TribTest
  imports TribStore TestStack TestSuite LibTest
begin

text \<open>
  \<open>15-440/P2-F11/tribtest\<close>, the tests of the tribble server, which it calls in its own process.  The
  server's libstore takes the counting proxy for the storage system (\<open>TestStack\<close>).  The JSON text of
  a tribble is \<open>enc\<close> and \<open>dec\<close>; the clock goes on by one nanosecond with every post.
\<close>

section \<open>State\<close>

record tribtest = driver +
  tt_server :: Tribserver

definition stack_ops :: "tribtest store_ops" where
  "stack_ops = \<lparr>st_Get = stack_Get, st_GetList = stack_GetList, st_Put = stack_Put,
     st_AppendToList = stack_AppendToList, st_RemoveFromList = stack_RemoveFromList\<rparr>"

text \<open>Proxy and tribble server; the bool says whether there is a server.\<close>

definition initTribserver :: "string \<Rightarrow> tribtest \<Rightarrow> (tribtest \<times> bool) go" where
  "initTribserver myhostport st = do {
     (st, made) \<leftarrow> start_stack myhostport False st;
     Some (case NewTribserver made myhostport of
         None \<Rightarrow> (st, False)
       | Some ts \<Rightarrow> (st\<lparr>tt_server := ts\<rparr>, True)) }"

definition cleanupTribserver :: "bool \<Rightarrow> tribtest \<Rightarrow> tribtest" where
  "cleanupTribserver l st = (if l then stop_stack st else st)"

definition trib_testNonexistentServer :: "tribtest \<Rightarrow> tribtest go" where
  "trib_testNonexistentServer st = do {
     l \<leftarrow> iNewLibstore (sk_listening st) [] (sk_hostport st);
     Some (cleanupTribserver False
       (case NewTribserver (\<not> failed l) (sk_hostport st) of None \<Rightarrow> passing st | Some ts \<Rightarrow> failing st)) }"

section \<open>Checks\<close>

definition trib_checkErrorStatus ::
  "string option \<Rightarrow> trib_status \<Rightarrow> trib_status \<Rightarrow> tribtest \<Rightarrow> bool \<times> tribtest" where
  "trib_checkErrorStatus err status expectedStatus st =
     (if err \<noteq> None then (True, failing st)
      else if status \<noteq> expectedStatus then (True, failing st)
      else (False, st))"

definition checkSubscriptions :: "string list \<Rightarrow> string list \<Rightarrow> tribtest \<Rightarrow> bool \<times> tribtest" where
  "checkSubscriptions subs expectedSubs st =
     (if length subs \<noteq> length expectedSubs then (True, failing st)
      else if \<exists>s \<in> set expectedSubs. s \<notin> set subs then (True, failing st)
      else (False, st))"

text \<open>
  The loop of \<open>checkTribbles\<close>, from the last tribble to the first; the expected ones are pairs of
  user and contents.
\<close>

fun wrong_tribbles :: "(Tribble \<times> string \<times> string) list \<Rightarrow> time \<Rightarrow> bool" where
  "wrong_tribbles [] lastTime = False"
| "wrong_tribbles ((t, u, c) # ts) lastTime =
     (if tr_Userid t \<noteq> u then True
      else if tr_Contents t \<noteq> c then True
      else if tr_Posted t < lastTime then True
      else wrong_tribbles ts (tr_Posted t))"

definition checkTribbles :: "Tribble list \<Rightarrow> (string \<times> string) list \<Rightarrow> tribtest \<Rightarrow> bool \<times> tribtest" where
  "checkTribbles tribbles expectedTribbles st =
     (if length tribbles \<noteq> length expectedTribbles then (True, failing st)
      else if wrong_tribbles (rev (zip tribbles expectedTribbles)) 0 then (True, failing st)
      else (False, st))"

section \<open>Helper functions\<close>

definition createUser :: "string \<Rightarrow> tribtest \<Rightarrow> (tribtest \<times> string option \<times> trib_status) go" where
  "createUser user st = do {
     (st, status) \<leftarrow> ts_CreateUser stack_ops user st;
     Some (st, None, status) }"

definition addSubscription :: "string \<Rightarrow> string \<Rightarrow> tribtest \<Rightarrow> (tribtest \<times> string option \<times> trib_status) go" where
  "addSubscription user target st = do {
     (st, status) \<leftarrow> ts_AddSubscription stack_ops user target st;
     Some (st, None, status) }"

definition removeSubscription :: "string \<Rightarrow> string \<Rightarrow> tribtest \<Rightarrow> (tribtest \<times> string option \<times> trib_status) go" where
  "removeSubscription user target st = do {
     (st, status) \<leftarrow> ts_RemoveSubscription stack_ops user target st;
     Some (st, None, status) }"

definition getSubscription ::
  "string \<Rightarrow> tribtest \<Rightarrow> (tribtest \<times> string option \<times> trib_status \<times> string list) go" where
  "getSubscription user st = do {
     (st, status, userids) \<leftarrow> ts_GetSubscriptions stack_ops user st;
     Some (st, None, status, userids) }"

definition postTribble ::
  "(Tribble \<Rightarrow> string) \<Rightarrow> string \<Rightarrow> string \<Rightarrow> tribtest \<Rightarrow> (tribtest \<times> string option \<times> trib_status) go" where
  "postTribble enc user contents st = do {
     let now = sk_clock st + 1;
     ((ts, st), status) \<leftarrow>
       ts_PostTribble stack_ops enc now user contents (tt_server st, st\<lparr>sk_clock := now\<rparr>);
     Some (st\<lparr>tt_server := ts\<rparr>, None, status) }"

text \<open>With an error the reply keeps what the handler has put into it, which no test looks at.\<close>

fun tribbles_err ::
  "(trib_status \<times> Tribble list) result \<Rightarrow> string option \<times> trib_status \<times> Tribble list" where
  "tribbles_err (Inl e) = (Some e, ENOSUCHUSER, [])"
| "tribbles_err (Inr (status, ts)) = (None, status, ts)"

definition getTribbles ::
  "(string \<Rightarrow> Tribble) \<Rightarrow> string \<Rightarrow> tribtest \<Rightarrow>
   (tribtest \<times> string option \<times> trib_status \<times> Tribble list) go" where
  "getTribbles dec user st = do {
     (st, r) \<leftarrow> ts_GetTribbles stack_ops dec (ts_hostport (tt_server st)) user st;
     Some (st, tribbles_err r) }"

definition getTribblesBySubscription ::
  "(string \<Rightarrow> Tribble) \<Rightarrow> string \<Rightarrow> tribtest \<Rightarrow>
   (tribtest \<times> string option \<times> trib_status \<times> Tribble list) go" where
  "getTribblesBySubscription dec user st = do {
     (st, r) \<leftarrow> ts_GetTribblesBySubscription stack_ops dec (ts_hostport (tt_server st)) user st;
     Some (st, tribbles_err r) }"

text \<open>The posts that a test makes in a loop, whose results it does not look at.\<close>

fun post_all :: "(Tribble \<Rightarrow> string) \<Rightarrow> (string \<times> string) list \<Rightarrow> tribtest \<Rightarrow> tribtest go" where
  "post_all enc [] st = Some st"
| "post_all enc ((user, contents) # ts) st = do {
     (st, err, status) \<leftarrow> postTribble enc user contents st;
     post_all enc ts st }"

section \<open>The tests\<close>

definition testCreateUserValid :: "tribtest \<Rightarrow> tribtest go" where
  "testCreateUserValid st = do {
     let st = on_pc pc_Reset st;
     (st, err, status) \<leftarrow> createUser ''user'' st;
     let (bad, st) = trib_checkErrorStatus err status trib_status.OK st;
     if bad then Some st else do {
     let (bad, st) = checkLimits 10 1000 st;
     if bad then Some st else Some (passing st) } }"

definition testCreateUserDuplicate :: "tribtest \<Rightarrow> tribtest go" where
  "testCreateUserDuplicate st = do {
     (st, err, status) \<leftarrow> createUser ''user'' st;
     let st = on_pc pc_Reset st;
     (st, err, status) \<leftarrow> createUser ''user'' st;
     let (bad, st) = trib_checkErrorStatus err status trib_status.EEXISTS st;
     if bad then Some st else do {
     let (bad, st) = checkLimits 10 1000 st;
     if bad then Some st else Some (passing st) } }"

definition testAddSubscriptionInvalidUser :: "tribtest \<Rightarrow> tribtest go" where
  "testAddSubscriptionInvalidUser st = do {
     (st, err, status) \<leftarrow> createUser ''user'' st;
     let st = on_pc pc_Reset st;
     (st, err, status) \<leftarrow> addSubscription ''invalidUser'' ''user'' st;
     let (bad, st) = trib_checkErrorStatus err status trib_status.ENOSUCHUSER st;
     if bad then Some st else do {
     let (bad, st) = checkLimits 10 1000 st;
     if bad then Some st else Some (passing st) } }"

definition testAddSubscriptionInvalidTargetUser :: "tribtest \<Rightarrow> tribtest go" where
  "testAddSubscriptionInvalidTargetUser st = do {
     (st, err, status) \<leftarrow> createUser ''user'' st;
     let st = on_pc pc_Reset st;
     (st, err, status) \<leftarrow> addSubscription ''user'' ''invalidUser'' st;
     let (bad, st) = trib_checkErrorStatus err status trib_status.ENOSUCHTARGETUSER st;
     if bad then Some st else do {
     let (bad, st) = checkLimits 10 1000 st;
     if bad then Some st else Some (passing st) } }"

definition testAddSubscriptionValid :: "tribtest \<Rightarrow> tribtest go" where
  "testAddSubscriptionValid st = do {
     (st, err, status) \<leftarrow> createUser ''user1'' st;
     (st, err, status) \<leftarrow> createUser ''user2'' st;
     let st = on_pc pc_Reset st;
     (st, err, status) \<leftarrow> addSubscription ''user1'' ''user2'' st;
     let (bad, st) = trib_checkErrorStatus err status trib_status.OK st;
     if bad then Some st else do {
     let (bad, st) = checkLimits 10 1000 st;
     if bad then Some st else Some (passing st) } }"

definition testAddSubscriptionDuplicate :: "tribtest \<Rightarrow> tribtest go" where
  "testAddSubscriptionDuplicate st = do {
     (st, err, status) \<leftarrow> createUser ''user1'' st;
     (st, err, status) \<leftarrow> createUser ''user2'' st;
     (st, err, status) \<leftarrow> addSubscription ''user1'' ''user2'' st;
     let st = on_pc pc_Reset st;
     (st, err, status) \<leftarrow> addSubscription ''user1'' ''user2'' st;
     let (bad, st) = trib_checkErrorStatus err status trib_status.EEXISTS st;
     if bad then Some st else do {
     let (bad, st) = checkLimits 10 1000 st;
     if bad then Some st else Some (passing st) } }"

definition testRemoveSubscriptionInvalidUser :: "tribtest \<Rightarrow> tribtest go" where
  "testRemoveSubscriptionInvalidUser st = do {
     (st, err, status) \<leftarrow> createUser ''user'' st;
     let st = on_pc pc_Reset st;
     (st, err, status) \<leftarrow> removeSubscription ''invalidUser'' ''user'' st;
     let (bad, st) = trib_checkErrorStatus err status trib_status.ENOSUCHUSER st;
     if bad then Some st else do {
     let (bad, st) = checkLimits 10 1000 st;
     if bad then Some st else Some (passing st) } }"

definition testRemoveSubscriptionValid :: "tribtest \<Rightarrow> tribtest go" where
  "testRemoveSubscriptionValid st = do {
     (st, err, status) \<leftarrow> createUser ''user1'' st;
     (st, err, status) \<leftarrow> createUser ''user2'' st;
     (st, err, status) \<leftarrow> addSubscription ''user1'' ''user2'' st;
     let st = on_pc pc_Reset st;
     (st, err, status) \<leftarrow> removeSubscription ''user1'' ''user2'' st;
     let (bad, st) = trib_checkErrorStatus err status trib_status.OK st;
     if bad then Some st else do {
     let (bad, st) = checkLimits 10 1000 st;
     if bad then Some st else Some (passing st) } }"

definition testRemoveSubscriptionMissingTarget :: "tribtest \<Rightarrow> tribtest go" where
  "testRemoveSubscriptionMissingTarget st = do {
     (st, err, status) \<leftarrow> createUser ''user1'' st;
     (st, err, status) \<leftarrow> createUser ''user2'' st;
     (st, err, status) \<leftarrow> removeSubscription ''user1'' ''user2'' st;
     let st = on_pc pc_Reset st;
     (st, err, status) \<leftarrow> removeSubscription ''user1'' ''user2'' st;
     let (bad, st) = trib_checkErrorStatus err status trib_status.ENOSUCHTARGETUSER st;
     if bad then Some st else do {
     let (bad, st) = checkLimits 10 1000 st;
     if bad then Some st else Some (passing st) } }"

definition testGetSubscriptionInvalidUser :: "tribtest \<Rightarrow> tribtest go" where
  "testGetSubscriptionInvalidUser st = do {
     let st = on_pc pc_Reset st;
     (st, err, status, x) \<leftarrow> getSubscription ''invalidUser'' st;
     let (bad, st) = trib_checkErrorStatus err status trib_status.ENOSUCHUSER st;
     if bad then Some st else do {
     let (bad, st) = checkLimits 10 1000 st;
     if bad then Some st else Some (passing st) } }"

definition testGetSubscriptionValid :: "tribtest \<Rightarrow> tribtest go" where
  "testGetSubscriptionValid st = do {
     (st, err, status) \<leftarrow> createUser ''user1'' st;
     (st, err, status) \<leftarrow> createUser ''user2'' st;
     (st, err, status) \<leftarrow> createUser ''user3'' st;
     (st, err, status) \<leftarrow> createUser ''user4'' st;
     (st, err, status) \<leftarrow> addSubscription ''user1'' ''user2'' st;
     (st, err, status) \<leftarrow> addSubscription ''user1'' ''user3'' st;
     (st, err, status) \<leftarrow> addSubscription ''user1'' ''user4'' st;
     let st = on_pc pc_Reset st;
     (st, err, status, subs) \<leftarrow> getSubscription ''user1'' st;
     let (bad, st) = trib_checkErrorStatus err status trib_status.OK st;
     if bad then Some st else do {
     let (bad, st) = checkSubscriptions subs [''user2'', ''user3'', ''user4''] st;
     if bad then Some st else do {
     let (bad, st) = checkLimits 10 1000 st;
     if bad then Some st else Some (passing st) } } }"

definition testPostTribbleInvalidUser :: "(Tribble \<Rightarrow> string) \<Rightarrow> tribtest \<Rightarrow> tribtest go" where
  "testPostTribbleInvalidUser enc st = do {
     let st = on_pc pc_Reset st;
     (st, err, status) \<leftarrow> postTribble enc ''invalidUser'' ''contents'' st;
     let (bad, st) = trib_checkErrorStatus err status trib_status.ENOSUCHUSER st;
     if bad then Some st else do {
     let (bad, st) = checkLimits 10 1000 st;
     if bad then Some st else Some (passing st) } }"

definition testPostTribbleValid :: "(Tribble \<Rightarrow> string) \<Rightarrow> tribtest \<Rightarrow> tribtest go" where
  "testPostTribbleValid enc st = do {
     (st, err, status) \<leftarrow> createUser ''user'' st;
     let st = on_pc pc_Reset st;
     (st, err, status) \<leftarrow> postTribble enc ''user'' ''contents'' st;
     let (bad, st) = trib_checkErrorStatus err status trib_status.OK st;
     if bad then Some st else do {
     let (bad, st) = checkLimits 10 1000 st;
     if bad then Some st else Some (passing st) } }"

definition testGetTribblesInvalidUser :: "(string \<Rightarrow> Tribble) \<Rightarrow> tribtest \<Rightarrow> tribtest go" where
  "testGetTribblesInvalidUser dec st = do {
     let st = on_pc pc_Reset st;
     (st, err, status, x) \<leftarrow> getTribbles dec ''invalidUser'' st;
     let (bad, st) = trib_checkErrorStatus err status trib_status.ENOSUCHUSER st;
     if bad then Some st else do {
     let (bad, st) = checkLimits 10 1000 st;
     if bad then Some st else Some (passing st) } }"

definition testGetTribblesZeroTribbles :: "(string \<Rightarrow> Tribble) \<Rightarrow> tribtest \<Rightarrow> tribtest go" where
  "testGetTribblesZeroTribbles dec st = do {
     (st, err, status) \<leftarrow> createUser ''tribUser'' st;
     let st = on_pc pc_Reset st;
     (st, err, status, tribbles) \<leftarrow> getTribbles dec ''tribUser'' st;
     let (bad, st) = trib_checkErrorStatus err status trib_status.OK st;
     if bad then Some st else do {
     let (bad, st) = checkTribbles tribbles [] st;
     if bad then Some st else do {
     let (bad, st) = checkLimits 10 1000 st;
     if bad then Some st else Some (passing st) } } }"

definition testGetTribblesFewTribbles :: "(Tribble \<Rightarrow> string) \<Rightarrow> (string \<Rightarrow> Tribble) \<Rightarrow> tribtest \<Rightarrow> tribtest go" where
  "testGetTribblesFewTribbles enc dec st = do {
     (st, err, status) \<leftarrow> createUser ''tribUser'' st;
     let expectedTribbles = map (\<lambda>i. (''tribUser'', ''contents'' @ Itoa (int i))) [0..<5];
     st \<leftarrow> post_all enc (rev expectedTribbles) st;
     let st = on_pc pc_Reset st;
     (st, err, status, tribbles) \<leftarrow> getTribbles dec ''tribUser'' st;
     let (bad, st) = trib_checkErrorStatus err status trib_status.OK st;
     if bad then Some st else do {
     let (bad, st) = checkTribbles tribbles expectedTribbles st;
     if bad then Some st else do {
     let (bad, st) = checkLimits 50 5000 st;
     if bad then Some st else Some (passing st) } } }"

definition testGetTribblesManyTribbles :: "(Tribble \<Rightarrow> string) \<Rightarrow> (string \<Rightarrow> Tribble) \<Rightarrow> tribtest \<Rightarrow> tribtest go" where
  "testGetTribblesManyTribbles enc dec st = do {
     (st, err, status) \<leftarrow> createUser ''tribUser'' st;
     (st, err, status) \<leftarrow> postTribble enc ''tribUser'' ''should not see this old msg'' st;
     let expectedTribbles = map (\<lambda>i. (''tribUser'', ''contents'' @ Itoa (int i))) [0..<100];
     st \<leftarrow> post_all enc (rev expectedTribbles) st;
     let st = on_pc pc_Reset st;
     (st, err, status, tribbles) \<leftarrow> getTribbles dec ''tribUser'' st;
     let (bad, st) = trib_checkErrorStatus err status trib_status.OK st;
     if bad then Some st else do {
     let (bad, st) = checkTribbles tribbles expectedTribbles st;
     if bad then Some st else do {
     let (bad, st) = checkLimits 200 30000 st;
     if bad then Some st else Some (passing st) } } }"

definition testGetTribblesBySubscriptionInvalidUser :: "(string \<Rightarrow> Tribble) \<Rightarrow> tribtest \<Rightarrow> tribtest go" where
  "testGetTribblesBySubscriptionInvalidUser dec st = do {
     let st = on_pc pc_Reset st;
     (st, err, status, x) \<leftarrow> getTribblesBySubscription dec ''invalidUser'' st;
     let (bad, st) = trib_checkErrorStatus err status trib_status.ENOSUCHUSER st;
     if bad then Some st else do {
     let (bad, st) = checkLimits 10 1000 st;
     if bad then Some st else Some (passing st) } }"

definition testGetTribblesBySubscriptionNoSubscriptions :: "(Tribble \<Rightarrow> string) \<Rightarrow> (string \<Rightarrow> Tribble) \<Rightarrow> tribtest \<Rightarrow> tribtest go" where
  "testGetTribblesBySubscriptionNoSubscriptions enc dec st = do {
     (st, err, status) \<leftarrow> createUser ''tribUser'' st;
     (st, err, status) \<leftarrow> postTribble enc ''tribUser'' ''contents'' st;
     let st = on_pc pc_Reset st;
     (st, err, status, tribbles) \<leftarrow> getTribblesBySubscription dec ''tribUser'' st;
     let (bad, st) = trib_checkErrorStatus err status trib_status.OK st;
     if bad then Some st else do {
     let (bad, st) = checkTribbles tribbles [] st;
     if bad then Some st else do {
     let (bad, st) = checkLimits 10 1000 st;
     if bad then Some st else Some (passing st) } } }"

definition testGetTribblesBySubscriptionZeroTribbles :: "(string \<Rightarrow> Tribble) \<Rightarrow> tribtest \<Rightarrow> tribtest go" where
  "testGetTribblesBySubscriptionZeroTribbles dec st = do {
     (st, err, status) \<leftarrow> createUser ''tribUser1'' st;
     (st, err, status) \<leftarrow> createUser ''tribUser2'' st;
     (st, err, status) \<leftarrow> addSubscription ''tribUser1'' ''tribUser2'' st;
     let st = on_pc pc_Reset st;
     (st, err, status, tribbles) \<leftarrow> getTribbles dec ''tribUser1'' st;
     let (bad, st) = trib_checkErrorStatus err status trib_status.OK st;
     if bad then Some st else do {
     let (bad, st) = checkTribbles tribbles [] st;
     if bad then Some st else do {
     let (bad, st) = checkLimits 10 1000 st;
     if bad then Some st else Some (passing st) } } }"

definition testGetTribblesBySubscriptionFewTribbles :: "(Tribble \<Rightarrow> string) \<Rightarrow> (string \<Rightarrow> Tribble) \<Rightarrow> tribtest \<Rightarrow> tribtest go" where
  "testGetTribblesBySubscriptionFewTribbles enc dec st = do {
     (st, err, status) \<leftarrow> createUser ''tribUser1'' st;
     (st, err, status) \<leftarrow> createUser ''tribUser2'' st;
     (st, err, status) \<leftarrow> createUser ''tribUser3'' st;
     (st, err, status) \<leftarrow> createUser ''tribUser4'' st;
     (st, err, status) \<leftarrow> addSubscription ''tribUser1'' ''tribUser2'' st;
     (st, err, status) \<leftarrow> addSubscription ''tribUser1'' ''tribUser3'' st;
     (st, err, status) \<leftarrow> addSubscription ''tribUser1'' ''tribUser4'' st;
     (st, err, status) \<leftarrow> postTribble enc ''tribUser1'' ''should not see this unsubscribed msg'' st;
     let expectedTribbles = [(''tribUser2'', ''contents''), (''tribUser4'', ''contents'')];
     st \<leftarrow> post_all enc (rev expectedTribbles) st;
     let st = on_pc pc_Reset st;
     (st, err, status, tribbles) \<leftarrow> getTribblesBySubscription dec ''tribUser1'' st;
     let (bad, st) = trib_checkErrorStatus err status trib_status.OK st;
     if bad then Some st else do {
     let (bad, st) = checkTribbles tribbles expectedTribbles st;
     if bad then Some st else do {
     let (bad, st) = checkLimits 20 2000 st;
     if bad then Some st else Some (passing st) } } }"

definition testGetTribblesBySubscriptionManyTribbles :: "(Tribble \<Rightarrow> string) \<Rightarrow> (string \<Rightarrow> Tribble) \<Rightarrow> tribtest \<Rightarrow> tribtest go" where
  "testGetTribblesBySubscriptionManyTribbles enc dec st = do {
     (st, err, status) \<leftarrow> createUser ''tribUser1'' st;
     (st, err, status) \<leftarrow> createUser ''tribUser2'' st;
     (st, err, status) \<leftarrow> createUser ''tribUser3'' st;
     (st, err, status) \<leftarrow> createUser ''tribUser4'' st;
     (st, err, status) \<leftarrow> addSubscription ''tribUser1'' ''tribUser2'' st;
     (st, err, status) \<leftarrow> addSubscription ''tribUser1'' ''tribUser3'' st;
     (st, err, status) \<leftarrow> addSubscription ''tribUser1'' ''tribUser4'' st;
     (st, err, status) \<leftarrow> postTribble enc ''tribUser1'' ''should not see this old msg'' st;
     (st, err, status) \<leftarrow> postTribble enc ''tribUser2'' ''should not see this old msg'' st;
     (st, err, status) \<leftarrow> postTribble enc ''tribUser3'' ''should not see this old msg'' st;
     (st, err, status) \<leftarrow> postTribble enc ''tribUser4'' ''should not see this old msg'' st;
     let expectedTribbles = map (\<lambda>i. (''tribUser'' @ Itoa (int (i mod 3 + 2)), ''contents'' @ Itoa (int i))) [0..<100];
     st \<leftarrow> post_all enc (rev expectedTribbles) st;
     let st = on_pc pc_Reset st;
     (st, err, status, tribbles) \<leftarrow> getTribblesBySubscription dec ''tribUser1'' st;
     let (bad, st) = trib_checkErrorStatus err status trib_status.OK st;
     if bad then Some st else do {
     let (bad, st) = checkTribbles tribbles expectedTribbles st;
     if bad then Some st else do {
     let (bad, st) = checkLimits 200 30000 st;
     if bad then Some st else Some (passing st) } } }"

definition testGetTribblesBySubscriptionManyTribbles2 :: "(Tribble \<Rightarrow> string) \<Rightarrow> (string \<Rightarrow> Tribble) \<Rightarrow> tribtest \<Rightarrow> tribtest go" where
  "testGetTribblesBySubscriptionManyTribbles2 enc dec st = do {
     (st, err, status) \<leftarrow> createUser ''tribUser1b'' st;
     (st, err, status) \<leftarrow> createUser ''tribUser2b'' st;
     (st, err, status) \<leftarrow> createUser ''tribUser3b'' st;
     (st, err, status) \<leftarrow> createUser ''tribUser4b'' st;
     (st, err, status) \<leftarrow> addSubscription ''tribUser1b'' ''tribUser2b'' st;
     (st, err, status) \<leftarrow> addSubscription ''tribUser1b'' ''tribUser3b'' st;
     (st, err, status) \<leftarrow> addSubscription ''tribUser1b'' ''tribUser4b'' st;
     (st, err, status) \<leftarrow> postTribble enc ''tribUser1b'' ''should not see this old msg'' st;
     (st, err, status) \<leftarrow> postTribble enc ''tribUser2b'' ''should not see this old msg'' st;
     (st, err, status) \<leftarrow> postTribble enc ''tribUser3b'' ''should not see this old msg'' st;
     (st, err, status) \<leftarrow> postTribble enc ''tribUser4b'' ''should not see this old msg'' st;
     let expectedTribbles = map (\<lambda>i. (''tribUser3b'', ''contents'' @ Itoa (int i))) [0..<100];
     st \<leftarrow> post_all enc (rev expectedTribbles) st;
     let st = on_pc pc_Reset st;
     (st, err, status, tribbles) \<leftarrow> getTribblesBySubscription dec ''tribUser1b'' st;
     let (bad, st) = trib_checkErrorStatus err status trib_status.OK st;
     if bad then Some st else do {
     let (bad, st) = checkTribbles tribbles expectedTribbles st;
     if bad then Some st else do {
     let (bad, st) = checkLimits 200 30000 st;
     if bad then Some st else Some (passing st) } } }"

definition testGetTribblesBySubscriptionManyTribbles3 :: "(Tribble \<Rightarrow> string) \<Rightarrow> (string \<Rightarrow> Tribble) \<Rightarrow> tribtest \<Rightarrow> tribtest go" where
  "testGetTribblesBySubscriptionManyTribbles3 enc dec st = do {
     (st, err, status) \<leftarrow> createUser ''tribUser1c'' st;
     (st, err, status) \<leftarrow> createUser ''tribUser2c'' st;
     (st, err, status) \<leftarrow> createUser ''tribUser3c'' st;
     (st, err, status) \<leftarrow> createUser ''tribUser4c'' st;
     (st, err, status) \<leftarrow> createUser ''tribUser5c'' st;
     (st, err, status) \<leftarrow> createUser ''tribUser6c'' st;
     (st, err, status) \<leftarrow> createUser ''tribUser7c'' st;
     (st, err, status) \<leftarrow> createUser ''tribUser8c'' st;
     (st, err, status) \<leftarrow> createUser ''tribUser9c'' st;
     (st, err, status) \<leftarrow> addSubscription ''tribUser1c'' ''tribUser2c'' st;
     (st, err, status) \<leftarrow> addSubscription ''tribUser1c'' ''tribUser3c'' st;
     (st, err, status) \<leftarrow> addSubscription ''tribUser1c'' ''tribUser4c'' st;
     (st, err, status) \<leftarrow> addSubscription ''tribUser1c'' ''tribUser5c'' st;
     (st, err, status) \<leftarrow> addSubscription ''tribUser1c'' ''tribUser6c'' st;
     (st, err, status) \<leftarrow> addSubscription ''tribUser1c'' ''tribUser7c'' st;
     (st, err, status) \<leftarrow> addSubscription ''tribUser1c'' ''tribUser8c'' st;
     (st, err, status) \<leftarrow> addSubscription ''tribUser1c'' ''tribUser9c'' st;
     (st, err, status) \<leftarrow> postTribble enc ''tribUser1c'' ''should not see this old msg'' st;
     (st, err, status) \<leftarrow> postTribble enc ''tribUser2c'' ''should not see this old msg'' st;
     (st, err, status) \<leftarrow> postTribble enc ''tribUser3c'' ''should not see this old msg'' st;
     (st, err, status) \<leftarrow> postTribble enc ''tribUser4c'' ''should not see this old msg'' st;
     (st, err, status) \<leftarrow> postTribble enc ''tribUser5c'' ''should not see this old msg'' st;
     (st, err, status) \<leftarrow> postTribble enc ''tribUser6c'' ''should not see this old msg'' st;
     (st, err, status) \<leftarrow> postTribble enc ''tribUser7c'' ''should not see this old msg'' st;
     (st, err, status) \<leftarrow> postTribble enc ''tribUser8c'' ''should not see this old msg'' st;
     (st, err, status) \<leftarrow> postTribble enc ''tribUser9c'' ''should not see this old msg'' st;
     st \<leftarrow> post_all enc (concat (replicate 100 (map (\<lambda>j. (''tribUser'' @ Itoa (int j) @ ''c'', longValue)) [1..<10]))) st;
     let expectedTribbles = map (\<lambda>i. (''tribUser'' @ Itoa (int (i mod 8 + 2)) @ ''c'', ''contents'' @ Itoa (int i))) [0..<100];
     st \<leftarrow> post_all enc (rev expectedTribbles) st;
     let st = on_pc pc_Reset st;
     (st, err, status, tribbles) \<leftarrow> getTribblesBySubscription dec ''tribUser1c'' st;
     let (bad, st) = trib_checkErrorStatus err status trib_status.OK st;
     if bad then Some st else do {
     let (bad, st) = checkTribbles tribbles expectedTribbles st;
     if bad then Some st else do {
     let (bad, st) = checkLimits 200 200000 st;
     if bad then Some st else Some (passing st) } } }"

section \<open>The test run\<close>

definition trib_initTests :: "tribtest TestFunc list" where
  "trib_initTests = [(''testNonexistentServer'', trib_testNonexistentServer)]"

definition trib_tests :: "(Tribble \<Rightarrow> string) \<Rightarrow> (string \<Rightarrow> Tribble) \<Rightarrow> tribtest TestFunc list" where
  "trib_tests enc dec =
     [(''testCreateUserValid'', testCreateUserValid),
      (''testCreateUserDuplicate'', testCreateUserDuplicate),
      (''testAddSubscriptionInvalidUser'', testAddSubscriptionInvalidUser),
      (''testAddSubscriptionInvalidTargetUser'', testAddSubscriptionInvalidTargetUser),
      (''testAddSubscriptionValid'', testAddSubscriptionValid),
      (''testAddSubscriptionDuplicate'', testAddSubscriptionDuplicate),
      (''testRemoveSubscriptionInvalidUser'', testRemoveSubscriptionInvalidUser),
      (''testRemoveSubscriptionValid'', testRemoveSubscriptionValid),
      (''testRemoveSubscriptionMissingTarget'', testRemoveSubscriptionMissingTarget),
      (''testGetSubscriptionInvalidUser'', testGetSubscriptionInvalidUser),
      (''testGetSubscriptionValid'', testGetSubscriptionValid),
      (''testPostTribbleInvalidUser'', testPostTribbleInvalidUser enc),
      (''testPostTribbleValid'', testPostTribbleValid enc),
      (''testGetTribblesInvalidUser'', testGetTribblesInvalidUser dec),
      (''testGetTribblesZeroTribbles'', testGetTribblesZeroTribbles dec),
      (''testGetTribblesFewTribbles'', testGetTribblesFewTribbles enc dec),
      (''testGetTribblesManyTribbles'', testGetTribblesManyTribbles enc dec),
      (''testGetTribblesBySubscriptionInvalidUser'', testGetTribblesBySubscriptionInvalidUser dec),
      (''testGetTribblesBySubscriptionNoSubscriptions'', testGetTribblesBySubscriptionNoSubscriptions enc dec),
      (''testGetTribblesBySubscriptionZeroTribbles'', testGetTribblesBySubscriptionZeroTribbles dec),
      (''testGetTribblesBySubscriptionZeroTribbles'', testGetTribblesBySubscriptionZeroTribbles dec),
      (''testGetTribblesBySubscriptionFewTribbles'', testGetTribblesBySubscriptionFewTribbles enc dec),
      (''testGetTribblesBySubscriptionManyTribbles'', testGetTribblesBySubscriptionManyTribbles enc dec),
      (''testGetTribblesBySubscriptionManyTribbles2'', testGetTribblesBySubscriptionManyTribbles2 enc dec),
      (''testGetTribblesBySubscriptionManyTribbles3'', testGetTribblesBySubscriptionManyTribbles3 enc dec)]"

definition start_tribtest :: "bool \<Rightarrow> StorageServer \<Rightarrow> string \<Rightarrow> tribtest" where
  "start_tribtest dialable store hostport =
     driver.extend (start_driver dialable store hostport) \<lparr>tt_server = \<lparr>ts_hostport = '''', ts_id = 0\<rparr>\<rparr>"

definition tribtest_main ::
  "(Tribble \<Rightarrow> string) \<Rightarrow> (string \<Rightarrow> Tribble) \<Rightarrow> (string \<Rightarrow> bool) \<Rightarrow> bool \<Rightarrow> StorageServer \<Rightarrow> string \<Rightarrow>
   (nat \<times> nat) option go" where
  "tribtest_main enc dec matches dialable store hostport = do {
     st \<leftarrow> run_tests (filter (\<lambda>(name, f). matches name) trib_initTests)
       (start_tribtest dialable store hostport);
     (st, l) \<leftarrow> initTribserver hostport st;
     if \<not> l then Some None else do {
     st \<leftarrow> run_tests (filter (\<lambda>(name, f). matches name) (trib_tests enc dec)) st;
     Some (Some (passCount st, failCount st)) } }"

end
