(* ===== verification/LibVerdict.thy ===== *)
theory LibVerdict
  imports LibTest
begin

text \<open>
  What the tests of \<open>15-440/P2-F11/libtest\<close> say of the libstore.  Apart from the first three they use
  different keys, and each leaves the proxy as it found it, so each can be judged by itself.
\<close>

section \<open>The verdict of a test\<close>

text \<open>A proxy that changes nothing, between a libstore and a storage server that are up.\<close>

definition stack_ready :: "'a stack_scheme \<Rightarrow> bool" where
  "stack_ready sk \<longleftrightarrow>
     (\<exists>i. sk_nodes sk = [\<lparr>HostPort = sk_hostport sk, NodeID = i\<rparr>]) \<and> \<not> sk_always sk \<and>
     \<not> pc_override (sk_pc sk) \<and> pc_overrideErr (sk_pc sk) = None \<and> pc_overrideStatus (sk_pc sk) = OK \<and>
     \<not> pc_disableLease (sk_pc sk) \<and> pc_overrideLeaseSeconds (sk_pc sk) = 0"

definition unused :: "'a stack_scheme \<Rightarrow> string \<Rightarrow> bool" where
  "unused sk k \<longleftrightarrow>
     ss_hashmap (sk_store sk) k = None \<and> ss_leasePool (sk_store sk) k = None \<and> sk_cache sk k = None"

definition counters :: "'a driver_scheme \<Rightarrow> nat \<times> nat" where
  "counters st = (passCount st, failCount st)"

text \<open>The numbers of the proxy are \<open>a\<close> to \<open>d\<close>; \<open>s\<close> is what it overrides leases with.\<close>

definition bench where
  "bench T dl ism nn ns m lp lis g a b c d s h i x p f =
     \<lparr>sk_clock = T, sk_dialable = dl,
      sk_store = \<lparr>ss_ismaster = ism, ss_numnodes = nn, ss_nodes = ns, ss_hashmap = m, ss_leasePool = lp\<rparr>,
      sk_listening = lis,
      sk_pc = \<lparr>pc_myhostport = g, pc_rpcCount = a, pc_byteCount = b, pc_leaseRequestCount = c,
        pc_leaseGrantedCount = d, pc_override = False, pc_overrideErr = None, pc_overrideStatus = OK,
        pc_disableLease = False, pc_overrideLeaseSeconds = s\<rparr>,
      sk_hostport = h, sk_always = False, sk_nodes = [\<lparr>HostPort = h, NodeID = i\<rparr>], sk_cache = x,
      passCount = p, failCount = f\<rparr>"

lemma stack_ready_bench:
  fixes st :: driver
  assumes "stack_ready st"
  obtains T dl ism nn ns m lp lis g a b c d h i x p f
    where "st = bench T dl ism nn ns m lp lis g a b c d 0 h i x p f"
proof -
  from assms obtain i where i: "sk_nodes st = [\<lparr>HostPort = sk_hostport st, NodeID = i\<rparr>]"
    by (auto simp: stack_ready_def)
  let ?ss = "sk_store st" and ?pc = "sk_pc st"
  have "st = bench (sk_clock st) (sk_dialable st) (ss_ismaster ?ss) (ss_numnodes ?ss) (ss_nodes ?ss)
      (ss_hashmap ?ss) (ss_leasePool ?ss) (sk_listening st) (pc_myhostport ?pc) (pc_rpcCount ?pc)
      (pc_byteCount ?pc) (pc_leaseRequestCount ?pc) (pc_leaseGrantedCount ?pc) 0 (sk_hostport st) i
      (sk_cache st) (passCount st) (failCount st)"
    using assms i by (simp add: bench_def stack_ready_def)
  then show thesis by (rule that)
qed

lemma lib_verdictI:
  fixes t :: "driver \<Rightarrow> driver go"
  assumes "\<And>T dl ism nn ns m lp lis g a b c d h i x p f.
    \<forall>k \<in> set ks. m k = None \<and> lp k = None \<and> x k = None \<Longrightarrow>
    (case t (bench T dl ism nn ns m lp lis g a b c d 0 h i x p f) of
       None \<Rightarrow> False
     | Some st' \<Rightarrow> stack_ready st' \<and> counters st' = (p + fst w, f + snd w) \<and>
         (\<forall>k. k \<notin> set ks \<longrightarrow> m k = None \<and> lp k = None \<and> x k = None \<longrightarrow> unused st' k))"
  shows "verdict stack_ready unused counters ks w t"
  unfolding verdict_def
proof (intro allI impI)
  fix st :: driver assume st: "stack_ready st" "\<forall>k \<in> set ks. unused st k"
  from st(1) obtain T dl ism nn ns m lp lis g a b c d h i x p f where
    w: "st = bench T dl ism nn ns m lp lis g a b c d 0 h i x p f" by (rule stack_ready_bench)
  have unused: "unused st k \<longleftrightarrow> m k = None \<and> lp k = None \<and> x k = None" for k
    by (simp add: unused_def w bench_def)
  have "counters st = (p, f)" by (simp add: counters_def w bench_def)
  moreover have "case t st of None \<Rightarrow> False
     | Some st' \<Rightarrow> stack_ready st' \<and> counters st' = (p + fst w, f + snd w) \<and>
         (\<forall>k. k \<notin> set ks \<longrightarrow> m k = None \<and> lp k = None \<and> x k = None \<longrightarrow> unused st' k)"
    unfolding w by (rule assms) (use st(2) unused in blast)
  ultimately show "case t st of None \<Rightarrow> False
     | Some st' \<Rightarrow> stack_ready st' \<and> fst (counters st') = fst (counters st) + fst w \<and>
         snd (counters st') = snd (counters st) + snd w \<and>
         (\<forall>k. k \<notin> set ks \<longrightarrow> unused st k \<longrightarrow> unused st' k)"
    unfolding unused by (simp split: option.splits)
qed

text \<open>The definitions that evaluating a test unfolds.\<close>

lemma get_times_numeral:
  "get_times (numeral n) key st = do { (st, v, err) \<leftarrow> lib_Get key st; get_times (pred_numeral n) key st }"
  "getlist_times (numeral n) key st =
     do { (st, v, err) \<leftarrow> lib_GetList key st; getlist_times (pred_numeral n) key st }"
  by (simp_all add: numeral_eq_Suc)

lemmas stack_code =
  bench_def stack_ready_def unused_def counters_def
  stack_Get_one stack_GetList_one stack_mutate_one stack_Put_def stack_AppendToList_def stack_RemoveFromList_def
  lib_Get_def lib_GetList_def lib_Put_def lib_AppendToList_def lib_RemoveFromList_def
  cache_Get_def cache_Grant_def new_entry_def clean_def expire_def evict_None evict_upd evict_evict
  QUERY_CACHE_SECONDS_def QUERY_CACHE_THRESH_def lease_defs no_lease_def
  pc_Get_def pc_GetList_def pc_read_def call_read_def pc_Put_def pc_AppendToList_def pc_RemoveFromList_def
  pc_write_def call_write_def on_pc_def pc_Reset_def pc_OverrideErr_def pc_OverrideStatus_def pc_OverrideOff_def
  pc_DisableLease_def pc_EnableLease_def pc_OverrideLeaseSeconds_def
  ss_Get_def ss_GetList_def ss_Put_def ss_AppendToList_def ss_RemoveFromList_def
  addLeasePool_def revokeLease_def lease_over_def
  get_times_numeral forceCacheGet_def forceCacheGetList_def lib_revokeLease_def lib_checkError_def
  checkLimits_def lib_sleep_def passing_def failing_def

lemmas stack_congs = eval_congs sum.case_cong_weak doc.case_cong_weak

section \<open>Each test\<close>

lemma verdict_testGetError: "verdict stack_ready unused counters [''key:1''] (1, 0) testGetError"
  by (rule lib_verdictI) (simp add: testGetError_def stack_code cong: stack_congs)

lemma verdict_testGetErrorStatus: "verdict stack_ready unused counters [''key:2''] (1, 0) testGetErrorStatus"
  by (rule lib_verdictI) (simp add: testGetErrorStatus_def stack_code cong: stack_congs)

lemma verdict_testGetValid: "verdict stack_ready unused counters [''key:3''] (1, 0) testGetValid"
  by (rule lib_verdictI) (simp add: testGetValid_def stack_code cong: stack_congs)

lemma verdict_testPutError: "verdict stack_ready unused counters [''key:4''] (1, 0) testPutError"
  by (rule lib_verdictI) (simp add: testPutError_def stack_code cong: stack_congs)

lemma verdict_testPutErrorStatus: "verdict stack_ready unused counters [''key:5''] (1, 0) testPutErrorStatus"
  by (rule lib_verdictI) (simp add: testPutErrorStatus_def stack_code cong: stack_congs)

lemma verdict_testPutValid: "verdict stack_ready unused counters [''key:6''] (1, 0) testPutValid"
  by (rule lib_verdictI) (simp add: testPutValid_def stack_code cong: stack_congs)

lemma verdict_testGetListError: "verdict stack_ready unused counters [''keylist:1''] (1, 0) testGetListError"
  by (rule lib_verdictI) (simp add: testGetListError_def stack_code cong: stack_congs)

lemma verdict_testGetListErrorStatus: "verdict stack_ready unused counters [''keylist:2''] (1, 0) testGetListErrorStatus"
  by (rule lib_verdictI) (simp add: testGetListErrorStatus_def stack_code cong: stack_congs)

lemma verdict_testGetListValid: "verdict stack_ready unused counters [''keylist:3''] (1, 0) testGetListValid"
  by (rule lib_verdictI) (simp add: testGetListValid_def stack_code cong: stack_congs)

lemma verdict_testAppendToListError: "verdict stack_ready unused counters [''keylist:4''] (1, 0) testAppendToListError"
  by (rule lib_verdictI) (simp add: testAppendToListError_def stack_code cong: stack_congs)

lemma verdict_testAppendToListErrorStatus: "verdict stack_ready unused counters [''keylist:5''] (1, 0) testAppendToListErrorStatus"
  by (rule lib_verdictI) (simp add: testAppendToListErrorStatus_def stack_code cong: stack_congs)

lemma verdict_testAppendToListValid: "verdict stack_ready unused counters [''keylist:6''] (1, 0) testAppendToListValid"
  by (rule lib_verdictI) (simp add: testAppendToListValid_def stack_code cong: stack_congs)

lemma verdict_testRemoveFromListError: "verdict stack_ready unused counters [''keylist:7''] (1, 0) testRemoveFromListError"
  by (rule lib_verdictI) (simp add: testRemoveFromListError_def stack_code cong: stack_congs)

lemma verdict_testRemoveFromListErrorStatus: "verdict stack_ready unused counters [''keylist:8''] (1, 0) testRemoveFromListErrorStatus"
  by (rule lib_verdictI) (simp add: testRemoveFromListErrorStatus_def stack_code cong: stack_congs)

lemma verdict_testRemoveFromListValid: "verdict stack_ready unused counters [''keylist:9''] (1, 0) testRemoveFromListValid"
  by (rule lib_verdictI) (simp add: testRemoveFromListValid_def stack_code cong: stack_congs)

lemma verdict_testCacheGetLimit: "verdict stack_ready unused counters [''keycacheget:1''] (1, 0) testCacheGetLimit"
  by (rule lib_verdictI) (simp add: testCacheGetLimit_def stack_code cong: stack_congs)

lemma verdict_testCacheGetLimit2: "verdict stack_ready unused counters [''keycacheget:2''] (1, 0) testCacheGetLimit2"
  by (rule lib_verdictI) (simp add: testCacheGetLimit2_def stack_code cong: stack_congs)

lemma verdict_testCacheGetLeaseNotGranted: "verdict stack_ready unused counters [''keycacheget:4''] (1, 0) testCacheGetLeaseNotGranted"
  by (rule lib_verdictI) (simp add: testCacheGetLeaseNotGranted_def stack_code cong: stack_congs)

lemma verdict_testCacheGetLeaseNotGranted2: "verdict stack_ready unused counters [''keycacheget:5''] (1, 0) testCacheGetLeaseNotGranted2"
  by (rule lib_verdictI) (simp add: testCacheGetLeaseNotGranted2_def stack_code cong: stack_congs)

lemma verdict_testCacheGetLeaseTimeout: "verdict stack_ready unused counters [''keycacheget:6''] (1, 0) testCacheGetLeaseTimeout"
  by (rule lib_verdictI) (simp add: testCacheGetLeaseTimeout_def stack_code cong: stack_congs)

lemma verdict_testRevokeGetValid: "verdict stack_ready unused counters [''keyrevokeget:1''] (0, 1) testRevokeGetValid"
  by (rule lib_verdictI) (simp add: testRevokeGetValid_def stack_code cong: stack_congs)

lemma verdict_testRevokeGetNonexistent: "verdict stack_ready unused counters [''keyrevokeget:2''] (1, 0) testRevokeGetNonexistent"
  by (rule lib_verdictI) (simp add: testRevokeGetNonexistent_def stack_code cong: stack_congs)

lemma verdict_testRevokeGetUpdate: "verdict stack_ready unused counters [''keyrevokeget:3''] (0, 1) testRevokeGetUpdate"
  by (rule lib_verdictI) (simp add: testRevokeGetUpdate_def stack_code cong: stack_congs)

lemma verdict_testCacheGetListLimit: "verdict stack_ready unused counters [''keycachegetlist:1''] (1, 0) testCacheGetListLimit"
  by (rule lib_verdictI) (simp add: testCacheGetListLimit_def stack_code cong: stack_congs)

lemma verdict_testCacheGetListLimit2: "verdict stack_ready unused counters [''keycachegetlist:2''] (1, 0) testCacheGetListLimit2"
  by (rule lib_verdictI) (simp add: testCacheGetListLimit2_def stack_code cong: stack_congs)

lemma verdict_testCacheGetListLeaseNotGranted: "verdict stack_ready unused counters [''keycachegetlist:4''] (1, 0) testCacheGetListLeaseNotGranted"
  by (rule lib_verdictI) (simp add: testCacheGetListLeaseNotGranted_def stack_code cong: stack_congs)

lemma verdict_testCacheGetListLeaseNotGranted2: "verdict stack_ready unused counters [''keycachegetlist:5''] (1, 0) testCacheGetListLeaseNotGranted2"
  by (rule lib_verdictI) (simp add: testCacheGetListLeaseNotGranted2_def stack_code cong: stack_congs)

lemma verdict_testCacheGetListLeaseTimeout: "verdict stack_ready unused counters [''keycachegetlist:6''] (1, 0) testCacheGetListLeaseTimeout"
  by (rule lib_verdictI) (simp add: testCacheGetListLeaseTimeout_def stack_code cong: stack_congs)

lemma verdict_testRevokeGetListValid: "verdict stack_ready unused counters [''keyrevokegetlist:1''] (0, 1) testRevokeGetListValid"
  by (rule lib_verdictI) (simp add: testRevokeGetListValid_def stack_code cong: stack_congs)

lemma verdict_testRevokeGetListNonexistent: "verdict stack_ready unused counters [''keyrevokegetlist:2''] (1, 0) testRevokeGetListNonexistent"
  by (rule lib_verdictI) (simp add: testRevokeGetListNonexistent_def stack_code cong: stack_congs)

lemma verdict_testRevokeGetListUpdate: "verdict stack_ready unused counters [''keyrevokegetlist:3''] (0, 1) testRevokeGetListUpdate"
  by (rule lib_verdictI) (simp add: testRevokeGetListUpdate_def stack_code cong: stack_congs)

text \<open>A value that is cached is found again and again, and nothing changes.\<close>

lemma get_cached_again: "lib_Get key st = Some (st, ''value'', None) \<Longrightarrow> get_cached n key st = Some (False, st)"
  by (induction n) (simp_all add: lib_checkError_def)

lemma getlist_cached_again:
  "lib_GetList key st = Some (st, [''value''], None) \<Longrightarrow> getlist_cached n key st = Some (False, st)"
  by (induction n) (simp_all add: lib_checkError_def)

lemma verdict_testCacheGetCorrect: "verdict stack_ready unused counters [''keycacheget:3''] (1, 0) testCacheGetCorrect"
  by (rule lib_verdictI) (simp add: testCacheGetCorrect_def get_cached_again stack_code cong: stack_congs)

lemma verdict_testCacheGetListCorrect:
  "verdict stack_ready unused counters [''keycachegetlist:3''] (1, 0) testCacheGetListCorrect"
  by (rule lib_verdictI) (simp add: testCacheGetListCorrect_def getlist_cached_again stack_code cong: stack_congs)

section \<open>The memory tests\<close>

text \<open>One round, on a key that was not used; the fourth query asks for the lease.\<close>

lemma get_round:
  assumes "m k = None" "lp k = None" "x k = None"
  shows "get_rounds (k # ks) long (bench T dl ism nn ns m lp lis g a b c d 1 h i x p f) =
    get_rounds ks long (bench T dl ism nn ns (m(k \<mapsto> JStr long))
      (lp(k \<mapsto> \<lparr>le_pending = False, le_holders = [\<lparr>h_address = h, h_issueTime = T\<rparr>]\<rparr>)) lis g 0 0 0 0 1 h i
      ((evict T x)(k \<mapsto> \<lparr>en_granted = True, en_ll = [T, T, T, T], en_val = JStr long,
                          en_leaseTime = T, en_leaseDur = seconds 1\<rparr>)) p f)"
  using assms by (simp add: stack_code cong: stack_congs)

lemma getlist_round:
  assumes "m k = None" "lp k = None" "x k = None"
  shows "getlist_rounds (k # ks) long (bench T dl ism nn ns m lp lis g a b c d 1 h i x p f) =
    getlist_rounds ks long (bench T dl ism nn ns (m(k \<mapsto> JArr [long]))
      (lp(k \<mapsto> \<lparr>le_pending = False, le_holders = [\<lparr>h_address = h, h_issueTime = T\<rparr>]\<rparr>)) lis g 0 0 0 0 1 h i
      ((evict T x)(k \<mapsto> \<lparr>en_granted = True, en_ll = [T, T, T, T], en_val = JArr [long],
                          en_leaseTime = T, en_leaseDur = seconds 1\<rparr>)) p f)"
  using assms by (simp add: stack_code cong: stack_congs)

text \<open>All rounds, over different keys.\<close>

lemma get_all_rounds:
  assumes "distinct ks" and "\<forall>k \<in> set ks. m k = None \<and> lp k = None \<and> x k = None"
  shows "\<exists>m' lp' a' b' c' d' x'.
    get_rounds ks long (bench T dl ism nn ns m lp lis g a b c d 1 h i x p f) =
      Some (False, bench T dl ism nn ns m' lp' lis g a' b' c' d' 1 h i x' p f) \<and>
    (\<forall>k. k \<notin> set ks \<longrightarrow> m k = None \<and> lp k = None \<and> x k = None \<longrightarrow> m' k = None \<and> lp' k = None \<and> x' k = None)"
  using assms
proof (induction ks arbitrary: m lp a b c d x)
  case Nil
  then show ?case by simp blast
next
  case (Cons k ks)
  then have k: "m k = None" "lp k = None" "x k = None" and ks: "distinct ks" "k \<notin> set ks" by auto
  have new: "\<forall>l \<in> set ks. (m(k \<mapsto> v)) l = None \<and> (lp(k \<mapsto> e)) l = None \<and> ((evict T x)(k \<mapsto> u)) l = None" for v e u
    using Cons.prems ks(2) by (auto simp: evict_None)
  show ?case unfolding get_round [of m k lp x, OF k]
    using Cons.IH [OF ks(1) new] by (fastforce simp: evict_None)
qed

lemma getlist_all_rounds:
  assumes "distinct ks" and "\<forall>k \<in> set ks. m k = None \<and> lp k = None \<and> x k = None"
  shows "\<exists>m' lp' a' b' c' d' x'.
    getlist_rounds ks long (bench T dl ism nn ns m lp lis g a b c d 1 h i x p f) =
      Some (False, bench T dl ism nn ns m' lp' lis g a' b' c' d' 1 h i x' p f) \<and>
    (\<forall>k. k \<notin> set ks \<longrightarrow> m k = None \<and> lp k = None \<and> x k = None \<longrightarrow> m' k = None \<and> lp' k = None \<and> x' k = None)"
  using assms
proof (induction ks arbitrary: m lp a b c d x)
  case Nil
  then show ?case by simp blast
next
  case (Cons k ks)
  then have k: "m k = None" "lp k = None" "x k = None" and ks: "distinct ks" "k \<notin> set ks" by auto
  have new: "\<forall>l \<in> set ks. (m(k \<mapsto> v)) l = None \<and> (lp(k \<mapsto> e)) l = None \<and> ((evict T x)(k \<mapsto> u)) l = None" for v e u
    using Cons.prems ks(2) by (auto simp: evict_None)
  show ?case unfolding getlist_round [of m k lp x, OF k]
    using Cons.IH [OF ks(1) new] by (fastforce simp: evict_None)
qed

lemma leak_keys: "distinct (leak_keys prefix)" "set (leak_keys prefix) \<subseteq> range (\<lambda>i. prefix @ Itoa i)"
  by (auto simp: leak_keys_def distinct_map inj_on_def)

lemma verdict_testCacheGetMemoryLeak:
  "verdict stack_ready unused counters (leak_keys ''keymemleakget:'')
     (if leak_free alloc then (1, 0) else (0, 1)) (testCacheGetMemoryLeak alloc)"
proof (rule lib_verdictI)
  fix T dl ism nn ns lis g a b c d h i p f
    and m :: "string \<rightharpoonup> doc" and lp :: "string \<rightharpoonup> leaseEntry" and x :: cache
  assume "\<forall>k \<in> set (leak_keys ''keymemleakget:''). m k = None \<and> lp k = None \<and> x k = None"
  from get_all_rounds [OF leak_keys(1) this, of longValue T dl ism nn ns lis g a b c d h i p f]
  obtain m' lp' a' b' c' d' x' where r:
    "get_rounds (leak_keys ''keymemleakget:'') longValue (bench T dl ism nn ns m lp lis g a b c d 1 h i x p f) =
      Some (False, bench T dl ism nn ns m' lp' lis g a' b' c' d' 1 h i x' p f)"
    "\<forall>k. k \<notin> set (leak_keys ''keymemleakget:'') \<longrightarrow> m k = None \<and> lp k = None \<and> x k = None \<longrightarrow>
       m' k = None \<and> lp' k = None \<and> x' k = None" by blast
  have on: "on_pc (pc_OverrideLeaseSeconds 1) (bench T dl ism nn ns m lp lis g a b c d 0 h i x p f) =
      bench T dl ism nn ns m lp lis g a b c d 1 h i x p f"
    by (simp add: bench_def on_pc_def pc_OverrideLeaseSeconds_def)
  show "case testCacheGetMemoryLeak alloc (bench T dl ism nn ns m lp lis g a b c d 0 h i x p f) of
      None \<Rightarrow> False
    | Some st' \<Rightarrow> stack_ready st' \<and>
        counters st' = (p + fst (if leak_free alloc then (1, 0) else (0, 1)),
                        f + snd (if leak_free alloc then (1, 0) else (0, 1))) \<and>
        (\<forall>k. k \<notin> set (leak_keys ''keymemleakget:'') \<longrightarrow>
           m k = None \<and> lp k = None \<and> x k = None \<longrightarrow> unused st' k)"
    using r(2)
    by (simp add: testCacheGetMemoryLeak_def on r(1))
      (simp add: bench_def stack_ready_def unused_def counters_def on_pc_def pc_OverrideLeaseSeconds_def
        lib_sleep_def passing_def failing_def)
qed

lemma verdict_testCacheGetListMemoryLeak:
  "verdict stack_ready unused counters (leak_keys ''keymemleakgetlist:'')
     (if leak_free alloc then (1, 0) else (0, 1)) (testCacheGetListMemoryLeak alloc)"
proof (rule lib_verdictI)
  fix T dl ism nn ns lis g a b c d h i p f
    and m :: "string \<rightharpoonup> doc" and lp :: "string \<rightharpoonup> leaseEntry" and x :: cache
  assume "\<forall>k \<in> set (leak_keys ''keymemleakgetlist:''). m k = None \<and> lp k = None \<and> x k = None"
  from getlist_all_rounds [OF leak_keys(1) this, of longValue T dl ism nn ns lis g a b c d h i p f]
  obtain m' lp' a' b' c' d' x' where r:
    "getlist_rounds (leak_keys ''keymemleakgetlist:'') longValue (bench T dl ism nn ns m lp lis g a b c d 1 h i x p f) =
      Some (False, bench T dl ism nn ns m' lp' lis g a' b' c' d' 1 h i x' p f)"
    "\<forall>k. k \<notin> set (leak_keys ''keymemleakgetlist:'') \<longrightarrow> m k = None \<and> lp k = None \<and> x k = None \<longrightarrow>
       m' k = None \<and> lp' k = None \<and> x' k = None" by blast
  have on: "on_pc (pc_OverrideLeaseSeconds 1) (bench T dl ism nn ns m lp lis g a b c d 0 h i x p f) =
      bench T dl ism nn ns m lp lis g a b c d 1 h i x p f"
    by (simp add: bench_def on_pc_def pc_OverrideLeaseSeconds_def)
  show "case testCacheGetListMemoryLeak alloc (bench T dl ism nn ns m lp lis g a b c d 0 h i x p f) of
      None \<Rightarrow> False
    | Some st' \<Rightarrow> stack_ready st' \<and>
        counters st' = (p + fst (if leak_free alloc then (1, 0) else (0, 1)),
                        f + snd (if leak_free alloc then (1, 0) else (0, 1))) \<and>
        (\<forall>k. k \<notin> set (leak_keys ''keymemleakgetlist:'') \<longrightarrow>
           m k = None \<and> lp k = None \<and> x k = None \<longrightarrow> unused st' k)"
    using r(2)
    by (simp add: testCacheGetListMemoryLeak_def on r(1))
      (simp add: bench_def stack_ready_def unused_def counters_def on_pc_def pc_OverrideLeaseSeconds_def
        lib_sleep_def passing_def failing_def)
qed

section \<open>The test run\<close>

definition judged_lib_tests :: "u64 \<times> u64 \<Rightarrow> u64 \<times> u64 \<Rightarrow> driver judged list" where
  "judged_lib_tests alloc1 alloc2 =
     [((''testGetError'', testGetError), [''key:1''], 1, 0),
      ((''testGetErrorStatus'', testGetErrorStatus), [''key:2''], 1, 0),
      ((''testGetValid'', testGetValid), [''key:3''], 1, 0),
      ((''testPutError'', testPutError), [''key:4''], 1, 0),
      ((''testPutErrorStatus'', testPutErrorStatus), [''key:5''], 1, 0),
      ((''testPutValid'', testPutValid), [''key:6''], 1, 0),
      ((''testGetListError'', testGetListError), [''keylist:1''], 1, 0),
      ((''testGetListErrorStatus'', testGetListErrorStatus), [''keylist:2''], 1, 0),
      ((''testGetListValid'', testGetListValid), [''keylist:3''], 1, 0),
      ((''testAppendToListError'', testAppendToListError), [''keylist:4''], 1, 0),
      ((''testAppendToListErrorStatus'', testAppendToListErrorStatus), [''keylist:5''], 1, 0),
      ((''testAppendToListValid'', testAppendToListValid), [''keylist:6''], 1, 0),
      ((''testRemoveFromListError'', testRemoveFromListError), [''keylist:7''], 1, 0),
      ((''testRemoveFromListErrorStatus'', testRemoveFromListErrorStatus), [''keylist:8''], 1, 0),
      ((''testRemoveFromListValid'', testRemoveFromListValid), [''keylist:9''], 1, 0),
      ((''testCacheGetLimit'', testCacheGetLimit), [''keycacheget:1''], 1, 0),
      ((''testCacheGetLimit2'', testCacheGetLimit2), [''keycacheget:2''], 1, 0),
      ((''testCacheGetCorrect'', testCacheGetCorrect), [''keycacheget:3''], 1, 0),
      ((''testCacheGetLeaseNotGranted'', testCacheGetLeaseNotGranted), [''keycacheget:4''], 1, 0),
      ((''testCacheGetLeaseNotGranted2'', testCacheGetLeaseNotGranted2), [''keycacheget:5''], 1, 0),
      ((''testCacheGetLeaseTimeout'', testCacheGetLeaseTimeout), [''keycacheget:6''], 1, 0),
      ((''testCacheGetMemoryLeak'', testCacheGetMemoryLeak alloc1), leak_keys ''keymemleakget:'', if leak_free alloc1 then (1, 0) else (0, 1)),
      ((''testRevokeGetValid'', testRevokeGetValid), [''keyrevokeget:1''], 0, 1),
      ((''testRevokeGetNonexistent'', testRevokeGetNonexistent), [''keyrevokeget:2''], 1, 0),
      ((''testRevokeGetUpdate'', testRevokeGetUpdate), [''keyrevokeget:3''], 0, 1),
      ((''testCacheGetListLimit'', testCacheGetListLimit), [''keycachegetlist:1''], 1, 0),
      ((''testCacheGetListLimit2'', testCacheGetListLimit2), [''keycachegetlist:2''], 1, 0),
      ((''testCacheGetListCorrect'', testCacheGetListCorrect), [''keycachegetlist:3''], 1, 0),
      ((''testCacheGetListLeaseNotGranted'', testCacheGetListLeaseNotGranted), [''keycachegetlist:4''], 1, 0),
      ((''testCacheGetListLeaseNotGranted2'', testCacheGetListLeaseNotGranted2), [''keycachegetlist:5''], 1, 0),
      ((''testCacheGetListLeaseTimeout'', testCacheGetListLeaseTimeout), [''keycachegetlist:6''], 1, 0),
      ((''testCacheGetListMemoryLeak'', testCacheGetListMemoryLeak alloc2), leak_keys ''keymemleakgetlist:'', if leak_free alloc2 then (1, 0) else (0, 1)),
      ((''testRevokeGetListValid'', testRevokeGetListValid), [''keyrevokegetlist:1''], 0, 1),
      ((''testRevokeGetListNonexistent'', testRevokeGetListNonexistent), [''keyrevokegetlist:2''], 1, 0),
      ((''testRevokeGetListUpdate'', testRevokeGetListUpdate), [''keyrevokegetlist:3''], 0, 1)]"

lemmas lib_verdicts =
  verdict_testGetError
  verdict_testGetErrorStatus
  verdict_testGetValid
  verdict_testPutError
  verdict_testPutErrorStatus
  verdict_testPutValid
  verdict_testGetListError
  verdict_testGetListErrorStatus
  verdict_testGetListValid
  verdict_testAppendToListError
  verdict_testAppendToListErrorStatus
  verdict_testAppendToListValid
  verdict_testRemoveFromListError
  verdict_testRemoveFromListErrorStatus
  verdict_testRemoveFromListValid
  verdict_testCacheGetLimit
  verdict_testCacheGetLimit2
  verdict_testCacheGetCorrect
  verdict_testCacheGetLeaseNotGranted
  verdict_testCacheGetLeaseNotGranted2
  verdict_testCacheGetLeaseTimeout
  verdict_testCacheGetMemoryLeak
  verdict_testRevokeGetValid
  verdict_testRevokeGetNonexistent
  verdict_testRevokeGetUpdate
  verdict_testCacheGetListLimit
  verdict_testCacheGetListLimit2
  verdict_testCacheGetListCorrect
  verdict_testCacheGetListLeaseNotGranted
  verdict_testCacheGetListLeaseNotGranted2
  verdict_testCacheGetListLeaseTimeout
  verdict_testCacheGetListMemoryLeak
  verdict_testRevokeGetListValid
  verdict_testRevokeGetListNonexistent
  verdict_testRevokeGetListUpdate

text \<open>The tests that fail.\<close>

definition lib_fails :: "u64 \<times> u64 \<Rightarrow> u64 \<times> u64 \<Rightarrow> string \<Rightarrow> bool" where
  "lib_fails alloc1 alloc2 name \<longleftrightarrow>
     name \<in> {''testRevokeGetValid'', ''testRevokeGetUpdate'', ''testRevokeGetListValid'', ''testRevokeGetListUpdate''} \<or>
     name = ''testCacheGetMemoryLeak'' \<and> \<not> leak_free alloc1 \<or>
     name = ''testCacheGetListMemoryLeak'' \<and> \<not> leak_free alloc2"

lemma leak_keys_prefix: "k \<in> set (leak_keys prefix) \<Longrightarrow> \<exists>i. k = prefix @ Itoa i"
  using leak_keys(2) by blast

lemma lib_keys_distinct: "distinct (keys_of (judged_lib_tests alloc1 alloc2))"
  by (auto simp: judged_lib_tests_def leak_keys(1) dest!: leak_keys_prefix)

interpretation lib_tests: test_suite stack_ready unused counters "judged_lib_tests alloc1 alloc2"
  for alloc1 alloc2
proof
  have "\<forall>((name, f), ks, d) \<in> set (judged_lib_tests alloc1 alloc2). verdict stack_ready unused counters ks d f"
    by (simp only: judged_lib_tests_def list.set ball_simps prod.case lib_verdicts)
  then show "verdict stack_ready unused counters ks d f"
    if "((name, f), ks, d) \<in> set (judged_lib_tests alloc1 alloc2)" for name f ks d
    using that by fast
qed (rule lib_keys_distinct)

lemma lib_tests_judged: "lib_tests alloc1 alloc2 = map fst (judged_lib_tests alloc1 alloc2)"
  by (simp add: judged_lib_tests_def lib_tests_def)

lemma score_lib_tests:
  "score matches (judged_lib_tests alloc1 alloc2) =
     (length (filter (\<lambda>(name, f). matches name \<and> \<not> lib_fails alloc1 alloc2 name) (lib_tests alloc1 alloc2)),
      length (filter (\<lambda>(name, f). matches name \<and> lib_fails alloc1 alloc2 name) (lib_tests alloc1 alloc2)))"
proof -
  have "\<forall>((name, f), ks, d) \<in> set (judged_lib_tests alloc1 alloc2).
      d = (if lib_fails alloc1 alloc2 name then (0, 1) else (1, 0))"
    by (simp add: judged_lib_tests_def lib_fails_def)
  then show ?thesis unfolding lib_tests_judged by (rule score_counts)
qed

text \<open>The process before the main tests: the first three use the key \<open>key:\<close> only.\<close>

definition lib_store :: "Node \<Rightarrow> StorageServer" where
  "lib_store self = NewStorageserver True 1 self"

lemma start_lib: "hostport \<noteq> '''' \<Longrightarrow> \<not> sk_listening st \<Longrightarrow> sk_dialable st \<Longrightarrow>
   ss_ismaster (sk_store st) \<Longrightarrow> ss_numnodes (sk_store st) = 1 \<Longrightarrow> ss_nodes (sk_store st) = [self] \<Longrightarrow>
   start_stack hostport always st =
     Some (st\<lparr>sk_listening := True,
              sk_pc := no_proxy\<lparr>pc_myhostport := sk_hostport st\<rparr>, sk_always := always,
              sk_nodes := [self\<lparr>HostPort := sk_hostport st\<rparr>], sk_cache := NewCache\<rparr>, True)"
  by (simp add: start_stack_def NewProxyCounter_def pc_GetServers_def ss_GetServers_def iNewLibstore_def
      no_proxy_def eval_nat_numeral)

lemma init_tests:
  assumes "hostport \<noteq> ''''" and "\<not> matches ''testNoLeases''"
  shows "\<exists>st st'. run_tests (filter (\<lambda>(name, f). matches name) lib_initTests)
      (start_driver True (lib_store self) hostport) = Some st \<and>
    initLibstore hostport False st = Some (st', True) \<and> stack_ready st' \<and>
    counters st' = (length (filter (\<lambda>(name, f). matches name) lib_initTests), 0) \<and>
    (\<forall>k. k \<noteq> ''key:'' \<longrightarrow> unused st' k)"
  using assms
  by (cases self; cases "matches ''testNonexistentServer''"; cases "matches ''testAlwaysLeases''")
    (simp_all add: lib_initTests_def testNonexistentServer_def testAlwaysLeases_def initLibstore_def
      cleanupLibstore_def stop_stack_def start_driver_def lib_store_def NewStorageserver_def iNewLibstore_def
      start_lib [of _ _ self] no_proxy_def NewCache_def evict_None [of Map.empty] stack_code cong: stack_congs)

lemma no_leases_dies:
  assumes "hostport \<noteq> ''''" and "matches ''testNoLeases''"
  shows "run_tests (filter (\<lambda>(name, f). matches name) lib_initTests)
    (start_driver True (lib_store self) hostport) = None"
  using assms
  by (cases "matches ''testNonexistentServer''")
    (simp_all add: lib_initTests_def testNonexistentServer_def testNoLeases_def initLibstore_def
      cleanupLibstore_def start_driver_def lib_store_def NewStorageserver_def iNewLibstore_def start_stack_def
      NewProxyCounter_def pc_GetServers_def ss_GetServers_def passing_def)

text \<open>
  C13: What the libstore's tests say of it, on a storage server that serves alone, whichever tests
  are asked for.  If \<open>testNoLeases\<close> is among them (as it is when nothing is selected) the program
  dies in it: a libstore without a callback port, which the documentation allows, is a panic.
  Otherwise the program runs to its end, and every test passes but the four that expect a
  revocation to reach the libstore, and the memory tests, which pass when the runtime's numbers are
  low enough.
\<close>

theorem libtest_verdict:
  "libtest_main matches alloc1 alloc2 True (lib_store self) (''localhost:'' @ Itoa port) =
     (if matches ''testNoLeases'' then None
      else Some (Some
        (length (filter (\<lambda>(name, f). matches name \<and> \<not> lib_fails alloc1 alloc2 name)
           (lib_initTests @ lib_tests alloc1 alloc2)),
         length (filter (\<lambda>(name, f). matches name \<and> lib_fails alloc1 alloc2 name)
           (lib_tests alloc1 alloc2)))))"
proof (cases "matches ''testNoLeases''")
  case True
  then show ?thesis using no_leases_dies [of "''localhost:'' @ Itoa port" matches self]
    by (simp add: libtest_main_def)
next
  case False
  from init_tests [of "''localhost:'' @ Itoa port" matches self] False obtain st st' where init:
    "run_tests (filter (\<lambda>(name, f). matches name) lib_initTests)
       (start_driver True (lib_store self) (''localhost:'' @ Itoa port)) = Some st"
    "initLibstore (''localhost:'' @ Itoa port) False st = Some (st', True)" "stack_ready st'"
    "counters st' = (length (filter (\<lambda>(name, f). matches name) lib_initTests), 0)"
    "\<forall>k. k \<noteq> ''key:'' \<longrightarrow> unused st' k" by auto
  have "\<forall>k \<in> set (keys_of (judged_lib_tests alloc1 alloc2)). unused st' k"
    using init(5) by (auto simp: judged_lib_tests_def dest!: leak_keys_prefix)
  from lib_tests.run_selected [OF init(3) this, of matches] obtain st2 where
    "run_tests (filter (\<lambda>(name, f). matches name) (lib_tests alloc1 alloc2)) st' = Some st2"
    "counters st2 = (fst (counters st') + fst (score matches (judged_lib_tests alloc1 alloc2)),
                     snd (counters st') + snd (score matches (judged_lib_tests alloc1 alloc2)))"
    by (auto simp: lib_tests_judged)
  moreover have "length (filter (\<lambda>(name, f). matches name) lib_initTests) =
      length (filter (\<lambda>(name, f). matches name \<and> \<not> lib_fails alloc1 alloc2 name) lib_initTests)"
    by (simp add: lib_initTests_def lib_fails_def)
  ultimately show ?thesis using False init(1,2,4)
    by (simp add: libtest_main_def score_lib_tests counters_def)
qed

end
