(* ===== verification/TribMany.thy ===== *)
theory TribMany
  imports TribTest TribStore LibVerdict
begin

text \<open>
  The tribble server over the stack of \<open>TestStack\<close> as long as nobody reads a list twice: then the
  libstore's cache holds values only of the users' keys, which do not change, and the server does what
  the social network does.  The proxy's counters tell how many calls the reading takes.
\<close>

section \<open>What reading costs\<close>

definition costs :: "nat \<Rightarrow> nat \<Rightarrow> nat \<Rightarrow> tribtest \<Rightarrow> tribtest \<Rightarrow> bool" where
  "costs lo hi b st st' \<longleftrightarrow>
     (\<exists>n m. lo \<le> n \<and> n \<le> hi \<and> m \<le> b \<and>
        pc_rpcCount (sk_pc st') = pc_rpcCount (sk_pc st) + of_nat n \<and>
        pc_byteCount (sk_pc st') = pc_byteCount (sk_pc st) + of_nat m)"

lemma costs_refl [simp]: "costs 0 hi b st st"
  unfolding costs_def by (intro exI [of _ 0]) simp

lemma costs_trans:
  "costs l1 h1 b1 st1 st2 \<Longrightarrow> costs l2 h2 b2 st2 st3 \<Longrightarrow> costs (l1 + l2) (h1 + h2) (b1 + b2) st1 st3"
  unfolding costs_def by (elim exE) (rename_tac n m n' m', rule_tac x = "n + n'" in exI, rule_tac x = "m + m'" in exI, auto)

lemma costs_mono: "costs lo hi b st st' \<Longrightarrow> lo' \<le> lo \<Longrightarrow> hi \<le> hi' \<Longrightarrow> b \<le> b' \<Longrightarrow> costs lo' hi' b' st st'"
  unfolding costs_def by (meson order_trans)

section \<open>The state between requests\<close>

text \<open>What an operation of the store may change.\<close>

definition same_but_store :: "tribtest \<Rightarrow> tribtest \<Rightarrow> bool" where
  "same_but_store st st' \<longleftrightarrow>
     st'\<lparr>sk_pc := sk_pc st, sk_store := sk_store st, sk_cache := sk_cache st\<rparr> = st"

text \<open>
  The store holds the network, and the cache has seen only users' keys and the keys of \<open>K\<close>; the
  values that it holds are right.
\<close>

definition cache_right :: "string set \<Rightarrow> (string \<Rightarrow> doc option) \<Rightarrow> cache \<Rightarrow> bool" where
  "cache_right K D c \<longleftrightarrow>
     (\<forall>k e. c k = Some e \<longrightarrow> (k \<in> range user_key \<or> k \<in> K) \<and>
        (en_granted e \<longrightarrow> k \<in> range user_key \<and> D k = Some (en_val e)))"

definition stands :: "(Tribble \<Rightarrow> string) \<Rightarrow> string set \<Rightarrow> network \<Rightarrow> tribtest \<Rightarrow> bool" where
  "stands enc K sn st \<longleftrightarrow>
     (\<exists>i. sk_nodes st = [\<lparr>HostPort = sk_hostport st, NodeID = i\<rparr>]) \<and> \<not> sk_always st \<and>
     tt_server st = server_of ''localhost:9010'' sn \<and> \<not> pc_override (sk_pc st) \<and>
     holds ''localhost:9010'' enc (ss_hashmap (sk_store st)) sn \<and>
     cache_right K (ss_hashmap (sk_store st)) (sk_cache st)"

lemma cache_Get_entries:
  assumes "cache_Get now k want c = (x, r)"
  shows "x k \<noteq> None"
    and "x j = Some e \<Longrightarrow> j = k \<or> c j \<noteq> None"
    and "x j = Some e \<Longrightarrow> en_granted e \<Longrightarrow> \<exists>e0. c j = Some e0 \<and> en_granted e0 \<and> en_val e0 = en_val e"
    and "r = Inr v \<Longrightarrow> \<exists>e0. c k = Some e0 \<and> en_granted e0 \<and> en_val e0 = v"
    and "c k = None \<Longrightarrow> r = Inl want"
proof -
  show "x k \<noteq> None" using cache_Get_entry [of now k want c] assms by simp
  show "r = Inr v \<Longrightarrow> \<exists>e0. c k = Some e0 \<and> en_granted e0 \<and> en_val e0 = v"
    using cache_Get_Inr [of now k want c v] assms by (auto elim: fresh_Some)
  show "c k = None \<Longrightarrow> r = Inl want"
    using assms by (auto simp: cache_Get_def evict_None new_entry_def QUERY_CACHE_THRESH_def)
  show "x j = Some e \<Longrightarrow> j = k \<or> c j \<noteq> None"
    using assms by (auto simp: cache_Get_def evict_def split: if_splits option.splits)
  show "x j = Some e \<Longrightarrow> en_granted e \<Longrightarrow> \<exists>e0. c j = Some e0 \<and> en_granted e0 \<and> en_val e0 = en_val e"
    using assms by (auto simp: cache_Get_def evict_def new_entry_def clean_def expire_def split: if_splits option.splits)
qed

section \<open>The proxy's calls\<close>

lemma addLeasePool_docs: "addLeasePool now k c ss = (ss', l) \<Longrightarrow> ss_hashmap ss' = ss_hashmap ss"
  by (auto simp: addLeasePool_def split: option.splits if_splits)

lemma pc_Get_delivered:
  assumes "\<not> pc_override pc"
  shows "\<exists>l pc' ss'. pc_Get Delivered now a (pc, ss) =
      ((pc', ss'), (case ss_hashmap ss (ga_Key a) of None \<Rightarrow> (EWRONGSERVER, '''', no_lease)
                    | Some d \<Rightarrow> (status_code.OK, doc_string d, l)), None) \<and>
    \<not> pc_override pc' \<and> pc_rpcCount pc' = pc_rpcCount pc + 1 \<and>
    pc_byteCount pc' = pc_byteCount pc +
      of_nat (length (ga_Key a) + (case ss_hashmap ss (ga_Key a) of None \<Rightarrow> 0 | Some d \<Rightarrow> length (doc_string d))) \<and>
    ss_hashmap ss' = ss_hashmap ss \<and> (Granted l \<longrightarrow> ga_WantLease a)"
proof (cases "ss_hashmap ss (ga_Key a)")
  case None
  with assms show ?thesis
    by (cases "ga_WantLease a"; intro exI [of _ no_lease]; auto simp: pc_Get_def pc_read_def call_read_def ss_Get_def no_lease_def)
next
  case (Some d)
  with assms show ?thesis
    by (auto simp: pc_Get_def pc_read_def call_read_def ss_Get_def no_lease_def addLeasePool_docs split: prod.splits)
qed

lemma pc_GetList_delivered:
  assumes "\<not> pc_override pc"
  shows "\<exists>l pc' ss'. pc_GetList Delivered now a (pc, ss) =
      ((pc', ss'), (case ss_hashmap ss (ga_Key a) of None \<Rightarrow> (EKEYNOTFOUND, [], no_lease)
                    | Some d \<Rightarrow> (status_code.OK, doc_list (Some d), l)), None) \<and>
    \<not> pc_override pc' \<and> pc_rpcCount pc' = pc_rpcCount pc + 1 \<and>
    pc_byteCount pc' = pc_byteCount pc +
      of_nat (length (ga_Key a) + (case ss_hashmap ss (ga_Key a) of None \<Rightarrow> 0
                                   | Some d \<Rightarrow> sum_list (map length (doc_list (Some d))))) \<and>
    ss_hashmap ss' = ss_hashmap ss \<and> (Granted l \<longrightarrow> ga_WantLease a)"
proof (cases "ss_hashmap ss (ga_Key a)")
  case None
  with assms show ?thesis
    by (cases "ga_WantLease a"; intro exI [of _ no_lease]; auto simp: pc_GetList_def pc_read_def call_read_def ss_GetList_def no_lease_def)
next
  case (Some d)
  with assms show ?thesis
    by (auto simp: pc_GetList_def pc_read_def call_read_def ss_GetList_def no_lease_def addLeasePool_docs split: prod.splits)
qed

lemma revoke_refused: "\<exists>rs. revoke_holders refused now hs = Some (now, rs)"
  by (induction hs) auto

lemma revokeLease_refused:
  "\<exists>ss' rs. revokeLease refused now k ss = Some (ss', now, rs) \<and> ss_hashmap ss' = ss_hashmap ss"
  using revoke_refused [of now "le_holders (the (ss_leasePool ss k))"]
  by (auto simp: revokeLease_def split: option.splits)

lemma pc_Put_delivered:
  assumes "\<not> pc_override pc"
  shows "\<exists>pc' ss'. pc_Put refused now Delivered k v (pc, ss) = Some ((pc', ss'), status_code.OK, None) \<and>
    \<not> pc_override pc' \<and> ss_hashmap ss' = (ss_hashmap ss)(k \<mapsto> JStr v)"
  using assms revokeLease_refused [of now k ss]
  by (auto simp: pc_Put_def pc_write_def call_write_def ss_Put_def)

lemma pc_AppendToList_delivered:
  assumes "\<not> pc_override pc"
  shows "\<exists>pc' ss'. pc_AppendToList refused now Delivered k v (pc, ss) =
      Some ((pc', ss'), if v \<in> set (doc_list (ss_hashmap ss k)) then EITEMEXISTS else status_code.OK, None) \<and>
    \<not> pc_override pc' \<and>
    ss_hashmap ss' = (if v \<in> set (doc_list (ss_hashmap ss k)) then ss_hashmap ss
                      else (ss_hashmap ss)(k \<mapsto> JArr (doc_list (ss_hashmap ss k) @ [v])))"
  using assms revokeLease_refused [of now k ss]
  by (auto simp: pc_AppendToList_def pc_write_def call_write_def ss_AppendToList_def)

section \<open>The operations of the store\<close>

lemma standsD:
  assumes "stands enc K sn st"
  shows "\<exists>node. sk_nodes st = [node] \<and> HostPort node = sk_hostport st" and "\<not> sk_always st"
    and "tt_server st = server_of ''localhost:9010'' sn" and "\<not> pc_override (sk_pc st)"
    and "holds ''localhost:9010'' enc (ss_hashmap (sk_store st)) sn"
    and "cache_right K (ss_hashmap (sk_store st)) (sk_cache st)"
  using assms by (auto simp: stands_def)

lemma sameD:
  assumes "same_but_store st st'"
  shows "passCount st' = passCount st" "failCount st' = failCount st" "sk_clock st' = sk_clock st"
    "tt_server st' = tt_server st" "sk_hostport st' = sk_hostport st" "sk_nodes st' = sk_nodes st"
    "sk_always st' = sk_always st"
proof -
  have st: "st'\<lparr>sk_pc := sk_pc st, sk_store := sk_store st, sk_cache := sk_cache st\<rparr> = st"
    using assms unfolding same_but_store_def .
  show "passCount st' = passCount st" using arg_cong [OF st, of passCount] by simp
  show "failCount st' = failCount st" using arg_cong [OF st, of failCount] by simp
  show "sk_clock st' = sk_clock st" using arg_cong [OF st, of sk_clock] by simp
  show "tt_server st' = tt_server st" using arg_cong [OF st, of tt_server] by simp
  show "sk_hostport st' = sk_hostport st" using arg_cong [OF st, of sk_hostport] by simp
  show "sk_nodes st' = sk_nodes st" using arg_cong [OF st, of sk_nodes] by simp
  show "sk_always st' = sk_always st" using arg_cong [OF st, of sk_always] by simp
qed

lemma same_trans:
  assumes "same_but_store st st1" "same_but_store st1 st2"
  shows "same_but_store st st2"
proof -
  have "st2\<lparr>sk_pc := sk_pc st, sk_store := sk_store st, sk_cache := sk_cache st\<rparr> =
      st2\<lparr>sk_pc := sk_pc st1, sk_store := sk_store st1, sk_cache := sk_cache st1\<rparr>
        \<lparr>sk_pc := sk_pc st, sk_store := sk_store st, sk_cache := sk_cache st\<rparr>" by simp
  with assms show ?thesis unfolding same_but_store_def by simp
qed

lemma same_intros [simp]:
  "same_but_store st st" "same_but_store st (st\<lparr>sk_cache := x\<rparr>)" "same_but_store st (st\<lparr>sk_pc := pc, sk_store := ss\<rparr>)"
  "same_but_store st (st\<lparr>sk_pc := pc, sk_store := ss, sk_cache := x\<rparr>)"
  by (simp_all add: same_but_store_def)

lemma stands_same:
  assumes "stands enc K sn st" "same_but_store st st'" "\<not> pc_override (sk_pc st')"
    and "ss_hashmap (sk_store st') = ss_hashmap (sk_store st)"
    and "cache_right K' (ss_hashmap (sk_store st)) (sk_cache st')"
  shows "stands enc K' sn st'"
  using assms sameD [OF assms(2)] by (simp add: stands_def)

lemma node_one:
  assumes "stands enc K sn st"
  obtains node where "sk_nodes st = [node]" "HostPort node = sk_hostport st"
  using standsD(1) [OF assms] by blast

lemma cache_right_upd:
  "cache_right K D c \<Longrightarrow> k \<in> range user_key \<or> k \<in> K \<Longrightarrow>
   (en_granted e \<Longrightarrow> k \<in> range user_key \<and> D k = Some (en_val e)) \<Longrightarrow> cache_right K D (c(k \<mapsto> e))"
  unfolding cache_right_def by (metis fun_upd_apply option.inject)

lemma cache_right_Get:
  assumes "cache_right K D c" and "cache_Get now k want c = (x, r)" and "k \<in> range user_key \<or> k \<in> K'" and "K \<subseteq> K'"
  shows "cache_right K' D x"
  unfolding cache_right_def
proof (intro allI impI)
  fix j e
  assume e: "x j = Some e"
  show "(j \<in> range user_key \<or> j \<in> K') \<and> (en_granted e \<longrightarrow> j \<in> range user_key \<and> D j = Some (en_val e))"
  proof (cases "en_granted e")
    case True
    with cache_Get_entries(3) [OF assms(2) e] obtain e0 where "c j = Some e0" "en_granted e0" "en_val e0 = en_val e"
      by blast
    with assms(1) show ?thesis unfolding cache_right_def by (metis (no_types))
  next
    case False
    from cache_Get_entries(2) [OF assms(2) e] consider "j = k" | e0 where "c j = Some e0" by blast
    then show ?thesis using False assms(1,3,4) unfolding cache_right_def by cases blast+
  qed
qed

lemma cache_right_Grant:
  assumes "cache_right K D x" and "x k \<noteq> None" and "k \<in> range user_key" and "D k = Some v"
  shows "\<exists>y. cache_Grant now k v l x = Some y \<and> cache_right K D y"
proof -
  obtain e where "x k = Some e" using assms(2) by blast
  then show ?thesis using cache_right_upd [OF assms(1), of k] assms(3,4) by (simp add: cache_Grant_def)
qed

lemma get_user_key:
  assumes "stands enc K sn st"
  shows "\<exists>st' r. stack_Get (user_key u) st = Some (st', r) \<and> failed r = (u \<notin> sn_members sn) \<and>
    stands enc K sn st' \<and> same_but_store st st' \<and> costs 0 1 (length (user_key u) + length u) st st'"
proof -
  obtain node where node: "sk_nodes st = [node]" "HostPort node = sk_hostport st" by (rule node_one [OF assms])
  note D = standsD(2-) [OF assms]
  let ?D = "ss_hashmap (sk_store st)"
  obtain x r where x: "cache_Get (sk_clock st) (user_key u) False (sk_cache st) = (x, r)" by fastforce
  have right: "cache_right K ?D x" using cache_right_Get [OF D(5) x] by blast
  have doc: "?D (user_key u) = (if u \<in> sn_members sn then Some (JStr u) else None)"
    using holdsD(1,2) [OF D(4), of u] by simp
  show ?thesis
  proof (cases r)
    case (Inr v)
    from cache_Get_entries(4) [OF x Inr] D(5) have "?D (user_key u) = Some v"
      unfolding cache_right_def by metis
    with doc have v: "u \<in> sn_members sn" "v = JStr u" by (simp_all split: if_splits)
    have "stands enc K sn (st\<lparr>sk_cache := x\<rparr>)"
      using D(3) right by (intro stands_same [OF assms same_intros(2)]) auto
    moreover have "costs 0 1 (length (user_key u) + length u) st (st\<lparr>sk_cache := x\<rparr>)"
      unfolding costs_def by (intro exI [of _ 0]) simp
    ultimately show ?thesis using x Inr v same_intros(2) by (simp add: stack_Get_one [OF node])
  next
    case (Inl want)
    let ?a = "\<lparr>ga_Key = user_key u, ga_WantLease = want \<or> sk_always st, ga_LeaseClient = sk_hostport st\<rparr>"
    from pc_Get_delivered [OF D(3), of "sk_clock st" ?a "sk_store st"] obtain l pc ss where
      pc: "pc_Get Delivered (sk_clock st) ?a (sk_pc st, sk_store st) =
          ((pc, ss), (if u \<in> sn_members sn then (status_code.OK, u, l) else (EWRONGSERVER, '''', no_lease)), None)"
        "\<not> pc_override pc" "pc_rpcCount pc = pc_rpcCount (sk_pc st) + 1"
        "pc_byteCount pc = pc_byteCount (sk_pc st) +
           of_nat (length (user_key u) + (if u \<in> sn_members sn then length u else 0))"
        "ss_hashmap ss = ?D"
      using doc by (auto split: if_splits)
    have st: "stands enc K sn (st\<lparr>sk_pc := pc, sk_store := ss, sk_cache := y\<rparr>)" if "cache_right K ?D y" for y
      using pc(2,5) that by (intro stands_same [OF assms same_intros(4)]) auto
    have co: "costs 0 1 (length (user_key u) + length u) st (st\<lparr>sk_pc := pc, sk_store := ss, sk_cache := y\<rparr>)" for y
      unfolding costs_def
      by (intro exI [of _ 1] exI [of _ "length (user_key u) + (if u \<in> sn_members sn then length u else 0)"])
        (simp add: pc(3,4))
    show ?thesis
    proof (cases "u \<in> sn_members sn")
      case True
      obtain y where y: "cache_Grant (sk_clock st) (user_key u) (JStr u) l x = Some y" "cache_right K ?D y"
        using cache_right_Grant [OF right cache_Get_entries(1) [OF x]] doc True by (metis range_eqI)
      show ?thesis
        using x Inl pc(1) True y st [OF right] st [OF y(2)] co same_intros(4)
        by (cases "Granted l") (auto simp: stack_Get_one [OF node])
    next
      case False
      then show ?thesis using x Inl pc(1) st [OF right] co same_intros(4) by (auto simp: stack_Get_one [OF node])
    qed
  qed
qed

text \<open>A key that the cache has not seen is read at the storage server, without a lease.\<close>

lemma unseen_Get:
  assumes "stands enc K sn st" and "k \<notin> K" and "k \<notin> range user_key" and "ss_hashmap (sk_store st) k = Some d"
  shows "\<exists>st'. stack_Get k st = Some (st', Inr (doc_string d)) \<and> stands enc (insert k K) sn st' \<and>
    same_but_store st st' \<and> ss_hashmap (sk_store st') = ss_hashmap (sk_store st) \<and>
    costs 1 1 (length k + length (doc_string d)) st st'"
proof -
  obtain node where node: "sk_nodes st = [node]" "HostPort node = sk_hostport st" by (rule node_one [OF assms(1)])
  note D = standsD(2-) [OF assms(1)]
  obtain x r where x: "cache_Get (sk_clock st) k False (sk_cache st) = (x, r)" by fastforce
  have "sk_cache st k = None"
    using D(5) assms(2,3) unfolding cache_right_def by (metis not_None_eq)
  with cache_Get_entries(5) [OF x] have r: "r = Inl False" by simp
  have right: "cache_right (insert k K) (ss_hashmap (sk_store st)) x" using cache_right_Get [OF D(5) x] by blast
  let ?a = "\<lparr>ga_Key = k, ga_WantLease = False \<or> sk_always st, ga_LeaseClient = sk_hostport st\<rparr>"
  from pc_Get_delivered [OF D(3), of "sk_clock st" ?a "sk_store st"] assms(4) D(1) obtain l pc ss where
    pc: "pc_Get Delivered (sk_clock st) ?a (sk_pc st, sk_store st) = ((pc, ss), (status_code.OK, doc_string d, l), None)"
      "\<not> pc_override pc" "pc_rpcCount pc = pc_rpcCount (sk_pc st) + 1"
      "pc_byteCount pc = pc_byteCount (sk_pc st) + of_nat (length k + length (doc_string d))"
      "ss_hashmap ss = ss_hashmap (sk_store st)" "\<not> Granted l"
    by auto
  let ?st = "st\<lparr>sk_pc := pc, sk_store := ss, sk_cache := x\<rparr>"
  have "stands enc (insert k K) sn ?st" using pc(2,5) right by (intro stands_same [OF assms(1) same_intros(4)]) auto
  moreover have "costs 1 1 (length k + length (doc_string d)) st ?st"
    unfolding costs_def by (intro exI [of _ 1] exI [of _ "length k + length (doc_string d)"]) (simp add: pc(3,4))
  moreover have "stack_Get k st = Some (?st, Inr (doc_string d))"
    using x r pc(1,6) by (simp add: stack_Get_one [OF node])
  ultimately show ?thesis using same_intros(4) pc(5) by auto
qed

lemma unseen_GetList:
  assumes "stands enc K sn st" and "k \<notin> K" and "k \<notin> range user_key" and "ss_hashmap (sk_store st) k = Some (JArr ids)"
  shows "\<exists>st'. stack_GetList k st = Some (st', Inr ids) \<and> stands enc (insert k K) sn st' \<and>
    same_but_store st st' \<and> ss_hashmap (sk_store st') = ss_hashmap (sk_store st) \<and>
    costs 1 1 (length k + sum_list (map length ids)) st st'"
proof -
  obtain node where node: "sk_nodes st = [node]" "HostPort node = sk_hostport st" by (rule node_one [OF assms(1)])
  note D = standsD(2-) [OF assms(1)]
  obtain x r where x: "cache_Get (sk_clock st) k False (sk_cache st) = (x, r)" by fastforce
  have "sk_cache st k = None"
    using D(5) assms(2,3) unfolding cache_right_def by (metis not_None_eq)
  with cache_Get_entries(5) [OF x] have r: "r = Inl False" by simp
  have right: "cache_right (insert k K) (ss_hashmap (sk_store st)) x" using cache_right_Get [OF D(5) x] by blast
  let ?a = "\<lparr>ga_Key = k, ga_WantLease = False \<or> sk_always st, ga_LeaseClient = sk_hostport st\<rparr>"
  from pc_GetList_delivered [OF D(3), of "sk_clock st" ?a "sk_store st"] assms(4) D(1) obtain l pc ss where
    pc: "pc_GetList Delivered (sk_clock st) ?a (sk_pc st, sk_store st) = ((pc, ss), (status_code.OK, ids, l), None)"
      "\<not> pc_override pc" "pc_rpcCount pc = pc_rpcCount (sk_pc st) + 1"
      "pc_byteCount pc = pc_byteCount (sk_pc st) + of_nat (length k + sum_list (map length ids))"
      "ss_hashmap ss = ss_hashmap (sk_store st)" "\<not> Granted l"
    by auto
  let ?st = "st\<lparr>sk_pc := pc, sk_store := ss, sk_cache := x\<rparr>"
  have "stands enc (insert k K) sn ?st" using pc(2,5) right by (intro stands_same [OF assms(1) same_intros(4)]) auto
  moreover have "costs 1 1 (length k + sum_list (map length ids)) st ?st"
    unfolding costs_def by (intro exI [of _ 1] exI [of _ "length k + sum_list (map length ids)"]) (simp add: pc(3,4))
  moreover have "stack_GetList k st = Some (?st, Inr ids)"
    using x r pc(1,6) by (simp add: stack_GetList_one [OF node])
  ultimately show ?thesis using same_intros(4) pc(5) by auto
qed

text \<open>A mutation never touches the cache.\<close>

lemma cache_right_docs:
  "cache_right K D c \<Longrightarrow> (\<And>u. D (user_key u) \<noteq> None \<Longrightarrow> D' (user_key u) = D (user_key u)) \<Longrightarrow> cache_right K D' c"
  unfolding cache_right_def by (metis (no_types, lifting) image_iff option.distinct(1))

lemma put_stands:
  assumes "stands enc K sn st"
  shows "\<exists>pc ss. stack_Put k v st = Some (st\<lparr>sk_pc := pc, sk_store := ss\<rparr>, Inr ()) \<and> \<not> pc_override pc \<and>
    ss_hashmap ss = (ss_hashmap (sk_store st))(k \<mapsto> JStr v)"
proof -
  obtain node where node: "sk_nodes st = [node]" "HostPort node = sk_hostport st" by (rule node_one [OF assms])
  from pc_Put_delivered [OF standsD(4) [OF assms], of "sk_clock st" k v "sk_store st"] obtain pc ss where
    "pc_Put refused (sk_clock st) Delivered k v (sk_pc st, sk_store st) = Some ((pc, ss), status_code.OK, None)"
    "\<not> pc_override pc" "ss_hashmap ss = (ss_hashmap (sk_store st))(k \<mapsto> JStr v)" by blast
  then show ?thesis by (intro exI [of _ pc] exI [of _ ss]) (simp add: stack_Put_def stack_mutate_one [OF node])
qed

lemma append_stands:
  fixes k v :: string
  assumes "stands enc K sn st"
  defines "l \<equiv> doc_list (ss_hashmap (sk_store st) k)"
  shows "\<exists>pc ss r. stack_AppendToList k v st = Some (st\<lparr>sk_pc := pc, sk_store := ss\<rparr>, r) \<and> \<not> pc_override pc \<and>
    failed r = (v \<in> set l) \<and>
    ss_hashmap ss = (if v \<in> set l then ss_hashmap (sk_store st) else (ss_hashmap (sk_store st))(k \<mapsto> JArr (l @ [v])))"
proof -
  obtain node where node: "sk_nodes st = [node]" "HostPort node = sk_hostport st" by (rule node_one [OF assms(1)])
  from pc_AppendToList_delivered [OF standsD(4) [OF assms(1)], of "sk_clock st" k v "sk_store st"] obtain pc ss where
    "pc_AppendToList refused (sk_clock st) Delivered k v (sk_pc st, sk_store st) =
      Some ((pc, ss), if v \<in> set l then EITEMEXISTS else status_code.OK, None)" "\<not> pc_override pc"
    "ss_hashmap ss = (if v \<in> set l then ss_hashmap (sk_store st) else (ss_hashmap (sk_store st))(k \<mapsto> JArr (l @ [v])))"
    unfolding l_def by blast
  then show ?thesis
    by (intro exI [of _ pc] exI [of _ ss] exI [of _ "if v \<in> set l then Inl ''error status'' else Inr ()"])
      (simp add: stack_AppendToList_def stack_mutate_one [OF node])
qed

section \<open>Requests that change the network\<close>

lemma stands_docs:
  assumes "stands enc K sn st" and "\<not> pc_override pc" and "holds ''localhost:9010'' enc (ss_hashmap ss) sn'"
    and "\<And>u. ss_hashmap (sk_store st) (user_key u) \<noteq> None \<Longrightarrow>
      ss_hashmap ss (user_key u) = ss_hashmap (sk_store st) (user_key u)"
  shows "stands enc K sn' (st\<lparr>sk_pc := pc, sk_store := ss, tt_server := server_of ''localhost:9010'' sn'\<rparr>)"
  using assms cache_right_docs [OF standsD(6) [OF assms(1)] assms(4)] unfolding stands_def by auto

lemma our_host: "host_ok ''localhost:9010''"
  by (simp add: host_ok_def)

lemma create_stands:
  assumes "stands enc K sn st"
  shows "\<exists>st' status. createUser u st = Some (st', None, status) \<and>
    stands enc K (fst (network_step (CreateUser u) sn)) st' \<and> same_but_store st st'"
proof -
  from get_user_key [OF assms, of u] obtain st1 r where s1: "stack_Get (user_key u) st = Some (st1, r)"
    "failed r = (u \<notin> sn_members sn)" "stands enc K sn st1" "same_but_store st st1" by blast
  show ?thesis
  proof (cases "u \<in> sn_members sn")
    case True
    with s1 show ?thesis by (simp add: createUser_def ts_CreateUser_def stack_ops_def)
  next
    case False
    let ?sn = "sn\<lparr>sn_members := insert u (sn_members sn)\<rparr>"
    from put_stands [OF s1(3), of "user_key u" u] obtain pc ss where
      p: "stack_Put (user_key u) u st1 = Some (st1\<lparr>sk_pc := pc, sk_store := ss\<rparr>, Inr ())" "\<not> pc_override pc"
        "ss_hashmap ss = (ss_hashmap (sk_store st1))(user_key u \<mapsto> JStr u)" by blast
    have "holds ''localhost:9010'' enc (ss_hashmap ss) ?sn"
      using holds_create [OF standsD(5) [OF s1(3)] our_host] p(3) by simp
    moreover have "ss_hashmap ss (user_key v) = ss_hashmap (sk_store st1) (user_key v)"
      if "ss_hashmap (sk_store st1) (user_key v) \<noteq> None" for v
    proof -
      have "v \<noteq> u" using that holdsD(2) [OF standsD(5) [OF s1(3)] False] by auto
      then show ?thesis using p(3) by (simp add: user_key_def)
    qed
    ultimately have "stands enc K ?sn (st1\<lparr>sk_pc := pc, sk_store := ss, tt_server := server_of ''localhost:9010'' ?sn\<rparr>)"
      by (intro stands_docs [OF s1(3) p(2)]) auto
    moreover have "server_of ''localhost:9010'' ?sn = tt_server st1"
      using standsD(3) [OF s1(3)] by (simp add: server_of_def)
    ultimately have "stands enc K ?sn (st1\<lparr>sk_pc := pc, sk_store := ss\<rparr>)" by simp
    moreover have "same_but_store st (st1\<lparr>sk_pc := pc, sk_store := ss\<rparr>)"
      by (rule same_trans [OF s1(4)]) simp
    ultimately show ?thesis using s1 p(1) False by (simp add: createUser_def ts_CreateUser_def stack_ops_def)
  qed
qed

lemma follow_stands:
  assumes "stands enc K sn st"
  shows "\<exists>st' status. addSubscription u t st = Some (st', None, status) \<and>
    stands enc K (fst (network_step (AddSubscription u t) sn)) st' \<and> same_but_store st st'"
proof -
  let ?l = "listed (sn_follows sn u)"
  from get_user_key [OF assms, of u] obtain st1 r where s1: "stack_Get (user_key u) st = Some (st1, r)"
    "failed r = (u \<notin> sn_members sn)" "stands enc K sn st1" "same_but_store st st1" by blast
  from get_user_key [OF s1(3), of t] obtain st2 r2 where s2: "stack_Get (user_key t) st1 = Some (st2, r2)"
    "failed r2 = (t \<notin> sn_members sn)" "stands enc K sn st2" "same_but_store st1 st2" by blast
  have same2: "same_but_store st st2" by (rule same_trans [OF s1(4) s2(4)])
  from append_stands [OF s2(3), of "foll_key u" t] holds_lists(1) [OF standsD(5) [OF s2(3)], of u] obtain pc ss r3 where
    p: "stack_AppendToList (foll_key u) t st2 = Some (st2\<lparr>sk_pc := pc, sk_store := ss\<rparr>, r3)" "\<not> pc_override pc"
      "failed r3 = (t \<in> set ?l)"
      "ss_hashmap ss = (if t \<in> set ?l then ss_hashmap (sk_store st2)
                        else (ss_hashmap (sk_store st2))(foll_key u \<mapsto> JArr (?l @ [t])))" by auto
  let ?st = "st2\<lparr>sk_pc := pc, sk_store := ss\<rparr>"
  let ?sn = "if t \<in> set ?l then sn else sn\<lparr>sn_follows := (sn_follows sn)(u \<mapsto> ?l @ [t])\<rparr>"
  have "holds ''localhost:9010'' enc (ss_hashmap ss) ?sn"
    using holds_follow [OF standsD(5) [OF s2(3)] our_host] p(4) standsD(5) [OF s2(3)] by simp
  moreover have "ss_hashmap ss (user_key v) = ss_hashmap (sk_store st2) (user_key v)" for v
    using p(4) by (simp add: user_key_def foll_key_def)
  ultimately have "stands enc K ?sn (st2\<lparr>sk_pc := pc, sk_store := ss, tt_server := server_of ''localhost:9010'' ?sn\<rparr>)"
    by (intro stands_docs [OF s2(3) p(2)]) auto
  moreover have "server_of ''localhost:9010'' ?sn = tt_server st2"
    using standsD(3) [OF s2(3)] by (simp add: server_of_def)
  ultimately have st: "stands enc K ?sn ?st" by simp
  have same: "same_but_store st ?st" by (rule same_trans [OF same2]) simp
  show ?thesis
  proof (cases "u \<in> sn_members sn \<and> t \<in> sn_members sn")
    case True
    with st same s1 s2 p(1,3) show ?thesis
      by (cases "t \<in> set ?l") (simp_all add: addSubscription_def ts_AddSubscription_def stack_ops_def)
  next
    case False
    with same2 s1 s2 show ?thesis
      by (cases "u \<in> sn_members sn") (simp_all add: addSubscription_def ts_AddSubscription_def stack_ops_def)
  qed
qed

lemma post_stands:
  assumes "stands enc K sn st" and "0 \<le> sn_count sn" and "sn_count sn + 1 < 2 ^ 31"
  shows "\<exists>st' status. postTribble enc u m st = Some (st', None, status) \<and>
    stands enc K (fst (network_step (PostTribble (sk_clock st + 1) u m) sn)) st' \<and>
    sk_clock st' = sk_clock st + 1 \<and> counters st' = counters st"
proof -
  let ?now = "sk_clock st + 1" and ?i = "sn_count sn + 1"
  let ?t = "\<lparr>tr_Userid = u, tr_Posted = ?now, tr_Contents = m\<rparr>"
  let ?ids = "map (\<lambda>(i, t). Itoa i) (listed (sn_posts sn u))"
  have i: "sint (of_int (sn_count sn) + 1 :: 32 word) = ?i"
    using assms(2,3) sint_of_count [of ?i] by simp
  have "stands enc K sn (st\<lparr>sk_clock := ?now\<rparr>)" using assms(1) by (simp add: stands_def)
  from get_user_key [OF this, of u] obtain st1 r where
    s1: "stack_Get (user_key u) (st\<lparr>sk_clock := ?now\<rparr>) = Some (st1, r)" "failed r = (u \<notin> sn_members sn)"
      "stands enc K sn st1" "same_but_store (st\<lparr>sk_clock := ?now\<rparr>) st1" by blast
  note same1 = sameD [OF s1(4), simplified]
  show ?thesis
  proof (cases "u \<in> sn_members sn")
    case False
    moreover have "stands enc K sn (st1\<lparr>tt_server := tt_server st\<rparr>)"
      using s1(3) unfolding same1(4) [symmetric] by simp
    ultimately show ?thesis using s1 same1
      by (simp add: postTribble_def ts_PostTribble_def stack_ops_def counters_def)
  next
    case True
    have D: "holds ''localhost:9010'' enc (ss_hashmap (sk_store st1)) sn" using standsD(5) [OF s1(3)] .
    have new: "Itoa ?i \<notin> set ?ids" using holdsD(6) [OF D] by fastforce
    from append_stands [OF s1(3), of "trib_key u" "Itoa ?i"] holds_lists(2) [OF D, of u] new obtain pc2 ss2 r2 where
      s2: "stack_AppendToList (trib_key u) (Itoa ?i) st1 = Some (st1\<lparr>sk_pc := pc2, sk_store := ss2\<rparr>, r2)"
        "\<not> pc_override pc2" "\<not> failed r2"
        "ss_hashmap ss2 = (ss_hashmap (sk_store st1))(trib_key u \<mapsto> JArr (?ids @ [Itoa ?i]))" by auto
    let ?st2 = "st1\<lparr>sk_pc := pc2, sk_store := ss2\<rparr>"
    let ?k = "message_key u (Itoa ?i) ''localhost:9010''"
    obtain node where node: "sk_nodes ?st2 = [node]" "HostPort node = sk_hostport ?st2"
      using standsD(1) [OF s1(3)] by auto
    from pc_Put_delivered [OF s2(2), of "sk_clock ?st2" ?k "enc ?t" ss2] obtain pc3 ss3 where
      s3: "stack_Put ?k (enc ?t) ?st2 = Some (st1\<lparr>sk_pc := pc3, sk_store := ss3\<rparr>, Inr ())" "\<not> pc_override pc3"
        "ss_hashmap ss3 = (ss_hashmap ss2)(?k \<mapsto> JStr (enc ?t))"
      by (auto simp: stack_Put_def stack_mutate_one [OF node])
    let ?sn = "fst (network_step (PostTribble ?now u m) sn)"
    have "holds ''localhost:9010'' enc (ss_hashmap ss3) ?sn"
      using holds_post [OF D our_host, of u ?t] True by (simp add: s3(3) s2(4))
    moreover have "ss_hashmap ss3 (user_key v) = ss_hashmap (sk_store st1) (user_key v)" for v
      using our_host by (simp add: s3(3) s2(4) message_key_other)
    ultimately have "stands enc K ?sn
        (st1\<lparr>sk_pc := pc3, sk_store := ss3, tt_server := server_of ''localhost:9010'' ?sn\<rparr>)"
      by (intro stands_docs [OF s1(3) s3(2)]) auto
    moreover have "postTribble enc u m st = Some
        (st1\<lparr>sk_pc := pc3, sk_store := ss3, tt_server := server_of ''localhost:9010'' ?sn\<rparr>, None, trib_status.OK)"
      using s1(1,2) s2(1,3) s3(1) True i standsD(3) [OF assms(1)] same1
      by (simp add: postTribble_def ts_PostTribble_def stack_ops_def server_of_def)
    ultimately show ?thesis using same1 by (simp add: counters_def)
  qed
qed

fun posted :: "time \<Rightarrow> (string \<times> string) list \<Rightarrow> network \<Rightarrow> network" where
  "posted now [] sn = sn"
| "posted now ((u, m) # ps) sn = posted (now + 1) ps (fst (network_step (PostTribble (now + 1) u m) sn))"

lemma post_all_stands:
  assumes "stands enc K sn st" and "0 \<le> sn_count sn" and "sn_count sn + int (length ps) < 2 ^ 31"
  shows "\<exists>st'. post_all enc ps st = Some st' \<and> stands enc K (posted (sk_clock st) ps sn) st' \<and>
    sk_clock st' = sk_clock st + int (length ps) \<and> counters st' = counters st"
  using assms
proof (induction ps arbitrary: sn st)
  case (Cons p ps)
  obtain u m where p: "p = (u, m)" by (cases p)
  let ?sn = "fst (network_step (PostTribble (sk_clock st + 1) u m) sn)"
  have "sn_count sn + 1 < 2 ^ 31" using Cons.prems(2,3) by simp
  from post_stands [OF Cons.prems(1,2) this, of u m] obtain st1 status where
    s1: "postTribble enc u m st = Some (st1, None, status)" "stands enc K ?sn st1"
      "sk_clock st1 = sk_clock st + 1" "counters st1 = counters st" by blast
  have "0 \<le> sn_count ?sn" "sn_count ?sn + int (length ps) < 2 ^ 31"
    using Cons.prems(2,3) network_step_count [of sn "PostTribble (sk_clock st + 1) u m"] by (simp_all del: network_step.simps)
  from Cons.IH [OF s1(2) this] obtain st2 where "post_all enc ps st1 = Some st2"
    "stands enc K (posted (sk_clock st1) ps ?sn) st2" "sk_clock st2 = sk_clock st1 + int (length ps)"
    "counters st2 = counters st1" by blast
  with s1 p show ?case by simp
qed simp

section \<open>Reading\<close>

lemma stands_mono: "stands enc K sn st \<Longrightarrow> K \<subseteq> K' \<Longrightarrow> stands enc K' sn st"
  unfolding stands_def cache_right_def by blast

text \<open>The keys of some users, whose names have no colon.\<close>

definition keys_of :: "string set \<Rightarrow> string set" where
  "keys_of U = {k. key_prefix k \<in> U}"

lemma take_to_colon: "CHR '':'' \<notin> set xs \<Longrightarrow> takeWhile (\<lambda>c. c \<noteq> CHR '':'') (xs @ CHR '':'' # ys) = xs"
  by (induction xs) auto

lemma key_prefix_keys:
  assumes "CHR '':'' \<notin> set u"
  shows "key_prefix (trib_key u) = u" "key_prefix (foll_key u) = u" "key_prefix (message_key u i h) = u"
  using assms by (simp_all add: key_prefix_def trib_key_def foll_key_def message_key_def take_to_colon)

lemma message_key_same [simp]: "message_key u i h = message_key u j h \<longleftrightarrow> i = j"
  by (simp add: message_key_def)

definition message_bytes :: "(Tribble \<Rightarrow> string) \<Rightarrow> string \<Rightarrow> (int \<times> Tribble) list \<Rightarrow> nat" where
  "message_bytes enc u ps =
     (\<Sum>(i, t) \<leftarrow> ps. length (message_key u (Itoa i) ''localhost:9010'') + length (enc t))"

lemma messages_stands:
  assumes "codec_ok enc dec" and "stands enc K sn st" and "distinct (map fst ps)"
    and "\<And>i t. (i, t) \<in> set ps \<Longrightarrow> ss_hashmap (sk_store st) (message_key u (Itoa i) ''localhost:9010'') = Some (JStr (enc t))"
    and "\<And>i t. (i, t) \<in> set ps \<Longrightarrow> message_key u (Itoa i) ''localhost:9010'' \<notin> K"
  shows "\<exists>st'. get_messages stack_ops dec ''localhost:9010'' u (map (\<lambda>(i, t). Itoa i) ps) st = Some (st', Inr (map snd ps)) \<and>
    stands enc (K \<union> range (\<lambda>i. message_key u i ''localhost:9010'')) sn st' \<and> same_but_store st st' \<and>
    costs (length ps) (length ps) (message_bytes enc u ps) st st'"
  using assms(2-)
proof (induction ps arbitrary: K st)
  case Nil
  then show ?case using stands_mono [OF Nil.prems(1)] by (simp add: message_bytes_def)
next
  case (Cons p ps)
  obtain i t where p: "p = (i, t)" by (cases p)
  let ?k = "message_key u (Itoa i) ''localhost:9010''"
  have k: "?k \<notin> K" "?k \<notin> range user_key" "ss_hashmap (sk_store st) ?k = Some (JStr (enc t))"
    using Cons.prems(3,4) [of i t] p message_key_other(1) [OF our_host, of u "Itoa i"] by auto
  from unseen_Get [OF Cons.prems(1) k] obtain st1 where
    s1: "stack_Get ?k st = Some (st1, Inr (enc t))" "stands enc (insert ?k K) sn st1" "same_but_store st st1"
      "ss_hashmap (sk_store st1) = ss_hashmap (sk_store st)" "costs 1 1 (length ?k + length (enc t)) st st1" by auto
  have "message_key u (Itoa j) ''localhost:9010'' \<notin> insert ?k K" if "(j, t') \<in> set ps" for j t'
    using that Cons.prems(2,4) p by force
  with Cons.IH [OF s1(2)] Cons.prems(2,3) s1(4) p obtain st2 where
    s2: "get_messages stack_ops dec ''localhost:9010'' u (map (\<lambda>(i, t). Itoa i) ps) st1 = Some (st2, Inr (map snd ps))"
      "stands enc (insert ?k K \<union> range (\<lambda>i. message_key u i ''localhost:9010'')) sn st2" "same_but_store st1 st2"
      "costs (length ps) (length ps) (message_bytes enc u ps) st1 st2" by auto
  have "insert ?k K \<union> range (\<lambda>i. message_key u i ''localhost:9010'') = K \<union> range (\<lambda>i. message_key u i ''localhost:9010'')"
    by auto
  with costs_trans [OF s1(5) s2(4)] same_trans [OF s1(3) s2(3)] s1(1) s2(1,2) p assms(1) show ?case
    by (simp add: stack_ops_def codec_ok_def message_bytes_def)
qed

text \<open>A member who has posted: her newest tribbles, each with a call of its own.\<close>

definition user_bytes :: "(Tribble \<Rightarrow> string) \<Rightarrow> string \<Rightarrow> (int \<times> Tribble) list \<Rightarrow> nat" where
  "user_bytes enc u ps =
     (length (user_key u) + length u) + (length (trib_key u) + (\<Sum>(i, t) \<leftarrow> ps. length (Itoa i))) +
     message_bytes enc u (take 100 (rev ps))"

lemma tribbles_stand:
  assumes "codec_ok enc dec" and "stands enc (keys_of U) sn st" and "u \<notin> U" and "CHR '':'' \<notin> set u"
    and "u \<in> sn_members sn" and "sn_posts sn u = Some ps" and "distinct (map fst ps)"
  shows "\<exists>st'. ts_GetTribbles stack_ops dec ''localhost:9010'' u st = Some (st', Inr (trib_status.OK, newest sn u)) \<and>
    stands enc (keys_of (insert u U)) sn st' \<and> same_but_store st st' \<and>
    costs (1 + min 100 (length ps)) (2 + min 100 (length ps)) (user_bytes enc u ps) st st'"
proof -
  let ?h = "''localhost:9010''" and ?ps = "take 100 (rev ps)"
  note pre = key_prefix_keys [OF assms(4)]
  from get_user_key [OF assms(2), of u] assms(5) obtain st1 r where
    s1: "stack_Get (user_key u) st = Some (st1, r)" "\<not> failed r" "stands enc (keys_of U) sn st1"
      "same_but_store st st1" "costs 0 1 (length (user_key u) + length u) st st1" by blast
  have "ss_hashmap (sk_store st1) (trib_key u) = Some (JArr (map (\<lambda>(i, t). Itoa i) ps))"
    using holdsD(4) [OF standsD(5) [OF s1(3)], of u] assms(6) by simp
  moreover have "trib_key u \<notin> keys_of U" "trib_key u \<notin> range user_key"
    using pre(1) assms(3) by (auto simp: keys_of_def trib_key_def user_key_def)
  ultimately obtain st2 where
    s2: "stack_GetList (trib_key u) st1 = Some (st2, Inr (map (\<lambda>(i, t). Itoa i) ps))"
      "stands enc (insert (trib_key u) (keys_of U)) sn st2" "same_but_store st1 st2"
      "ss_hashmap (sk_store st2) = ss_hashmap (sk_store st1)"
      "costs 1 1 (length (trib_key u) + (\<Sum>(i, t) \<leftarrow> ps. length (Itoa i))) st1 st2"
    using unseen_GetList [OF s1(3)] by (force simp: comp_def split_def)
  have "distinct (map fst ?ps)" using assms(7) by (simp flip: take_map rev_map)
  moreover have "ss_hashmap (sk_store st2) (message_key u (Itoa i) ?h) = Some (JStr (enc t))" if "(i, t) \<in> set ?ps" for i t
    using holdsD(5) [OF standsD(5) [OF s2(2)], of i t u] in_set_takeD [OF that] assms(6) by (simp add: listed_def)
  moreover have "message_key u (Itoa i) ?h \<notin> insert (trib_key u) (keys_of U)" for i
    using pre(3) assms(3) message_key_other(2) [OF our_host] by (auto simp: keys_of_def)
  ultimately obtain st3 where
    s3: "get_messages stack_ops dec ?h u (map (\<lambda>(i, t). Itoa i) ?ps) st2 = Some (st3, Inr (map snd ?ps))"
      "stands enc (insert (trib_key u) (keys_of U) \<union> range (\<lambda>i. message_key u i ?h)) sn st3" "same_but_store st2 st3"
      "costs (length ?ps) (length ?ps) (message_bytes enc u ?ps) st2 st3"
    using messages_stands [OF assms(1) s2(2), of ?ps u] by blast
  have "stands enc (keys_of (insert u U)) sn st3"
    by (rule stands_mono [OF s3(2)]) (use pre in \<open>auto simp: keys_of_def\<close>)
  moreover have "costs (1 + min 100 (length ps)) (2 + min 100 (length ps)) (user_bytes enc u ps) st st3"
    using costs_trans [OF costs_trans [OF s1(5) s2(5)] s3(4)] by (simp add: user_bytes_def min.commute)
  moreover have "take 100 (rev (map (\<lambda>(i, t). Itoa i) ps)) = map (\<lambda>(i, t). Itoa i) ?ps"
    by (simp add: rev_map take_map)
  ultimately show ?thesis
    using s1(1,2) s2(1) s3(1) same_trans [OF same_trans [OF s1(4) s2(3)] s3(3)] newest_shape [OF assms(5)] assms(6)
    by (simp add: ts_GetTribbles_def stack_ops_def listed_def take_map)
qed

lemma collect_stands:
  assumes "codec_ok enc dec" and "stands enc (keys_of U) sn st" and "distinct us" and "set us \<inter> U = {}"
    and "\<And>u. u \<in> set us \<Longrightarrow> CHR '':'' \<notin> set u \<and> u \<in> sn_members sn \<and>
      sn_posts sn u = Some (posts u) \<and> distinct (map fst (posts u))"
  shows "\<exists>st'. collect stack_ops dec ''localhost:9010'' us st = Some (st', Inr (concat (map (newest sn) us))) \<and>
    stands enc (keys_of (U \<union> set us)) sn st' \<and> same_but_store st st' \<and>
    costs (\<Sum>u \<leftarrow> us. 1 + min 100 (length (posts u))) (\<Sum>u \<leftarrow> us. 2 + min 100 (length (posts u)))
      (\<Sum>u \<leftarrow> us. user_bytes enc u (posts u)) st st'"
  using assms(2-)
proof (induction us arbitrary: U st)
  case (Cons u us)
  from Cons.prems(4) [of u] Cons.prems(3) obtain st1 where
    s1: "ts_GetTribbles stack_ops dec ''localhost:9010'' u st = Some (st1, Inr (trib_status.OK, newest sn u))"
      "stands enc (keys_of (insert u U)) sn st1" "same_but_store st st1"
      "costs (1 + min 100 (length (posts u))) (2 + min 100 (length (posts u))) (user_bytes enc u (posts u)) st st1"
    using tribbles_stand [OF assms(1) Cons.prems(1), of u "posts u"] by auto
  from Cons.IH [OF s1(2)] Cons.prems(2-) obtain st2 where
    s2: "collect stack_ops dec ''localhost:9010'' us st1 = Some (st2, Inr (concat (map (newest sn) us)))"
      "stands enc (keys_of (insert u U \<union> set us)) sn st2" "same_but_store st1 st2"
      "costs (\<Sum>u \<leftarrow> us. 1 + min 100 (length (posts u))) (\<Sum>u \<leftarrow> us. 2 + min 100 (length (posts u)))
        (\<Sum>u \<leftarrow> us. user_bytes enc u (posts u)) st1 st2" by auto
  then show ?case using s1(1) same_trans [OF s1(3) s2(3)] costs_trans [OF s1(4) s2(4)] by simp
qed simp

lemma timeline_stands:
  assumes "codec_ok enc dec" and "stands enc {} sn st" and "CHR '':'' \<notin> set u" and "u \<in> sn_members sn"
    and "sn_follows sn u = Some us" and "distinct us" and "u \<notin> set us"
    and "\<And>v. v \<in> set us \<Longrightarrow> CHR '':'' \<notin> set v \<and> v \<in> sn_members sn \<and>
      sn_posts sn v = Some (posts v) \<and> distinct (map fst (posts v))"
  shows "\<exists>st'. getTribblesBySubscription dec u st = Some (st', None, trib_status.OK, timeline sn us) \<and>
    same_but_store st st' \<and>
    costs (1 + (\<Sum>u \<leftarrow> us. 1 + min 100 (length (posts u)))) (2 + (\<Sum>u \<leftarrow> us. 2 + min 100 (length (posts u))))
      (length (user_key u) + length u + (length (foll_key u) + sum_list (map length us)) +
       (\<Sum>u \<leftarrow> us. user_bytes enc u (posts u))) st st'"
proof -
  note pre = key_prefix_keys [OF assms(3)]
  from get_user_key [OF assms(2), of u] assms(4) obtain st1 r where
    s1: "stack_Get (user_key u) st = Some (st1, r)" "\<not> failed r" "stands enc {} sn st1"
      "same_but_store st st1" "costs 0 1 (length (user_key u) + length u) st st1" by blast
  have "ss_hashmap (sk_store st1) (foll_key u) = Some (JArr us)"
    using holdsD(3) [OF standsD(5) [OF s1(3)], of u] assms(5) by simp
  moreover have "foll_key u \<notin> range user_key" by (auto simp: foll_key_def user_key_def)
  ultimately obtain st2 where
    s2: "stack_GetList (foll_key u) st1 = Some (st2, Inr us)" "stands enc {foll_key u} sn st2" "same_but_store st1 st2"
      "costs 1 1 (length (foll_key u) + sum_list (map length us)) st1 st2"
    using unseen_GetList [OF s1(3)] by blast
  have "stands enc (keys_of {u}) sn st2" by (rule stands_mono [OF s2(2)]) (use pre in \<open>auto simp: keys_of_def\<close>)
  from collect_stands [OF assms(1) this assms(6)] assms(7,8) obtain st3 where
    s3: "collect stack_ops dec ''localhost:9010'' us st2 = Some (st3, Inr (concat (map (newest sn) us)))"
      "same_but_store st2 st3"
      "costs (\<Sum>u \<leftarrow> us. 1 + min 100 (length (posts u))) (\<Sum>u \<leftarrow> us. 2 + min 100 (length (posts u)))
        (\<Sum>u \<leftarrow> us. user_bytes enc u (posts u)) st2 st3" by auto
  have h: "ts_hostport (tt_server st) = ''localhost:9010''" using standsD(3) [OF assms(2)] by (simp add: server_of_def)
  show ?thesis
    using s1(1,2) s2(1) s3(1) same_trans [OF same_trans [OF s1(4) s2(3)] s3(2)]
      costs_trans [OF costs_trans [OF s1(5) s2(4)] s3(3)]
    by (simp add: getTribblesBySubscription_def ts_GetTribblesBySubscription_def stack_ops_def timeline_def h add.assoc)
qed

section \<open>The network after many posts\<close>

text \<open>The posts with their numbers, of a network that has counted \<open>n\<close> posts when it is \<open>now\<close>.\<close>

fun stamped :: "time \<Rightarrow> int \<Rightarrow> (string \<times> string) list \<Rightarrow> (int \<times> Tribble) list" where
  "stamped now n [] = []"
| "stamped now n ((u, m) # ps) =
     (n + 1, \<lparr>tr_Userid = u, tr_Posted = now + 1, tr_Contents = m\<rparr>) # stamped (now + 1) (n + 1) ps"

lemma stamped_length [simp]: "length (stamped now n ps) = length ps"
  by (induction now n ps rule: stamped.induct) auto

lemma stamped_append: "stamped now n (ps @ qs) = stamped now n ps @ stamped (now + int (length ps)) (n + int (length ps)) qs"
  by (induction now n ps rule: stamped.induct) (simp_all add: algebra_simps)

lemma stamped_after: "x \<in> set (stamped now n ps) \<Longrightarrow> n < fst x \<and> fst x \<le> n + int (length ps) \<and> now < tr_Posted (snd x)"
  by (induction now n ps rule: stamped.induct) fastforce+

lemma stamped_sorted: "sorted_wrt (\<lambda>x y. fst x < fst y \<and> tr_Posted (snd x) < tr_Posted (snd y)) (stamped now n ps)"
proof (induction now n ps rule: stamped.induct)
  case (2 now n u m ps)
  then show ?case using stamped_after [of _ "now + 1" "n + 1" ps] by auto
qed simp

definition posts_of :: "string \<Rightarrow> (int \<times> Tribble) list \<Rightarrow> (int \<times> Tribble) list" where
  "posts_of u l = filter (\<lambda>(i, t). tr_Userid t = u) l"

lemma posted_network:
  assumes "set (map fst ps) \<subseteq> sn_members sn"
  shows "sn_members (posted now ps sn) = sn_members sn" and "sn_follows (posted now ps sn) = sn_follows sn"
    and "sn_count (posted now ps sn) = sn_count sn + int (length ps)"
    and "listed (sn_posts (posted now ps sn) u) = listed (sn_posts sn u) @ posts_of u (stamped now (sn_count sn) ps)"
  using assms
  by (induction now ps sn rule: posted.induct) (auto simp: posts_of_def listed_def split: option.splits)

text \<open>
  The timeline is the newest hundred of all that the followed users posted: each of them is among
  the newest hundred of its user.
\<close>

lemma filter_take: "distinct xs \<Longrightarrow> filter (\<lambda>x. x \<in> set (take n xs)) xs = take n xs"
proof -
  assume d: "distinct xs"
  have "filter (\<lambda>x. x \<in> set (take n xs)) (take n xs @ drop n xs) = take n xs"
    using d set_take_disj_set_drop_if_distinct [OF d, of n n] by (auto simp: filter_empty_conv simp del: append_take_drop_id)
  then show ?thesis by simp
qed

lemma newest_of_newest:
  fixes A :: "'a list" and f :: "'a \<Rightarrow> int" and g :: "'a \<Rightarrow> 'u"
  assumes "sorted_wrt (\<lambda>x y. f x < f y) A" and "g ` set A \<subseteq> set us" and "distinct us"
  shows "take n (sort_key f (concat (map (\<lambda>u. take n (filter (\<lambda>x. g x = u) A)) us))) = take n A"
proof -
  let ?P = "\<lambda>x. x \<in> set (take n (filter (\<lambda>y. g y = g x) A))"
  have sorted: "sorted_wrt (\<lambda>x y. f x < f y) (filter ?P A)" using assms(1) by (rule sorted_wrt_filter)
  then have keys: "sorted (map f (filter ?P A))"
    unfolding sorted_map by (rule sorted_wrt_mono_rel [rotated]) auto
  have inj: "inj_on f (set A)"
    using assms(1) unfolding inj_on_def by (metis in_set_conv_nth less_irrefl linorder_neqE_nat sorted_wrt_nth_less)
  have dist: "distinct A" using assms(1) by (induction A) auto
  have of_user: "filter (\<lambda>x. g x = u) (filter ?P A) = take n (filter (\<lambda>x. g x = u) A)" for u
  proof -
    have "filter (\<lambda>x. g x = u) (filter ?P A) =
        filter (\<lambda>x. x \<in> set (take n (filter (\<lambda>y. g y = u) A))) (filter (\<lambda>x. g x = u) A)"
      by (auto intro: filter_cong)
    then show ?thesis using filter_take [of "filter (\<lambda>x. g x = u) A" n] dist by simp
  qed
  have split: "mset B = mset (concat (map (\<lambda>u. filter (\<lambda>x. g x = u) B) us))" if "g ` set B \<subseteq> set us" for B
    using that
  proof (induction B)
    case (Cons b B)
    then obtain us1 us2 where us: "us = us1 @ g b # us2" by (auto simp: in_set_conv_decomp)
    have other: "concat (map (\<lambda>u. filter (\<lambda>x. g x = u) (b # B)) vs) = concat (map (\<lambda>u. filter (\<lambda>x. g x = u) B) vs)"
      if "g b \<notin> set vs" for vs using that by (induction vs) auto
    have "g b \<notin> set us1" "g b \<notin> set us2" using assms(3) us by auto
    with Cons other show ?case by (simp add: us)
  qed simp
  have "g ` set (filter ?P A) \<subseteq> set us" using assms(2) by auto
  from split [OF this] have "mset (concat (map (\<lambda>u. take n (filter (\<lambda>x. g x = u) A)) us)) = mset (filter ?P A)"
    by (simp only: of_user)
  then have "sort_key f (concat (map (\<lambda>u. take n (filter (\<lambda>x. g x = u) A)) us)) = filter ?P A"
  proof (rule sort_key_inj_key_eq)
    have "set (concat (map (\<lambda>u. take n (filter (\<lambda>x. g x = u) A)) us)) \<subseteq> set A" by (auto dest: in_set_takeD)
    then show "inj_on f (set (concat (map (\<lambda>u. take n (filter (\<lambda>x. g x = u) A)) us)))" using inj by (rule inj_on_subset [rotated])
  qed (rule keys)
  moreover have "?P x" if "x \<in> set (take n A)" for x
  proof -
    have "filter (\<lambda>y. g y = g x) A = filter (\<lambda>y. g y = g x) (take n A) @ filter (\<lambda>y. g y = g x) (drop n A)"
      by (metis append_take_drop_id filter_append)
    moreover have "length (filter (\<lambda>y. g y = g x) (take n A)) \<le> n"
      by (rule order_trans [OF length_filter_le]) simp
    ultimately show ?thesis using that by simp
  qed
  then have "filter ?P (take n A @ drop n A) = take n A @ filter ?P (drop n A)"
    by (subst filter_append) (simp add: filter_id_conv)
  ultimately have "sort_key f (concat (map (\<lambda>u. take n (filter (\<lambda>x. g x = u) A)) us)) = take n A @ filter ?P (drop n A)"
    by (simp only: append_take_drop_id)
  then show ?thesis by (cases "length A \<le> n") (simp_all add: min_def)
qed

lemma newest_log:
  assumes "u \<in> sn_members sn" and "listed (sn_posts sn u) = posts_of u L"
  shows "newest sn u = take 100 (filter (\<lambda>t. tr_Userid t = u) (rev (map snd L)))"
  using assms by (simp add: newest_shape posts_of_def rev_filter filter_map rev_map o_def split_def)

lemma timeline_log:
  assumes "\<And>u. u \<in> set us \<Longrightarrow> u \<in> sn_members sn \<and> listed (sn_posts sn u) = posts_of u L" and "distinct us"
    and "sorted_wrt (\<lambda>x y. tr_Posted (snd x) < tr_Posted (snd y)) L"
  shows "timeline sn us = take 100 (filter (\<lambda>t. tr_Userid t \<in> set us) (rev (map snd L)))"
proof -
  let ?A = "filter (\<lambda>t. tr_Userid t \<in> set us) (rev (map snd L))"
  have newest: "newest sn u = take 100 (filter (\<lambda>t. tr_Userid t = u) ?A)" if "u \<in> set us" for u
  proof -
    have "filter (\<lambda>t. tr_Userid t = u) ?A = filter (\<lambda>t. tr_Userid t = u) (rev (map snd L))"
      using that by (auto intro: filter_cong)
    with newest_log [of u sn L] assms(1) [OF that] show ?thesis by simp
  qed
  have "sorted_wrt (\<lambda>x y. - tr_Posted x < - tr_Posted y) (rev (map snd L))"
    using assms(3) by (simp add: sorted_wrt_rev sorted_wrt_map)
  then have "sorted_wrt (\<lambda>x y. - tr_Posted x < - tr_Posted y) ?A" by (rule sorted_wrt_filter)
  from newest_of_newest [OF this _ assms(2), of tr_Userid 100]
  have "take 100 (newest_first (concat (map (\<lambda>u. take 100 (filter (\<lambda>t. tr_Userid t = u) ?A)) us))) = take 100 ?A"
    unfolding newest_first_def by auto
  moreover have "map (newest sn) us = map (\<lambda>u. take 100 (filter (\<lambda>t. tr_Userid t = u) ?A)) us"
    by (rule map_cong [OF refl newest])
  ultimately show ?thesis by (simp only: timeline_def)
qed

text \<open>What was posted last is what the tests expect first.\<close>

lemma right_tribbles: "t \<le> now + 1 \<Longrightarrow> \<not> wrong_tribbles (zip (map snd (stamped now n ps)) ps) t"
  by (induction now n ps arbitrary: t rule: stamped.induct) auto

lemma check_stamped:
  assumes "0 \<le> now"
  shows "checkTribbles (rev (map snd (stamped now n (rev E)))) E st = (False, st)"
proof -
  have "rev (zip (rev (map snd (stamped now n (rev E)))) E) = zip (map snd (stamped now n (rev E))) (rev E)"
    by (subst zip_rev [symmetric]) simp_all
  with right_tribbles [of 0 now n "rev E"] assms show ?thesis by (simp add: checkTribbles_def)
qed

lemma last_hundred:
  assumes "length E = 100" and "set (map fst E) \<subseteq> U"
  shows "take 100 (filter (\<lambda>t. tr_Userid t \<in> U) (rev (map snd (stamped now n (old @ rev E))))) =
    rev (map snd (stamped (now + int (length old)) (n + int (length old)) (rev E)))"
proof -
  have users: "tr_Userid (snd x) \<in> fst ` set ps" if "x \<in> set (stamped now n ps)" for x now n ps
    using that by (induction now n ps rule: stamped.induct) auto
  have "filter (\<lambda>t. tr_Userid t \<in> U) (map snd (stamped (now + int (length old)) (n + int (length old)) (rev E))) =
      map snd (stamped (now + int (length old)) (n + int (length old)) (rev E))"
    using users [of _ "now + int (length old)" "n + int (length old)" "rev E"] assms(2)
    by (fastforce simp: filter_id_conv)
  with assms(1) show ?thesis by (simp add: stamped_append flip: rev_filter)
qed

section \<open>Setting up and reading\<close>

fun create_all :: "string list \<Rightarrow> tribtest \<Rightarrow> tribtest go" where
  "create_all [] st = Some st"
| "create_all (u # us) st = do { (st, err, status) \<leftarrow> createUser u st; create_all us st }"

fun follow_all :: "string \<Rightarrow> string list \<Rightarrow> tribtest \<Rightarrow> tribtest go" where
  "follow_all u [] st = Some st"
| "follow_all u (t # ts) st = do { (st, err, status) \<leftarrow> addSubscription u t st; follow_all u ts st }"

lemma create_all_stands:
  assumes "stands enc K sn st"
  shows "\<exists>st'. create_all us st = Some st' \<and> stands enc K (sn\<lparr>sn_members := set us \<union> sn_members sn\<rparr>) st' \<and>
    same_but_store st st'"
  using assms
proof (induction us arbitrary: sn st)
  case (Cons u us)
  let ?sn = "sn\<lparr>sn_members := insert u (sn_members sn)\<rparr>"
  have "fst (network_step (CreateUser u) sn) = ?sn" by (auto simp: insert_absorb)
  with create_stands [OF Cons.prems, of u] obtain st1 status where
    s1: "createUser u st = Some (st1, None, status)" "stands enc K ?sn st1" "same_but_store st st1" by auto
  from Cons.IH [OF s1(2)] obtain st2 where
    "create_all us st1 = Some st2" "stands enc K (?sn\<lparr>sn_members := set us \<union> sn_members ?sn\<rparr>) st2" "same_but_store st1 st2"
    by blast
  with s1 same_trans [OF s1(3)] show ?case by (simp add: Un_commute)
qed simp

definition following :: "string \<Rightarrow> string list \<Rightarrow> network \<Rightarrow> network" where
  "following u l sn = sn\<lparr>sn_follows := (sn_follows sn)(u \<mapsto> l)\<rparr>"

lemma following_simps [simp]:
  "sn_members (following u l sn) = sn_members sn" "sn_posts (following u l sn) = sn_posts sn"
  "sn_count (following u l sn) = sn_count sn" "sn_follows (following u l sn) u = Some l"
  "following u l (following u l' sn) = following u l sn"
  by (simp_all add: following_def)

lemma follow_all_stands:
  assumes "stands enc K sn st" and "u \<in> sn_members sn" and "set ts \<subseteq> sn_members sn" and "distinct ts"
    and "set ts \<inter> set (listed (sn_follows sn u)) = {}" and "ts \<noteq> []"
  shows "\<exists>st'. follow_all u ts st = Some st' \<and>
    stands enc K (following u (listed (sn_follows sn u) @ ts) sn) st' \<and> same_but_store st st'"
  using assms
proof (induction ts arbitrary: sn st)
  case (Cons t ts)
  let ?sn = "following u (listed (sn_follows sn u) @ [t]) sn"
  have l: "listed (sn_follows ?sn u) = listed (sn_follows sn u) @ [t]" by (simp add: listed_def)
  have "fst (network_step (AddSubscription u t) sn) = ?sn" using Cons.prems(2,3,5) by (auto simp: following_def)
  with follow_stands [OF Cons.prems(1), of u t] obtain st1 status where
    s1: "addSubscription u t st = Some (st1, None, status)" "stands enc K ?sn st1" "same_but_store st st1" by auto
  show ?case
  proof (cases "ts = []")
    case True
    then show ?thesis using s1 by simp
  next
    case False
    have "u \<in> sn_members ?sn" "set ts \<subseteq> sn_members ?sn" "distinct ts" "set ts \<inter> set (listed (sn_follows ?sn u)) = {}"
      using Cons.prems(2-5) unfolding l by auto
    from Cons.IH [OF s1(2) this False] obtain st2 where
      "follow_all u ts st1 = Some st2" "same_but_store st1 st2"
      "stands enc K (following u (listed (sn_follows ?sn u) @ ts) ?sn) st2" by blast
    with s1 same_trans [OF s1(3)] show ?thesis unfolding l by simp
  qed
qed simp

lemma post_all_append: "post_all enc (ps @ qs) st = Option.bind (post_all enc ps st) (post_all enc qs)"
  by (induction ps arbitrary: st) (auto split: bind_split prod.splits)

lemma reset_stands: "stands enc K sn st \<Longrightarrow> stands enc K sn (on_pc pc_Reset st)"
  by (simp add: stands_def on_pc_def pc_Reset_def)

end
