(* ===== verification/TribVerdict.thy ===== *)
theory TribVerdict
  imports TribTest LibVerdict TribMany
begin

text \<open>
  What the tests of \<open>15-440/P2-F11/tribtest\<close> say of the tribble server.  They share users, so each is
  run by itself here, on a server that has just been started.
\<close>

section \<open>A test by itself\<close>

text \<open>The process when the server has just been started.\<close>

definition first_desk :: "Node \<Rightarrow> tribtest" where
  "first_desk self =
     \<lparr>sk_clock = 0, sk_dialable = True, sk_store = lib_store self, sk_listening = True,
      sk_pc = no_proxy\<lparr>pc_myhostport := ''localhost:9010''\<rparr>, sk_hostport = ''localhost:9010'',
      sk_always = False, sk_nodes = [self\<lparr>HostPort := ''localhost:9010''\<rparr>], sk_cache = Map.empty,
      passCount = 0, failCount = 0, tt_server = \<lparr>ts_hostport = ''localhost:9010'', ts_id = 0\<rparr>\<rparr>"

definition alone :: "nat \<times> nat \<Rightarrow> (tribtest \<Rightarrow> tribtest go) \<Rightarrow> bool" where
  "alone d f \<longleftrightarrow> (\<forall>self. map_option counters (f (first_desk self)) = Some d)"

text \<open>
  The JSON text of a tribble: not longer than the braces, the names of the fields, the time and six
  bytes for each character.
\<close>

definition text_bounded :: "(Tribble \<Rightarrow> string) \<Rightarrow> bool" where
  "text_bounded enc \<longleftrightarrow>
     (\<forall>u c t. 0 \<le> t \<longrightarrow> t < 2 ^ 63 \<longrightarrow>
        length (enc \<lparr>tr_Userid = u, tr_Posted = t, tr_Contents = c\<rparr>) \<le> 100 + 6 * (length u + length c))"

text \<open>The bytes the proxy has counted, and that they stay within a limit.\<close>

lemma byte_limit: "unat b \<le> n \<Longrightarrow> n \<le> unat L \<Longrightarrow> \<not> L < (b :: u32)"
  by (simp add: word_less_nat_alt)

lemma byte_sum: "unat a \<le> m \<Longrightarrow> unat b \<le> n \<Longrightarrow> unat (a + b :: u32) \<le> m + n"
  by (simp add: unat_word_ariths)

lemma byte_number: "unat (numeral k :: u32) \<le> numeral k"
  by (metis mod_less_eq_dividend of_nat_numeral unat_of_nat)

lemma byte_text:
  assumes "text_bounded enc" "0 \<le> t" "t < 2 ^ 63"
  shows "unat (of_nat (length (enc \<lparr>tr_Userid = u, tr_Posted = t, tr_Contents = c\<rparr>)) :: u32) \<le>
    100 + 6 * (length u + length c)"
proof -
  have "length (enc \<lparr>tr_Userid = u, tr_Posted = t, tr_Contents = c\<rparr>) \<le> 100 + 6 * (length u + length c)"
    using assms unfolding text_bounded_def by blast
  then show ?thesis by (metis le_trans mod_less_eq_dividend unat_of_nat)
qed

lemmas trib_code = first_desk_def lib_store_def NewStorageserver_def no_proxy_def
  createUser_def addSubscription_def removeSubscription_def getSubscription_def postTribble_def
  getTribbles_def getTribblesBySubscription_def
  trib_checkErrorStatus_def checkSubscriptions_def checkTribbles_def
  ts_CreateUser_def ts_AddSubscription_def ts_RemoveSubscription_def ts_GetSubscriptions_def
  ts_GetTribbles_def ts_PostTribble_def ts_GetTribblesBySubscription_def newest_first_def
  stack_ops_def user_key_def trib_key_def foll_key_def message_key_def Itoa_def digits.simps upt_conv_Cons

section \<open>Each test\<close>

lemma alone_testCreateUserValid: "alone (1, 0) testCreateUserValid"
  by (simp add: alone_def testCreateUserValid_def trib_code stack_code cong: stack_congs)

lemma alone_testCreateUserDuplicate: "alone (1, 0) testCreateUserDuplicate"
  by (simp add: alone_def testCreateUserDuplicate_def trib_code stack_code cong: stack_congs)

lemma alone_testAddSubscriptionInvalidUser: "alone (1, 0) testAddSubscriptionInvalidUser"
  by (simp add: alone_def testAddSubscriptionInvalidUser_def trib_code stack_code cong: stack_congs)

lemma alone_testAddSubscriptionInvalidTargetUser: "alone (1, 0) testAddSubscriptionInvalidTargetUser"
  by (simp add: alone_def testAddSubscriptionInvalidTargetUser_def trib_code stack_code cong: stack_congs)

lemma alone_testAddSubscriptionValid: "alone (1, 0) testAddSubscriptionValid"
  by (simp add: alone_def testAddSubscriptionValid_def trib_code stack_code cong: stack_congs)

lemma alone_testAddSubscriptionDuplicate: "alone (1, 0) testAddSubscriptionDuplicate"
  by (simp add: alone_def testAddSubscriptionDuplicate_def trib_code stack_code cong: stack_congs)

lemma alone_testRemoveSubscriptionInvalidUser: "alone (1, 0) testRemoveSubscriptionInvalidUser"
  by (simp add: alone_def testRemoveSubscriptionInvalidUser_def trib_code stack_code cong: stack_congs)

lemma alone_testRemoveSubscriptionValid: "alone (1, 0) testRemoveSubscriptionValid"
  by (simp add: alone_def testRemoveSubscriptionValid_def trib_code stack_code cong: stack_congs)

lemma alone_testRemoveSubscriptionMissingTarget: "alone (1, 0) testRemoveSubscriptionMissingTarget"
  by (simp add: alone_def testRemoveSubscriptionMissingTarget_def trib_code stack_code cong: stack_congs)

lemma alone_testGetSubscriptionInvalidUser: "alone (1, 0) testGetSubscriptionInvalidUser"
  by (simp add: alone_def testGetSubscriptionInvalidUser_def trib_code stack_code cong: stack_congs)

lemma alone_testGetSubscriptionValid: "alone (1, 0) testGetSubscriptionValid"
  by (simp add: alone_def testGetSubscriptionValid_def trib_code stack_code cong: stack_congs)

lemma alone_testPostTribbleInvalidUser: "alone (1, 0) (testPostTribbleInvalidUser enc)"
  by (simp add: alone_def testPostTribbleInvalidUser_def trib_code stack_code cong: stack_congs)

lemma alone_testGetTribblesInvalidUser: "alone (1, 0) (testGetTribblesInvalidUser dec)"
  by (simp add: alone_def testGetTribblesInvalidUser_def trib_code stack_code cong: stack_congs)

lemma alone_testGetTribblesZeroTribbles: "alone (0, 1) (testGetTribblesZeroTribbles dec)"
  by (simp add: alone_def testGetTribblesZeroTribbles_def trib_code stack_code cong: stack_congs)

lemma alone_testGetTribblesBySubscriptionInvalidUser: "alone (1, 0) (testGetTribblesBySubscriptionInvalidUser dec)"
  by (simp add: alone_def testGetTribblesBySubscriptionInvalidUser_def trib_code stack_code cong: stack_congs)

lemma alone_testGetTribblesBySubscriptionNoSubscriptions: "alone (0, 1) (testGetTribblesBySubscriptionNoSubscriptions enc dec)"
  by (simp add: alone_def testGetTribblesBySubscriptionNoSubscriptions_def trib_code stack_code cong: stack_congs)

lemma alone_testGetTribblesBySubscriptionZeroTribbles:
  "alone (0, 2) (\<lambda>st. do { st \<leftarrow> testGetTribblesBySubscriptionZeroTribbles dec st; testGetTribblesBySubscriptionZeroTribbles dec st })"
  by (simp add: alone_def testGetTribblesBySubscriptionZeroTribbles_def trib_code stack_code cong: stack_congs)

lemma alone_testPostTribbleValid:
  assumes "text_bounded enc"
  shows "alone (1, 0) (testPostTribbleValid enc)"
  by (simp add: alone_def testPostTribbleValid_def trib_code stack_code cong: stack_congs)
    (rule byte_limit, (rule byte_sum byte_number byte_text assms | simp)+)

lemma alone_testGetTribblesFewTribbles:
  assumes "text_bounded enc" and "codec_ok enc dec"
  shows "alone (1, 0) (testGetTribblesFewTribbles enc dec)"
  using assms(2)
  by (simp add: alone_def testGetTribblesFewTribbles_def codec_ok_def trib_code stack_code cong: stack_congs)
    (rule byte_limit, (rule byte_sum byte_number byte_text assms(1) | simp)+)

lemma alone_testGetTribblesBySubscriptionFewTribbles:
  assumes "text_bounded enc" and "codec_ok enc dec"
  shows "alone (1, 0) (testGetTribblesBySubscriptionFewTribbles enc dec)"
  using assms(2)
  by (simp add: alone_def testGetTribblesBySubscriptionFewTribbles_def codec_ok_def trib_code stack_code
      cong: stack_congs)
    (rule byte_limit, (rule byte_sum byte_number byte_text assms(1) | simp)+)

section \<open>The tests with a hundred posts\<close>

lemma digits_length: "0 < k \<Longrightarrow> n < 10 ^ k \<Longrightarrow> length (digits n) \<le> k"
proof (induction k arbitrary: n)
  case (Suc k)
  show ?case
  proof (cases "n < 10")
    case False
    then have "length (digits n) = Suc (length (digits (n div 10)))" by (subst digits.simps) simp
    moreover have "n div 10 < 10 ^ k" using Suc.prems(2) by (simp add: less_mult_imp_div_less mult.commute)
    moreover have "0 < k" using False Suc.prems(2) by (cases k) auto
    ultimately show ?thesis using Suc.IH [of "n div 10"] by simp
  qed (subst digits.simps, simp)
qed simp

lemma first_stands: "stands enc {} empty_network (first_desk self)"
proof -
  have "\<exists>i. self\<lparr>HostPort := ''localhost:9010''\<rparr> = \<lparr>HostPort = ''localhost:9010'', NodeID = i\<rparr>" by (cases self) simp
  then show ?thesis
    by (simp add: stands_def first_desk_def no_proxy_def lib_store_def NewStorageserver_def holds_empty cache_right_def
        server_of_def)
qed

text \<open>
  What a post costs its reader at most: the number in the list, the key and the text.  The number has
  three digits.
\<close>

definition weight :: "string \<times> string \<Rightarrow> nat" where
  "weight p = 122 + 7 * length (fst p) + 6 * length (snd p)"

definition post_weight :: "int \<times> Tribble \<Rightarrow> nat" where
  "post_weight x = weight (tr_Userid (snd x), tr_Contents (snd x))"

lemma stamped_weight: "sum_list (map post_weight (stamped now n ps)) = sum_list (map weight ps)"
  by (induction now n ps rule: stamped.induct) (simp_all add: post_weight_def)

lemma post_bytes:
  assumes "text_bounded enc" and "(i, t) \<in> set (stamped 0 0 ps)" and "length ps < 1000"
  shows "length (Itoa i) + (length (message_key (tr_Userid t) (Itoa i) ''localhost:9010'') + length (enc t)) \<le>
    post_weight (i, t)"
proof -
  from stamped_after [OF assms(2)] assms(3) have i: "0 < i" "i < 1000" "0 < tr_Posted t" by auto
  have "tr_Posted (snd x) \<le> now + int (length qs)" if "x \<in> set (stamped now n qs)" for x now n qs
    using that by (induction now n qs rule: stamped.induct) fastforce+
  from this [OF assms(2)] assms(3) have t: "tr_Posted t < 2 ^ 63" by simp
  have "length (digits (nat i)) \<le> 3" using i by (intro digits_length) auto
  then have "length (Itoa i) \<le> 3" using i by (simp add: Itoa_def)
  moreover have "length (enc t) \<le> 100 + 6 * (length (tr_Userid t) + length (tr_Contents t))"
    using assms(1) i(3) t unfolding text_bounded_def by (cases t) auto
  ultimately show ?thesis by (simp add: post_weight_def weight_def message_key_def)
qed

lemma sum_list_take_rev: "sum_list (map f (take n (rev xs))) \<le> (sum_list (map f xs) :: nat)"
proof -
  have "sum_list (map f (rev xs)) = sum_list (map f (take n (rev xs))) + sum_list (map f (drop n (rev xs)))"
    by (metis append_take_drop_id map_append sum_list_append)
  moreover have "sum_list (map f (rev xs)) = sum_list (map f xs)" by (simp flip: rev_map)
  ultimately show ?thesis by simp
qed

lemma posts_weigh:
  assumes "text_bounded enc" and "length ps < 1000"
  shows "user_bytes enc u (posts_of u (stamped 0 0 ps)) \<le>
    4 + 3 * length u + sum_list (map post_weight (posts_of u (stamped 0 0 ps)))"
proof -
  let ?ps = "posts_of u (stamped 0 0 ps)"
  let ?f = "\<lambda>(i, t). length (Itoa i)" and ?g = "\<lambda>(i, t). length (message_key u (Itoa i) ''localhost:9010'') + length (enc t)"
  have "?f x + ?g x \<le> post_weight x" if "x \<in> set ?ps" for x
  proof -
    obtain i t where x: "x = (i, t)" by (cases x)
    with that have "(i, t) \<in> set (stamped 0 0 ps)" "tr_Userid t = u" by (simp_all add: posts_of_def)
    with post_bytes [OF assms(1) this(1) assms(2)] x show ?thesis by simp
  qed
  then have "(\<Sum>x \<leftarrow> ?ps. ?f x + ?g x) \<le> sum_list (map post_weight ?ps)" by (rule sum_list_mono)
  moreover have "(\<Sum>x \<leftarrow> ?ps. ?f x + ?g x) = sum_list (map ?f ?ps) + sum_list (map ?g ?ps)"
    by (rule sum_list_addf)
  moreover have "sum_list (map ?g (take 100 (rev ?ps))) \<le> sum_list (map ?g ?ps)" by (rule sum_list_take_rev)
  ultimately have "sum_list (map ?f ?ps) + message_bytes enc u (take 100 (rev ?ps)) \<le> sum_list (map post_weight ?ps)"
    unfolding message_bytes_def by simp
  then show ?thesis by (simp add: user_bytes_def user_key_def trib_key_def)
qed

lemma sums_of_users:
  assumes "distinct us"
  shows "(\<Sum>u \<leftarrow> us. sum_list (map f (posts_of u L))) \<le> (sum_list (map f L) :: nat)"
proof (induction L)
  case (Cons x L)
  have one: "(\<Sum>u \<leftarrow> us. if a = u then c else 0) \<le> c" for a :: string and c :: nat
    using assms by (induction us) (auto simp: sum_list_0)
  have "(\<Sum>u \<leftarrow> us. sum_list (map f (posts_of u (x # L)))) =
      (\<Sum>u \<leftarrow> us. (if tr_Userid (snd x) = u then f x else 0) + sum_list (map f (posts_of u L)))"
    by (rule arg_cong [of _ _ sum_list], rule map_cong) (auto simp: posts_of_def split: prod.splits)
  also have "\<dots> \<le> f x + sum_list (map f L)"
    using one [of "tr_Userid (snd x)" "f x"] Cons.IH by (simp only: sum_list_addf add_mono)
  finally show ?case by simp
qed (simp add: posts_of_def)

lemma has_posted: "t \<in> fst ` set ps \<Longrightarrow> posts_of t (stamped now n ps) \<noteq> []"
proof -
  assume "t \<in> fst ` set ps"
  then have "\<exists>x \<in> set (stamped now n ps). tr_Userid (snd x) = t"
    by (induction now n ps rule: stamped.induct) auto
  then show ?thesis unfolding posts_of_def by (fastforce simp: filter_empty_conv split_def)
qed

lemma posts_distinct: "distinct (map fst (posts_of t (stamped now n ps)))"
proof -
  have "sorted_wrt (<) (map fst (posts_of t (stamped now n ps)))"
    unfolding sorted_wrt_map posts_of_def
    by (rule sorted_wrt_filter) (rule sorted_wrt_mono_rel [OF _ stamped_sorted], simp)
  then show ?thesis by (simp add: strict_sorted_iff)
qed

text \<open>
  The timeline that such a test reads after its posts: what it is, and what the proxy has counted.
\<close>

lemma timeline_read:
  fixes ps :: "(string \<times> string) list"
  defines "L \<equiv> stamped 0 0 ps"
  assumes "codec_ok enc dec" and "CHR '':'' \<notin> set u" and "u \<in> set us" and "ts \<noteq> []" and "distinct ts" and "u \<notin> set ts"
    and "\<And>t. t \<in> set ts \<Longrightarrow> CHR '':'' \<notin> set t \<and> t \<in> set us \<and> t \<in> fst ` set ps"
    and "fst ` set ps \<subseteq> set us" and "length ps < 2 ^ 31"
  shows "\<exists>st st' n m. Option.bind (create_all us (first_desk self)) (\<lambda>st.
        Option.bind (follow_all u ts st) (post_all enc ps)) = Some st \<and>
      getTribblesBySubscription dec u (on_pc pc_Reset st) =
        Some (st', None, trib_status.OK, take 100 (filter (\<lambda>t. tr_Userid t \<in> set ts) (rev (map snd L)))) \<and>
      counters st' = (0, 0) \<and> pc_rpcCount (sk_pc st') = of_nat n \<and> pc_byteCount (sk_pc st') = of_nat m \<and>
      1 + (\<Sum>t \<leftarrow> ts. 1 + min 100 (length (posts_of t L))) \<le> n \<and>
      n \<le> 2 + (\<Sum>t \<leftarrow> ts. 2 + min 100 (length (posts_of t L))) \<and>
      m \<le> 4 + 3 * length u + sum_list (map length ts) + (\<Sum>t \<leftarrow> ts. user_bytes enc t (posts_of t L))"
proof -
  let ?sn = "following u ts (empty_network\<lparr>sn_members := set us\<rparr>)"
  obtain st1 where s1: "create_all us (first_desk self) = Some st1" "same_but_store (first_desk self) st1"
    "stands enc {} (empty_network\<lparr>sn_members := set us\<rparr>) st1"
    using create_all_stands [OF first_stands, of us self] by (auto simp: empty_network_def)
  obtain st2 where s2: "follow_all u ts st1 = Some st2" "same_but_store st1 st2" "stands enc {} ?sn st2"
    using follow_all_stands [OF s1(3), of u ts] assms(4-8) by (auto simp: empty_network_def listed_def)
  have same: "same_but_store (first_desk self) st2" by (rule same_trans [OF s1(2) s2(2)])
  then have first: "sk_clock st2 = 0" "counters st2 = (0, 0)"
    using sameD [OF same] by (simp_all add: first_desk_def counters_def)
  have count: "sn_count ?sn = 0" by (simp add: empty_network_def)
  obtain st where st: "post_all enc ps st2 = Some st" "stands enc {} (posted 0 ps ?sn) st" "counters st = (0, 0)"
    using post_all_stands [OF s2(3), of ps] assms(10) count first by auto
  have members: "set (map fst ps) \<subseteq> sn_members ?sn" using assms(9) by simp
  note net = posted_network [OF members, of 0, unfolded count, folded L_def]
  have posts: "listed (sn_posts (posted 0 ps ?sn) t) = posts_of t L" for t
    using net(4) [of t] by (simp add: empty_network_def listed_def)
  have sorted: "sorted_wrt (\<lambda>x y. fst x < fst y \<and> tr_Posted (snd x) < tr_Posted (snd y)) L"
    unfolding L_def by (rule stamped_sorted)
  have each: "CHR '':'' \<notin> set t \<and> t \<in> sn_members (posted 0 ps ?sn) \<and>
      sn_posts (posted 0 ps ?sn) t = Some (posts_of t L) \<and> distinct (map fst (posts_of t L))" if "t \<in> set ts" for t
    using assms(8) [OF that] net(1) posts [of t] has_posted [of t ps 0 0] posts_distinct [of t 0 0 ps]
    by (auto simp: listed_def L_def split: option.splits)
  have "u \<in> sn_members (posted 0 ps ?sn)" "sn_follows (posted 0 ps ?sn) u = Some ts"
    using net(1,2) assms(4) by simp_all
  from timeline_stands [OF assms(2) reset_stands [OF st(2)] assms(3) this assms(6,7) each] obtain st' where
    st': "getTribblesBySubscription dec u (on_pc pc_Reset st) = Some (st', None, trib_status.OK, timeline (posted 0 ps ?sn) ts)"
      "same_but_store (on_pc pc_Reset st) st'"
      "costs (1 + (\<Sum>t \<leftarrow> ts. 1 + min 100 (length (posts_of t L)))) (2 + (\<Sum>t \<leftarrow> ts. 2 + min 100 (length (posts_of t L))))
        (length (user_key u) + length u + (length (foll_key u) + sum_list (map length ts)) +
         (\<Sum>t \<leftarrow> ts. user_bytes enc t (posts_of t L))) (on_pc pc_Reset st) st'" by blast
  have "timeline (posted 0 ps ?sn) ts = take 100 (filter (\<lambda>t. tr_Userid t \<in> set ts) (rev (map snd L)))"
  proof (rule timeline_log)
    show "t \<in> sn_members (posted 0 ps ?sn) \<and> listed (sn_posts (posted 0 ps ?sn) t) = posts_of t L" if "t \<in> set ts" for t
      using each [OF that] posts by blast
    show "sorted_wrt (\<lambda>x y. tr_Posted (snd x) < tr_Posted (snd y)) L" by (rule sorted_wrt_mono_rel [OF _ sorted]) simp
  qed (rule assms(6))
  moreover have "counters st' = (0, 0)"
    using sameD [OF st'(2)] st(3) by (simp add: counters_def on_pc_def)
  moreover obtain n m where "pc_rpcCount (sk_pc st') = of_nat n" "pc_byteCount (sk_pc st') = of_nat m"
    "1 + (\<Sum>t \<leftarrow> ts. 1 + min 100 (length (posts_of t L))) \<le> n" "n \<le> 2 + (\<Sum>t \<leftarrow> ts. 2 + min 100 (length (posts_of t L)))"
    "m \<le> 4 + 3 * length u + sum_list (map length ts) + (\<Sum>t \<leftarrow> ts. user_bytes enc t (posts_of t L))"
    using st'(3) unfolding costs_def by (auto simp: on_pc_def pc_Reset_def user_key_def foll_key_def)
  ultimately show ?thesis using s1(1) s2(1) st(1) st'(1) by auto
qed

text \<open>
  The tests of long timelines: users \<open>us\<close> of whom \<open>u\<close> follows \<open>ts\<close>, the posts \<open>ps\<close>, and the tribbles
  that are expected.
\<close>

definition timeline_test ::
  "(Tribble \<Rightarrow> string) \<Rightarrow> (string \<Rightarrow> Tribble) \<Rightarrow> string list \<Rightarrow> string \<Rightarrow> string list \<Rightarrow> (string \<times> string) list \<Rightarrow>
   (string \<times> string) list \<Rightarrow> u32 \<Rightarrow> tribtest \<Rightarrow> tribtest go" where
  "timeline_test enc dec us u ts ps expected byteLimit st = do {
     st \<leftarrow> create_all us st;
     st \<leftarrow> follow_all u ts st;
     st \<leftarrow> post_all enc ps st;
     (st, err, status, tribbles) \<leftarrow> getTribblesBySubscription dec u (on_pc pc_Reset st);
     let (bad, st) = trib_checkErrorStatus err status trib_status.OK st;
     if bad then Some st else do {
     let (bad, st) = checkTribbles tribbles expected st;
     if bad then Some st else do {
     let (bad, st) = checkLimits 200 byteLimit st;
     if bad then Some st else Some (passing st) } } }"

lemma timeline_judged:
  assumes "codec_ok enc dec" and "CHR '':'' \<notin> set u" and "u \<in> set us" and "ts \<noteq> []" and "distinct ts" and "u \<notin> set ts"
    and "\<And>t. t \<in> set ts \<Longrightarrow> CHR '':'' \<notin> set t \<and> t \<in> set us \<and> t \<in> fst ` set old"
    and "fst ` set old \<subseteq> set us" and "fst ` set E \<subseteq> set ts" and "length E = 100" and "length old < 1000"
  defines "L \<equiv> stamped 0 0 (old @ rev E)"
  shows "\<exists>st n m. timeline_test enc dec us u ts (old @ rev E) E limit (first_desk self) =
      Some (if 200 < (of_nat n :: u32) \<or> limit < of_nat m then failing st else passing st) \<and> counters st = (0, 0) \<and>
      1 + (\<Sum>t \<leftarrow> ts. 1 + min 100 (length (posts_of t L))) \<le> n \<and>
      n \<le> 2 + (\<Sum>t \<leftarrow> ts. 2 + min 100 (length (posts_of t L))) \<and>
      m \<le> 4 + 3 * length u + sum_list (map length ts) + (\<Sum>t \<leftarrow> ts. user_bytes enc t (posts_of t L))"
proof -
  let ?ps = "old @ rev E"
  have users: "fst ` set ?ps \<subseteq> set us" using assms(7-9) by auto
  have each: "CHR '':'' \<notin> set t \<and> t \<in> set us \<and> t \<in> fst ` set ?ps" if "t \<in> set ts" for t
    using assms(7) [OF that] by auto
  have len: "length ?ps < 2 ^ 31" using assms(10,11) by simp
  from timeline_read [OF assms(1-6) each users len, of self, folded L_def] obtain st st' n m where
    st: "Option.bind (create_all us (first_desk self)) (\<lambda>st. Option.bind (follow_all u ts st) (post_all enc ?ps)) = Some st"
      "getTribblesBySubscription dec u (on_pc pc_Reset st) =
        Some (st', None, trib_status.OK, take 100 (filter (\<lambda>t. tr_Userid t \<in> set ts) (rev (map snd L))))"
      "counters st' = (0, 0)" "pc_rpcCount (sk_pc st') = of_nat n" "pc_byteCount (sk_pc st') = of_nat m"
      "1 + (\<Sum>t \<leftarrow> ts. 1 + min 100 (length (posts_of t L))) \<le> n"
      "n \<le> 2 + (\<Sum>t \<leftarrow> ts. 2 + min 100 (length (posts_of t L)))"
      "m \<le> 4 + 3 * length u + sum_list (map length ts) + (\<Sum>t \<leftarrow> ts. user_bytes enc t (posts_of t L))"
    by blast
  have "set (map fst E) \<subseteq> set ts" using assms(9) by simp
  from last_hundred [OF assms(10) this] have
    "take 100 (filter (\<lambda>t. tr_Userid t \<in> set ts) (rev (map snd L))) =
      rev (map snd (stamped (int (length old)) (int (length old)) (rev E)))" by (simp add: L_def)
  moreover obtain st1 st2 where "create_all us (first_desk self) = Some st1" "follow_all u ts st1 = Some st2"
    "post_all enc ?ps st2 = Some st" using st(1) by (auto split: bind_splits)
  ultimately have "timeline_test enc dec us u ts ?ps E limit (first_desk self) =
      Some (if 200 < (of_nat n :: u32) \<or> limit < of_nat m then failing st' else passing st')"
    using st(2,4,5) by (simp add: timeline_test_def trib_checkErrorStatus_def check_stamped checkLimits_def)
  with st(3,6-8) show ?thesis by blast
qed

lemma timeline_passes:
  assumes "text_bounded enc" and "codec_ok enc dec" and "CHR '':'' \<notin> set u" and "u \<in> set us" and "ts \<noteq> []" and "distinct ts" and "u \<notin> set ts"
    and "\<And>t. t \<in> set ts \<Longrightarrow> CHR '':'' \<notin> set t \<and> t \<in> set us \<and> t \<in> fst ` set old"
    and "fst ` set old \<subseteq> set us" and "fst ` set E \<subseteq> set ts" and "length E = 100"
    and "2 * length ts + length old \<le> 98"
    and "8 + 3 * length u + sum_list (map length ts) + (\<Sum>t \<leftarrow> ts. 4 + 3 * length t) +
      sum_list (map weight old) + sum_list (map weight E) \<le> 30000"
  shows "alone (1, 0) (timeline_test enc dec us u ts (old @ rev E) E 30000)"
  unfolding alone_def
proof
  fix self
  let ?L = "stamped 0 0 (old @ rev E)"
  have old: "length old < 1000" "length (old @ rev E) < 1000" using assms(11,12) by simp_all
  from timeline_judged [OF assms(2-11) old(1), of 30000 self] obtain st n m where
    st: "timeline_test enc dec us u ts (old @ rev E) E 30000 (first_desk self) =
      Some (if 200 < (of_nat n :: u32) \<or> 30000 < (of_nat m :: u32) then failing st else passing st)" "counters st = (0, 0)"
      "n \<le> 2 + (\<Sum>t \<leftarrow> ts. 2 + min 100 (length (posts_of t ?L)))"
      "m \<le> 4 + 3 * length u + sum_list (map length ts) + (\<Sum>t \<leftarrow> ts. user_bytes enc t (posts_of t ?L))" by blast
  have "(\<Sum>t \<leftarrow> ts. 2 + min 100 (length (posts_of t ?L))) \<le> (\<Sum>t \<leftarrow> ts. 2 + length (posts_of t ?L))"
    by (rule sum_list_mono) simp
  also have "\<dots> = 2 * length ts + (\<Sum>t \<leftarrow> ts. length (posts_of t ?L))"
    by (simp only: sum_list_addf) (simp add: sum_list_triv)
  also have "(\<Sum>t \<leftarrow> ts. length (posts_of t ?L)) \<le> length ?L"
    using sums_of_users [OF assms(6), of "\<lambda>_. 1" ?L] by (simp add: sum_list_triv)
  finally have n: "n \<le> 200" using st(3) assms(11,12) by simp
  have "(\<Sum>t \<leftarrow> ts. user_bytes enc t (posts_of t ?L)) \<le>
      (\<Sum>t \<leftarrow> ts. 4 + 3 * length t + sum_list (map post_weight (posts_of t ?L)))"
    by (rule sum_list_mono) (rule posts_weigh [OF assms(1) old(2)])
  also have "\<dots> \<le> (\<Sum>t \<leftarrow> ts. 4 + 3 * length t) + sum_list (map post_weight ?L)"
    using sums_of_users [OF assms(6), of post_weight ?L] by (simp only: sum_list_addf add_left_mono)
  finally have m: "m \<le> 30000" using st(4) assms(13) by (simp add: stamped_weight flip: rev_map)
  have "\<not> 200 < (of_nat n :: u32)" "\<not> 30000 < (of_nat m :: u32)"
    using n m by (simp_all add: word_less_nat_alt unat_of_nat)
  with st(1,2) show "map_option counters (timeline_test enc dec us u ts (old @ rev E) E 30000 (first_desk self)) = Some (1, 0)"
    by (simp add: counters_def passing_def)
qed

lemma timeline_fails:
  assumes "codec_ok enc dec" and "CHR '':'' \<notin> set u" and "u \<in> set us" and "ts \<noteq> []" and "distinct ts" and "u \<notin> set ts"
    and "\<And>t. t \<in> set ts \<Longrightarrow> CHR '':'' \<notin> set t \<and> t \<in> set us \<and> t \<in> fst ` set old"
    and "fst ` set old \<subseteq> set us" and "fst ` set E \<subseteq> set ts" and "length E = 100" and "length old < 1000"
    and "\<And>t. t \<in> set ts \<Longrightarrow> 100 \<le> length (filter (\<lambda>p. fst p = t) old)" and "2 \<le> length ts" and "length ts < 1000"
  shows "alone (0, 1) (timeline_test enc dec us u ts (old @ rev E) E limit)"
  unfolding alone_def
proof
  fix self
  let ?L = "stamped 0 0 (old @ rev E)"
  from timeline_judged [OF assms(1-11), of limit self] obtain st n m where
    st: "timeline_test enc dec us u ts (old @ rev E) E limit (first_desk self) =
      Some (if 200 < (of_nat n :: u32) \<or> limit < of_nat m then failing st else passing st)" "counters st = (0, 0)"
      "1 + (\<Sum>t \<leftarrow> ts. 1 + min 100 (length (posts_of t ?L))) \<le> n"
      "n \<le> 2 + (\<Sum>t \<leftarrow> ts. 2 + min 100 (length (posts_of t ?L)))" by blast
  have "length (posts_of t (stamped now n ps)) = length (filter (\<lambda>p. fst p = t) ps)" for t now n ps
    by (induction now n ps rule: stamped.induct) (auto simp: posts_of_def)
  then have "min 100 (length (posts_of t ?L)) = 100" if "t \<in> set ts" for t
    using assms(12) [OF that] by simp
  then have sums: "(\<Sum>t \<leftarrow> ts. 1 + min 100 (length (posts_of t ?L))) = (\<Sum>t \<leftarrow> ts. 101)"
    "(\<Sum>t \<leftarrow> ts. 2 + min 100 (length (posts_of t ?L))) = (\<Sum>t \<leftarrow> ts. 102)"
    by (auto intro!: arg_cong [of _ _ sum_list] map_cong)
  have "200 < n" "n < 2 ^ 32" using st(3,4) assms(13,14) unfolding sums by (simp_all add: sum_list_triv)
  then have "200 < (of_nat n :: u32)" by (simp add: word_less_nat_alt unat_of_nat)
  with st(1,2) show "map_option counters (timeline_test enc dec us u ts (old @ rev E) E limit (first_desk self)) = Some (0, 1)"
    by (simp add: counters_def failing_def)
qed

text \<open>The posts of the three tests: the old ones, and those that are expected.\<close>

definition old_posts :: "string list \<Rightarrow> (string \<times> string) list" where
  "old_posts us = map (\<lambda>u. (u, ''should not see this old msg'')) us"

definition numbered :: "(nat \<Rightarrow> string) \<Rightarrow> (string \<times> string) list" where
  "numbered who = map (\<lambda>i. (who i, ''contents'' @ Itoa (int i))) [0..<100]"

lemma numbered_length: "length (numbered who) = 100"
  by (simp add: numbered_def)

lemma numbered_users: "(\<And>i. who i \<in> U) \<Longrightarrow> fst ` set (numbered who) \<subseteq> U"
  by (auto simp: numbered_def)

lemma numbered_weight:
  assumes "\<And>i. length (who i) \<le> k"
  shows "sum_list (map weight (numbered who)) \<le> 100 * (182 + 7 * k)"
proof -
  have "weight (who i, ''contents'' @ Itoa (int i)) \<le> 182 + 7 * k" if "i < 100" for i
  proof -
    have "length (digits i) \<le> 2" by (rule digits_length) (use that in simp_all)
    then show ?thesis using assms [of i] by (simp add: weight_def Itoa_def)
  qed
  then have "sum_list (map weight (numbered who)) \<le> (\<Sum>i \<leftarrow> [0..<100]. 182 + 7 * k)"
    unfolding numbered_def map_map by (intro sum_list_mono) simp
  then show ?thesis by (simp add: sum_list_triv)
qed

lemmas run_steps = timeline_test_def create_all.simps follow_all.simps post_all_append post_all.simps
  old_posts_def list.map append_Cons append_Nil split_def bind_assoc bind.bind_lunit Let_def fst_conv snd_conv

lemma Many_steps:
  "testGetTribblesBySubscriptionManyTribbles enc dec =
     timeline_test enc dec [''tribUser1'', ''tribUser2'', ''tribUser3'', ''tribUser4''] ''tribUser1''
       [''tribUser2'', ''tribUser3'', ''tribUser4'']
       (old_posts [''tribUser1'', ''tribUser2'', ''tribUser3'', ''tribUser4''] @
        rev (numbered (\<lambda>i. ''tribUser'' @ Itoa (int (i mod 3 + 2)))))
       (numbered (\<lambda>i. ''tribUser'' @ Itoa (int (i mod 3 + 2)))) 30000"
  by (rule ext) (simp only: testGetTribblesBySubscriptionManyTribbles_def run_steps numbered_def)

lemma Many2_steps:
  "testGetTribblesBySubscriptionManyTribbles2 enc dec =
     timeline_test enc dec [''tribUser1b'', ''tribUser2b'', ''tribUser3b'', ''tribUser4b''] ''tribUser1b''
       [''tribUser2b'', ''tribUser3b'', ''tribUser4b'']
       (old_posts [''tribUser1b'', ''tribUser2b'', ''tribUser3b'', ''tribUser4b''] @ rev (numbered (\<lambda>i. ''tribUser3b'')))
       (numbered (\<lambda>i. ''tribUser3b'')) 30000"
  by (rule ext) (simp only: testGetTribblesBySubscriptionManyTribbles2_def run_steps numbered_def)

definition users_c :: "string list" where
  "users_c = [''tribUser2c'', ''tribUser3c'', ''tribUser4c'', ''tribUser5c'', ''tribUser6c'', ''tribUser7c'',
     ''tribUser8c'', ''tribUser9c'']"

definition long_posts :: "(string \<times> string) list" where
  "long_posts = concat (replicate 100 (map (\<lambda>j. (''tribUser'' @ Itoa (int j) @ ''c'', longValue)) [1..<10]))"

lemma Many3_steps:
  "testGetTribblesBySubscriptionManyTribbles3 enc dec =
     timeline_test enc dec (''tribUser1c'' # users_c) ''tribUser1c'' users_c
       ((old_posts (''tribUser1c'' # users_c) @ long_posts) @
        rev (numbered (\<lambda>i. ''tribUser'' @ Itoa (int (i mod 8 + 2)) @ ''c'')))
       (numbered (\<lambda>i. ''tribUser'' @ Itoa (int (i mod 8 + 2)) @ ''c'')) 200000"
  by (rule ext) (simp only: testGetTribblesBySubscriptionManyTribbles3_def run_steps numbered_def users_c_def
      long_posts_def)

lemma alone_testGetTribblesBySubscriptionManyTribbles:
  assumes "text_bounded enc" and "codec_ok enc dec"
  shows "alone (1, 0) (testGetTribblesBySubscriptionManyTribbles enc dec)"
proof -
  let ?who = "\<lambda>i. ''tribUser'' @ Itoa (int (i mod 3 + 2))"
  let ?ts = "[''tribUser2'', ''tribUser3'', ''tribUser4'']"
  have who: "?who i \<in> set ?ts" for i :: nat
  proof -
    have "list_all (\<lambda>k. ''tribUser'' @ Itoa (int (k + 2)) \<in> set ?ts) [0..<3]" by code_simp
    moreover have "i mod 3 \<in> set [0..<3]" by simp
    ultimately show ?thesis unfolding list_all_iff by blast
  qed
  have "length (?who i) \<le> 9" for i using who [of i] by auto
  from numbered_weight [OF this] have weight: "sum_list (map weight (numbered ?who)) \<le> 24500" by simp
  have users: "fst ` set (numbered ?who) \<subseteq> set ?ts" by (rule numbered_users) (rule who)
  show ?thesis
    unfolding Many_steps
    by (rule timeline_passes [OF assms _ _ _ _ _ _ _ users numbered_length])
      (use weight in \<open>auto simp: old_posts_def weight_def\<close>)
qed

lemma alone_testGetTribblesBySubscriptionManyTribbles2:
  assumes "text_bounded enc" and "codec_ok enc dec"
  shows "alone (1, 0) (testGetTribblesBySubscriptionManyTribbles2 enc dec)"
proof -
  let ?who = "\<lambda>i :: nat. ''tribUser3b''"
  have "sum_list (map weight (numbered ?who)) \<le> 100 * (182 + 7 * 10)" by (rule numbered_weight) simp
  then have weight: "sum_list (map weight (numbered ?who)) \<le> 25200" by simp
  have users: "fst ` set (numbered ?who) \<subseteq> set [''tribUser2b'', ''tribUser3b'', ''tribUser4b'']" by (rule numbered_users) simp
  show ?thesis
    unfolding Many2_steps
    by (rule timeline_passes [OF assms _ _ _ _ _ _ _ users numbered_length])
      (use weight in \<open>auto simp: old_posts_def weight_def\<close>)
qed

lemma alone_testGetTribblesBySubscriptionManyTribbles3:
  assumes "codec_ok enc dec"
  shows "alone (0, 1) (testGetTribblesBySubscriptionManyTribbles3 enc dec)"
proof -
  let ?who = "\<lambda>i. ''tribUser'' @ Itoa (int (i mod 8 + 2)) @ ''c''"
  have who: "?who i \<in> set users_c" for i :: nat
  proof -
    have "list_all (\<lambda>k. ''tribUser'' @ Itoa (int (k + 2)) @ ''c'' \<in> set users_c) [0..<8]" by code_simp
    moreover have "i mod 8 \<in> set [0..<8]" by simp
    ultimately show ?thesis unfolding list_all_iff by blast
  qed
  have users: "fst ` set (numbered ?who) \<subseteq> set users_c" by (rule numbered_users) (rule who)
  have names: "map (\<lambda>j. ''tribUser'' @ Itoa (int j) @ ''c'') [1..<10] = ''tribUser1c'' # users_c" by code_simp
  have round: "map (\<lambda>j. (''tribUser'' @ Itoa (int j) @ ''c'', longValue)) [1..<10] =
      map (\<lambda>u. (u, longValue)) (''tribUser1c'' # users_c)"
    unfolding names [symmetric] by (simp only: map_map o_def)
  have among: "fst ` set long_posts \<subseteq> set (''tribUser1c'' # users_c)"
    unfolding long_posts_def round by (auto simp: in_set_replicate)
  have of_user: "length (filter (\<lambda>p. fst p = t) long_posts) = 100" if "t \<in> set users_c" for t
  proof -
    have "length (filter (\<lambda>p. fst p = t) (concat (replicate n l))) = n * length (filter (\<lambda>p. fst p = t) l)"
      for n and l :: "(string \<times> string) list" by (induction n) auto
    moreover have "length (filter (\<lambda>p. fst p = t) (map (\<lambda>u. (u, longValue)) (''tribUser1c'' # users_c))) = 1"
      using that by (auto simp: users_c_def)
    ultimately show ?thesis unfolding long_posts_def round by simp
  qed
  have len: "length long_posts = 900"
    unfolding long_posts_def by (simp add: length_concat sum_list_replicate)
  have old: "map fst (old_posts us) = us" for us by (simp add: old_posts_def o_def)
  have old_users: "fst ` set (old_posts us) = set us" for us using old [of us] by (metis set_map)
  have old_length: "length (old_posts us) = length us" for us by (simp add: old_posts_def)
  have eight: "length users_c = 8" "distinct users_c" "''tribUser1c'' \<notin> set users_c" "\<forall>t \<in> set users_c. CHR '':'' \<notin> set t"
    by (simp_all add: users_c_def)
  show ?thesis
    unfolding Many3_steps
  proof (rule timeline_fails [OF assms _ _ _ _ _ _ _ users numbered_length])
    show "CHR '':'' \<notin> set t \<and> t \<in> set (''tribUser1c'' # users_c) \<and>
        t \<in> fst ` set (old_posts (''tribUser1c'' # users_c) @ long_posts)" if "t \<in> set users_c" for t
      using that eight(4) by (simp add: image_Un old_users)
    show "100 \<le> length (filter (\<lambda>p. fst p = t) (old_posts (''tribUser1c'' # users_c) @ long_posts))" if "t \<in> set users_c" for t
      using of_user [OF that] by simp
    show "fst ` set (old_posts (''tribUser1c'' # users_c) @ long_posts) \<subseteq> set (''tribUser1c'' # users_c)"
      using among by (auto simp: image_Un old_users)
    show "length (old_posts (''tribUser1c'' # users_c) @ long_posts) < 1000" by (simp add: old_length eight len)
    show "users_c \<noteq> []" using eight(1) by auto
  qed (simp_all add: eight)
qed

text \<open>The tribbles of one user.\<close>

lemma Many_of_one_steps:
  "testGetTribblesManyTribbles enc dec st = do {
     st \<leftarrow> create_all [''tribUser''] st;
     st \<leftarrow> post_all enc (old_posts [''tribUser''] @ rev (numbered (\<lambda>i. ''tribUser''))) st;
     (st, err, status, tribbles) \<leftarrow> getTribbles dec ''tribUser'' (on_pc pc_Reset st);
     let (bad, st) = trib_checkErrorStatus err status trib_status.OK st;
     if bad then Some st else do {
     let (bad, st) = checkTribbles tribbles (numbered (\<lambda>i. ''tribUser'')) st;
     if bad then Some st else do {
     let (bad, st) = checkLimits 200 30000 st;
     if bad then Some st else Some (passing st) } } }"
  by (simp only: testGetTribblesManyTribbles_def run_steps numbered_def)

lemma alone_testGetTribblesManyTribbles:
  assumes "text_bounded enc" and "codec_ok enc dec"
  shows "alone (1, 0) (testGetTribblesManyTribbles enc dec)"
  unfolding alone_def
proof
  fix self
  let ?E = "numbered (\<lambda>i. ''tribUser'')" and ?ps = "old_posts [''tribUser''] @ rev (numbered (\<lambda>i. ''tribUser''))"
  let ?L = "stamped 0 0 ?ps" and ?sn = "empty_network\<lparr>sn_members := {''tribUser''}\<rparr>"
  have E: "length ?E = 100" and ps: "length ?ps = 101" by (simp_all add: numbered_length old_posts_def)
  obtain st1 where s1: "create_all [''tribUser''] (first_desk self) = Some st1" "same_but_store (first_desk self) st1"
    "stands enc {} ?sn st1"
    using create_all_stands [OF first_stands, of "[''tribUser'']" self] by (auto simp: empty_network_def)
  have first: "sk_clock st1 = 0" "counters st1 = (0, 0)"
    using sameD [OF s1(2)] by (simp_all add: first_desk_def counters_def)
  have count: "sn_count ?sn = 0" by (simp add: empty_network_def)
  obtain st where st: "post_all enc ?ps st1 = Some st" "stands enc {} (posted 0 ?ps ?sn) st" "counters st = (0, 0)"
    using post_all_stands [OF s1(3), of ?ps] ps count first by auto
  have "set (map fst ?ps) \<subseteq> sn_members ?sn" by (auto simp: old_posts_def numbered_def)
  note net = posted_network [OF this, of 0, unfolded count]
  let ?st = "on_pc pc_Reset st" and ?p = "posts_of ''tribUser'' ?L"
  have posts: "sn_posts (posted 0 ?ps ?sn) ''tribUser'' = Some ?p"
    using net(4) [of "''tribUser''"] has_posted [of "''tribUser''" ?ps 0 0]
    by (auto simp: empty_network_def listed_def old_posts_def split: option.splits)
  have member: "''tribUser'' \<in> sn_members (posted 0 ?ps ?sn)" using net(1) by simp
  have "stands enc (keys_of {}) (posted 0 ?ps ?sn) ?st"
    using reset_stands [OF st(2)] by (simp add: keys_of_def)
  from tribbles_stand [OF assms(2) this _ _ member posts posts_distinct] obtain st' where
    st': "ts_GetTribbles stack_ops dec ''localhost:9010'' ''tribUser'' ?st =
        Some (st', Inr (trib_status.OK, newest (posted 0 ?ps ?sn) ''tribUser''))" "same_but_store ?st st'"
      "costs (1 + min 100 (length ?p)) (2 + min 100 (length ?p)) (user_bytes enc ''tribUser'' ?p) ?st st'" by auto
  have "newest (posted 0 ?ps ?sn) ''tribUser'' = take 100 (filter (\<lambda>t. tr_Userid t \<in> {''tribUser''}) (rev (map snd ?L)))"
    using newest_log [OF member, of ?L] posts by (simp add: listed_def)
  also have "\<dots> = rev (map snd (stamped 1 1 (rev ?E)))"
    using last_hundred [OF E, of "{''tribUser''}" 0 0 "old_posts [''tribUser'']"] by (auto simp: old_posts_def numbered_def)
  finally have newest: "newest (posted 0 ?ps ?sn) ''tribUser'' = rev (map snd (stamped 1 1 (rev ?E)))" .
  obtain n m where cost: "pc_rpcCount (sk_pc st') = of_nat n" "pc_byteCount (sk_pc st') = of_nat m"
    "n \<le> 2 + min 100 (length ?p)" "m \<le> user_bytes enc ''tribUser'' ?p"
    using st'(3) unfolding costs_def by (auto simp: on_pc_def pc_Reset_def)
  have "user_bytes enc ''tribUser'' ?p \<le> 4 + 3 * length ''tribUser'' + sum_list (map post_weight ?p)"
    by (rule posts_weigh [OF assms(1)]) (simp add: ps del: length_append)
  also have "sum_list (map post_weight ?p) \<le> sum_list (map post_weight ?L)"
    using sums_of_users [of "[''tribUser'']" post_weight ?L] by simp
  also have "sum_list (map post_weight ?L) = sum_list (map weight (old_posts [''tribUser''])) + sum_list (map weight ?E)"
    by (simp add: stamped_weight flip: rev_map)
  also have "sum_list (map weight ?E) \<le> 100 * (182 + 7 * 8)" by (rule numbered_weight) simp
  finally have "m \<le> 30000" using cost(4) by (simp add: old_posts_def weight_def)
  moreover have "n \<le> 200" using cost(3) by simp
  ultimately have limits: "\<not> 200 < (of_nat n :: u32)" "\<not> 30000 < (of_nat m :: u32)"
    by (simp_all add: word_less_nat_alt unat_of_nat)
  have "ts_hostport (tt_server ?st) = ''localhost:9010''"
    using standsD(3) [OF reset_stands [OF st(2)]] by (simp add: server_of_def)
  with st' newest have "getTribbles dec ''tribUser'' ?st =
      Some (st', None, trib_status.OK, rev (map snd (stamped 1 1 (rev ?E))))"
    by (simp add: getTribbles_def)
  then have "testGetTribblesManyTribbles enc dec (first_desk self) = Some (passing st')"
    using s1(1) st(1) limits cost(1,2) check_stamped [of 1 1 ?E st']
    by (simp add: Many_of_one_steps trib_checkErrorStatus_def checkLimits_def del: create_all.simps)
  moreover have "counters st' = (0, 0)"
    using sameD [OF st'(2)] st(3) by (simp add: counters_def on_pc_def)
  ultimately show "map_option counters (testGetTribblesManyTribbles enc dec (first_desk self)) = Some (1, 0)"
    by (simp add: counters_def passing_def)
qed

section \<open>The test program with one test\<close>

text \<open>
  Passed and failed.  testGetTribblesBySubscriptionZeroTribbles is in the table twice.
\<close>

definition trib_score :: "string \<Rightarrow> nat \<times> nat" where
  "trib_score name =
     (if name \<in> {''testGetTribblesZeroTribbles'', ''testGetTribblesBySubscriptionNoSubscriptions'',
                  ''testGetTribblesBySubscriptionManyTribbles3''} then (0, 1)
      else if name = ''testGetTribblesBySubscriptionZeroTribbles'' then (0, 2) else (1, 0))"

lemma init_one: "hostport \<noteq> '''' \<Longrightarrow>
  run_tests (filter (\<lambda>(m, f). m = name) trib_initTests) (start_tribtest True (lib_store self) hostport) =
    Some (if name = ''testNonexistentServer'' then passing (start_tribtest True (lib_store self) hostport)
          else start_tribtest True (lib_store self) hostport)"
  by (simp add: trib_initTests_def trib_testNonexistentServer_def iNewLibstore_def start_tribtest_def
      start_driver_def driver.defs cleanupTribserver_def NewTribserver_def)

lemma start_one:
  "initTribserver ''localhost:9010'' (start_tribtest True (lib_store self) ''localhost:9010'') =
     Some (first_desk self, True)"
  "initTribserver ''localhost:9010'' (passing (start_tribtest True (lib_store self) ''localhost:9010'')) =
     Some (passing (first_desk self), True)"
  by (simp_all add: initTribserver_def start_tribtest_def start_driver_def driver.defs start_lib [of _ _ self]
      lib_store_def NewStorageserver_def NewTribserver_def first_desk_def no_proxy_def passing_def NewCache_def)

lemma one_test:
  assumes "name \<noteq> ''testNonexistentServer''"
    and "alone d (run_tests (filter (\<lambda>(m, f). m = name) (trib_tests enc dec)))"
  shows "tribtest_main enc dec (\<lambda>m. m = name) True (lib_store self) ''localhost:9010'' = Some (Some d)"
proof -
  obtain st where "run_tests (filter (\<lambda>(m, f). m = name) (trib_tests enc dec)) (first_desk self) = Some st"
    "counters st = d" using assms(2) unfolding alone_def by fastforce
  with assms(1) show ?thesis by (auto simp: tribtest_main_def init_one start_one counters_def)
qed

lemma run_one: "run_tests [(m, f)] = f" "run_tests [(m, f), (n, g)] = (\<lambda>st. do { st \<leftarrow> f st; g st })"
proof -
  have last: "run_tests [(m, f)] = f" for m f
  proof
    show "run_tests [(m, f)] st = f st" for st by (cases "f st") simp_all
  qed
  show "run_tests [(m, f)] = f" by (rule last)
  show "run_tests [(m, f), (n, g)] = (\<lambda>st. do { st \<leftarrow> f st; g st })"
    by (rule ext) (simp only: run_tests.simps(2) [of m] last)
qed

lemmas alone_many =
  alone_testGetTribblesManyTribbles
  alone_testGetTribblesBySubscriptionManyTribbles
  alone_testGetTribblesBySubscriptionManyTribbles2
  alone_testGetTribblesBySubscriptionManyTribbles3

lemmas alone_tests =
  alone_testCreateUserValid
  alone_testCreateUserDuplicate
  alone_testAddSubscriptionInvalidUser
  alone_testAddSubscriptionInvalidTargetUser
  alone_testAddSubscriptionValid
  alone_testAddSubscriptionDuplicate
  alone_testRemoveSubscriptionInvalidUser
  alone_testRemoveSubscriptionValid
  alone_testRemoveSubscriptionMissingTarget
  alone_testGetSubscriptionInvalidUser
  alone_testGetSubscriptionValid
  alone_testPostTribbleInvalidUser
  alone_testGetTribblesInvalidUser
  alone_testGetTribblesZeroTribbles
  alone_testGetTribblesBySubscriptionInvalidUser
  alone_testGetTribblesBySubscriptionNoSubscriptions
  alone_testGetTribblesBySubscriptionZeroTribbles

lemma each_alone:
  assumes "text_bounded enc" and "codec_ok enc dec"
  shows "\<forall>name \<in> set (map fst (trib_tests enc dec)).
    alone (trib_score name) (run_tests (filter (\<lambda>(m, f). m = name) (trib_tests enc dec)))"
  using assms
  by (simp add: trib_tests_def trib_score_def run_one alone_tests [simplified] alone_testPostTribbleValid [simplified]
      alone_many [simplified]
      alone_testGetTribblesFewTribbles [simplified] alone_testGetTribblesBySubscriptionFewTribbles [simplified])

text \<open>A text with the length of the name, the time, the name and the contents.\<close>

definition enc_short :: "Tribble \<Rightarrow> string" where
  "enc_short t =
     Itoa (int (length (tr_Userid t))) @ CHR '':'' # Itoa (tr_Posted t) @ CHR '':'' # tr_Userid t @ tr_Contents t"

definition Atoi :: "string \<Rightarrow> int" where
  "Atoi s = (if s \<noteq> [] \<and> hd s = CHR ''-'' then - int (number (tl s)) else int (number s))"

definition dec_short :: "string \<Rightarrow> Tribble" where
  "dec_short s =
     (let n = takeWhile (\<lambda>c. c \<noteq> CHR '':'') s; s1 = drop (length n + 1) s;
          p = takeWhile (\<lambda>c. c \<noteq> CHR '':'') s1; s2 = drop (length p + 1) s1
      in \<lparr>tr_Userid = take (nat (Atoi n)) s2, tr_Posted = Atoi p, tr_Contents = drop (nat (Atoi n)) s2\<rparr>)"

lemma Atoi_Itoa: "Atoi (Itoa i) = i"
proof -
  have "hd (digits n) \<noteq> CHR ''-''" if "digits n \<noteq> []" for n
    using digits_no_sign(1) [of n] that by (metis hd_in_set)
  moreover have "digits n \<noteq> []" for n by (subst digits.simps) simp
  ultimately show ?thesis by (simp add: Atoi_def Itoa_def number_digits)
qed

lemma codec_short: "codec_ok enc_short dec_short"
  by (simp add: codec_ok_def enc_short_def dec_short_def take_to_colon Itoa_no_colon Atoi_Itoa)

lemma digits_length_less: "length (digits n) \<le> Suc n"
proof (cases n)
  case (Suc m)
  have "n < 10 ^ n" by (induction n) auto
  then show ?thesis using digits_length [of n n] Suc by simp
qed (subst digits.simps, simp)

lemma text_short: "text_bounded enc_short"
proof -
  have "length (digits (nat t)) \<le> 19" if "t < 2 ^ 63" for t :: int
    by (rule digits_length) (use that in \<open>simp_all add: nat_less_iff\<close>)
  then have "length (Itoa t) \<le> 19" if "0 \<le> t" "t < 2 ^ 63" for t
    using that by (simp add: Itoa_def)
  moreover have "length (Itoa (int n)) \<le> Suc n" for n by (simp add: Itoa_def digits_length_less)
  ultimately have len: "length (enc_short \<lparr>tr_Userid = u, tr_Posted = t, tr_Contents = c\<rparr>) \<le>
      Suc (length u) + Suc (19 + Suc (length u + length c))" if "0 \<le> t" "t < 2 ^ 63" for u c t
    using that by (simp only: enc_short_def Tribble.simps length_append length_Cons) (meson add_mono Suc_le_mono order_refl)
  show ?thesis
    unfolding text_bounded_def
  proof (intro allI impI)
    fix u c :: string and t :: time assume t: "0 \<le> t" "t < 2 ^ 63"
    show "length (enc_short \<lparr>tr_Userid = u, tr_Posted = t, tr_Contents = c\<rparr>) \<le> 100 + 6 * (length u + length c)"
      by (rule order_trans [OF len [OF t, of u c]]) simp
  qed
qed

text \<open>
  C14: What each test of the tribble server says by itself, on a storage server without data.  The
  program runs to its end and the test passes, except that a user who has not posted yet is taken
  for one that does not exist when her tribbles are asked for, and so is one who follows nobody when
  her timeline is; three tests show it, one of them twice.  And the last test fails: with eight users
  followed who have a hundred tribbles each, their timeline takes more than the two hundred calls
  it allows.
\<close>

theorem tribtest_verdict:
  assumes "text_bounded enc" and "codec_ok enc dec"
    and "name \<in> set (map fst (trib_initTests @ trib_tests enc dec))"
  shows "tribtest_main enc dec (\<lambda>m. m = name) True (lib_store self) ''localhost:9010'' =
    Some (Some (trib_score name))"
proof (cases "name = ''testNonexistentServer''")
  case True
  have "filter (\<lambda>(m, f). m = name) (trib_tests enc dec) = []" by (simp add: trib_tests_def True)
  then show ?thesis using True
    by (simp add: tribtest_main_def init_one start_one trib_score_def) (simp add: passing_def first_desk_def)
next
  case False
  with assms(3) have "name \<in> set (map fst (trib_tests enc dec))" by (simp add: trib_initTests_def)
  with each_alone [OF assms(1,2)]
  have "alone (trib_score name) (run_tests (filter (\<lambda>(m, f). m = name) (trib_tests enc dec)))" by blast
  from one_test [OF False this] show ?thesis .
qed

theorem tribtest_verdict_witness:
  "tribtest_main enc_short dec_short (\<lambda>m. m = ''testGetTribblesFewTribbles'') True
     (lib_store \<lparr>HostPort = ''localhost:9009'', NodeID = 1\<rparr>) ''localhost:9010'' = Some (Some (1, 0))"
  using tribtest_verdict [OF text_short codec_short, of "''testGetTribblesFewTribbles''"]
  by (simp add: trib_tests_def trib_score_def)

end
