(* ===== verification/RpcHost.thy ===== *)
theory RpcHost
  imports Prelude "HOL-Library.Multiset"
begin

text \<open>
  The threads that \<open>StartServer\<close> starts in the packages of \<open>6.824-labs\<close>: the loop that accepts
  connections, the goroutines that serve them, and the loop that calls \<open>tick\<close>.

  \<^item> \<open>call()\<close> dials, makes one call and hangs up, so a connection is one call: the client's number
    and the handler applied to its arguments.  A handler runs under the server's mutex, as one step.
  \<^item> The threads and the tests that kill the server or set its flags interleave in any order.
  \<^item> What differs between the packages is an argument of \<open>loop_step\<close>: what killing does, what is
    done when \<open>Accept\<close> fails, and what becomes of a connection to a living server.
  \<^item> The locale \<open>rpc_host\<close> shows for all of them that the calls are calls of \<open>rpc\<close>, with the
    deliveries that the models of the services take as arguments, and that killing ends the threads.
\<close>

section \<open>The threads of a server\<close>

type_synonym ('s, 'r) conn = "nat \<times> ('s \<Rightarrow> 's \<times> 'r)"

text \<open>Where the accepting goroutine is; it is in \<open>Deaf\<close> only in the lock service.\<close>

datatype ('s, 'r) place =
  Top | In_Accept | Got "('s, 'r) conn" | Got_error | Deaf "('s, 'r) conn" | Ended

datatype ticker = No_ticker | Tick_top | In_tick | Sleeping | Stopped

text \<open>
  \<open>rh_l\<close> is the listener, nil or open or closed; \<open>rh_faulty\<close> is the flag that the tests set,
  \<open>unreliable\<close> or, in the lock service, \<open>dying\<close>.  \<open>rh_outcome\<close> records what the calls gave to their
  clients.
\<close>

record ('s, 'r) host =
  rh_dead :: bool
  rh_l :: "bool option"
  rh_faulty :: bool
  rh_state :: 's
  rh_place :: "('s, 'r) place"
  rh_ticker :: ticker
  rh_serving :: "(delivery \<times> ('s, 'r) conn) list"
  rh_outcome :: "(nat \<times> 'r option) list"

datatype ('s, 'r) action =
  Top_test | Accept "('s, 'r) conn" | Accept_fails | Dispatch int int | Report | Deaf_done |
  Serve nat | Ticker_test | Tick "'s \<Rightarrow> 's" | Wake | Kill | Set_faulty bool

definition hang_up :: "('s, 'r) conn \<Rightarrow> ('s, 'r, 'z) host_scheme \<Rightarrow> ('s, 'r, 'z) host_scheme" where
  "hang_up c h = h\<lparr>rh_place := Top, rh_outcome := rh_outcome h @ [(fst c, None)]\<rparr>"

definition serve ::
  "delivery \<Rightarrow> ('s, 'r) conn \<Rightarrow> ('s, 'r, 'z) host_scheme \<Rightarrow> ('s, 'r, 'z) host_scheme" where
  "serve d c h = h\<lparr>rh_place := Top, rh_serving := rh_serving h @ [(d, c)]\<rparr>"

text \<open>One step: \<open>alive\<close> handles a connection to a living server; \<open>Dispatch\<close> has its random numbers.\<close>

fun loop_step ::
  "(('s, 'r, 'z) host_scheme \<Rightarrow> ('s, 'r, 'z) host_scheme) \<Rightarrow>
   (('s, 'r, 'z) host_scheme \<Rightarrow> ('s, 'r, 'z) host_scheme) \<Rightarrow>
   (('s, 'r) conn \<Rightarrow> int \<Rightarrow> int \<Rightarrow> ('s, 'r, 'z) host_scheme \<Rightarrow> ('s, 'r, 'z) host_scheme) \<Rightarrow>
   ('s, 'r) action \<Rightarrow> ('s, 'r, 'z) host_scheme \<Rightarrow> ('s, 'r, 'z) host_scheme option" where
  "loop_step kill failed alive Top_test h =
     (if rh_place h = Top then Some (h\<lparr>rh_place := if rh_dead h then Ended else In_Accept\<rparr>) else None)"
| "loop_step kill failed alive (Accept c) h =
     (if rh_place h = In_Accept \<and> rh_l h = Some True then Some (h\<lparr>rh_place := Got c\<rparr>) else None)"
| "loop_step kill failed alive Accept_fails h =
     (if rh_place h = In_Accept then Some (h\<lparr>rh_place := Got_error\<rparr>) else None)"
| "loop_step kill failed alive (Dispatch r1 r2) h =
     (case rh_place h of
        Got c \<Rightarrow> Some (if \<not> rh_dead h then alive c r1 r2 h else hang_up c h)
      | _ \<Rightarrow> None)"
| "loop_step kill failed alive Report h =
     (if rh_place h = Got_error then Some ((if \<not> rh_dead h then failed h else h)\<lparr>rh_place := Top\<rparr>) else None)"
| "loop_step kill failed alive Deaf_done h =
     (case rh_place h of
        Deaf (i, f) \<Rightarrow>
          Some (h\<lparr>rh_dead := True, rh_state := fst (f (rh_state h)), rh_place := Top,
                  rh_outcome := rh_outcome h @ [(i, None)]\<rparr>)
      | _ \<Rightarrow> None)"
| "loop_step kill failed alive (Serve k) h =
     (if k < length (rh_serving h) then
        let (d, (i, f)) = rh_serving h ! k;
            (s, r) = rpc d f (rh_state h)
        in Some (h\<lparr>rh_state := s, rh_serving := take k (rh_serving h) @ drop (Suc k) (rh_serving h),
                   rh_outcome := rh_outcome h @ [(i, r)]\<rparr>)
      else None)"
| "loop_step kill failed alive Ticker_test h =
     (if rh_ticker h = Tick_top then Some (h\<lparr>rh_ticker := if rh_dead h then Stopped else In_tick\<rparr>) else None)"
| "loop_step kill failed alive (Tick f) h =
     (if rh_ticker h = In_tick then Some (h\<lparr>rh_state := f (rh_state h), rh_ticker := Sleeping\<rparr>) else None)"
| "loop_step kill failed alive Wake h =
     (if rh_ticker h = Sleeping then Some (h\<lparr>rh_ticker := Tick_top\<rparr>) else None)"
| "loop_step kill failed alive Kill h = Some (kill h)"
| "loop_step kill failed alive (Set_faulty b) h = Some (h\<lparr>rh_faulty := b\<rparr>)"

fun run_host ::
  "(('s, 'r) action \<Rightarrow> 'h \<Rightarrow> 'h option) \<Rightarrow> ('s, 'r) action list \<Rightarrow> 'h \<Rightarrow> 'h option" where
  "run_host step [] h = Some h"
| "run_host step (a # as) h = Option.bind (step a h) (run_host step as)"

lemma run_host_append:
  "run_host step (as @ bs) h = Option.bind (run_host step as h) (run_host step bs)"
  by (induction as arbitrary: h) (auto split: bind_split)

section \<open>What the calls come to\<close>

text \<open>
  The handlers and ticks that have run, in their order; a call that reached no handler is a call
  with a lost request.
\<close>

datatype ('s, 'r) event = Called delivery "('s, 'r) conn" | Ticked "'s \<Rightarrow> 's"

fun replay :: "('s, 'r) event list \<Rightarrow> 's \<Rightarrow> 's \<times> (nat \<times> 'r option) list" where
  "replay [] s = (s, [])"
| "replay (Called d (i, f) # es) s =
     (let (s1, r) = rpc d f s; (s2, out) = replay es s1 in (s2, (i, r) # out))"
| "replay (Ticked f # es) s = replay es (f s)"

lemma replay_append:
  "replay (es @ es') s =
     (let (s1, out) = replay es s; (s2, out') = replay es' s1 in (s2, out @ out'))"
  by (induction es s rule: replay.induct) (auto split: prod.splits)

definition called :: "('s, 'r) event list \<Rightarrow> (delivery \<times> ('s, 'r) conn) list" where
  "called es = List.map_filter (\<lambda>e. case e of Called d c \<Rightarrow> Some (d, c) | Ticked f \<Rightarrow> None) es"

definition accepted :: "('s, 'r) action list \<Rightarrow> ('s, 'r) conn list" where
  "accepted as = List.map_filter (\<lambda>a. case a of Accept c \<Rightarrow> Some c | _ \<Rightarrow> None) as"

lemma called_simps [simp]:
  "called [] = []" "called (es @ es') = called es @ called es'"
  "called (Called d c # es) = (d, c) # called es" "called (Ticked f # es) = called es"
  by (simp_all add: called_def map_filter_simps)  (simp add: List.map_filter_def)

lemma accepted_simps [simp]:
  "accepted [] = []" "accepted (as @ as') = accepted as @ accepted as'"
  "accepted (a # as) = (case a of Accept c \<Rightarrow> [c] | _ \<Rightarrow> []) @ accepted as"
  by (auto simp: accepted_def List.map_filter_def split: action.splits)

fun at_hand :: "('s, 'r) place \<Rightarrow> ('s, 'r) conn list" where
  "at_hand (Got c) = [c]"
| "at_hand (Deaf c) = [c]"
| "at_hand p = []"

text \<open>A run in which nobody kills the server or sets its flag, and the network accepts.\<close>

definition calm :: "('s, 'r) action list \<Rightarrow> bool" where
  "calm as \<longleftrightarrow> Kill \<notin> set as \<and> Accept_fails \<notin> set as \<and> Set_faulty True \<notin> set as"

text \<open>
  Whatever the interleaving, the server's state and what its clients get are those of some calls by
  \<open>rpc\<close> and of ticks.  The calls are the accepted connections that are not still at hand, and in a
  calm run all of them are delivered.
\<close>

definition delivers ::
  "(('s, 'r) action \<Rightarrow> ('s, 'r, 'z) host_scheme \<Rightarrow> ('s, 'r, 'z) host_scheme option) \<Rightarrow>
   ('s, 'r, 'z) host_scheme \<Rightarrow> bool" where
  "delivers step h0 \<longleftrightarrow>
     (\<forall>as h. run_host step as h0 = Some h \<longrightarrow>
        (\<exists>es. replay es (rh_state h0) = (rh_state h, rh_outcome h) \<and>
              mset (accepted as) =
                mset (map snd (called es)) + mset (map snd (rh_serving h)) + mset (at_hand (rh_place h)) \<and>
              (calm as \<longrightarrow> (\<forall>c \<in> set (called es). fst c = Delivered))))"

text \<open>The accepting goroutine's steps.\<close>

fun accepting :: "('s, 'r) action \<Rightarrow> bool" where
  "accepting a \<longleftrightarrow> (case a of Top_test \<Rightarrow> True | Accept c \<Rightarrow> True | Accept_fails \<Rightarrow> True |
                       Dispatch r1 r2 \<Rightarrow> True | Report \<Rightarrow> True | Deaf_done \<Rightarrow> True | _ \<Rightarrow> False)"

fun ticking :: "('s, 'r) action \<Rightarrow> bool" where
  "ticking a \<longleftrightarrow> (case a of Tick f \<Rightarrow> True | _ \<Rightarrow> False)"

text \<open>
  After a kill the accepting goroutine takes at most three more steps, and until it has ended it
  can take one; at most one tick runs; no connection is accepted or given to a goroutine.
\<close>

definition ends_when_killed ::
  "(('s, 'r) action \<Rightarrow> ('s, 'r, 'z) host_scheme \<Rightarrow> ('s, 'r, 'z) host_scheme option) \<Rightarrow>
   ('s, 'r, 'z) host_scheme \<Rightarrow> bool" where
  "ends_when_killed step h0 \<longleftrightarrow>
     (\<forall>as h1 bs h. run_host step (as @ [Kill]) h0 = Some h1 \<longrightarrow> run_host step bs h1 = Some h \<longrightarrow>
        length (filter accepting bs) \<le> 3 \<and> length (filter ticking bs) \<le> 1 \<and> accepted bs = [] \<and>
        set (rh_serving h) \<subseteq> set (rh_serving h1) \<and>
        (rh_place h = Ended \<or> (\<exists>a. accepting a \<and> step a h \<noteq> None)))"

definition at_rest :: "('s, 'r, 'z) host_scheme \<Rightarrow> bool" where
  "at_rest h \<longleftrightarrow> \<not> rh_dead h \<and> \<not> rh_faulty h \<and> rh_serving h = [] \<and> rh_outcome h = [] \<and>
     (rh_place h = Top \<or> rh_place h = Ended)"

section \<open>What the packages have in common\<close>

definition core where
  "core h = (rh_place h, rh_ticker h, rh_state h, rh_serving h, rh_outcome h, rh_faulty h, rh_dead h)"

lemma core_eqD:
  assumes "core h = core h'"
  shows "rh_place h = rh_place h'" "rh_ticker h = rh_ticker h'" "rh_state h = rh_state h'"
    "rh_serving h = rh_serving h'" "rh_outcome h = rh_outcome h'" "rh_faulty h = rh_faulty h'"
    "rh_dead h = rh_dead h'"
  using assms by (simp_all add: core_def)

locale rpc_host =
  fixes kill failed :: "('s, 'r, 'z) host_scheme \<Rightarrow> ('s, 'r, 'z) host_scheme"
    and alive :: "('s, 'r) conn \<Rightarrow> int \<Rightarrow> int \<Rightarrow> ('s, 'r, 'z) host_scheme \<Rightarrow> ('s, 'r, 'z) host_scheme"
  assumes kill_core: "core (kill h) = core (h\<lparr>rh_dead := True\<rparr>)"
    and kill_l: "rh_l (kill h) \<noteq> Some True"
    and failed_core: "core (failed h) = core h \<or> core (failed h) = core (h\<lparr>rh_dead := True\<rparr>)"
    and failed_l: "rh_l (failed h) = Some True \<Longrightarrow> rh_l h = Some True"
    and alive_calm: "\<not> rh_faulty h \<Longrightarrow> core (alive c r1 r2 h) = core (serve Delivered c h)"
    and alive_faulty: "core (alive c r1 r2 h) \<in>
          {core (hang_up c h), core (serve Delivered c h), core (serve ReplyLost c h),
           core (h\<lparr>rh_place := Deaf c\<rparr>)}"
    and alive_l: "rh_l (alive c r1 r2 h) = Some True \<Longrightarrow> rh_l h = Some True"
begin

abbreviation step :: "('s, 'r) action \<Rightarrow> ('s, 'r, 'z) host_scheme \<Rightarrow> ('s, 'r, 'z) host_scheme option" where
  "step \<equiv> loop_step kill failed alive"

lemmas kill_same = core_eqD [OF kill_core, simplified]
lemmas alive_same = core_eqD [OF alive_calm, simplified serve_def, simplified]

lemma failed_same:
  "rh_ticker (failed h) = rh_ticker h" "rh_state (failed h) = rh_state h"
  "rh_serving (failed h) = rh_serving h" "rh_outcome (failed h) = rh_outcome h"
  "rh_faulty (failed h) = rh_faulty h"
  using failed_core [of h] by (auto simp: core_def)

lemma alive_cases:
  obtains (hang_up) "core (alive c r1 r2 h) = core (hang_up c h)"
  | (serve) d where "core (alive c r1 r2 h) = core (serve d c h)" "d \<in> {Delivered, ReplyLost}"
  | (deaf) "core (alive c r1 r2 h) = core (h\<lparr>rh_place := Deaf c\<rparr>)"
  using alive_faulty [of c r1 r2 h] by auto

definition follows :: "'s \<Rightarrow> ('s, 'r) conn list \<Rightarrow> ('s, 'r) event list \<Rightarrow> ('s, 'r, 'z) host_scheme \<Rightarrow> bool" where
  "follows s0 acc es h \<longleftrightarrow>
     replay es s0 = (rh_state h, rh_outcome h) \<and>
     mset acc = mset (map snd (called es)) + mset (map snd (rh_serving h)) + mset (at_hand (rh_place h))"

lemma follows_core: "core h = core h' \<Longrightarrow> follows s0 acc es h = follows s0 acc es h'"
  by (simp add: follows_def core_def)

lemma follows_hang_up:
  "follows s0 acc es h \<Longrightarrow> rh_place h = Got c \<Longrightarrow> follows s0 acc (es @ [Called RequestLost c]) (hang_up c h)"
  by (cases c) (simp add: follows_def hang_up_def replay_append)

lemma follows_serve:
  "follows s0 acc es h \<Longrightarrow> rh_place h = Got c \<Longrightarrow> follows s0 acc es (serve d c h)"
  by (simp add: follows_def serve_def)

lemma follows_deaf:
  "follows s0 acc es h \<Longrightarrow> rh_place h = Got c \<Longrightarrow> follows s0 acc es (h\<lparr>rh_place := Deaf c\<rparr>)"
  by (simp add: follows_def)

lemma mset_pick: "k < length xs \<Longrightarrow> mset xs = add_mset (xs ! k) (mset (take k xs @ drop (Suc k) xs))"
  by (metis id_take_nth_drop mset.simps(2) mset_append union_mset_add_mset_right)

lemma follows_Serve:
  assumes "follows s0 acc es h" and "step (Serve k) h = Some h'"
  shows "follows s0 acc (es @ [Called (fst (rh_serving h ! k)) (snd (rh_serving h ! k))]) h'"
proof -
  have k: "k < length (rh_serving h)" using assms(2) by (simp split: if_splits)
  obtain d i f where e: "rh_serving h ! k = (d, (i, f))" by (cases "rh_serving h ! k") auto
  from mset_pick [of k "map snd (rh_serving h)"] k e
  have "mset (map snd (rh_serving h)) =
      add_mset (i, f) (mset (map snd (take k (rh_serving h) @ drop (Suc k) (rh_serving h))))"
    by (simp add: take_map drop_map)
  then show ?thesis using assms k e
    by (auto simp: follows_def replay_append split: prod.splits)
qed

lemma follows_step:
  assumes "follows s0 acc es h" and "step a h = Some h'"
  shows "\<exists>es'. follows s0 (acc @ accepted [a]) (es @ es') h' \<and>
     (called es' = [] \<or> (\<exists>r1 r2. a = Dispatch r1 r2) \<or> a = Deaf_done \<or>
      (\<exists>k. a = Serve k \<and> k < length (rh_serving h) \<and> called es' = [rh_serving h ! k]))"
proof (cases a)
  case (Dispatch r1 r2)
  then obtain c where c: "rh_place h = Got c" using assms(2) by (auto split: place.splits)
  have "\<exists>es'. follows s0 acc (es @ es') h'"
  proof (cases "rh_dead h")
    case True
    then show ?thesis using follows_hang_up [OF assms(1) c] assms(2) c Dispatch by auto
  next
    case False
    with assms(2) c Dispatch have h': "h' = alive c r1 r2 h" by simp
    show ?thesis
    proof (cases rule: alive_cases [of c r1 r2 h])
      case hang_up
      then show ?thesis using follows_hang_up [OF assms(1) c] follows_core h' by blast
    next
      case (serve d)
      then show ?thesis using follows_serve [OF assms(1) c] follows_core h' by (metis append_Nil2)
    next
      case deaf
      then show ?thesis using follows_deaf [OF assms(1) c] follows_core h' by (metis append_Nil2)
    qed
  qed
  then show ?thesis using Dispatch by auto
next
  case Deaf_done
  then obtain c where c: "rh_place h = Deaf c" using assms(2) by (auto split: place.splits)
  have "follows s0 acc (es @ [Called ReplyLost c]) h'"
    using assms c Deaf_done by (cases c) (auto simp: follows_def replay_append)
  then show ?thesis using Deaf_done by auto
next
  case (Serve k)
  have "k < length (rh_serving h)" using assms(2) Serve by (simp split: if_splits)
  then show ?thesis using follows_Serve [OF assms(1), of k h'] assms(2) Serve
    by (intro exI [of _ "[Called (fst (rh_serving h ! k)) (snd (rh_serving h ! k))]"]) simp
next
  case (Tick f)
  then have "follows s0 acc (es @ [Ticked f]) h'"
    using assms by (auto simp: follows_def replay_append split: if_splits)
  then show ?thesis using Tick by (intro exI [of _ "[Ticked f]"]) simp
next
  case Report
  then show ?thesis using assms by (intro exI [of _ "[]"]) (auto simp: follows_def failed_same split: if_splits)
next
  case Kill
  then show ?thesis using assms by (intro exI [of _ "[]"]) (auto simp: follows_def kill_same)
qed (use assms in \<open>auto simp: follows_def split: if_splits intro!: exI [of _ "[]"]\<close>)

text \<open>In a calm run the server stays alive and its flag unset.\<close>

definition peaceful :: "('s, 'r, 'z) host_scheme \<Rightarrow> bool" where
  "peaceful h \<longleftrightarrow> \<not> rh_dead h \<and> \<not> rh_faulty h \<and> (\<forall>c \<in> set (rh_serving h). fst c = Delivered) \<and>
     rh_place h \<noteq> Got_error \<and> (\<forall>c. rh_place h \<noteq> Deaf c)"

lemma peaceful_step:
  assumes "peaceful h" and "calm [a]" and "step a h = Some h'"
  shows "peaceful h'"
proof (cases a)
  case (Serve k)
  then show ?thesis using assms
    by (auto simp: peaceful_def split: if_splits prod.splits) (fastforce dest: in_set_takeD in_set_dropD)+
next
  case (Dispatch r1 r2)
  then show ?thesis using assms by (auto simp: peaceful_def alive_same split: place.splits)
qed (use assms in \<open>auto simp: peaceful_def calm_def split: if_splits place.splits\<close>)

lemma calm_follows_step:
  assumes "follows s0 acc es h" and "step a h = Some h'" and "peaceful h" and "calm [a]"
  shows "\<exists>es'. follows s0 (acc @ accepted [a]) (es @ es') h' \<and> (\<forall>c \<in> set (called es'). fst c = Delivered)"
proof (cases "\<exists>r1 r2. a = Dispatch r1 r2")
  case True
  then obtain r1 r2 c where a: "a = Dispatch r1 r2" and c: "rh_place h = Got c"
    using assms(2) by (auto split: place.splits)
  with assms(2,3) have "h' = alive c r1 r2 h" "\<not> rh_faulty h" by (auto simp: peaceful_def)
  then have "follows s0 acc es h'"
    using follows_serve [OF assms(1) c] follows_core [OF alive_calm] by blast
  then show ?thesis using a by (intro exI [of _ "[]"]) simp
next
  case False
  have "a \<noteq> Deaf_done" using assms(2,3) by (auto simp: peaceful_def split: place.splits)
  with False follows_step [OF assms(1,2)] assms(3) show ?thesis
    by (fastforce simp: peaceful_def)
qed

lemma run_follows:
  assumes "run_host step as h = Some h'" and "follows s0 acc es h"
  shows "\<exists>es'. follows s0 (acc @ accepted as) (es @ es') h' \<and>
     (calm as \<longrightarrow> peaceful h \<longrightarrow> (\<forall>c \<in> set (called es'). fst c = Delivered))"
  using assms
proof (induction as arbitrary: h acc es)
  case Nil
  then show ?case by (intro exI [of _ "[]"]) simp
next
  case (Cons a as)
  from Cons.prems(1) obtain h1 where s: "step a h = Some h1" and r: "run_host step as h1 = Some h'"
    by (auto split: bind_splits)
  obtain es1 where f: "follows s0 (acc @ accepted [a]) (es @ es1) h1"
    and d: "calm [a] \<and> peaceful h \<longrightarrow> (\<forall>c \<in> set (called es1). fst c = Delivered)"
    using follows_step [OF Cons.prems(2) s] calm_follows_step [OF Cons.prems(2) s] by blast
  from Cons.IH [OF r f] obtain es2 where "follows s0 ((acc @ accepted [a]) @ accepted as) ((es @ es1) @ es2) h'"
    and "calm as \<longrightarrow> peaceful h1 \<longrightarrow> (\<forall>c \<in> set (called es2). fst c = Delivered)" by blast
  moreover have "calm [a] \<and> calm as" if "calm (a # as)" using that by (auto simp: calm_def)
  moreover have "peaceful h1" if "peaceful h" "calm [a]" using peaceful_step s that by blast
  ultimately show ?case using d by (intro exI [of _ "es1 @ es2"]) auto
qed

lemma delivers_calls: "at_rest h0 \<Longrightarrow> delivers step h0"
  unfolding delivers_def
proof (intro allI impI)
  fix as h
  assume h0: "at_rest h0" and run: "run_host step as h0 = Some h"
  have "follows (rh_state h0) [] [] h0" and p: "peaceful h0"
    using h0 by (auto simp: at_rest_def follows_def peaceful_def)
  from run_follows [OF run this(1)] p show "\<exists>es. replay es (rh_state h0) = (rh_state h, rh_outcome h) \<and>
      mset (accepted as) =
        mset (map snd (called es)) + mset (map snd (rh_serving h)) + mset (at_hand (rh_place h)) \<and>
      (calm as \<longrightarrow> (\<forall>c \<in> set (called es). fst c = Delivered))"
    by (auto simp: follows_def)
qed

text \<open>After a kill: how many steps and ticks are left.\<close>

fun steps_left :: "('s, 'r) place \<Rightarrow> nat" where
  "steps_left In_Accept = 3"
| "steps_left Top = 1"
| "steps_left Ended = 0"
| "steps_left p = 2"

fun ticks_left :: "ticker \<Rightarrow> nat" where
  "ticks_left In_tick = 1"
| "ticks_left t = 0"

definition killed :: "('s, 'r, 'z) host_scheme \<Rightarrow> bool" where
  "killed h \<longleftrightarrow> rh_dead h \<and> rh_l h \<noteq> Some True"

lemma killed_step:
  assumes "killed h" and "step a h = Some h'"
  shows "killed h' \<and> accepted [a] = [] \<and> set (rh_serving h') \<subseteq> set (rh_serving h) \<and>
    (if accepting a then 1 else 0) + steps_left (rh_place h') \<le> steps_left (rh_place h) \<and>
    (if ticking a then 1 else 0) + ticks_left (rh_ticker h') \<le> ticks_left (rh_ticker h)"
proof (cases a)
  case (Serve k)
  then show ?thesis using assms
    by (auto simp: killed_def split: if_splits prod.splits dest: in_set_takeD in_set_dropD)
next
  case (Dispatch r1 r2)
  then show ?thesis using assms by (auto simp: killed_def hang_up_def split: place.splits)
next
  case Kill
  then show ?thesis using assms kill_l [of h] by (auto simp: killed_def kill_same)
qed (use assms in \<open>auto simp: killed_def split: if_splits place.splits\<close>)

lemma killed_run:
  assumes "run_host step bs h = Some h'" and "killed h"
  shows "killed h' \<and> accepted bs = [] \<and> set (rh_serving h') \<subseteq> set (rh_serving h) \<and>
    length (filter accepting bs) + steps_left (rh_place h') \<le> steps_left (rh_place h) \<and>
    length (filter ticking bs) + ticks_left (rh_ticker h') \<le> ticks_left (rh_ticker h)"
  using assms
proof (induction bs arbitrary: h)
  case (Cons b bs)
  then obtain h1 where s: "step b h = Some h1" and r: "run_host step bs h1 = Some h'"
    by (auto split: bind_splits)
  from killed_step [OF Cons.prems(2) s] Cons.IH [OF r] show ?case
    by (auto simp del: accepting.simps ticking.simps split: if_splits)
qed simp

lemma never_stuck: "rh_place h = Ended \<or> (\<exists>a. accepting a \<and> step a h \<noteq> None)"
proof (cases "rh_place h")
  case Top
  then show ?thesis by (intro disjI2 exI [of _ Top_test]) simp
next
  case In_Accept
  then show ?thesis by (intro disjI2 exI [of _ Accept_fails]) simp
next
  case (Got c)
  then show ?thesis by (intro disjI2 exI [of _ "Dispatch 0 0"]) simp
next
  case Got_error
  then show ?thesis by (intro disjI2 exI [of _ Report]) simp
next
  case (Deaf c)
  then show ?thesis by (cases c) (intro disjI2 exI [of _ Deaf_done], simp)
qed simp

lemma ends_after_kill: "ends_when_killed step h0"
  unfolding ends_when_killed_def
proof (intro allI impI)
  fix as h1 bs h
  assume "run_host step (as @ [Kill]) h0 = Some h1" and run: "run_host step bs h1 = Some h"
  then obtain h2 where "h1 = kill h2" by (auto simp: run_host_append split: bind_splits)
  then have "killed h1" using kill_l [of h2] by (simp add: killed_def kill_same)
  with killed_run [OF run] have r: "accepted bs = []" "set (rh_serving h) \<subseteq> set (rh_serving h1)"
    "length (filter accepting bs) \<le> steps_left (rh_place h1)"
    "length (filter ticking bs) \<le> ticks_left (rh_ticker h1)" by auto
  moreover have "steps_left (rh_place h1) \<le> 3" by (cases "rh_place h1") auto
  moreover have "ticks_left (rh_ticker h1) \<le> 1" by (cases "rh_ticker h1") auto
  ultimately show "length (filter accepting bs) \<le> 3 \<and> length (filter ticking bs) \<le> 1 \<and> accepted bs = [] \<and>
      set (rh_serving h) \<subseteq> set (rh_serving h1) \<and> (rh_place h = Ended \<or> (\<exists>a. accepting a \<and> step a h \<noteq> None))"
    using never_stuck by auto
qed

end

end
