(* ===== verification/RpcServers.thy ===== *)
theory RpcServers
  imports RpcHost PbService LockService Clerks
begin

text \<open>
  \<open>StartServer\<close>, \<open>kill\<close> and the threads of each package of \<open>6.824-labs\<close>, on the states that the
  other theories have.  \<open>StartServer\<close> gives \<open>None\<close> when it cannot listen, which ends the process.
  \<open>pbservice\<close> and the packages over Paxos treat connections to a living server alike.
\<close>

section \<open>The packages\<close>

definition faulty_conn ::
  "('s, 'r) conn \<Rightarrow> int \<Rightarrow> int \<Rightarrow> ('s, 'r, 'z) host_scheme \<Rightarrow> ('s, 'r, 'z) host_scheme" where
  "faulty_conn c r1 r2 h =
     (if rh_faulty h \<and> r1 mod 1000 < 100 then hang_up c h
      else if rh_faulty h \<and> r2 mod 1000 < 200 then serve ReplyLost c h
      else serve Delivered c h)"

definition new_host :: "ticker \<Rightarrow> 's \<Rightarrow> ('s, 'r) host" where
  "new_host t s =
     \<lparr>rh_dead = False, rh_l = Some True, rh_faulty = False, rh_state = s, rh_place = Top, rh_ticker = t,
      rh_serving = [], rh_outcome = []\<rparr>"

text \<open>\<open>pbservice\<close>: the state is the whole system, to which the new server is added.\<close>

definition pb_kill :: "('s, 'r) host \<Rightarrow> ('s, 'r) host" where
  "pb_kill h = h\<lparr>rh_dead := True, rh_l := Some False\<rparr>"

definition pb_threads :: "('s, 'r) action \<Rightarrow> ('s, 'r) host \<Rightarrow> ('s, 'r) host option" where
  "pb_threads = loop_step pb_kill pb_kill faulty_conn"

definition pb_start :: "bool \<Rightarrow> string \<Rightarrow> pb_system \<Rightarrow> (pb_system, 'r) host option" where
  "pb_start listens me s = (if listens then Some (new_host Tick_top (pb_put me pb_StartServer s)) else None)"

text \<open>\<open>viewservice\<close>: no connection is lost.\<close>

definition vs_conn :: "('s, 'r) conn \<Rightarrow> int \<Rightarrow> int \<Rightarrow> ('s, 'r) host \<Rightarrow> ('s, 'r) host" where
  "vs_conn c r1 r2 h = serve Delivered c h"

definition vs_Kill :: "('s, 'r) host \<Rightarrow> ('s, 'r) host" where
  "vs_Kill h = h\<lparr>rh_dead := True, rh_l := Some False\<rparr>"

definition vs_threads :: "('s, 'r) action \<Rightarrow> ('s, 'r) host \<Rightarrow> ('s, 'r) host option" where
  "vs_threads = loop_step vs_Kill vs_Kill vs_conn"

definition vs_start :: "bool \<Rightarrow> (ViewServer, 'r) host option" where
  "vs_start listens = (if listens then Some (new_host Tick_top StartServer) else None)"

text \<open>
  \<open>lockservice\<close>: a dying server closes its listener and serves one more connection in the accepting
  goroutine, with a \<open>DeafConn\<close>, whose \<open>Write\<close> discards the reply; then it is dead.
\<close>

definition ls_conn :: "('s, 'r) conn \<Rightarrow> int \<Rightarrow> int \<Rightarrow> ('s, 'r) host \<Rightarrow> ('s, 'r) host" where
  "ls_conn c r1 r2 h =
     (if rh_faulty h then h\<lparr>rh_l := Some False, rh_place := Deaf c\<rparr> else serve Delivered c h)"

definition ls_kill :: "('s, 'r) host \<Rightarrow> ('s, 'r) host" where
  "ls_kill h = h\<lparr>rh_dead := True, rh_l := Some False\<rparr>"

definition ls_threads :: "('s, 'r) action \<Rightarrow> ('s, 'r) host \<Rightarrow> ('s, 'r) host option" where
  "ls_threads = loop_step ls_kill ls_kill ls_conn"

definition ls_start :: "bool \<Rightarrow> bool \<Rightarrow> LockServer \<Rightarrow> (lock_pair, 'r) host option" where
  "ls_start listens am_primary other =
     (if listens then Some (new_host No_ticker
        (if am_primary then (ls_StartServer True, other) else (other, ls_StartServer False)))
      else None)"

text \<open>
  \<open>paxos\<close>: a peer counts the connections that it serves, and an error of \<open>Accept\<close> is printed only.
  A peer inside another server shares the listener of that server and has none itself.
\<close>

record ('s, 'r) px_host = "('s, 'r) host" +
  px_rpcCount :: int

definition px_conn :: "('s, 'r) conn \<Rightarrow> int \<Rightarrow> int \<Rightarrow> ('s, 'r) px_host \<Rightarrow> ('s, 'r) px_host" where
  "px_conn c r1 r2 h =
     (if rh_faulty h \<and> r1 mod 1000 < 100 then hang_up c h
      else if rh_faulty h \<and> r2 mod 1000 < 200 then serve ReplyLost c (h\<lparr>px_rpcCount := px_rpcCount h + 1\<rparr>)
      else serve Delivered c (h\<lparr>px_rpcCount := px_rpcCount h + 1\<rparr>))"

definition px_Kill :: "('s, 'r) px_host \<Rightarrow> ('s, 'r) px_host" where
  "px_Kill h =
     (let h = h\<lparr>rh_dead := True\<rparr> in
      if rh_l h \<noteq> None then h\<lparr>rh_l := Some False\<rparr> else h)"

definition px_threads :: "('s, 'r) action \<Rightarrow> ('s, 'r) px_host \<Rightarrow> ('s, 'r) px_host option" where
  "px_threads = loop_step px_Kill id px_conn"

definition px_Make :: "bool \<Rightarrow> bool \<Rightarrow> 's \<Rightarrow> ('s, 'r) px_host option" where
  "px_Make shared listens s =
     (let px = \<lparr>rh_dead = False, rh_l = None, rh_faulty = False, rh_state = s, rh_place = Ended,
                rh_ticker = No_ticker, rh_serving = [], rh_outcome = [], px_rpcCount = 0\<rparr> in
      if shared then Some px
      else if listens then Some (px\<lparr>rh_l := Some True, rh_place := Top\<rparr>)
      else None)"

text \<open>\<open>kvpaxos\<close>, \<open>shardmaster\<close> and \<open>shardkv\<close> contain a peer, whose own state is empty.\<close>

record ('s, 'r) peer_host = "('s, 'r) host" +
  rh_px :: "(unit, unit) px_host"

definition with_px :: "(unit, unit) px_host \<Rightarrow> ticker \<Rightarrow> 's \<Rightarrow> ('s, 'r) peer_host" where
  "with_px px t s =
     \<lparr>rh_dead = False, rh_l = Some True, rh_faulty = False, rh_state = s, rh_place = Top, rh_ticker = t,
      rh_serving = [], rh_outcome = [], rh_px = px\<rparr>"

definition kvp_kill :: "('s, 'r) peer_host \<Rightarrow> ('s, 'r) peer_host" where
  "kvp_kill h = h\<lparr>rh_dead := True, rh_l := Some False, rh_px := px_Kill (rh_px h)\<rparr>"

definition kvp_threads :: "('s, 'r) action \<Rightarrow> ('s, 'r) peer_host \<Rightarrow> ('s, 'r) peer_host option" where
  "kvp_threads = loop_step kvp_kill kvp_kill faulty_conn"

definition kvp_start :: "bool \<Rightarrow> 's \<Rightarrow> ('s, 'r) peer_host option" where
  "kvp_start listens s =
     do { px \<leftarrow> px_Make True listens (); if listens then Some (with_px px No_ticker s) else None }"

definition sm_Kill :: "('s, 'r) peer_host \<Rightarrow> ('s, 'r) peer_host" where
  "sm_Kill h = h\<lparr>rh_dead := True, rh_l := Some False, rh_px := px_Kill (rh_px h)\<rparr>"

definition sm_threads :: "('s, 'r) action \<Rightarrow> ('s, 'r) peer_host \<Rightarrow> ('s, 'r) peer_host option" where
  "sm_threads = loop_step sm_Kill sm_Kill faulty_conn"

text \<open>The shard master starts with the configuration that has no group.\<close>

definition sm_start :: "bool \<Rightarrow> (Config list, 'r) peer_host option" where
  "sm_start listens =
     do { px \<leftarrow> px_Make True listens (); if listens then Some (with_px px No_ticker [no_config]) else None }"

definition skv_kill :: "('s, 'r) peer_host \<Rightarrow> ('s, 'r) peer_host" where
  "skv_kill h = h\<lparr>rh_dead := True, rh_l := Some False, rh_px := px_Kill (rh_px h)\<rparr>"

definition skv_threads :: "('s, 'r) action \<Rightarrow> ('s, 'r) peer_host \<Rightarrow> ('s, 'r) peer_host option" where
  "skv_threads = loop_step skv_kill skv_kill faulty_conn"

text \<open>\<open>tick\<close> does nothing yet; the thread runs it as \<open>Tick skv_tick\<close>.\<close>

definition skv_tick :: "'s \<Rightarrow> 's" where
  "skv_tick kv = kv"

definition skv_start :: "bool \<Rightarrow> 's \<Rightarrow> ('s, 'r) peer_host option" where
  "skv_start listens s =
     do { px \<leftarrow> px_Make True listens (); if listens then Some (with_px px Tick_top s) else None }"

section \<open>Every package keeps the contract\<close>

lemmas host_defs = core_def hang_up_def serve_def pb_kill_def vs_Kill_def ls_kill_def px_Kill_def faulty_conn_def vs_conn_def ls_conn_def px_conn_def

lemma peer_kill:
  "core (kvp_kill h) = core (h\<lparr>rh_dead := True\<rparr>)" "rh_l (kvp_kill h) = Some False"
  "core (sm_Kill h) = core (h\<lparr>rh_dead := True\<rparr>)" "rh_l (sm_Kill h) = Some False"
  "core (skv_kill h) = core (h\<lparr>rh_dead := True\<rparr>)" "rh_l (skv_kill h) = Some False"
  by (cases h; simp add: core_def kvp_kill_def sm_Kill_def skv_kill_def)+

lemmas peer_same = core_eqD [OF peer_kill(1), simplified] core_eqD [OF peer_kill(3), simplified]
  core_eqD [OF peer_kill(5), simplified]

interpretation pbh: rpc_host pb_kill pb_kill faulty_conn
  by unfold_locales (auto simp: host_defs split: if_splits)

interpretation vsh: rpc_host vs_Kill vs_Kill vs_conn
  by unfold_locales (auto simp: host_defs split: if_splits)

interpretation lsh: rpc_host ls_kill ls_kill ls_conn
  by unfold_locales (auto simp: host_defs split: if_splits)

interpretation pxh: rpc_host px_Kill id px_conn
  by unfold_locales (auto simp: host_defs split: if_splits)

interpretation kvh: rpc_host kvp_kill kvp_kill faulty_conn
  by unfold_locales (auto simp: peer_kill(2,4,6) peer_same host_defs split: if_splits)

interpretation smh: rpc_host sm_Kill sm_Kill faulty_conn
  by unfold_locales (auto simp: peer_kill(2,4,6) peer_same host_defs split: if_splits)

interpretation skh: rpc_host skv_kill skv_kill faulty_conn
  by unfold_locales (auto simp: peer_kill(2,4,6) peer_same host_defs split: if_splits)

lemmas threads_defs = pb_threads_def vs_threads_def ls_threads_def px_threads_def kvp_threads_def
  sm_threads_def skv_threads_def

lemma starts_at_rest:
  "pred_option at_rest (pb_start listens me sys)" "pred_option at_rest (vs_start listens)"
  "pred_option at_rest (ls_start listens am other)" "pred_option at_rest (px_Make shared listens s)"
  "pred_option at_rest (kvp_start listens s)" "pred_option at_rest (sm_start listens)"
  "pred_option at_rest (skv_start listens s)"
  by (simp_all add: pb_start_def vs_start_def ls_start_def px_Make_def kvp_start_def sm_start_def
      skv_start_def new_host_def with_px_def at_rest_def)

text \<open>
  C17: In each package, whatever the interleaving of the threads with the killing and the flag, the
  state and the answers are those of remote calls in some order: each accepted connection is one
  call of its handler, delivered, with a lost request or with a lost reply, or still at hand.  When
  nobody interferes every call is delivered.
\<close>

theorem connections_are_calls:
  "pred_option (delivers pb_threads) (pb_start listens me sys) \<and>
   pred_option (delivers vs_threads) (vs_start listens) \<and>
   pred_option (delivers ls_threads) (ls_start listens am_primary other) \<and>
   pred_option (delivers px_threads) (px_Make shared listens px) \<and>
   pred_option (delivers kvp_threads) (kvp_start listens kv) \<and>
   pred_option (delivers sm_threads) (sm_start listens) \<and>
   pred_option (delivers skv_threads) (skv_start listens skv)"
  unfolding threads_defs
  by (intro conjI; rule option.pred_mono_strong [OF starts_at_rest(1)] option.pred_mono_strong [OF starts_at_rest(2)]
      option.pred_mono_strong [OF starts_at_rest(3)] option.pred_mono_strong [OF starts_at_rest(4)]
      option.pred_mono_strong [OF starts_at_rest(5)] option.pred_mono_strong [OF starts_at_rest(6)]
      option.pred_mono_strong [OF starts_at_rest(7)])
    (blast intro: pbh.delivers_calls vsh.delivers_calls lsh.delivers_calls pxh.delivers_calls kvh.delivers_calls
      smh.delivers_calls skh.delivers_calls)+

text \<open>
  C30: A server that is killed, in whatever state its threads are, accepts no connection any more;
  its accepting goroutine ends within three steps, at most one tick still runs, and only
  connections that were being served get answers.
\<close>

theorem killed_threads_end:
  "ends_when_killed pb_threads h1 \<and> ends_when_killed vs_threads h2 \<and> ends_when_killed ls_threads h3 \<and>
   ends_when_killed px_threads h4 \<and> ends_when_killed kvp_threads h5 \<and> ends_when_killed sm_threads h6 \<and>
   ends_when_killed skv_threads h7"
  unfolding threads_defs
  by (intro conjI pbh.ends_after_kill vsh.ends_after_kill lsh.ends_after_kill pxh.ends_after_kill
      kvh.ends_after_kill smh.ends_after_kill skh.ends_after_kill)

section \<open>The flag of the lock service, and the peer's loop\<close>

text \<open>
  A dying primary does to the next call what \<open>call_primary Dying\<close> does: it executes it, does not
  answer and is dead.
\<close>

lemma dying_threads:
  assumes "at_rest h" and "rh_place h = Top" and "rh_l h = Some True" and "\<not> ls_dead (fst (rh_state h))"
  shows "\<exists>h'. run_host ls_threads
        [Set_faulty True, Top_test, Accept (i, primary_op db op uuid name), Dispatch r1 r2, Deaf_done] h = Some h' \<and>
      rh_dead h' \<and> rh_l h' = Some False \<and>
      (let (s, r) = call_primary Dying db op uuid name (rh_state h) in
       rh_outcome h' = [(i, r)] \<and> s = ((fst (rh_state h'))\<lparr>ls_dead := rh_dead h'\<rparr>, snd (rh_state h')))"
  using assms by (simp add: ls_threads_def at_rest_def ls_conn_def call_primary_def split: prod.split)

text \<open>
  When \<open>Accept\<close> keeps failing the goroutine of a peer goes round for ever, while a server of the other
  packages kills itself.
\<close>

lemma peer_spins:
  assumes "rh_place h = Top" and "\<not> rh_dead h"
  shows "run_host px_threads (concat (replicate n [Top_test, Accept_fails, Report])) h = Some h"
proof -
  have "run_host px_threads [Top_test, Accept_fails, Report] h = Some h"
    using assms by (cases h) (simp add: px_threads_def)
  then show ?thesis by (induction n) (simp_all only: replicate.simps concat.simps run_host_append run_host.simps bind.bind_lunit)
qed

lemma server_kills_itself:
  assumes "rh_place h = Top" and "\<not> rh_dead h"
  shows "run_host kvp_threads [Top_test, Accept_fails, Report] h = Some (kvp_kill h)"
  using assms by (cases h) (simp add: kvp_threads_def kvp_kill_def)

text \<open>The peer counts what it serves: no more than it accepts, and all of it in a calm run.\<close>

lemma px_counts_step:
  assumes "px_threads a h = Some h'"
  shows "px_rpcCount h' + int (length (at_hand (rh_place h'))) \<le>
      px_rpcCount h + int (length (at_hand (rh_place h))) + int (length (accepted [a])) \<and>
    (pxh.peaceful h \<longrightarrow> px_rpcCount h' + int (length (at_hand (rh_place h'))) =
      px_rpcCount h + int (length (at_hand (rh_place h))) + int (length (accepted [a])))"
  using assms
  by (cases a) (auto simp: px_threads_def px_conn_def px_Kill_def hang_up_def serve_def pxh.peaceful_def
      split: if_splits place.splits prod.splits)

lemma px_counts:
  assumes "run_host px_threads as h = Some h'"
  shows "px_rpcCount h' + int (length (at_hand (rh_place h'))) \<le>
      px_rpcCount h + int (length (at_hand (rh_place h))) + int (length (accepted as)) \<and>
    (calm as \<longrightarrow> pxh.peaceful h \<longrightarrow> px_rpcCount h' + int (length (at_hand (rh_place h'))) =
      px_rpcCount h + int (length (at_hand (rh_place h))) + int (length (accepted as)))"
  using assms
proof (induction as arbitrary: h)
  case (Cons a as)
  then obtain h1 where s: "px_threads a h = Some h1" and r: "run_host px_threads as h1 = Some h'"
    by (auto split: bind_splits)
  have "pxh.peaceful h1" if "pxh.peaceful h" "calm [a]"
    using pxh.peaceful_step that s by (simp add: px_threads_def)
  with px_counts_step [OF s] Cons.IH [OF r] show ?case by (auto simp: calm_def)
qed simp

end
