(* ===== verification/Programs.thy ===== *)
theory Programs
  imports TribClient TribCache
begin

text \<open>
  The command-line programs of \<open>15-440/P2-F11\<close>: \<open>runtribclient\<close> over the stubs of the tribble
  client, and \<open>libclient\<close> over the libstore.

  \<^item> The arguments are those after the flags; the flags are arguments of the definitions.
  \<^item> A run is the list of the lines it prints and how it ends: \<open>log.Fatal\<close> with its text, the end of
    \<open>main\<close>, or \<open>None\<close> for a panic.
\<close>

datatype ending = Fatal string | Finished

section \<open>runtribclient\<close>

definition trib_cmdlist :: "(string \<times> string \<times> nat) list" where
  "trib_cmdlist =
     [(''uc'', ''Tribserver.CreateUser'', 1),
      (''sl'', ''Tribserver.GetSubscriptions'', 1),
      (''sa'', ''Tribserver.AddSubscription'', 2),
      (''sr'', ''Tribserver.RemoveSubscription'', 2),
      (''tl'', ''Tribserver.GetTribbles'', 1),
      (''tp'', ''Tribserver.AddTribble'', 2),
      (''ts'', ''Tribserver.GetTribblesBySubscription'', 1)]"

fun TribStatusToString :: "trib_status \<Rightarrow> string" where
  "TribStatusToString OK = ''OK''"
| "TribStatusToString ENOSUCHUSER = ''No such user''"
| "TribStatusToString ENOSUCHTARGETUSER = ''No such target user''"
| "TribStatusToString EEXISTS = ''User already exists''"

text \<open>The error is a parameter of \<open>PrintStatus\<close> that it does not look at.\<close>

definition PrintStatus :: "string \<Rightarrow> trib_status \<Rightarrow> string option \<Rightarrow> string" where
  "PrintStatus cmdname status err =
     (if status = OK then cmdname @ '' succeeded''
      else cmdname @ '' failed: '' @ TribStatusToString status)"

text \<open>
  \<open>%16.16s\<close> cuts after 16 characters and fills up with blanks on the left.  Go counts runes, the
  model the characters of its byte strings: they are the same for names in ASCII.
\<close>

definition sixteen :: "string \<Rightarrow> string" where
  "sixteen s = replicate (16 - length s) CHR '' '' @ take 16 s"

definition PrintTribble :: "(time \<Rightarrow> string) \<Rightarrow> Tribble \<Rightarrow> string" where
  "PrintTribble show_time t =
     sixteen (tr_Userid t) @ '' - '' @ show_time (tr_Posted t) @ '' - '' @ tr_Contents t"

definition PrintTribbles :: "(time \<Rightarrow> string) \<Rightarrow> Tribble list \<Rightarrow> string list" where
  "PrintTribbles show_time tribbles = map (PrintTribble show_time) tribbles"

fun join_with :: "string \<Rightarrow> string list \<Rightarrow> string" where
  "join_with sep [] = ''''"
| "join_with sep [s] = s"
| "join_with sep (s # ss) = s @ sep @ join_with sep ss"

definition runtribclient_main ::
  "bool \<Rightarrow> delivery \<Rightarrow> 's store_ops \<Rightarrow> (Tribble \<Rightarrow> string) \<Rightarrow> (string \<Rightarrow> Tribble) \<Rightarrow> (time \<Rightarrow> string) \<Rightarrow>
   time \<Rightarrow> string list \<Rightarrow> Tribserver \<times> 's \<Rightarrow> ((Tribserver \<times> 's) \<times> string list \<times> ending) go" where
  "runtribclient_main dials d ops enc dec show_time now args st =
     (if length args < 2 then Some (st, [], Fatal ''Insufficient arguments to client'')
      else
        (let cmd = args ! 0 in
         if \<not> dials then Some (st, [], Fatal ''Could not connect to server:'')
         else
           case map_of trib_cmdlist cmd of
             None \<Rightarrow> Some (st, [], Fatal (''Unknown command '' @ cmd))
           | Some (funcname, nargs) \<Rightarrow>
               if length args < nargs + 1 then Some (st, [], Fatal (''Insufficient arguments for '' @ cmd))
               else if cmd = ''uc'' then do {
                 (st, status, err) \<leftarrow> tc_CreateUser d ops enc dec (args ! 1) st;
                 Some (st, [PrintStatus funcname status err], Finished) }
               else if cmd = ''sl'' then do {
                 (st, subs, status, err) \<leftarrow> tc_GetSubscriptions d ops enc dec (args ! 1) st;
                 Some (st, PrintStatus funcname status err #
                   (if err = None \<and> status = OK then [join_with '' '' subs] else []), Finished) }
               else if cmd = ''sa'' then do {
                 (st, status, err) \<leftarrow> tc_AddSubscription d ops enc dec (args ! 1) (args ! 2) st;
                 Some (st, [PrintStatus funcname status err], Finished) }
               else if cmd = ''sr'' then do {
                 (st, status, err) \<leftarrow> tc_RemoveSubscription d ops enc dec (args ! 1) (args ! 2) st;
                 Some (st, [PrintStatus funcname status err], Finished) }
               else if cmd = ''tl'' then do {
                 (st, tribbles, status, err) \<leftarrow> tc_GetTribbles d ops enc dec (args ! 1) st;
                 Some (st, PrintStatus funcname status err #
                   (if err = None \<and> status = OK then PrintTribbles show_time tribbles else []), Finished) }
               else if cmd = ''ts'' then do {
                 (st, tribbles, status, err) \<leftarrow> tc_GetTribblesBySubscription d ops enc dec (args ! 1) st;
                 Some (st, PrintStatus funcname status err #
                   (if err = None \<and> status = OK then PrintTribbles show_time tribbles else []), Finished) }
               else if cmd = ''tp'' then do {
                 (st, status, err) \<leftarrow> tc_PostTribble d ops enc dec now (args ! 1) (args ! 2) st;
                 Some (st, [PrintStatus funcname status err], Finished) }
               else Some (st, [], Finished)))"

subsection \<open>What its runs show\<close>

text \<open>The request that the arguments stand for, with the name printed; or the text of the failure.\<close>

definition request_of :: "time \<Rightarrow> string list \<Rightarrow> string + (string \<times> trib_call)" where
  "request_of now args =
     (case args of
        [c, u] \<Rightarrow>
          if c = ''uc'' then Inr (''Tribserver.CreateUser'', CreateUser u)
          else if c = ''sl'' then Inr (''Tribserver.GetSubscriptions'', GetSubscriptions u)
          else if c = ''tl'' then Inr (''Tribserver.GetTribbles'', GetTribbles u)
          else if c = ''ts'' then Inr (''Tribserver.GetTribblesBySubscription'', GetTribblesBySubscription u)
          else if c \<in> {''sa'', ''sr'', ''tp''} then Inl (''Insufficient arguments for '' @ c)
          else Inl (''Unknown command '' @ c)
      | c # u # t # _ \<Rightarrow>
          if c = ''uc'' then Inr (''Tribserver.CreateUser'', CreateUser u)
          else if c = ''sl'' then Inr (''Tribserver.GetSubscriptions'', GetSubscriptions u)
          else if c = ''tl'' then Inr (''Tribserver.GetTribbles'', GetTribbles u)
          else if c = ''ts'' then Inr (''Tribserver.GetTribblesBySubscription'', GetTribblesBySubscription u)
          else if c = ''sa'' then Inr (''Tribserver.AddSubscription'', AddSubscription u t)
          else if c = ''sr'' then Inr (''Tribserver.RemoveSubscription'', RemoveSubscription u t)
          else if c = ''tp'' then Inr (''Tribserver.AddTribble'', PostTribble now u t)
          else Inl (''Unknown command '' @ c)
      | _ \<Rightarrow> Inl ''Insufficient arguments to client'')"

fun show_reply :: "(time \<Rightarrow> string) \<Rightarrow> string \<Rightarrow> trib_reply \<Rightarrow> string list" where
  "show_reply show_time name (StatusReply s) = [PrintStatus name s None]"
| "show_reply show_time name (UsersReply s us) =
     PrintStatus name s None # (if s = OK then [join_with '' '' us] else [])"
| "show_reply show_time name (TribblesReply s ts) =
     PrintStatus name s None # (if s = OK then PrintTribbles show_time ts else [])"
| "show_reply show_time name (RpcError e) = [name @ '' succeeded'']"

text \<open>
  A run as the social network sees it.  When the call fails, before or after it was executed, the
  program reports success.
\<close>

definition network_program ::
  "(time \<Rightarrow> string) \<Rightarrow> delivery \<times> time \<times> string list \<Rightarrow> network \<Rightarrow> network \<times> string list \<times> ending" where
  "network_program show_time run sn =
     (let (d, now, args) = run in
      case request_of now args of
        Inl e \<Rightarrow> (sn, [], Fatal e)
      | Inr (name, c) \<Rightarrow>
          if d = RequestLost then (sn, [name @ '' succeeded''], Finished)
          else (fst (network_step c sn),
                if d = ReplyLost then [name @ '' succeeded''] else show_reply show_time name (snd (network_step c sn)),
                Finished))"

fun network_programs ::
  "(time \<Rightarrow> string) \<Rightarrow> (delivery \<times> time \<times> string list) list \<Rightarrow> network \<Rightarrow> (string list \<times> ending) list" where
  "network_programs show_time [] sn = []"
| "network_programs show_time (run # runs) sn =
     (let (sn, out) = network_program show_time run sn in out # network_programs show_time runs sn)"

text \<open>The runs one after the other, each at its time; \<open>ops\<close> is the server's store at a time.\<close>

fun programs ::
  "(time \<Rightarrow> 's store_ops) \<Rightarrow> (Tribble \<Rightarrow> string) \<Rightarrow> (string \<Rightarrow> Tribble) \<Rightarrow> (time \<Rightarrow> string) \<Rightarrow>
   (delivery \<times> time \<times> string list) list \<Rightarrow> Tribserver \<times> 's \<Rightarrow> (string list \<times> ending) list go" where
  "programs ops enc dec show_time [] st = Some []"
| "programs ops enc dec show_time ((d, now, args) # runs) st = do {
     (st, out) \<leftarrow> runtribclient_main True d (ops now) enc dec show_time now args st;
     outs \<leftarrow> programs ops enc dec show_time runs st;
     Some (out # outs) }"

text \<open>The kind of reply that a request has.\<close>

fun replies_with :: "trib_call \<Rightarrow> trib_reply \<Rightarrow> bool" where
  "replies_with (GetSubscriptions u) r = (\<exists>s us. r = UsersReply s us)"
| "replies_with (GetTribbles u) r = (\<exists>s ts. r = TribblesReply s ts)"
| "replies_with (GetTribblesBySubscription u) r = (\<exists>s ts. r = TribblesReply s ts)"
| "replies_with c r = (\<exists>s. r = StatusReply s)"

lemma tribbles_reply_cases:
  "tribbles_reply x = (case x of Inl e \<Rightarrow> RpcError e | Inr (s, ts) \<Rightarrow> TribblesReply s ts)"
  by (auto split: sum.split)

lemma call_replies: "tc_Call d ops enc dec c st = Some (st', Inr r) \<Longrightarrow> replies_with c r"
  by (cases c)
    (auto simp: tc_Call_def trib_step_def tribbles_reply_cases
      split: if_splits bind_splits trib_reply.splits prod.splits sum.splits)

text \<open>What the program makes of a stub's results is what it shows of the call.\<close>

definition shown :: "(time \<Rightarrow> string) \<Rightarrow> string \<Rightarrow> trib_reply result \<Rightarrow> string list" where
  "shown show_time name r = (case r of Inl e \<Rightarrow> [name @ '' succeeded''] | Inr r \<Rightarrow> show_reply show_time name r)"

lemmas stub_defs = tc_CreateUser_def tc_GetSubscriptions_def tc_AddSubscription_def tc_RemoveSubscription_def
  tc_dosub_def tc_dotrib_def tc_GetTribbles_def tc_GetTribblesBySubscription_def tc_PostTribble_def

lemma via_call:
  assumes "\<And>st' r. (\<And>r'. r = Inr r' \<Longrightarrow> replies_with c r') \<Longrightarrow>
    k (f (st', r)) = Some (st', shown show_time name r, Finished)"
  shows "Option.bind (map_option f (tc_Call d ops enc dec c st)) k =
    map_option (\<lambda>(st, r). (st, shown show_time name r, Finished)) (tc_Call d ops enc dec c st)"
proof (cases "tc_Call d ops enc dec c st")
  case (Some x)
  then obtain st' r where r: "tc_Call d ops enc dec c st = Some (st', r)" by (cases x) auto
  with call_replies [of d ops enc dec c st st'] have "k (f (st', r)) = Some (st', shown show_time name r, Finished)"
    by (intro assms) auto
  with r show ?thesis by simp
qed simp

lemma stubs_show:
  fixes show_time :: "time \<Rightarrow> string"
  defines "display \<equiv> (\<lambda>name m. map_option (\<lambda>(st, r). (st, shown show_time name r, Finished)) m)"
  shows
    "Option.bind (tc_CreateUser d ops enc dec u st) (\<lambda>(st, status, err).
       Some (st, [PrintStatus name status err], Finished)) = display name (tc_Call d ops enc dec (CreateUser u) st)"
    "Option.bind (tc_GetSubscriptions d ops enc dec u st) (\<lambda>(st, us, status, err).
       Some (st, PrintStatus name status err # (if err = None \<and> status = OK then [join_with '' '' us] else []), Finished)) =
     display name (tc_Call d ops enc dec (GetSubscriptions u) st)"
    "Option.bind (tc_AddSubscription d ops enc dec u t st) (\<lambda>(st, status, err).
       Some (st, [PrintStatus name status err], Finished)) = display name (tc_Call d ops enc dec (AddSubscription u t) st)"
    "Option.bind (tc_RemoveSubscription d ops enc dec u t st) (\<lambda>(st, status, err).
       Some (st, [PrintStatus name status err], Finished)) = display name (tc_Call d ops enc dec (RemoveSubscription u t) st)"
    "Option.bind (tc_GetTribbles d ops enc dec u st) (\<lambda>(st, ts, status, err).
       Some (st, PrintStatus name status err # (if err = None \<and> status = OK then PrintTribbles show_time ts else []), Finished)) =
     display name (tc_Call d ops enc dec (GetTribbles u) st)"
    "Option.bind (tc_GetTribblesBySubscription d ops enc dec u st) (\<lambda>(st, ts, status, err).
       Some (st, PrintStatus name status err # (if err = None \<and> status = OK then PrintTribbles show_time ts else []), Finished)) =
     display name (tc_Call d ops enc dec (GetTribblesBySubscription u) st)"
    "Option.bind (tc_PostTribble d ops enc dec now u m st) (\<lambda>(st, status, err).
       Some (st, [PrintStatus name status err], Finished)) = display name (tc_Call d ops enc dec (PostTribble now u m) st)"
  unfolding stub_defs display_def
  by (rule via_call, fastforce simp: shown_def PrintStatus_def split: sum.splits)+

lemma request_main:
  "runtribclient_main True d ops enc dec show_time now args st =
     (case request_of now args of
        Inl e \<Rightarrow> Some (st, [], Fatal e)
      | Inr (name, c) \<Rightarrow> map_option (\<lambda>(st, r). (st, shown show_time name r, Finished)) (tc_Call d ops enc dec c st))"
proof -
  consider "args = []" | c where "args = [c]" | c u where "args = [c, u]" | c u t ts where "args = c # u # t # ts"
    by (metis neq_Nil_conv)
  then show ?thesis
    by cases (simp_all add: runtribclient_main_def request_of_def trib_cmdlist_def stubs_show)
qed

context kv_store
begin

lemma call_refines:
  assumes "codec_ok enc dec" "host_ok h" "ok s" "holds h enc (docs s) sn" "network_ok sn" "fits [c] sn"
    and "\<forall>k \<in> set (changed c). free k s"
  shows "\<exists>s' r. tc_Call d ops enc dec c (server_of h sn, s) =
      Some ((server_of h (if d = RequestLost then sn else fst (network_step c sn)), s'), r) \<and>
    shown show_time name r = (if d = Delivered then show_reply show_time name (snd (network_step c sn))
                              else [name @ '' succeeded'']) \<and>
    ok s' \<and> holds h enc (docs s') (if d = RequestLost then sn else fst (network_step c sn))"
proof -
  have "snd (network_step c sn) \<noteq> RpcError e" for e by (cases c) (auto split: option.splits)
  with step_refines [OF assms] assms(3,4) show ?thesis
    by (cases d) (auto simp: tc_Call_def shown_def split: trib_reply.splits)
qed

lemma program_refines:
  assumes "codec_ok enc dec" "host_ok h" "ok s" "holds h enc (docs s) sn" "network_ok sn" "fits [CreateUser u] sn"
    and "network_program show_time (d, now, args) sn = (sn', out)"
    and "\<And>name c k. request_of now args = Inr (name, c) \<Longrightarrow> k \<in> set (changed c) \<Longrightarrow> free k s"
  shows "\<exists>s'. runtribclient_main True d ops enc dec show_time now args (server_of h sn, s) =
      Some ((server_of h sn', s'), out) \<and> ok s' \<and> holds h enc (docs s') sn' \<and> network_ok sn' \<and>
      sn_count sn \<le> sn_count sn' \<and> sn_count sn' \<le> sn_count sn + 1"
proof (cases "request_of now args")
  case (Inl e)
  with assms show ?thesis by (auto simp: request_main network_program_def)
next
  case (Inr x)
  then obtain name c where x: "request_of now args = Inr (name, c)" by (cases x) auto
  have fit: "fits [c] sn" using assms(6) by (simp add: fits_def)
  have "\<forall>k \<in> set (changed c). free k s" using assms(8) [OF x] by blast
  from call_refines [OF assms(1-5) fit this, of d show_time name] x assms(5,7)
    network_ok_step [OF assms(5), of c] network_step_count [of sn c]
  show ?thesis by (cases d) (auto simp: request_main network_program_def)
qed

end

text \<open>
  A run does not disturb a lease: the lists that it may change are not those on which the server's
  libstore holds one.  For a sequence of runs this is said of each at its moment.
\<close>

definition lease_free :: "string \<Rightarrow> time \<Rightarrow> string list \<Rightarrow> lib_system \<Rightarrow> bool" where
  "lease_free h now args sys =
     (case request_of now args of
        Inl e \<Rightarrow> True
      | Inr (name, c) \<Rightarrow> list_all (\<lambda>k. fresh now (cache_of sys h) k = None) (changed c))"

fun undisturbed ::
  "(time \<Rightarrow> lib_system store_ops) \<Rightarrow> (Tribble \<Rightarrow> string) \<Rightarrow> (string \<Rightarrow> Tribble) \<Rightarrow> (time \<Rightarrow> string) \<Rightarrow>
   (delivery \<times> time \<times> string list) list \<Rightarrow> Tribserver \<times> lib_system \<Rightarrow> bool" where
  "undisturbed ops enc dec show_time [] st = True"
| "undisturbed ops enc dec show_time ((d, now, args) # runs) st =
     (lease_free (ts_hostport (fst st)) now args (snd st) \<and>
      (case runtribclient_main True d (ops now) enc dec show_time now args st of
         None \<Rightarrow> True
       | Some (st', out) \<Rightarrow> undisturbed ops enc dec show_time runs st'))"

lemma programs_refine:
  fixes enc dec h R show_time
  defines "ops \<equiv> \<lambda>now. libstore_ops (callbacks R) (at_once now) h"
  assumes "codec_ok enc dec" "host_ok h" "up_to_date T h s" "holds h enc (doc_at s) sn" "network_ok sn"
    and "0 \<le> sn_count sn" "sn_count sn + int (length runs) < 2 ^ 31" "sorted (T # map (fst \<circ> snd) runs)"
    and "undisturbed ops enc dec show_time runs (server_of h sn, s)"
  shows "programs ops enc dec show_time runs (server_of h sn, s) = Some (network_programs show_time runs sn)"
  using assms(4-)
proof (induction runs arbitrary: T s sn)
  case (Cons run runs)
  obtain d now args where run: "run = (d, now, args)" by (cases run) auto
  obtain sn' out where n: "network_program show_time (d, now, args) sn = (sn', out)"
    by (cases "network_program show_time (d, now, args) sn") auto
  have fit: "fits [CreateUser ''''] sn" using Cons.prems by (simp add: fits_def)
  have now: "up_to_date now h s" using up_to_date_later [OF Cons.prems(1)] Cons.prems(6) run by simp
  have free: "fresh now (cache_of s h) k = None" if "request_of now args = Inr (name, c)" "k \<in> set (changed c)" for name c k
    using Cons.prems(7) run that by (auto simp: lease_free_def list_all_iff server_of_def)
  note refines = libstore.program_refines [where R = R, OF assms(2,3) now Cons.prems(2,3) fit n]
  have "\<exists>s'. runtribclient_main True d (libstore_ops (callbacks R) (at_once now) h) enc dec show_time now args (server_of h sn, s) =
      Some ((server_of h sn', s'), out) \<and> up_to_date now h s' \<and> holds h enc (doc_at s') sn' \<and> network_ok sn' \<and>
      sn_count sn \<le> sn_count sn' \<and> sn_count sn' \<le> sn_count sn + 1"
    by (rule refines) (rule free)
  then obtain s' where
    s': "runtribclient_main True d (ops now) enc dec show_time now args (server_of h sn, s) = Some ((server_of h sn', s'), out)"
      "up_to_date now h s'" "holds h enc (doc_at s') sn'" "network_ok sn'" "sn_count sn \<le> sn_count sn'" "sn_count sn' \<le> sn_count sn + 1"
    unfolding ops_def by blast
  with Cons.IH [OF s'(2-4)] Cons.prems(4-7) n run show ?case by simp
qed simp

text \<open>
  C34: The command-line client of the tribble server, down to the storage servers: any sequence of its runs
  on a new server with its caching libstore, over any number of new storage servers, with whatever arguments
  and deliveries of the client's calls, prints what the social network says, provided that the runs come one after
  the other, the server's calls of the storage servers get through, and no run changes a list while the server's libstore
  holds a lease on it (what happens otherwise is \<open>own_write_not_read\<close>).  A run whose
  call fails, whether it was executed or not, prints that it succeeded.
\<close>

theorem trib_program_shows:
  assumes "codec_ok enc dec" and "host_ok h" and "length runs < 2 ^ 31" and "NewTribserver True h = Some ts"
    and "empty_system sys" and "sorted (map (fst \<circ> snd) runs)"
    and "undisturbed (\<lambda>now. libstore_ops (callbacks R) (at_once now) h) enc dec show_time runs (ts, sys)"
  shows "programs (\<lambda>now. libstore_ops (callbacks R) (at_once now) h) enc dec show_time runs (ts, sys) =
    Some (network_programs show_time runs empty_network)"
proof -
  let ?T = "case runs of [] \<Rightarrow> 0 | run # runs \<Rightarrow> fst (snd run)"
  have ts: "ts = server_of h empty_network" using assms(4) by (simp add: fresh_server)
  have T: "sorted (?T # map (fst \<circ> snd) runs)" using assms(6) by (cases runs) auto
  have "holds h enc (doc_at sys) empty_network" by (simp add: empty_system_start [OF assms(5)] holds_empty)
  from programs_refine [OF assms(1,2) empty_system_start(1) [OF assms(5)] this empty_network_ok(1) _ _ T assms(7) [unfolded ts]]
    assms(3) show ?thesis by (simp add: ts)
qed

text \<open>Ann's list is asked for four times, which brings a lease on it, and changed twenty seconds later.\<close>

definition ann_types :: "(delivery \<times> time \<times> string list) list" where
  "ann_types =
     [(Delivered, 0, [''uc'', ''ann'']), (Delivered, 0, [''sa'', ''ann'', ''ann'']),
      (Delivered, seconds 1, [''sl'', ''ann'']), (Delivered, seconds 1, [''sl'', ''ann'']),
      (Delivered, seconds 1, [''sl'', ''ann'']), (Delivered, seconds 1, [''sl'', ''ann'']),
      (Delivered, seconds 20, [''sr'', ''ann'', ''ann'']), (RequestLost, seconds 22, [''tp'', ''ann'', ''ho''])]"

theorem trib_program_shows_witness:
  "programs (\<lambda>now. libstore_ops (callbacks {}) (at_once now) ''localhost:9010'') enc_letters dec_letters (\<lambda>t. ''now'')
     ann_types (\<lparr>ts_hostport = ''localhost:9010'', ts_id = 0\<rparr>, fresh_system) =
   Some [([''Tribserver.CreateUser succeeded''], Finished), ([''Tribserver.AddSubscription succeeded''], Finished),
         ([''Tribserver.GetSubscriptions succeeded'', ''ann''], Finished),
         ([''Tribserver.GetSubscriptions succeeded'', ''ann''], Finished),
         ([''Tribserver.GetSubscriptions succeeded'', ''ann''], Finished),
         ([''Tribserver.GetSubscriptions succeeded'', ''ann''], Finished),
         ([''Tribserver.RemoveSubscription succeeded''], Finished), ([''Tribserver.AddTribble succeeded''], Finished)]"
proof -
  let ?ops = "\<lambda>now. libstore_ops (callbacks {}) (at_once now) ''localhost:9010''"
    and ?ts = "\<lparr>ts_hostport = ''localhost:9010'', ts_id = 0\<rparr>"
  have ts: "NewTribserver True ''localhost:9010'' = Some ?ts" by (simp add: NewTribserver_def)
  have calm: "undisturbed ?ops enc_letters dec_letters (\<lambda>t. ''now'') ann_types (?ts, fresh_system)"
    by (simp add: ann_types_def request_main request_of_def lease_free_def tc_Call_def trib_step_def ts_CreateUser_def
        ts_AddSubscription_def ts_RemoveSubscription_def ts_GetSubscriptions_def libstore_ops_def iGetList_def
        iAppendToList_def iRemoveFromList_def ss_GetList_def ss_AppendToList_def ss_RemoveFromList_def lib_eval
        fresh_system_def fresh_store_def callbacks_def fresh_def foll_key_def trib_key_def user_key_def
        evict_upd evict_empty del: evict_def)
  have "sorted (map (fst \<circ> snd) ann_types)" by (simp add: ann_types_def)
  from trib_program_shows [OF codec_letters _ _ ts fresh_system_empty this calm] show ?thesis
    by (simp add: host_ok_def ann_types_def network_program_def request_of_def empty_network_def listed_def newest_def PrintStatus_def
        del: programs.simps)
qed

section \<open>libclient\<close>

definition lib_cmdlist :: "(string \<times> nat) list" where
  "lib_cmdlist = [(''p'', 2), (''g'', 1), (''la'', 2), (''lr'', 2), (''lg'', 1)]"

text \<open>One round of the loop; the text of an error is the one that the libstore's model gives it.\<close>

definition libclient_once ::
  "(string \<Rightarrow> revoke_answer) \<Rightarrow> bool \<Rightarrow> string \<Rightarrow> string list \<Rightarrow> call_env \<Rightarrow> lib_system \<Rightarrow>
   (lib_system \<times> string list) go" where
  "libclient_once answers always c args env sys =
     (let cmd = args ! 0 in
      if cmd = ''g'' then do {
        (sys, r) \<leftarrow> iGet always env c (args ! 1) sys;
        Some (sys, [case r of Inl e \<Rightarrow> ''error:  '' @ e | Inr v \<Rightarrow> ''   '' @ v]) }
      else if cmd = ''lg'' then do {
        (sys, r) \<leftarrow> iGetList always env c (args ! 1) sys;
        Some (sys, [case r of Inl e \<Rightarrow> ''error:  '' @ e | Inr vs \<Rightarrow> concat (map (\<lambda>i. i @ ''  '') vs)]) }
      else if cmd \<in> {''p'', ''la'', ''lr''} then do {
        (sys, t, r) \<leftarrow>
          (if cmd = ''p'' then iPut answers env (args ! 1) (args ! 2) sys
           else if cmd = ''la'' then iAppendToList answers env (args ! 1) (args ! 2) sys
           else iRemoveFromList answers env (args ! 1) (args ! 2) sys);
        Some (sys, [case r of Inl e \<Rightarrow> ''Error:  '' @ e | Inr u \<Rightarrow> ''OK'']) }
      else Some (sys, []))"

fun libclient_loop ::
  "(call_env \<Rightarrow> lib_system \<Rightarrow> (lib_system \<times> string list) go) \<Rightarrow> call_env list \<Rightarrow> lib_system \<Rightarrow>
   (lib_system \<times> string list) go" where
  "libclient_loop once [] sys = Some (sys, [])"
| "libclient_loop once (env # envs) sys = do {
     (sys, out) \<leftarrow> once env sys;
     (sys, outs) \<leftarrow> libclient_loop once envs sys;
     Some (sys, out @ outs) }"

text \<open>
  \<open>l\<close>, \<open>fl\<close> and \<open>n\<close> are flags; \<open>port\<close> is what listening gives, \<open>None\<close> when it fails; \<open>envs i\<close> has the
  moment and the delivery of the call of round \<open>i\<close>.  The new libstore has the nodes that the master
  tells and an empty cache at its address.
\<close>

definition libclient_main ::
  "bool \<Rightarrow> bool \<Rightarrow> int \<Rightarrow> string option \<Rightarrow> bool \<Rightarrow> (bool \<times> Node list) option list \<Rightarrow> (string \<Rightarrow> revoke_answer) \<Rightarrow>
   (nat \<Rightarrow> call_env) \<Rightarrow> string list \<Rightarrow> lib_system \<Rightarrow> (lib_system \<times> string list \<times> ending) go" where
  "libclient_main l fl n port dialled replies answers envs args sys =
     (if length args < 2 then Some (sys, [], Fatal ''Insufficient arguments to client'')
      else
        (let cmd = args ! 0 in
         case map_of lib_cmdlist cmd of
           None \<Rightarrow> Some (sys, [], Fatal (''Unknown command '' @ cmd))
         | Some nargs \<Rightarrow>
             if length args < nargs + 1 then Some (sys, [], Fatal (''Insufficient arguments for '' @ cmd))
             else if l \<and> port = None then Some (sys, [], Fatal ''listen error:'')
             else
               (let c = (case port of Some p \<Rightarrow> if l then ''localhost:'' @ p else '''' | None \<Rightarrow> '''') in do {
                  made \<leftarrow> iNewLibstore dialled replies c;
                  case made of
                    Inl e \<Rightarrow> Some (sys, [], Fatal ''Could not create a libstore'')
                  | Inr nodes \<Rightarrow> do {
                      (sys, out) \<leftarrow> libclient_loop (libclient_once answers (l \<and> fl) c args) (map envs [0..<nat n])
                        (put_cache c NewCache (sys\<lparr>sys_nodes := nodes\<rparr>));
                      Some (sys, out @ (if l then [''waiting 20 seconds for lease callbacks''] else []), Finished) } })))"

text \<open>Without the flag \<open>-l\<close>, which is off by default, no command that is called properly gets anywhere.\<close>

lemma libclient_panics:
  assumes "map_of lib_cmdlist cmd = Some nargs" and "nargs \<le> length args"
  shows "libclient_main False fl n port dialled replies answers envs (cmd # args) sys = None"
proof -
  have "0 < nargs" using assms(1) by (auto simp: lib_cmdlist_def split: if_splits)
  with assms show ?thesis by (auto simp: libclient_main_def iNewLibstore_def split: option.splits)
qed

text \<open>With it a round prints one line at most.\<close>

lemma once_prints: "libclient_once answers always c args env sys = Some (sys', out) \<Longrightarrow> length out \<le> 1"
  by (auto simp: libclient_once_def split: if_splits bind_splits prod.splits)

lemma loop_prints:
  "libclient_loop (libclient_once answers always c args) envs sys = Some (sys', out) \<Longrightarrow> length out \<le> length envs"
proof (induction envs arbitrary: sys out)
  case (Cons env envs)
  then obtain sys1 out1 outs where "libclient_once answers always c args env sys = Some (sys1, out1)"
    "libclient_loop (libclient_once answers always c args) envs sys1 = Some (sys', outs)" "out = out1 @ outs"
    by (auto split: bind_splits)
  with once_prints [of answers always c args env sys] Cons.IH [of sys1 outs] show ?case by fastforce
qed simp

end
