(* ===== verification/Spec2Isabelle.thy ===== *)
theory Spec2Isabelle
  imports BufServers Abuf LspServer LspClient LspLink PbService LockService GotoStore Libstore ProxyCounter TribClient Feed Clerks RpcLib GotoVersions Sharemem LspNet StorageJoin TribLib StorageVerdict TribVerdict RpcServers Programs
begin

text \<open>
  A verification library for the Go programs of this repository: two buffer libraries and their
  servers, a reliable transport over UDP (LSP), a key/value store with leases, its client library and
  the microblogging server on top of it, a primary/backup store with its view service, a lock
  service, clerks of sharded stores, a URL shortener with its earlier stages, a feed reader and a
  URL poller.

  \<^bold>\<open>How programs are modelled.\<close>  A struct is a record, a constant or tag a datatype, an integer whose
  width matters a \<open>word\<close>, a pointer an address in an explicit store (\<open>Bufi\<close>) or the key of a map.
  \<open>'a go\<close> is a computation that may panic (\<open>None\<close>); \<open>'a result\<close> is Go's pair of error and value;
  \<open>outcome\<close> adds blocking; a loop that may run for ever is a \<open>partial_function\<close> with value \<open>None\<close>
  where it does.  A handler that holds a lock from start to end is one function of the state; where
  goroutines interleave there is an \<open>inductive\<close> step relation.  \<open>delivery\<close> says whether a remote call
  is executed and whether its reply arrives; time and random numbers are arguments.

  \<^bold>\<open>The theories.\<close>
  \<^item> \<open>Prelude\<close>: panics, results, remote calls, time.
  \<^item> \<open>Bufi\<close>: the linked-list buffers \<open>15-440/P1-F11/bufi\<close> and \<open>15-440/class05/chanbuf/bufi\<close>, cell by
    cell; the locale of a FIFO queue, interpreted on both, gives that any sequence of operations
    observes what a list would.  \<open>Abuf\<close>: the director and the callers of \<open>chanbuf/abuf\<close>, with mutual
    exclusion and linearizability.  \<open>BufServers\<close>: the loops of \<open>class05/srvbuf/sserver\<close> and
    \<open>class07/dserver\<close>, which simulate one abstract server; every request is answered or put off once.
    \<open>RpcLib\<close>: the remote buffer \<open>class07/rpclib\<close> over the latter.
  \<^item> \<open>LspNet\<close>: packet dropping of \<open>lspnet\<close> and the reading goroutines.  \<open>LspConn\<close>, \<open>LspServer\<close>,
    \<open>LspClient\<close>: \<open>lsp_conn.go\<close>, \<open>lsp_server.go\<close> and \<open>lsp_client.go\<close> of \<open>15-440/P1-F11/lsp\<close>.
    \<open>LspLink\<close>: a client and a server connection over a network that loses, repeats and reorders;
    data arrive in order and once.
  \<^item> \<open>Storage\<close>: \<open>storageimpl.go\<close> of \<open>15-440/P2-F11\<close> with leases and revocation, a handler being one
    step; \<open>StorageThreads\<close>: its handlers as goroutines, when they serialize and what goes wrong when
    requests for one key overlap; \<open>StorageJoin\<close>: how a cluster comes up.  \<open>Cache\<close>: \<open>cache.go\<close>.
    \<open>Libstore\<close>: \<open>libstoreimpl.go\<close>, many clients over many servers, the conditions under which no read
    is stale, and how long a lease keeps a value that has changed.  \<open>ProxyCounter\<close>: the counting proxy.
    \<open>Strconv\<close>, \<open>Trib\<close>, \<open>TribStore\<close>, \<open>TribClient\<close>: \<open>tribimpl.go\<close> over an abstract store (a record of
    operations), the locale of what it needs of the store, its interpretation on the storage server
    without leases, the refinement of an abstract social network, and the stubs of \<open>tribclient.go\<close>.
    \<open>TribCache\<close>: the tribble server over its libstore, the caches and the storage servers, with the
    second interpretation of the locale, in which a list may be written while the cache has no lease
    on it; \<open>TribLib\<close>: what the server shows when it writes one all the same.  \<open>Programs\<close>: the
    command-line clients of the tribble server, down to the storage servers, and of the libstore.
  \<^item> \<open>TestSuite\<close>: test programs, and the locale that adds up the verdicts of tests with different keys.
    \<open>StorageTester\<close>, \<open>StorageTest\<close>, \<open>StorageVerdict\<close>: \<open>storagetest.go\<close> over the goroutines of
    \<open>StorageThreads\<close> in a world with a clock, and what its tests say.  \<open>TestStack\<close>: libstore, proxy and
    storage server in one process; over it \<open>LibTest\<close> and \<open>LibVerdict\<close> (\<open>libtest.go\<close>), and \<open>TribTest\<close>
    and \<open>TribVerdict\<close> (\<open>tribtest.go\<close>; \<open>TribMany\<close> relates the whole stack to the abstract social network
    and counts the calls and bytes of reading it, for the tests with a hundred posts or more).
  \<^item> \<open>ViewService\<close>, \<open>PbService\<close>: \<open>6.824-labs/viewservice\<close> and \<open>pbservice\<close>, with the state transfer
    and the forwarding between primary and backup.  \<open>LockService\<close>: \<open>6.824-labs/lockservice\<close>, calls
    executed exactly once although the primary may die.  \<open>Clerks\<close>: the clerks of \<open>kvpaxos\<close>,
    \<open>shardmaster\<close> and \<open>shardkv\<close>.  \<open>RpcHost\<close>, \<open>RpcServers\<close>: the threads that \<open>StartServer\<close> starts in
    each package, \<open>kill\<close> and the flags of the tests; the locale \<open>rpc_host\<close> shows that a connection is
    a call with one of the three deliveries that the other models take as arguments.
  \<^item> \<open>GotoKey\<close>, \<open>GotoStore\<close>: \<open>goto/key.go\<close>, \<open>store.go\<close> and \<open>main.go\<close>, concurrent \<open>Put\<close>s with the saving
    goroutine, reloading, the proxy.  \<open>GotoVersions\<close>: the stages \<open>goto/code/0\<close> to \<open>3\<close>, where \<open>Put\<close>s overlap too.
  \<^item> \<open>Feed\<close>: \<open>Google-IO/2013/feed-reader/rss.go\<close>, subscriptions and their merge.  \<open>Sharemem\<close>:
    \<open>codewalk/sharemem\<close>, who owns a resource.

  \<^bold>\<open>What is shown.\<close>  Abstract specifications that the code implements: queues (buffers, servers,
  remote buffer), one lock table, one key/value map for primary and backup, a social network,
  a server behind its proxy.  Invariants of the concurrent parts: order of LSP data, freshness of
  cached reads, views that stay until acknowledged, distinct keys of concurrent \<open>Put\<close>s, each feed item
  once, single owners.  Error behaviour: exactly when a server panics or a goroutine blocks for ever.
  The verdicts of the test programs: which of their tests pass, whichever are selected.
  A view server that fills its places as specified and replaces a silent primary.
  Round trips of keys and data files.  Several theorems say under which conditions the code fails its
  purpose, a few by a run of the model.

  \<^bold>\<open>Bounds.\<close>  LSP numbers messages with a byte, so a side writes at most 255 in the theorem about
  order; the URL shortener counts with 64 bits, so stores have fewer than \<open>2 ^ 63\<close> entries; the
  microblogging server numbers posts with 32 signed bits, so it gets fewer than \<open>2 ^ 31\<close> requests; the
  proxy's counters have 32 bits, and exactness is modulo \<open>2 ^ 32\<close>.  Two turns of a buffer server's loop
  for each request are enough, since a request is read once and answered once.  In the storage
  tester's world a handler makes at most 40 steps without waiting (it has 14 places and, for each
  holder of a lease, three), and at most 20 moments lie in one sleep; both are more than its tests use.

  \<^bold>\<open>Hypotheses on code outside.\<close>  \<open>encoding/json\<close> decodes what it encoded (an inverse on messages);
  FNV-1 is defined as in the Go library.  Freshness assumes that the clients have registered their
  callbacks, which no program does, and that a granted lease reaches the client within the guard time
  of the issue time that the server recorded, which a renewal can break.

  \<^bold>\<open>Not modelled.\<close>  Listening and dialling, flags, logging, statistics and the main
  programs; what the tests print, and the time that their calls take; registration races between two
  slaves; the unfinished parts of \<open>paxos\<close>, \<open>kvpaxos\<close>, \<open>shardmaster\<close> and \<open>shardkv\<close>, whose handlers are
  empty in the source; integer overflow of the poller's error count.
\<close>

end
